(* ===== verification/Kernel_Prelude.thy ===== *)
theory Kernel_Prelude
  imports Main "HOL-Library.Word"
begin

unbundle bit_operations_syntax

section \<open>Shared vocabulary of the tinylittleos development\<close>

text \<open>
  The machine types of \<^verbatim>\<open>kernel/util.hpp\<close> (\<open>size_t\<close>, \<open>reg_t\<close>, \<open>uint\<close> are all 32 bits
  wide), the outcomes of a kernel operation, and the generic facts on lists and words that the
  components share. An operation that can stop the kernel returns a value of type \<open>'a res\<close>:
  \<open>Inr\<close> a result, or \<open>Inl\<close> the reason why the code does not go on.
\<close>

type_synonym u8 = "8 word"
type_synonym u16 = "16 word"
type_synonym u32 = "32 word"
type_synonym u64 = "64 word"

subsection \<open>Outcomes\<close>

text \<open>
  \<open>KAssert\<close> and \<open>KPanic\<close> are the two ways the code itself stops (\<^verbatim>\<open>kassert\<close>, \<^verbatim>\<open>kpanic\<close>: both
  end in \<^verbatim>\<open>__kpanic_internal_after\<close>, which never returns). The others mark a run that the C++
  language leaves undefined: an array index out of range, a dereferenced null pointer, and the
  remaining undefined operations (\<^verbatim>\<open>__builtin_ctz(0)\<close>, signed overflow). \<open>OutOfFuel\<close> is a loop that
  was given too few iterations, or, for a loop that is a partial function, one that never ends; the lemmas on
  an operation show when it cannot be the result. \<open>Blocked\<close> is a task that waits while another one runs.
\<close>

datatype kfault = KAssert | KPanic | OutOfBounds | NullDeref | Undefined | OutOfFuel | Blocked

type_synonym 'a res = "kfault + 'a"

definition kbind :: "'a res \<Rightarrow> ('a \<Rightarrow> 'b res) \<Rightarrow> 'b res" where
  "kbind r f = (case r of Inl e \<Rightarrow> Inl e | Inr x \<Rightarrow> f x)"

definition kassert :: "bool \<Rightarrow> unit res" where
  "kassert b = (if b then Inr () else Inl KAssert)"

named_theorems res_simps \<open>evaluation of the result combinators\<close>

lemma kbind_Inl [simp, res_simps]: "kbind (Inl e) f = Inl e"
  by (simp add: kbind_def)

lemma kbind_Inr [simp, res_simps]: "kbind (Inr x) f = f x"
  by (simp add: kbind_def)

lemma kbind_assoc: "kbind (kbind r f) g = kbind r (\<lambda>x. kbind (f x) g)"
  by (cases r) simp_all

lemma kbind_eq_Inr: "kbind r f = Inr y \<longleftrightarrow> (\<exists>x. r = Inr x \<and> f x = Inr y)"
  by (cases r) auto

lemma kbind_cong [fundef_cong]:
  "r = r' \<Longrightarrow> (\<And>x. r' = Inr x \<Longrightarrow> f x = g x) \<Longrightarrow> kbind r f = kbind r' g"
  by (cases r') auto

lemma kassert_True [simp, res_simps]: "kassert True = Inr ()"
  by (simp add: kassert_def)

lemma kassert_False [simp, res_simps]: "kassert False = Inl KAssert"
  by (simp add: kassert_def)

lemma kassert_eq_Inr [simp]: "kassert b = Inr u \<longleftrightarrow> b"
  by (simp add: kassert_def)

text \<open>A loop over a list whose body can stop the kernel, and its rule: an invariant of the prefixes.\<close>

fun kfold :: "('a \<Rightarrow> 's \<Rightarrow> 's res) \<Rightarrow> 'a list \<Rightarrow> 's \<Rightarrow> 's res" where
  "kfold f [] s = Inr s"
| "kfold f (x # xs) s = kbind (f x s) (kfold f xs)"

lemma kfold_append: "kfold f (xs @ ys) s = kbind (kfold f xs s) (kfold f ys)"
proof (induction xs arbitrary: s)
  case (Cons x xs)
  then show ?case by (cases "f x s") simp_all
qed simp

lemma kfold_invariant:
  assumes "I [] s" and "\<And>us x s. I us s \<Longrightarrow> \<exists>vs. us @ x # vs = xs \<Longrightarrow> \<exists>s'. f x s = Inr s' \<and> I (us @ [x]) s'"
  shows "\<exists>s'. kfold f xs s = Inr s' \<and> I xs s'"
proof -
  have "\<exists>s'. kfold f us s = Inr s' \<and> I us s'" if "\<exists>vs. us @ vs = xs" for us
    using that
  proof (induction us rule: rev_induct)
    case Nil
    then show ?case using assms(1) by simp
  next
    case (snoc x us)
    then obtain s1 where "kfold f us s = Inr s1" "I us s1"
      by auto
    with assms(2) [of us s1 x] snoc.prems show ?case
      by (auto simp: kfold_append)
  qed
  then show ?thesis by auto
qed

subsection \<open>Arrays\<close>

text \<open>A C array of known length is a list; a read or a write outside it is \<open>OutOfBounds\<close>.\<close>

definition array_read :: "'a list \<Rightarrow> nat \<Rightarrow> 'a res" where
  "array_read xs i = (if i < length xs then Inr (xs ! i) else Inl OutOfBounds)"

definition array_write :: "'a list \<Rightarrow> nat \<Rightarrow> 'a \<Rightarrow> 'a list res" where
  "array_write xs i v = (if i < length xs then Inr (xs[i := v]) else Inl OutOfBounds)"

lemma array_read_in [simp]: "i < length xs \<Longrightarrow> array_read xs i = Inr (xs ! i)"
  by (simp add: array_read_def)

lemma array_write_in [simp]: "i < length xs \<Longrightarrow> array_write xs i v = Inr (xs[i := v])"
  by (simp add: array_write_def)

lemma array_read_out: "length xs \<le> i \<Longrightarrow> array_read xs i = Inl OutOfBounds"
  by (simp add: array_read_def)

lemma array_write_out: "length xs \<le> i \<Longrightarrow> array_write xs i v = Inl OutOfBounds"
  by (simp add: array_write_def)

subsection \<open>Words\<close>

named_theorems unat_simps \<open>shifts and masks of 32-bit values as arithmetic on nat\<close>

lemma unat_drop_bit [unat_simps]: "unat (drop_bit n w) = unat w div 2 ^ n" for w :: "'a::len word"
  by (metis drop_bit_eq_div unat_drop_bit_eq)

lemma unat_and_31 [unat_simps]: "unat (w AND 0x1F) = unat w mod 32" for w :: u32
proof -
  have "w AND 0x1F = take_bit 5 w"
    by (simp add: take_bit_eq_mask mask_eq_exp_minus_1)
  then have "unat (w AND 0x1F) = take_bit 5 (unat w)"
    by (simp add: unsigned_take_bit_eq)
  then show ?thesis by (simp add: take_bit_eq_mod)
qed

lemma unat_less_32 [simp]: "unat (w :: u32) < 4294967296"
  using unsigned_less [of w] by simp

lemma unat_of_nat_32: "n < 4294967296 \<Longrightarrow> unat (of_nat n :: u32) = n"
  by (simp add: unat_of_nat take_bit_eq_mod)

lemma bit_shl_one: "bit (push_bit n 1 :: 'a::len word) m \<longleftrightarrow> m = n \<and> n < LENGTH('a)"
  by (auto simp: bit_simps)

text \<open>
  \<^verbatim>\<open>__builtin_ctz\<close>: the number of trailing zero bits. It is undefined on 0.
\<close>

definition trailing_zeros :: "'a::len word \<Rightarrow> nat" where
  "trailing_zeros w = length (takeWhile (\<lambda>i. \<not> bit w i) [0..<LENGTH('a)])"

definition builtin_ctz :: "'a::len word \<Rightarrow> nat res" where
  "builtin_ctz w = (if w = 0 then Inl Undefined else Inr (trailing_zeros w))"

lemma takeWhile_upt_first:
  assumes "n < m" and "P n" and "\<And>i. i < n \<Longrightarrow> \<not> P i"
  shows "length (takeWhile (\<lambda>i. \<not> P i) [0..<m]) = n"
proof -
  have "[0..<m] = [0..<n] @ [n..<m]"
    using assms(1) by (metis less_imp_le_nat upt_add_eq_append le_add_diff_inverse zero_le)
  moreover have "[n..<m] = n # [Suc n..<m]"
    using assms(1) by (simp add: upt_conv_Cons)
  ultimately show ?thesis
    using assms(2,3) by (simp add: takeWhile_append)
qed

lemma trailing_zeros_spec:
  fixes w :: "'a::len word"
  assumes "w \<noteq> 0"
  shows "bit w (trailing_zeros w)" and "\<And>j. j < trailing_zeros w \<Longrightarrow> \<not> bit w j"
    and "trailing_zeros w < LENGTH('a)"
proof -
  obtain k where k: "bit w k"
    using assms by (auto simp: bit_eq_iff)
  define n where "n = (LEAST i. bit w i)"
  have n: "bit w n" "\<And>i. i < n \<Longrightarrow> \<not> bit w i"
    unfolding n_def using k by (auto intro: LeastI dest: not_less_Least)
  have "n < LENGTH('a)"
    using n(1) by (rule bit_imp_le_length)
  then have "trailing_zeros w = n"
    unfolding trailing_zeros_def using n by (intro takeWhile_upt_first)
  then show "bit w (trailing_zeros w)" "\<And>j. j < trailing_zeros w \<Longrightarrow> \<not> bit w j"
    "trailing_zeros w < LENGTH('a)"
    using n \<open>n < LENGTH('a)\<close> by simp_all
qed

lemma word_neq_0_bit: "w \<noteq> 0 \<longleftrightarrow> (\<exists>i < LENGTH('a). bit w i)" for w :: "'a::len word"
  by (metis bit_0_eq bit_imp_le_length bot_apply bot_bool_def trailing_zeros_spec(1))

lemma word_and_bit_eq_0 [simp]: "(w AND 2 ^ n = 0) \<longleftrightarrow> \<not> (bit w n \<and> n < LENGTH('a))"
  for w :: "'a::len word"
proof -
  have "w AND 2 ^ n = (if bit w n \<and> n < LENGTH('a) then 2 ^ n else 0)"
    by (rule bit_word_eqI) (auto simp: bit_simps)
  moreover have "n < LENGTH('a) \<Longrightarrow> 2 ^ n \<noteq> (0 :: 'a word)"
    by simp
  ultimately show ?thesis by auto
qed

subsection \<open>Bit maps: an array of 32-bit words as a set of numbers\<close>

text \<open>
  Both \<^verbatim>\<open>ds::bitset\<close> and the bit maps \<open>k4\<close> and \<open>k8\<close> of \<^verbatim>\<open>struct buddy\<close> address bit \<open>i\<close> as
  bit \<^verbatim>\<open>i & 0x1F\<close> of word \<^verbatim>\<open>i >> 5\<close>.
\<close>

definition word_bits :: "u32 list \<Rightarrow> nat set" where
  "word_bits ws = {n. n div 32 < length ws \<and> bit (ws ! (n div 32)) (n mod 32)}"

lemma word_bits_iff:
  "n \<in> word_bits ws \<longleftrightarrow> n div 32 < length ws \<and> bit (ws ! (n div 32)) (n mod 32)"
  by (simp add: word_bits_def)

lemma div_mod_32_eq: "n div 32 = m div 32 \<Longrightarrow> n mod 32 = m mod 32 \<Longrightarrow> n = (m::nat)"
  by (metis div_mod_decomp)

lemma word_bits_or:
  assumes "m div 32 < length ws"
  shows "word_bits (ws[m div 32 := ws ! (m div 32) OR 2 ^ (m mod 32)]) = insert m (word_bits ws)"
  using assms
  by (auto simp: word_bits_iff nth_list_update bit_simps split: if_splits intro: div_mod_32_eq)

lemma word_bits_and_not:
  assumes "m div 32 < length ws"
  shows "word_bits (ws[m div 32 := ws ! (m div 32) AND NOT (2 ^ (m mod 32))]) = word_bits ws - {m}"
  using assms
  by (auto simp: word_bits_iff nth_list_update bit_simps split: if_splits intro: div_mod_32_eq)

lemma word_bits_bound: "n \<in> word_bits ws \<Longrightarrow> n < 32 * length ws"
  by (auto simp: word_bits_iff)

lemma word_bits_empty_iff: "word_bits ws = {} \<longleftrightarrow> (\<forall>w \<in> set ws. w = 0)"
proof
  assume empty: "word_bits ws = {}"
  show "\<forall>w \<in> set ws. w = 0"
  proof (rule ballI, rule ccontr)
    fix w assume "w \<in> set ws" and "w \<noteq> 0"
    then obtain q r where "q < length ws" "r < 32" "bit (ws ! q) r"
      by (auto simp: in_set_conv_nth word_neq_0_bit)
    then have "32 * q + r \<in> word_bits ws"
      by (simp add: word_bits_iff)
    with empty show False by simp
  qed
next
  assume "\<forall>w \<in> set ws. w = 0"
  then show "word_bits ws = {}"
    by (auto simp: word_bits_iff) (metis bit_0_eq bot_apply bot_bool_def nth_mem)
qed

lemma less_div_mod_32: "n < m \<longleftrightarrow> n div 32 < m div 32 \<or> n div 32 = m div 32 \<and> n mod 32 < m mod (32::nat)"
proof -
  define q r q' r' where "q = n div 32" "r = n mod 32" "q' = m div 32" "r' = m mod 32"
  have "n = 32 * q + r" "m = 32 * q' + r'" "r < 32" "r' < 32"
    unfolding q_r_q'_r'_def by simp_all
  then show ?thesis
    unfolding q_r_q'_r'_def [symmetric] by linarith
qed

text \<open>The first nonzero word and its lowest bit give the least element.\<close>

lemma word_bits_lowest:
  assumes "k < length ws" and "ws ! k \<noteq> 0" and "\<And>j. j < k \<Longrightarrow> ws ! j = 0"
  shows "32 * k + trailing_zeros (ws ! k) \<in> word_bits ws"
    and "n \<in> word_bits ws \<Longrightarrow> 32 * k + trailing_zeros (ws ! k) \<le> n"
proof -
  define c where "c = trailing_zeros (ws ! k)"
  have c: "c < 32" "bit (ws ! k) c" "\<And>j. j < c \<Longrightarrow> \<not> bit (ws ! k) j"
    using trailing_zeros_spec [OF assms(2)] by (simp_all add: c_def)
  have dm: "(32 * k + c) div 32 = k" "(32 * k + c) mod 32 = c"
    using c(1) by auto
  show "32 * k + trailing_zeros (ws ! k) \<in> word_bits ws"
    using assms(1) c(1,2) by (simp add: word_bits_iff flip: c_def)
  show "32 * k + trailing_zeros (ws ! k) \<le> n" if "n \<in> word_bits ws"
  proof -
    have "bit (ws ! (n div 32)) (n mod 32)"
      using that by (simp add: word_bits_iff)
    then have "\<not> (n div 32 < k \<or> n div 32 = k \<and> n mod 32 < c)"
      using assms(3) [of "n div 32"] c(3) [of "n mod 32"] by auto
    then have "\<not> n < 32 * k + c"
      unfolding less_div_mod_32 [of n "32 * k + c"] dm .
    then show ?thesis by (simp add: c_def)
  qed
qed

text \<open>Block numbers of the next size, and of the other half of a pair.\<close>

lemma unat_push_bit: "unat i * 2 ^ n < 4294967296 \<Longrightarrow> unat (push_bit n i) = unat i * 2 ^ n" for i :: u32
proof -
  assume "unat i * 2 ^ n < 4294967296"
  moreover have "push_bit n i = of_nat (unat i * 2 ^ n)"
    by (simp add: push_bit_eq_mult)
  ultimately show ?thesis by (simp only: unat_of_nat_32)
qed

lemma unat_push_bit_add:
  "unat i * 2 ^ n + unat c < 4294967296 \<Longrightarrow> unat (push_bit n i + c) = unat i * 2 ^ n + unat c"
  for i c :: u32
proof -
  assume "unat i * 2 ^ n + unat c < 4294967296"
  moreover have "push_bit n i + c = of_nat (unat i * 2 ^ n + unat c)"
    by (simp add: push_bit_eq_mult)
  ultimately show ?thesis by (simp only: unat_of_nat_32)
qed

definition xor1 :: "nat \<Rightarrow> nat" where
  "xor1 n = (if even n then n + 1 else n - 1)"

lemma unat_xor_1: "unat (i XOR 1) = xor1 (unat i)" for i :: u32
proof -
  have "unat (i XOR 1) = unat i XOR 1"
    by (simp add: unsigned_xor_eq)
  also have "\<dots> = xor1 (unat i)"
    by (simp add: xor1_def xor_Suc_0_eq)
  finally show ?thesis .
qed

lemma xor1_div [simp]: "xor1 n div 2 = n div 2"
  by (auto simp: xor1_def elim: oddE)

lemma xor1_less: "even m \<Longrightarrow> n < m \<Longrightarrow> xor1 n < m"
  unfolding xor1_def by (metis add.commute dvd_def even_Suc less_imp_diff_less plus_1_eq_Suc Suc_lessI)

lemma xor1_double [simp]: "xor1 (2 * n) = Suc (2 * n)"
  by (simp add: xor1_def)

end
