(* ===== verification/Cstr.thy ===== *)
theory Cstr
  imports Kernel_Prelude
begin

section \<open>Byte memory and the C string routines\<close>

text \<open>
  \<^verbatim>\<open>kernel/util/cstr.cpp\<close> and \<^verbatim>\<open>kernel/util/string.hpp\<close> over a flat 32-bit byte memory. Pointers
  are 32-bit words and pointer arithmetic wraps, as it does on the machine. The \<^verbatim>\<open>for\<close> loops are
  recursions on their counter; \<open>strlen\<close> and \<open>strcpy\<close> have no bound in the source, so they are
  partial functions that return \<open>None\<close> when the loop never stops.
\<close>

type_synonym mem = "u32 \<Rightarrow> u8"

record string_buf =
  data :: u32
  length_field :: u32

subsection \<open>The routines\<close>

partial_function (option) strlen_from :: "mem \<Rightarrow> u32 \<Rightarrow> u32 \<Rightarrow> u32 option" where
  "strlen_from m s len = (if m (s + len) \<noteq> 0 then strlen_from m s (len + 1) else Some len)"

definition strlen :: "u32 \<Rightarrow> mem \<Rightarrow> u32 option" where
  "strlen s m = strlen_from m s 0"

definition string_buf_of_cstr :: "u32 \<Rightarrow> mem \<Rightarrow> string_buf option" where
  "string_buf_of_cstr p m = map_option (\<lambda>n. \<lparr>data = p, length_field = n\<rparr>) (strlen p m)"

text \<open>The loop \<^verbatim>\<open>for (size_t i = 0; i < sz; i++) dst[i] = src[i];\<close> of \<open>memcpy\<close> and \<open>memmove\<close>.\<close>

function copy_up :: "nat \<Rightarrow> nat \<Rightarrow> u32 \<Rightarrow> u32 \<Rightarrow> mem \<Rightarrow> mem" where
  "copy_up i sz dst src m =
    (if i < sz then copy_up (Suc i) sz dst src (m(dst + of_nat i := m (src + of_nat i))) else m)"
  by pat_completeness auto
termination
  by (relation "measure (\<lambda>(i, sz, _). sz - i)") auto

text \<open>The loop \<^verbatim>\<open>for (size_t i = sz; i != 0; i--) dst[i-1] = src[i-1];\<close> of \<open>memmove\<close>.\<close>

fun copy_down :: "nat \<Rightarrow> u32 \<Rightarrow> u32 \<Rightarrow> mem \<Rightarrow> mem" where
  "copy_down 0 dst src m = m"
| "copy_down (Suc i) dst src m = copy_down i dst src (m(dst + of_nat i := m (src + of_nat i)))"

definition memcpy :: "u32 \<Rightarrow> u32 \<Rightarrow> u32 \<Rightarrow> mem \<Rightarrow> mem" where
  "memcpy dst src sz m = copy_up 0 (unat sz) dst src m"

definition memmove :: "u32 \<Rightarrow> u32 \<Rightarrow> u32 \<Rightarrow> mem \<Rightarrow> mem" where
  "memmove dst src sz m =
    (if dst < src then copy_up 0 (unat sz) dst src m else copy_down (unat sz) dst src m)"

function memcmp_from :: "nat \<Rightarrow> nat \<Rightarrow> u32 \<Rightarrow> u32 \<Rightarrow> mem \<Rightarrow> int" where
  "memcmp_from i sz a b m =
    (if i < sz then
       (if m (a + of_nat i) < m (b + of_nat i) then - 1
        else if m (b + of_nat i) < m (a + of_nat i) then 1
        else memcmp_from (Suc i) sz a b m)
     else 0)"
  by pat_completeness auto
termination
  by (relation "measure (\<lambda>(i, sz, _). sz - i)") auto

definition memcmp :: "u32 \<Rightarrow> u32 \<Rightarrow> u32 \<Rightarrow> mem \<Rightarrow> int" where
  "memcmp a b sz m = memcmp_from 0 (unat sz) a b m"

function set_up :: "nat \<Rightarrow> nat \<Rightarrow> u32 \<Rightarrow> u8 \<Rightarrow> mem \<Rightarrow> mem" where
  "set_up i sz buf v m =
    (if i < sz then set_up (Suc i) sz buf v (m(buf + of_nat i := v)) else m)"
  by pat_completeness auto
termination
  by (relation "measure (\<lambda>(i, sz, _). sz - i)") auto

text \<open>The \<^verbatim>\<open>int\<close> argument of \<open>memset\<close> is cast to \<^verbatim>\<open>unsigned char\<close>.\<close>

definition memset :: "u32 \<Rightarrow> int \<Rightarrow> u32 \<Rightarrow> mem \<Rightarrow> mem" where
  "memset buf value sz m = set_up 0 (unat sz) buf (word_of_int value) m"

partial_function (option) strcpy_from :: "u32 \<Rightarrow> u32 \<Rightarrow> mem \<Rightarrow> mem option" where
  "strcpy_from tmp_dest src m =
    (let m' = m(tmp_dest := m src)
     in if m' (src + 1) \<noteq> 0 then strcpy_from (tmp_dest + 1) (src + 1) m' else Some m')"

definition strcpy :: "u32 \<Rightarrow> u32 \<Rightarrow> mem \<Rightarrow> mem option" where
  "strcpy dest src m = strcpy_from dest src m"

declare copy_up.simps [simp del] memcmp_from.simps [simp del] set_up.simps [simp del]

subsection \<open>Offsets within a range\<close>

text \<open>
  An address \<open>a\<close> lies in the \<open>n\<close> bytes from \<open>p\<close> when its offset \<open>a - p\<close> is below \<open>n\<close>; this reading
  needs no condition on wrap-around.
\<close>

definition in_range :: "u32 \<Rightarrow> nat \<Rightarrow> u32 \<Rightarrow> bool" where
  "in_range p n a \<longleftrightarrow> unat (a - p) < n"

lemma offset_eq: "i < 4294967296 \<Longrightarrow> a = p + of_nat i \<longleftrightarrow> unat (a - p) = i" for a p :: u32
proof
  assume "i < 4294967296" and "a = p + of_nat i"
  then show "unat (a - p) = i" by (simp add: unat_of_nat_32)
next
  assume "unat (a - p) = i"
  then have "of_nat i = a - p"
    by auto
  then show "a = p + of_nat i" by simp
qed

lemma upd_offset:
  "i < 4294967296 \<Longrightarrow> (m(p + of_nat i := v)) a = (if unat (a - p) = i then v else m a)"
  for p :: u32
  by (simp add: offset_eq)

lemma add_offset [simp]: "p + of_nat (unat (a - p)) = a" for a p :: u32
  by simp

lemma unat_add_of_nat:
  "unat p + i < 4294967296 \<Longrightarrow> unat (p + of_nat i) = unat p + i" for p :: u32
  by (simp add: unat_word_ariths unat_of_nat take_bit_eq_mod)

subsection \<open>What the routines do\<close>

lemma set_up_eq:
  assumes "sz \<le> 4294967296"
  shows "set_up i sz buf v m =
    (\<lambda>a. if i \<le> unat (a - buf) \<and> unat (a - buf) < sz then v else m a)"
  using assms
proof (induction i sz buf v m rule: set_up.induct)
  case (1 i sz buf v m)
  show ?case
  proof (cases "i < sz")
    case True
    then have "i < 4294967296" using 1(2) by simp
    note upd = upd_offset [OF this, of m buf v]
    have "set_up i sz buf v m = set_up (Suc i) sz buf v (m(buf + of_nat i := v))"
      using True by (subst set_up.simps) simp
    also have "\<dots> = (\<lambda>a. if i \<le> unat (a - buf) \<and> unat (a - buf) < sz then v else m a)"
      unfolding 1(1) [OF True 1(2)] upd using True by (auto simp: fun_eq_iff)
    finally show ?thesis .
  next
    case False
    then show ?thesis by (subst set_up.simps) (auto simp: fun_eq_iff)
  qed
qed

lemma memset_eq:
  "memset buf val sz m = (\<lambda>a. if in_range buf (unat sz) a then word_of_int val else m a)"
  by (simp add: memset_def set_up_eq less_imp_le in_range_def)

text \<open>
  A forward copy reads each source byte before it can be overwritten when no earlier write hits
  it; a backward copy when no later write does.
\<close>

lemma copy_up_eq:
  assumes "sz \<le> 4294967296"
    and "\<And>k j. i \<le> k \<Longrightarrow> k < j \<Longrightarrow> j < sz \<Longrightarrow> src + of_nat j \<noteq> dst + of_nat k"
  shows "copy_up i sz dst src m =
    (\<lambda>a. if i \<le> unat (a - dst) \<and> unat (a - dst) < sz then m (src + (a - dst)) else m a)"
  using assms
proof (induction i sz dst src m rule: copy_up.induct)
  case (1 i sz dst src m)
  show ?case
  proof (cases "i < sz")
    case True
    then have i: "i < 4294967296" using 1(2) by simp
    define m1 where "m1 = m(dst + of_nat i := m (src + of_nat i))"
    have m1: "m1 a = (if unat (a - dst) = i then m (src + (a - dst)) else m a)" for a
      unfolding m1_def upd_offset [OF i] by auto
    have safe: "m1 (src + (a - dst)) = m (src + (a - dst))"
      if "Suc i \<le> unat (a - dst)" "unat (a - dst) < sz" for a
      using that 1(3) [of i "unat (a - dst)"] by (simp add: m1_def)
    have "copy_up i sz dst src m = copy_up (Suc i) sz dst src m1"
      using True by (subst copy_up.simps) (simp add: m1_def)
    also have "\<dots> = (\<lambda>a. if Suc i \<le> unat (a - dst) \<and> unat (a - dst) < sz
        then m1 (src + (a - dst)) else m1 a)"
      by (rule 1(1) [OF True, folded m1_def, OF 1(2)]) (rule 1(3), simp_all)
    also have "\<dots> = (\<lambda>a. if i \<le> unat (a - dst) \<and> unat (a - dst) < sz
        then m (src + (a - dst)) else m a)"
    proof
      fix a
      show "(if Suc i \<le> unat (a - dst) \<and> unat (a - dst) < sz then m1 (src + (a - dst)) else m1 a) =
          (if i \<le> unat (a - dst) \<and> unat (a - dst) < sz then m (src + (a - dst)) else m a)"
        using safe [of a] m1 [of a] True by auto
    qed
    finally show ?thesis .
  next
    case False
    then show ?thesis by (subst copy_up.simps) (auto simp: fun_eq_iff)
  qed
qed

lemma copy_down_eq:
  assumes "n \<le> 4294967296"
    and "\<And>k j. j < k \<Longrightarrow> k < n \<Longrightarrow> src + of_nat j \<noteq> dst + of_nat k"
  shows "copy_down n dst src m =
    (\<lambda>a. if unat (a - dst) < n then m (src + (a - dst)) else m a)"
  using assms
proof (induction n arbitrary: m)
  case (Suc n)
  define m1 where "m1 = m(dst + of_nat n := m (src + of_nat n))"
  have n: "n < 4294967296" using Suc.prems(1) by simp
  have m1: "m1 a = (if unat (a - dst) = n then m (src + (a - dst)) else m a)" for a
    unfolding m1_def upd_offset [OF n] by auto
  have safe: "m1 (src + (a - dst)) = m (src + (a - dst))" if "unat (a - dst) < n" for a
    using that Suc.prems(2) [of "unat (a - dst)" n] by (simp add: m1_def)
  have "copy_down n dst src m1 = (\<lambda>a. if unat (a - dst) < n then m1 (src + (a - dst)) else m1 a)"
    by (rule Suc.IH) (use Suc.prems in auto)
  then have "copy_down n dst src m1 a =
      (if unat (a - dst) < Suc n then m (src + (a - dst)) else m a)" for a
    using safe [of a] m1 [of a] by auto
  then show ?case by (simp add: fun_eq_iff m1_def)
qed simp

definition disjoint_ranges :: "u32 \<Rightarrow> u32 \<Rightarrow> nat \<Rightarrow> bool" where
  "disjoint_ranges p q n \<longleftrightarrow> (\<forall>a. \<not> (in_range p n a \<and> in_range q n a))"

lemma in_range_offset: "j < n \<Longrightarrow> n \<le> 4294967296 \<Longrightarrow> in_range p n (p + of_nat j)"
  by (simp add: in_range_def unat_of_nat_32)

lemma memcpy_eq:
  assumes "disjoint_ranges dst src (unat sz)"
  shows "memcpy dst src sz m =
    (\<lambda>a. if in_range dst (unat sz) a then m (src + (a - dst)) else m a)"
proof -
  have "src + of_nat j \<noteq> dst + of_nat k" if "k < j" "j < unat sz" for k j
  proof -
    have "in_range src (unat sz) (src + of_nat j)" "in_range dst (unat sz) (dst + of_nat k)"
      using that by (simp_all add: in_range_offset less_imp_le)
    then show ?thesis
      using assms unfolding disjoint_ranges_def by metis
  qed
  then show ?thesis
    unfolding memcpy_def in_range_def by (subst copy_up_eq) (auto simp: less_imp_le)
qed

lemma memmove_eq:
  assumes "unat dst + unat sz \<le> 4294967296" and "unat src + unat sz \<le> 4294967296"
  shows "memmove dst src sz m =
    (\<lambda>a. if in_range dst (unat sz) a then m (src + (a - dst)) else m a)"
proof -
  have addr: "src + of_nat j = dst + of_nat k \<longleftrightarrow> unat src + j = unat dst + k"
    if "k < unat sz" "j < unat sz" for k j
    using assms that unat_add_of_nat [of src j] unat_add_of_nat [of dst k]
    by (simp add: word_unat_eq_iff)
  show ?thesis
  proof (cases "dst < src")
    case True
    then have "src + of_nat j \<noteq> dst + of_nat k" if "k < j" "j < unat sz" for k j
      using addr [of k j] that by (auto simp: word_less_nat_alt)
    with True show ?thesis
      unfolding memmove_def in_range_def by (simp add: copy_up_eq less_imp_le)
  next
    case False
    then have "src + of_nat j \<noteq> dst + of_nat k" if "j < k" "k < unat sz" for k j
      using addr [of k j] that by (auto simp: word_less_nat_alt)
    with False show ?thesis
      unfolding memmove_def in_range_def by (simp add: copy_down_eq less_imp_le)
  qed
qed

lemma memcmp_from_0:
  "memcmp_from i sz a b m = 0 \<longleftrightarrow> (\<forall>j. i \<le> j \<and> j < sz \<longrightarrow> m (a + of_nat j) = m (b + of_nat j))"
proof (induction i sz a b m rule: memcmp_from.induct)
  case (1 i sz a b m)
  show ?case
  proof (cases "i < sz \<and> m (a + of_nat i) = m (b + of_nat i)")
    case True
    then have "memcmp_from i sz a b m = memcmp_from (Suc i) sz a b m"
      by (subst memcmp_from.simps) simp
    moreover have "(\<forall>j. i \<le> j \<and> j < sz \<longrightarrow> m (a + of_nat j) = m (b + of_nat j)) \<longleftrightarrow>
        (\<forall>j. Suc i \<le> j \<and> j < sz \<longrightarrow> m (a + of_nat j) = m (b + of_nat j))"
      using True by (metis Suc_leD Suc_leI le_neq_implies_less)
    ultimately show ?thesis
      using 1 True by auto
  next
    case False
    then show ?thesis
      by (subst memcmp_from.simps) (auto simp: neq_iff)
  qed
qed

lemma memcmp_eq_0:
  "memcmp a b sz m = 0 \<longleftrightarrow> (\<forall>j < unat sz. m (a + of_nat j) = m (b + of_nat j))"
  by (simp add: memcmp_def memcmp_from_0)

text \<open>The sign of a nonzero result is decided by the first byte that differs.\<close>

lemma memcmp_from_first:
  assumes "i \<le> k" and "k < sz" and "m (a + of_nat k) \<noteq> m (b + of_nat k)"
    and "\<And>j. i \<le> j \<Longrightarrow> j < k \<Longrightarrow> m (a + of_nat j) = m (b + of_nat j)"
  shows "memcmp_from i sz a b m = (if m (a + of_nat k) < m (b + of_nat k) then - 1 else 1)"
  using assms
proof (induction i sz a b m rule: memcmp_from.induct)
  case (1 i sz a b m)
  show ?case
  proof (cases "i = k")
    case True
    with 1 show ?thesis by (subst memcmp_from.simps) auto
  next
    case False
    then have "memcmp_from i sz a b m = memcmp_from (Suc i) sz a b m"
      using 1 by (subst memcmp_from.simps) simp
    with 1 False show ?thesis by simp
  qed
qed

lemma strlen_from_eq:
  "m (s + len + of_nat k) = 0 \<Longrightarrow> (\<And>j. j < k \<Longrightarrow> m (s + len + of_nat j) \<noteq> 0) \<Longrightarrow>
    strlen_from m s len = Some (len + of_nat k)"
proof (induction k arbitrary: len)
  case 0
  then show ?case by (subst strlen_from.simps) simp
next
  case (Suc k)
  have "m (s + (len + 1) + of_nat j) \<noteq> 0" if "j < k" for j
    using Suc.prems(2) [of "Suc j"] that by (simp add: ac_simps)
  moreover have "m (s + (len + 1) + of_nat k) = 0"
    using Suc.prems(1) by (simp add: ac_simps)
  ultimately have "strlen_from m s (len + 1) = Some (len + 1 + of_nat k)"
    by (intro Suc.IH)
  moreover have "m (s + len) \<noteq> 0"
    using Suc.prems(2) [of 0] by simp
  ultimately show ?case
    by (subst strlen_from.simps) (simp add: ac_simps)
qed

lemma strlen_eq:
  assumes "m (s + of_nat k) = 0" and "\<And>j. j < k \<Longrightarrow> m (s + of_nat j) \<noteq> 0"
  shows "strlen s m = Some (of_nat k)"
  unfolding strlen_def using strlen_from_eq [of m s 0 k] assms by simp

lemma copy_up_shift:
  "copy_up (Suc i) (Suc n) dst src m = copy_up i n (dst + 1) (src + 1) m"
proof (induction "n - i" arbitrary: i m)
  case 0
  then show ?case by (simp add: copy_up.simps)
next
  case (Suc k)
  then have "i < n" "k = n - Suc i" by simp_all
  with Suc(1) [of "Suc i"] show ?case
    by (subst (1 2) copy_up.simps) (simp add: ac_simps)
qed

text \<open>
  \<open>strcpy\<close> is a \<^verbatim>\<open>do ... while\<close> loop that tests the next source byte after the increment: it copies
  the bytes before the first NUL at an offset of at least 1, and never the NUL itself.
\<close>

lemma strcpy_from_eq:
  assumes "0 < n" and "n < 4294967296" and "m (src + of_nat n) = 0"
    and "\<And>j. 0 < j \<Longrightarrow> j < n \<Longrightarrow> m (src + of_nat j) \<noteq> 0"
    and "\<And>i j. i < n \<Longrightarrow> j \<le> n \<Longrightarrow> src + of_nat j \<noteq> dst + of_nat i"
  shows "strcpy_from dst src m = Some (copy_up 0 n dst src m)"
  using assms
proof (induction n arbitrary: dst src m)
  case (Suc n)
  define m1 where "m1 = m(dst := m src)"
  have up: "copy_up 0 (Suc n) dst src m = copy_up 0 n (dst + 1) (src + 1) m1"
    by (subst copy_up.simps) (simp add: copy_up_shift m1_def)
  have keep: "m1 (src + of_nat j) = m (src + of_nat j)" if "j \<le> Suc n" for j
    using Suc.prems(5) [of 0 j] that by (simp add: m1_def)
  have step: "strcpy_from dst src m =
      (if m1 (src + 1) \<noteq> 0 then strcpy_from (dst + 1) (src + 1) m1 else Some m1)"
    by (subst strcpy_from.simps) (simp add: m1_def Let_def)
  show ?case
  proof (cases "n = 0")
    case True
    then have "m1 (src + 1) = 0"
      using keep [of 1] Suc.prems(3) by simp
    with True show ?thesis
      unfolding step up by (simp add: copy_up.simps [of 0 0])
  next
    case False
    then have "m1 (src + 1) \<noteq> 0"
      using keep [of 1] Suc.prems(4) [of 1] by simp
    moreover have "strcpy_from (dst + 1) (src + 1) m1 = Some (copy_up 0 n (dst + 1) (src + 1) m1)"
    proof (rule Suc.IH)
      show "m1 (src + 1 + of_nat n) = 0"
        using keep [of "Suc n"] Suc.prems(3) by (simp add: ac_simps)
      show "m1 (src + 1 + of_nat j) \<noteq> 0" if "0 < j" "j < n" for j
        using keep [of "Suc j"] Suc.prems(4) [of "Suc j"] that by (simp add: ac_simps)
      show "src + 1 + of_nat j \<noteq> dst + 1 + of_nat i" if "i < n" "j \<le> n" for i j
        using Suc.prems(5) [of "Suc i" "Suc j"] that by (simp add: ac_simps)
    qed (use False Suc.prems in auto)
    ultimately show ?thesis
      by (simp add: step up)
  qed
qed simp

subsection \<open>Properties\<close>

text \<open>
  C16: \<open>memmove\<close> copies correctly also when source and destination overlap: afterwards the destination
  holds the bytes the source had before the call, and no other byte has changed.
\<close>

theorem memmove_correct:
  assumes "unat dst + unat sz \<le> 4294967296" and "unat src + unat sz \<le> 4294967296"
  shows "\<forall>a. memmove dst src sz m a = (if unat (a - dst) < unat sz then m (src + (a - dst)) else m a)"
  using memmove_eq [OF assms, of m] by (simp add: in_range_def)

theorem memmove_correct_witness:
  "memmove 102 100 4 (\<lambda>a. if a = 100 then 7 else if a = 101 then 8 else if a = 102 then 9 else 0) 104 = 9"
  using memmove_correct [of 102 4 100 "\<lambda>a. if a = 100 then 7 else if a = 101 then 8 else if a = 102 then 9 else 0"]
  by simp

text \<open>
  \<open>strcpy\<close> of a string of \<open>n > 0\<close> bytes into a buffer that does not overlap it returns, copies the
  \<open>n\<close> bytes, and leaves the byte after them as it was: the terminating NUL is not copied.
\<close>

lemma strcpy_omits_terminator:
  assumes "0 < n" and "n < 2147483648" and "m (src + of_nat n) = 0"
    and "\<And>j. 0 < j \<Longrightarrow> j < n \<Longrightarrow> m (src + of_nat j) \<noteq> 0"
    and "\<And>i j. i < n \<Longrightarrow> j \<le> n \<Longrightarrow> src + of_nat j \<noteq> dst + of_nat i"
  shows "\<exists>m'. strcpy dst src m = Some m' \<and> (\<forall>i < n. m' (dst + of_nat i) = m (src + of_nat i)) \<and>
    m' (dst + of_nat n) = m (dst + of_nat n)"
proof -
  have "strcpy dst src m = Some (copy_up 0 n dst src m)"
    unfolding strcpy_def using assms by (intro strcpy_from_eq) auto
  moreover have "copy_up 0 n dst src m = (\<lambda>a. if 0 \<le> unat (a - dst) \<and> unat (a - dst) < n then m (src + (a - dst)) else m a)"
    using assms(2,5) by (intro copy_up_eq) auto
  ultimately show ?thesis
    using assms(2) by (auto simp: unat_of_nat_32)
qed

theorem strcpy_omits_terminator_witness:
  "\<exists>m'. strcpy 200 100 (\<lambda>a. if a = 100 then 72 else if a = 101 then 105 else if a < 200 then 0 else 255) = Some m' \<and>
    m' 200 = 72 \<and> m' 201 = 105 \<and> m' 202 = 255"
  (is "\<exists>m'. strcpy _ _ ?m = _ \<and> _")
proof -
  have "\<exists>m'. strcpy 200 100 ?m = Some m' \<and> (\<forall>i < 2. m' (200 + of_nat i) = ?m (100 + of_nat i)) \<and>
    m' (200 + of_nat 2) = ?m (200 + of_nat 2)"
  proof (rule strcpy_omits_terminator)
    fix i j :: nat
    assume "i < 2" "j \<le> 2"
    then have "i = 0 \<or> i = 1" "j = 0 \<or> j = 1 \<or> j = 2"
      by auto
    then show "(100 :: u32) + of_nat j \<noteq> 200 + of_nat i"
      by (elim disjE) simp_all
  next
    fix j :: nat
    assume "0 < j" "j < 2"
    then have "j = 1" by simp
    then show "?m (100 + of_nat j) \<noteq> 0" by simp
  qed auto
  then obtain m' where m': "strcpy 200 100 ?m = Some m'" "\<forall>i < 2. m' (200 + of_nat i) = ?m (100 + of_nat i)"
      "m' (200 + of_nat 2) = ?m (200 + of_nat 2)"
    by blast
  from m'(2) [rule_format, of 0] m'(2) [rule_format, of 1] m'(1,3) show ?thesis
    by simp
qed

end
