(* ===== verification/Buddy.thy ===== *)
theory Buddy
  imports Kernel_Prelude
begin

section \<open>The buddy blocks of the page allocator\<close>

text \<open>
  \<^verbatim>\<open>struct buddy\<close> of \<^verbatim>\<open>kernel/memory/page_allocator.cpp\<close>: one buddy manages 512 KiB as 128 pages of
  4 KiB and keeps four bit maps (bit 1: free), for blocks of 4, 8, 16 and 32 KiB, and a link into
  one doubly linked free list per block size. The lists start in \<^verbatim>\<open>kmem_allocator.first_kN\<close> and end
  with a null pointer.

  The template argument \<open>N\<close> of the source is the type \<open>level\<close>. A pointer to a \<^verbatim>\<open>buddy\<close> is either one
  of the four list heads or an entry of \<^verbatim>\<open>buddy_array\<close>; the eight link fields \<open>prev_k4\<close> \<dots> \<open>next_k32\<close>
  are the two functions \<open>prev_N\<close> and \<open>next_N\<close> of the level, as \<^verbatim>\<open>next_N<N>()\<close> reads them.
\<close>

subsection \<open>Data\<close>

datatype level = K4 | K8 | K16 | K32

datatype bptr = First level | Bud nat

record buddy_data =
  k4 :: "u32 list"
  k8 :: "u32 list"
  k16 :: u32
  k32 :: u16
  prev_N :: "level \<Rightarrow> bptr option"
  next_N :: "level \<Rightarrow> bptr option"

type_synonym bheap = "bptr \<Rightarrow> buddy_data"

definition set_next :: "level \<Rightarrow> bptr \<Rightarrow> bptr option \<Rightarrow> bheap \<Rightarrow> bheap" where
  "set_next l q v h = h(q := (h q)\<lparr>next_N := (next_N (h q))(l := v)\<rparr>)"

definition set_prev :: "level \<Rightarrow> bptr \<Rightarrow> bptr option \<Rightarrow> bheap \<Rightarrow> bheap" where
  "set_prev l q v h = h(q := (h q)\<lparr>prev_N := (prev_N (h q))(l := v)\<rparr>)"

subsection \<open>Marking one block\<close>

text \<open>The two link sequences, which the source repeats for each of the four sizes.\<close>

definition unlink_N :: "level \<Rightarrow> bptr \<Rightarrow> bheap \<Rightarrow> bheap" where
  "unlink_N l this h =
    (let h1 = (case prev_N (h this) l of None \<Rightarrow> h | Some q \<Rightarrow> set_next l q (next_N (h this) l) h);
         h2 = (case next_N (h1 this) l of None \<Rightarrow> h1 | Some q \<Rightarrow> set_prev l q (prev_N (h1 this) l) h1)
     in set_prev l this None (set_next l this None h2))"

definition link_N :: "level \<Rightarrow> bptr \<Rightarrow> bheap \<Rightarrow> bheap" where
  "link_N l this h =
    (let h1 = set_next l this (next_N (h (First l)) l) h;
         h2 = (case next_N (h1 this) l of None \<Rightarrow> h1 | Some q \<Rightarrow> set_prev l q (Some this) h1);
         h3 = set_prev l this (Some (First l)) h2
     in set_next l (First l) (Some this) h3)"

definition k4_zero :: "buddy_data \<Rightarrow> bool" where
  "k4_zero b \<longleftrightarrow> k4 b ! 0 = 0 \<and> k4 b ! 1 = 0 \<and> k4 b ! 2 = 0 \<and> k4 b ! 3 = 0"

definition k8_zero :: "buddy_data \<Rightarrow> bool" where
  "k8_zero b \<longleftrightarrow> k8 b ! 0 = 0 \<and> k8 b ! 1 = 0"

definition mark_alloc_k4 :: "u32 \<Rightarrow> bptr \<Rightarrow> bheap \<Rightarrow> (u32 \<times> bheap) res" where
  "mark_alloc_k4 index this h =
    (let arr_index = unat (drop_bit 5 index);
         b = push_bit (unat (index AND 0x1F)) 1
     in kbind (array_read (k4 (h this)) arr_index) (\<lambda>w.
        let r = w AND b;
            h1 = h(this := (h this)\<lparr>k4 := (k4 (h this))[arr_index := w AND NOT r]\<rparr>)
        in if k4 (h1 this) ! arr_index = 0 \<and> k4_zero (h1 this)
           then Inr (r, unlink_N K4 this h1)
           else Inr (r, h1)))"

definition mark_free_k4 :: "u32 \<Rightarrow> bptr \<Rightarrow> bheap \<Rightarrow> bheap res" where
  "mark_free_k4 index this h =
    (let h1 = (if prev_N (h this) K4 = None \<and> k4_zero (h this) then link_N K4 this h else h);
         arr_index = unat (drop_bit 5 index);
         b = push_bit (unat (index AND 0x1F)) 1
     in kbind (array_read (k4 (h1 this)) arr_index) (\<lambda>w.
        Inr (h1(this := (h1 this)\<lparr>k4 := (k4 (h1 this))[arr_index := w OR b]\<rparr>))))"

definition mark_alloc_k8 :: "u32 \<Rightarrow> bptr \<Rightarrow> bheap \<Rightarrow> (u32 \<times> bheap) res" where
  "mark_alloc_k8 index this h =
    (let arr_index = unat (drop_bit 5 index);
         b = push_bit (unat (index AND 0x1F)) 1
     in kbind (array_read (k8 (h this)) arr_index) (\<lambda>w.
        let r = w AND b;
            h1 = h(this := (h this)\<lparr>k8 := (k8 (h this))[arr_index := w AND NOT r]\<rparr>)
        in if k8 (h1 this) ! arr_index = 0 \<and> k8_zero (h1 this)
           then Inr (r, unlink_N K8 this h1)
           else Inr (r, h1)))"

definition mark_free_k8 :: "u32 \<Rightarrow> bptr \<Rightarrow> bheap \<Rightarrow> bheap res" where
  "mark_free_k8 index this h =
    (let h1 = (if prev_N (h this) K8 = None \<and> k8_zero (h this) then link_N K8 this h else h);
         arr_index = unat (drop_bit 5 index);
         b = push_bit (unat (index AND 0x1F)) 1
     in kbind (array_read (k8 (h1 this)) arr_index) (\<lambda>w.
        Inr (h1(this := (h1 this)\<lparr>k8 := (k8 (h1 this))[arr_index := w OR b]\<rparr>))))"

text \<open>
  For the 16 KiB and 32 KiB maps the code shifts \<^verbatim>\<open>1 << index\<close>, which is undefined from 32 on.
\<close>

definition mark_alloc_k16 :: "u32 \<Rightarrow> bptr \<Rightarrow> bheap \<Rightarrow> (u32 \<times> bheap) res" where
  "mark_alloc_k16 index this h =
    (if 32 \<le> index then Inl Undefined
     else
       let b = push_bit (unat index) 1;
           r = k16 (h this) AND b;
           h1 = h(this := (h this)\<lparr>k16 := k16 (h this) AND NOT r\<rparr>)
       in if k16 (h1 this) = 0 then Inr (r, unlink_N K16 this h1) else Inr (r, h1))"

definition mark_free_k16 :: "u32 \<Rightarrow> bptr \<Rightarrow> bheap \<Rightarrow> bheap res" where
  "mark_free_k16 index this h =
    (if 32 \<le> index then Inl Undefined
     else
       let h1 = (if prev_N (h this) K16 = None \<and> k16 (h this) = 0 then link_N K16 this h else h);
           b = push_bit (unat index) 1
       in Inr (h1(this := (h1 this)\<lparr>k16 := k16 (h1 this) OR b\<rparr>)))"

text \<open>The 32 KiB map is a \<^verbatim>\<open>uint16_t\<close>: the masks are computed in 32 bits and cut to 16 on the store.\<close>

definition mark_alloc_k32 :: "u32 \<Rightarrow> bptr \<Rightarrow> bheap \<Rightarrow> (u16 \<times> bheap) res" where
  "mark_alloc_k32 index this h =
    (if 32 \<le> index then Inl Undefined
     else
       let b = push_bit (unat index) (1 :: u32);
           r = ucast (k32 (h this)) AND b;
           h1 = h(this := (h this)\<lparr>k32 := ucast (ucast (k32 (h this)) AND NOT r)\<rparr>)
       in if k32 (h1 this) = 0 then Inr (ucast r, unlink_N K32 this h1) else Inr (ucast r, h1))"

definition mark_free_k32 :: "u32 \<Rightarrow> bptr \<Rightarrow> bheap \<Rightarrow> bheap res" where
  "mark_free_k32 index this h =
    (if 32 \<le> index then Inl Undefined
     else
       let h1 = (if prev_N (h this) K32 = None \<and> k32 (h this) = 0 then link_N K32 this h else h);
           b = push_bit (unat index) (1 :: u32)
       in Inr (h1(this := (h1 this)\<lparr>k32 := ucast (ucast (k32 (h1 this)) OR b)\<rparr>)))"

subsection \<open>Allocating and freeing a block of a buddy\<close>

text \<open>
  \<open>alloc<N>\<close> takes the lowest free block of its size. Its result is the offset of the block in the
  512 KiB of the buddy; \<open>buddy_alloc\<close> adds \<open>my_first_page\<close>.
\<close>

definition find_arr_index_k4 :: "buddy_data \<Rightarrow> u32" where
  "find_arr_index_k4 b =
    (if k4 b ! 0 \<noteq> 0 then 0 else if k4 b ! 1 \<noteq> 0 then 1
     else if k4 b ! 2 \<noteq> 0 then 2 else if k4 b ! 3 \<noteq> 0 then 3 else 4)"

definition find_arr_index_k8 :: "buddy_data \<Rightarrow> u32" where
  "find_arr_index_k8 b = (if k8 b ! 0 \<noteq> 0 then 0 else if k8 b ! 1 \<noteq> 0 then 1 else 2)"

definition alloc_4096 :: "bptr \<Rightarrow> bheap \<Rightarrow> (u32 \<times> bheap) res" where
  "alloc_4096 this h =
    (let arr_index = find_arr_index_k4 (h this)
     in kbind (kassert (arr_index \<noteq> 4)) (\<lambda>_.
        kbind (builtin_ctz (k4 (h this) ! unat arr_index)) (\<lambda>b.
        let index = push_bit 5 arr_index + of_nat b
        in kbind (mark_alloc_k4 index this h) (\<lambda>(_, h1).
           kbind (mark_alloc_k8 (drop_bit 1 index) this h1) (\<lambda>(r8, h2).
           if r8 \<noteq> 0 then
             kbind (mark_alloc_k16 (drop_bit 2 index) this h2) (\<lambda>(r16, h3).
             if r16 \<noteq> 0 then
               kbind (mark_alloc_k32 (drop_bit 3 index) this h3) (\<lambda>(_, h4).
               Inr (push_bit 12 index, h4))
             else Inr (push_bit 12 index, h3))
           else Inr (push_bit 12 index, h2))))))"

definition alloc_8192 :: "bptr \<Rightarrow> bheap \<Rightarrow> (u32 \<times> bheap) res" where
  "alloc_8192 this h =
    (let arr_index = find_arr_index_k8 (h this)
     in kbind (kassert (arr_index \<noteq> 2)) (\<lambda>_.
        kbind (builtin_ctz (k8 (h this) ! unat arr_index)) (\<lambda>b.
        let index = push_bit 5 arr_index + of_nat b
        in kbind (mark_alloc_k4 (push_bit 1 index + 0) this h) (\<lambda>(_, h1).
           kbind (mark_alloc_k4 (push_bit 1 index + 1) this h1) (\<lambda>(_, h2).
           kbind (mark_alloc_k8 index this h2) (\<lambda>(_, h3).
           kbind (mark_alloc_k16 (drop_bit 1 index) this h3) (\<lambda>(r16, h4).
           if r16 \<noteq> 0 then
             kbind (mark_alloc_k32 (drop_bit 2 index) this h4) (\<lambda>(_, h5).
             Inr (push_bit 13 index, h5))
           else Inr (push_bit 13 index, h4))))))))"

definition alloc_16384 :: "bptr \<Rightarrow> bheap \<Rightarrow> (u32 \<times> bheap) res" where
  "alloc_16384 this h =
    kbind (builtin_ctz (k16 (h this))) (\<lambda>c.
    let b = of_nat c :: u32
    in kbind (mark_alloc_k4 (push_bit 2 b + 0) this h) (\<lambda>(_, h1).
       kbind (mark_alloc_k4 (push_bit 2 b + 1) this h1) (\<lambda>(_, h2).
       kbind (mark_alloc_k4 (push_bit 2 b + 2) this h2) (\<lambda>(_, h3).
       kbind (mark_alloc_k4 (push_bit 2 b + 3) this h3) (\<lambda>(_, h4).
       kbind (mark_alloc_k8 (push_bit 1 b + 0) this h4) (\<lambda>(_, h5).
       kbind (mark_alloc_k8 (push_bit 1 b + 1) this h5) (\<lambda>(_, h6).
       kbind (mark_alloc_k16 b this h6) (\<lambda>(_, h7).
       kbind (mark_alloc_k32 (drop_bit 1 b) this h7) (\<lambda>(_, h8).
       Inr (push_bit 14 b, h8))))))))))"

text \<open>The loop \<^verbatim>\<open>for (int i = 0; i < 8; i++) mark_alloc_k4((bit << 3) + i);\<close>\<close>

fun mark_alloc_k4_run :: "nat \<Rightarrow> u32 \<Rightarrow> bptr \<Rightarrow> bheap \<Rightarrow> bheap res" where
  "mark_alloc_k4_run 0 base this h = Inr h"
| "mark_alloc_k4_run (Suc n) base this h =
    kbind (mark_alloc_k4_run n base this h) (\<lambda>h1.
    kbind (mark_alloc_k4 (base + of_nat n) this h1) (\<lambda>(_, h2). Inr h2))"

definition alloc_32768 :: "bptr \<Rightarrow> bheap \<Rightarrow> (u32 \<times> bheap) res" where
  "alloc_32768 this h =
    kbind (builtin_ctz (k32 (h this))) (\<lambda>c.
    let b = of_nat c :: u32
    in kbind (mark_alloc_k32 b this h) (\<lambda>(_, h1).
       kbind (mark_alloc_k4_run 8 (push_bit 3 b) this h1) (\<lambda>h2.
       kbind (mark_alloc_k8 (push_bit 2 b + 0) this h2) (\<lambda>(_, h3).
       kbind (mark_alloc_k8 (push_bit 2 b + 1) this h3) (\<lambda>(_, h4).
       kbind (mark_alloc_k8 (push_bit 2 b + 2) this h4) (\<lambda>(_, h5).
       kbind (mark_alloc_k8 (push_bit 2 b + 3) this h5) (\<lambda>(_, h6).
       kbind (mark_alloc_k16 (push_bit 1 b + 0) this h6) (\<lambda>(_, h7).
       kbind (mark_alloc_k16 (push_bit 1 b + 1) this h7) (\<lambda>(_, h8).
       Inr (push_bit 15 b, h8))))))))))"

definition alloc_N :: "level \<Rightarrow> bptr \<Rightarrow> bheap \<Rightarrow> (u32 \<times> bheap) res" where
  "alloc_N l = (case l of K4 \<Rightarrow> alloc_4096 | K8 \<Rightarrow> alloc_8192 | K16 \<Rightarrow> alloc_16384 | K32 \<Rightarrow> alloc_32768)"

text \<open>\<open>free_down<N>\<close> gives the halves of a block back to the smaller maps.\<close>

definition free_down_8192 :: "u32 \<Rightarrow> bptr \<Rightarrow> bheap \<Rightarrow> bheap res" where
  "free_down_8192 index0 this h =
    (let index = push_bit 1 index0
     in kbind (mark_free_k4 index this h) (\<lambda>h1. mark_free_k4 (index XOR 1) this h1))"

definition free_down_16384 :: "u32 \<Rightarrow> bptr \<Rightarrow> bheap \<Rightarrow> bheap res" where
  "free_down_16384 index0 this h =
    (let index = push_bit 1 index0
     in kbind (mark_free_k8 index this h) (\<lambda>h1.
        kbind (free_down_8192 index this h1) (\<lambda>h2.
        kbind (mark_free_k8 (index XOR 1) this h2) (\<lambda>h3.
        free_down_8192 (index XOR 1) this h3))))"

definition free_down_32768 :: "u32 \<Rightarrow> bptr \<Rightarrow> bheap \<Rightarrow> bheap res" where
  "free_down_32768 index0 this h =
    (let index = push_bit 1 index0
     in kbind (mark_free_k16 index this h) (\<lambda>h1.
        kbind (free_down_16384 index this h1) (\<lambda>h2.
        kbind (mark_free_k16 (index XOR 1) this h2) (\<lambda>h3.
        free_down_16384 (index XOR 1) this h3))))"

definition free_down :: "level \<Rightarrow> u32 \<Rightarrow> bptr \<Rightarrow> bheap \<Rightarrow> bheap res" where
  "free_down l index this h =
    (case l of K4 \<Rightarrow> Inr h | K8 \<Rightarrow> free_down_8192 index this h
     | K16 \<Rightarrow> free_down_16384 index this h | K32 \<Rightarrow> free_down_32768 index this h)"

text \<open>\<open>free_up<N>\<close> marks a block free and goes on to the double size when its buddy is free too.\<close>

definition free_up_32768 :: "u32 \<Rightarrow> bptr \<Rightarrow> bheap \<Rightarrow> bheap res" where
  "free_up_32768 index this h = mark_free_k32 index this h"

definition free_up_16384 :: "u32 \<Rightarrow> bptr \<Rightarrow> bheap \<Rightarrow> bheap res" where
  "free_up_16384 index0 this h =
    kbind (mark_free_k16 index0 this h) (\<lambda>h1.
    let index = index0 XOR 1;
        b = push_bit (unat index) 1
    in if k16 (h1 this) AND b \<noteq> 0 then free_up_32768 (drop_bit 1 index) this h1 else Inr h1)"

definition free_up_8192 :: "u32 \<Rightarrow> bptr \<Rightarrow> bheap \<Rightarrow> bheap res" where
  "free_up_8192 index0 this h =
    kbind (mark_free_k8 index0 this h) (\<lambda>h1.
    let index = index0 XOR 1;
        arr_index = unat (drop_bit 5 index);
        b = push_bit (unat (index AND 0x1F)) 1
    in kbind (array_read (k8 (h1 this)) arr_index) (\<lambda>w.
       if w AND b \<noteq> 0 then free_up_16384 (drop_bit 1 index) this h1 else Inr h1))"

definition free_up_4096 :: "u32 \<Rightarrow> bptr \<Rightarrow> bheap \<Rightarrow> bheap res" where
  "free_up_4096 index0 this h =
    kbind (mark_free_k4 index0 this h) (\<lambda>h1.
    let index = index0 XOR 1;
        arr_index = unat (drop_bit 5 index);
        b = push_bit (unat (index AND 0x1F)) 1
    in kbind (array_read (k4 (h1 this)) arr_index) (\<lambda>w.
       if w AND b \<noteq> 0 then free_up_8192 (drop_bit 1 index) this h1 else Inr h1))"

definition free_up :: "level \<Rightarrow> u32 \<Rightarrow> bptr \<Rightarrow> bheap \<Rightarrow> bheap res" where
  "free_up l = (case l of K4 \<Rightarrow> free_up_4096 | K8 \<Rightarrow> free_up_8192
     | K16 \<Rightarrow> free_up_16384 | K32 \<Rightarrow> free_up_32768)"

definition buddy_free :: "level \<Rightarrow> u32 \<Rightarrow> bptr \<Rightarrow> bheap \<Rightarrow> bheap res" where
  "buddy_free l index this h =
    kbind (free_up l index this h) (\<lambda>h1. free_down l index this h1)"

end
