(* ===== verification/Machine.thy ===== *)
theory Machine
  imports Cstr Buddy
begin

section \<open>The machine state of the kernel\<close>

text \<open>
  The globals that the memory manager and the scheduler share, and the scoped locks of
  \<^verbatim>\<open>kernel/util/lock.hpp\<close>. Memory is physical memory, byte by byte, in the kernel's own view: index
  \<open>a\<close> is the physical address \<open>a - 0xC0000000\<close>, so a pointer into the identity-mapped kernel region
  (\<^verbatim>\<open>phys_t::to_virt\<close>) is used as it is. An access through another mapping goes through the page
  tables (\<open>walk\<close> in the theory \<open>Kmem\<close>).
\<close>

subsection \<open>Words in memory\<close>

definition load32 :: "mem \<Rightarrow> u32 \<Rightarrow> u32" where
  "load32 m a = ucast (m a) OR push_bit 8 (ucast (m (a + 1))) OR push_bit 16 (ucast (m (a + 2)))
     OR push_bit 24 (ucast (m (a + 3)))"

definition store32 :: "u32 \<Rightarrow> u32 \<Rightarrow> mem \<Rightarrow> mem" where
  "store32 a v m = m(a := ucast v, a + 1 := ucast (drop_bit 8 v), a + 2 := ucast (drop_bit 16 v),
     a + 3 := ucast (drop_bit 24 v))"

definition aligned4 :: "u32 \<Rightarrow> bool" where
  "aligned4 a \<longleftrightarrow> 4 dvd unat a"

lemma word_plus_neq [simp]: "a + c = a \<longleftrightarrow> c = 0" for a c :: "'a::len word"
  by simp

lemma load32_store32_same [simp]: "load32 (store32 a v m) a = v"
proof -
  have "a + 3 \<noteq> a + 2" "a + 3 \<noteq> a + 1" "a + 2 \<noteq> a + 1" "a + 3 \<noteq> a" "a + 2 \<noteq> a" "a + 1 \<noteq> a"
    by simp_all
  then have "load32 (store32 a v m) a = ucast (ucast v :: u8) OR push_bit 8 (ucast (ucast (drop_bit 8 v) :: u8))
      OR push_bit 16 (ucast (ucast (drop_bit 16 v) :: u8)) OR push_bit 24 (ucast (ucast (drop_bit 24 v) :: u8))"
    unfolding load32_def store32_def by simp
  also have "\<dots> = v"
  proof (rule bit_word_eqI)
    fix n
    assume "n < LENGTH(32)"
    then consider "n < 8" | "8 \<le> n" "n < 16" | "16 \<le> n" "n < 24" | "24 \<le> n" "n < 32"
      by force
    then show "bit (ucast (ucast v :: u8) OR push_bit 8 (ucast (ucast (drop_bit 8 v) :: u8))
      OR push_bit 16 (ucast (ucast (drop_bit 16 v) :: u8)) OR push_bit 24 (ucast (ucast (drop_bit 24 v) :: u8)) :: u32) n = bit v n"
      by cases (auto simp: bit_simps)
  qed
  finally show ?thesis .
qed

lemma aligned4_offset:
  assumes "aligned4 a" and "i < 4"
  shows "unat (a + of_nat i) = unat a + i"
proof -
  obtain k where k: "unat a = 4 * k"
    using assms(1) by (auto simp: aligned4_def)
  then have "k < 1073741824"
    using unat_less_32 [of a] by simp
  with k assms(2) show ?thesis
    by (intro unat_add_of_nat) simp
qed

lemma aligned4_neq:
  assumes "aligned4 a" and "aligned4 b" and "a \<noteq> b" and "i < 4" and "j < 4"
  shows "a + of_nat i \<noteq> b + of_nat j"
proof
  assume "a + of_nat i = b + of_nat j"
  then have "unat a + i = unat b + j"
    using aligned4_offset assms by metis
  moreover obtain k k' where "unat a = 4 * k" "unat b = 4 * k'"
    using assms(1,2) unfolding aligned4_def by (elim dvdE)
  ultimately have "unat a = unat b"
    using assms(4,5) by presburger
  with assms(3) show False by (simp add: word_unat_eq_iff)
qed

lemma load32_store32_other:
  assumes "aligned4 a" and "aligned4 b" and "a \<noteq> b"
  shows "load32 (store32 a v m) b = load32 m b"
proof -
  have "b + of_nat j \<noteq> a + of_nat i" if "i < 4" "j < 4" for i j
    using aligned4_neq [OF assms(2,1)] assms(3) that by metis
  from this [of 0 0] this [of 0 1] this [of 0 2] this [of 0 3] this [of 1 0] this [of 1 1] this [of 1 2]
    this [of 1 3] this [of 2 0] this [of 2 1] this [of 2 2] this [of 2 3] this [of 3 0] this [of 3 1]
    this [of 3 2] this [of 3 3]
  show ?thesis
    by (simp add: load32_def store32_def)
qed

lemma load32_cong: "(\<And>i. i < 4 \<Longrightarrow> m (a + of_nat i) = m' (a + of_nat i)) \<Longrightarrow> load32 m a = load32 m' a"
proof -
  assume eq: "\<And>i. i < 4 \<Longrightarrow> m (a + of_nat i) = m' (a + of_nat i)"
  from eq [of 0] eq [of 1] eq [of 2] eq [of 3] show ?thesis
    by (simp add: load32_def)
qed

lemma load32_memset_0:
  assumes "\<And>i. i < 4 \<Longrightarrow> in_range p (unat n) (a + of_nat i)"
  shows "load32 (memset p 0 n m) a = 0"
proof -
  from assms [of 0] assms [of 1] assms [of 2] assms [of 3] show ?thesis
    by (simp add: load32_def memset_eq)
qed

lemma load32_memset_other:
  "(\<And>i. i < 4 \<Longrightarrow> \<not> in_range p (unat n) (a + of_nat i)) \<Longrightarrow> load32 (memset p v n m) a = load32 m a"
  by (intro load32_cong) (simp add: memset_eq)

subsection \<open>Globals\<close>

text \<open>
  The record holds the flags of the CPU (\<open>if_flag\<close> is bit 9 of EFLAGS), the counters of the scheduler
  and of the interrupt layer, the \<open>hmem_end\<close> of the current task's \<^verbatim>\<open>task_internal\<close>, and the globals
  of \<^verbatim>\<open>page_allocator.cpp\<close>. The entries of \<open>buddy_array\<close> and the four list heads are \<open>buds\<close>.
\<close>

record kstate =
  if_flag :: bool
  preempt_counter :: u32
  interrupt_context_depth :: int
  current_task :: "u32 option"
  hmem_end :: u32
  cr3 :: u32
  kmem :: mem
  buds :: bheap
  buddy_array :: u32
  buddy_array_pos :: u32
  buddy_array_size :: u32
  kmem_phys_end :: u32
  kmem_region_end :: u32
  hmem_phys_end :: u32
  hmem_phys_list :: u32
  first_page_directory :: u32

type_synonym 'a kop = "kstate \<Rightarrow> ('a \<times> kstate) res"

subsection \<open>Scoped locks\<close>

text \<open>
  \<^verbatim>\<open>scoped_intlock\<close> saves the flags, clears the interrupt flag for its scope, and sets the flag again
  only when it was set before. \<^verbatim>\<open>scoped_preemptlock\<close> counts up for its scope; \<^verbatim>\<open>preempt_down\<close> asserts
  that the counter was not zero.
\<close>

definition scoped_intlock :: "'a kop \<Rightarrow> 'a kop" where
  "scoped_intlock body st =
    kbind (body (st\<lparr>if_flag := False\<rparr>)) (\<lambda>(r, st').
    Inr (r, if if_flag st then st'\<lparr>if_flag := True\<rparr> else st'))"

definition preempt_up :: "kstate \<Rightarrow> kstate" where
  "preempt_up st = st\<lparr>preempt_counter := preempt_counter st + 1\<rparr>"

definition preempt_down :: "kstate \<Rightarrow> kstate res" where
  "preempt_down st =
    (let new_val = preempt_counter st - 1
     in kbind (kassert (new_val \<noteq> - 1)) (\<lambda>_. Inr (st\<lparr>preempt_counter := new_val\<rparr>)))"

definition scoped_preemptlock :: "'a kop \<Rightarrow> 'a kop" where
  "scoped_preemptlock body st =
    kbind (body (preempt_up st)) (\<lambda>(r, st'). kbind (preempt_down st') (\<lambda>st''. Inr (r, st'')))"

definition is_interrupt_context :: "kstate \<Rightarrow> bool" where
  "is_interrupt_context st \<longleftrightarrow> interrupt_context_depth st \<noteq> 0"

text \<open>\<^verbatim>\<open>interrupts::reduce_interrupt_depth\<close> and \<^verbatim>\<open>get_interrupt_context_depth\<close> of \<^verbatim>\<open>kernel/interrupts/init.cpp\<close>.\<close>

definition get_interrupt_context_depth :: "kstate \<Rightarrow> int" where
  "get_interrupt_context_depth st = interrupt_context_depth st"

definition reduce_interrupt_depth :: "kstate \<Rightarrow> kstate res" where
  "reduce_interrupt_depth st =
    (let dep = interrupt_context_depth st - 1
     in kbind (kassert (0 \<le> dep)) (\<lambda>_. Inr (st\<lparr>interrupt_context_depth := dep\<rparr>)))"

lemma preempt_up_down:
  "preempt_counter st' = preempt_counter st + 1 \<Longrightarrow> preempt_counter st \<noteq> - 1 \<Longrightarrow>
    preempt_down st' = Inr (st'\<lparr>preempt_counter := preempt_counter st\<rparr>)"
  by (simp add: preempt_down_def Let_def)

text \<open>
  A body that leaves the interrupt flag alone returns under the lock with the flag of the caller.
\<close>

lemma scoped_intlock_eq:
  assumes "body (st\<lparr>if_flag := False\<rparr>) = Inr (r, st')" and "\<not> if_flag st'"
  shows "scoped_intlock body st = Inr (r, st'\<lparr>if_flag := if_flag st\<rparr>)"
  using assms by (cases "if_flag st") (simp_all add: scoped_intlock_def)

end
