(* ===== verification/Buddy_Spec.thy ===== *)
theory Buddy_Spec
  imports Buddy
begin

section \<open>What marking a block does\<close>

text \<open>
  The abstraction of a buddy is, for each level, the set of its free blocks. Marking removes or adds
  one element at one level and keeps the free list of that level: a buddy is linked at a level
  exactly when it has a free block there. The relations \<open>marked_alloc\<close> and \<open>marked_free\<close> state this
  effect; every operation of the next theory is a sequence of them.
\<close>

subsection \<open>Free blocks and links\<close>

definition level_bits :: "level \<Rightarrow> buddy_data \<Rightarrow> nat set" where
  "level_bits l b = (case l of K4 \<Rightarrow> word_bits (k4 b) | K8 \<Rightarrow> word_bits (k8 b)
     | K16 \<Rightarrow> {i. bit (k16 b) i} | K32 \<Rightarrow> {i. bit (k32 b) i})"

definition nblocks :: "level \<Rightarrow> nat" where
  "nblocks l = (case l of K4 \<Rightarrow> 128 | K8 \<Rightarrow> 64 | K16 \<Rightarrow> 32 | K32 \<Rightarrow> 16)"

definition buddy_wf :: "buddy_data \<Rightarrow> bool" where
  "buddy_wf b \<longleftrightarrow> length (k4 b) = 4 \<and> length (k8 b) = 2"

definition links :: "bheap \<Rightarrow> level \<Rightarrow> bptr \<Rightarrow> bptr option \<times> bptr option" where
  "links h l q = (prev_N (h q) l, next_N (h q) l)"

lemma level_bits_simps [simp]:
  "level_bits K4 b = word_bits (k4 b)" "level_bits K8 b = word_bits (k8 b)"
  "level_bits K16 b = {i. bit (k16 b) i}" "level_bits K32 b = {i. bit (k32 b) i}"
  by (simp_all add: level_bits_def)

lemma level_bits_bound: "buddy_wf b \<Longrightarrow> level_bits l b \<subseteq> {..<nblocks l}"
  by (cases l) (auto simp: nblocks_def buddy_wf_def dest: word_bits_bound bit_imp_le_length)

lemma set_link_bits [simp]:
  "k4 (set_next l q v h p) = k4 (h p)" "k4 (set_prev l q v h p) = k4 (h p)"
  "k8 (set_next l q v h p) = k8 (h p)" "k8 (set_prev l q v h p) = k8 (h p)"
  "k16 (set_next l q v h p) = k16 (h p)" "k16 (set_prev l q v h p) = k16 (h p)"
  "k32 (set_next l q v h p) = k32 (h p)" "k32 (set_prev l q v h p) = k32 (h p)"
  by (simp_all add: set_next_def set_prev_def)

lemma unlink_bits [simp]:
  "k4 (unlink_N l t h p) = k4 (h p)" "k8 (unlink_N l t h p) = k8 (h p)"
  "k16 (unlink_N l t h p) = k16 (h p)" "k32 (unlink_N l t h p) = k32 (h p)"
  by (simp_all add: unlink_N_def Let_def split: option.split)

lemma link_bits [simp]:
  "k4 (link_N l t h p) = k4 (h p)" "k8 (link_N l t h p) = k8 (h p)"
  "k16 (link_N l t h p) = k16 (h p)" "k32 (link_N l t h p) = k32 (h p)"
  by (simp_all add: link_N_def Let_def split: option.split)

text \<open>The same updates on the link functions alone.\<close>

type_synonym link_map = "level \<Rightarrow> bptr \<Rightarrow> bptr option \<times> bptr option"

definition upd_next :: "level \<Rightarrow> bptr \<Rightarrow> bptr option \<Rightarrow> link_map \<Rightarrow> link_map" where
  "upd_next l q v L = (\<lambda>l' q'. if l' = l \<and> q' = q then (fst (L l q), v) else L l' q')"

definition upd_prev :: "level \<Rightarrow> bptr \<Rightarrow> bptr option \<Rightarrow> link_map \<Rightarrow> link_map" where
  "upd_prev l q v L = (\<lambda>l' q'. if l' = l \<and> q' = q then (v, snd (L l q)) else L l' q')"

definition unlink_map :: "level \<Rightarrow> bptr \<Rightarrow> link_map \<Rightarrow> link_map" where
  "unlink_map l t L =
    (let L1 = (case fst (L l t) of None \<Rightarrow> L | Some q \<Rightarrow> upd_next l q (snd (L l t)) L);
         L2 = (case snd (L1 l t) of None \<Rightarrow> L1 | Some q \<Rightarrow> upd_prev l q (fst (L1 l t)) L1)
     in upd_prev l t None (upd_next l t None L2))"

definition link_map_front :: "level \<Rightarrow> bptr \<Rightarrow> link_map \<Rightarrow> link_map" where
  "link_map_front l t L =
    (let L1 = upd_next l t (snd (L l (First l))) L;
         L2 = (case snd (L1 l t) of None \<Rightarrow> L1 | Some q \<Rightarrow> upd_prev l q (Some t) L1)
     in upd_next l (First l) (Some t) (upd_prev l t (Some (First l)) L2))"

lemma set_link_links [simp]:
  "links (set_next l q v h) = upd_next l q v (links h)"
  "links (set_prev l q v h) = upd_prev l q v (links h)"
  by (auto simp: links_def set_next_def set_prev_def upd_next_def upd_prev_def fun_eq_iff)

lemma prev_next_links: "prev_N (h q) l = fst (links h l q)" "next_N (h q) l = snd (links h l q)"
  by (simp_all add: links_def)

lemma unlink_links: "links (unlink_N l t h) = unlink_map l t (links h)"
  by (auto simp: unlink_N_def unlink_map_def Let_def prev_next_links split: option.split)

lemma link_links: "links (link_N l t h) = link_map_front l t (links h)"
  by (auto simp: link_N_def link_map_front_def Let_def prev_next_links split: option.split)

lemma links_upd_bits [simp]:
  "links (h(q := (h q)\<lparr>k4 := w4\<rparr>)) = links h" "links (h(q := (h q)\<lparr>k8 := w8\<rparr>)) = links h"
  "links (h(q := (h q)\<lparr>k16 := w16\<rparr>)) = links h" "links (h(q := (h q)\<lparr>k32 := w32\<rparr>)) = links h"
  by (auto simp: links_def fun_eq_iff)

subsection \<open>The effect of the mark operations\<close>

definition marked_alloc :: "level \<Rightarrow> nat \<Rightarrow> bptr \<Rightarrow> bheap \<Rightarrow> bheap \<Rightarrow> bool" where
  "marked_alloc l i this h h' \<longleftrightarrow>
    (\<forall>q l'. level_bits l' (h' q) =
       (if q = this \<and> l' = l then level_bits l' (h q) - {i} else level_bits l' (h q))) \<and>
    (\<forall>q. buddy_wf (h' q) = buddy_wf (h q)) \<and>
    links h' = (if level_bits l (h this) - {i} = {} then unlink_map l this (links h) else links h)"

definition marked_free :: "level \<Rightarrow> nat \<Rightarrow> bptr \<Rightarrow> bheap \<Rightarrow> bheap \<Rightarrow> bool" where
  "marked_free l i this h h' \<longleftrightarrow>
    (\<forall>q l'. level_bits l' (h' q) =
       (if q = this \<and> l' = l then insert i (level_bits l' (h q)) else level_bits l' (h q))) \<and>
    (\<forall>q. buddy_wf (h' q) = buddy_wf (h q)) \<and>
    links h' = (if prev_N (h this) l = None \<and> level_bits l (h this) = {}
      then link_map_front l this (links h) else links h)"

lemma length4: "length xs = 4 \<Longrightarrow> (\<forall>x \<in> set xs. P x) \<longleftrightarrow> P (xs ! 0) \<and> P (xs ! 1) \<and> P (xs ! 2) \<and> P (xs ! 3)"
  by (auto simp: all_set_conv_all_nth less_Suc_eq numeral_eq_Suc)

lemma length2: "length xs = 2 \<Longrightarrow> (\<forall>x \<in> set xs. P x) \<longleftrightarrow> P (xs ! 0) \<and> P (xs ! 1)"
  by (auto simp: all_set_conv_all_nth less_Suc_eq numeral_eq_Suc)

lemma k4_zero_iff: "length (k4 b) = 4 \<Longrightarrow> k4_zero b \<longleftrightarrow> word_bits (k4 b) = {}"
  using length4 [of "k4 b" "\<lambda>w. w = 0"] by (simp add: k4_zero_def word_bits_empty_iff)

lemma k8_zero_iff: "length (k8 b) = 2 \<Longrightarrow> k8_zero b \<longleftrightarrow> word_bits (k8 b) = {}"
  using length2 [of "k8 b" "\<lambda>w. w = 0"] by (simp add: k8_zero_def word_bits_empty_iff)

lemma bits_empty_iff: "{i. bit w i} = {} \<longleftrightarrow> w = 0" for w :: "'a::len word"
  using word_neq_0_bit [of w] bit_imp_le_length [of w] by blast

lemma and_not_and [simp]: "w AND (NOT w OR NOT b) = w AND NOT b" for w b :: "'a::len word"
  by (rule bit_word_eqI) (auto simp: bit_simps)

lemma marked_allocI:
  assumes "\<And>q l'. level_bits l' (h1 q) =
      (if q = this \<and> l' = l then level_bits l' (h q) - {i} else level_bits l' (h q))"
    and "\<And>q. buddy_wf (h1 q) = buddy_wf (h q)" and "links h1 = links h"
    and "h' = (if level_bits l (h this) - {i} = {} then unlink_N l this h1 else h1)"
  shows "marked_alloc l i this h h'"
proof -
  have "level_bits l' (h' q) = level_bits l' (h1 q)" "buddy_wf (h' q) = buddy_wf (h1 q)" for q l'
    unfolding assms(4) by (cases l'; simp add: buddy_wf_def)+
  moreover have "links h' = (if level_bits l (h this) - {i} = {} then unlink_map l this (links h) else links h)"
    unfolding assms(4) using assms(3) by (simp add: unlink_links)
  ultimately show ?thesis
    using assms(1,2) by (simp add: marked_alloc_def)
qed

lemma marked_freeI:
  assumes "\<And>q l'. level_bits l' (h' q) =
      (if q = this \<and> l' = l then insert i (level_bits l' (h1 q)) else level_bits l' (h1 q))"
    and "\<And>q. buddy_wf (h' q) = buddy_wf (h1 q)" and "links h' = links h1"
    and "h1 = (if prev_N (h this) l = None \<and> level_bits l (h this) = {} then link_N l this h else h)"
  shows "marked_free l i this h h'"
proof -
  have "level_bits l' (h1 q) = level_bits l' (h q)" "buddy_wf (h1 q) = buddy_wf (h q)" for q l'
    unfolding assms(4) by (cases l'; simp add: buddy_wf_def)+
  moreover have "links h1 = (if prev_N (h this) l = None \<and> level_bits l (h this) = {}
      then link_map_front l this (links h) else links h)"
    unfolding assms(4) by (simp add: link_links)
  ultimately show ?thesis
    using assms(1-3) by (simp add: marked_free_def)
qed

lemma mark_alloc_k4_spec:
  assumes wf: "buddy_wf (h this)" and i: "unat i < 128"
  shows "\<exists>r h'. mark_alloc_k4 i this h = Inr (r, h') \<and>
    (r \<noteq> 0 \<longleftrightarrow> unat i \<in> level_bits K4 (h this)) \<and> marked_alloc K4 (unat i) this h h'"
proof -
  let ?q = "unat (drop_bit 5 i)" and ?ws = "k4 (h this)"
  let ?b = "push_bit (unat (i AND 0x1F)) 1 :: u32"
  have q: "?q = unat i div 32" "unat i div 32 < length ?ws" "length ?ws = 4"
    using wf i by (auto simp: buddy_wf_def unat_simps)
  define ws where "ws = ?ws[?q := ?ws ! ?q AND NOT (?ws ! ?q AND ?b)]"
  define h1 where "h1 = h(this := (h this)\<lparr>k4 := ws\<rparr>)"
  have ws: "length ws = 4" "word_bits ws = word_bits ?ws - {unat i}"
    using q by (simp_all add: ws_def unat_simps word_bits_and_not)
  have zero: "(k4 (h1 this) ! ?q = 0 \<and> k4_zero (h1 this)) = (word_bits ?ws - {unat i} = {})"
    using k4_zero_iff [of "h1 this"] word_bits_empty_iff [of ws] ws q nth_mem [of ?q ws]
    by (auto simp: h1_def)
  define h' where "h' = (if word_bits ?ws - {unat i} = {} then unlink_N K4 this h1 else h1)"
  have read: "array_read ?ws ?q = Inr (?ws ! ?q)"
    using q by simp
  have "mark_alloc_k4 i this h = Inr (?ws ! ?q AND ?b, h')"
    unfolding mark_alloc_k4_def Let_def read kbind_Inr ws_def [symmetric] h1_def [symmetric] zero h'_def
    by simp
  moreover have "marked_alloc K4 (unat i) this h h'"
  proof (rule marked_allocI [of h1])
    show "level_bits l' (h1 q) = (if q = this \<and> l' = K4 then level_bits l' (h q) - {unat i}
        else level_bits l' (h q))" for q l'
      using ws(2) by (cases l') (auto simp: h1_def)
  qed (use ws q in \<open>auto simp: h1_def h'_def buddy_wf_def\<close>)
  ultimately show ?thesis
    using q by (auto simp: word_bits_iff unat_simps)
qed

lemma mark_free_k4_spec:
  assumes wf: "buddy_wf (h this)" and i: "unat i < 128"
  shows "\<exists>h'. mark_free_k4 i this h = Inr h' \<and> marked_free K4 (unat i) this h h'"
proof -
  let ?q = "unat (drop_bit 5 i)"
  let ?b = "push_bit (unat (i AND 0x1F)) 1 :: u32"
  define h1 where "h1 = (if prev_N (h this) K4 = None \<and> level_bits K4 (h this) = {}
    then link_N K4 this h else h)"
  have ws: "k4 (h1 this) = k4 (h this)"
    by (simp add: h1_def)
  have q: "?q = unat i div 32" "unat i div 32 < length (k4 (h1 this))" "length (k4 (h this)) = 4"
    using wf i ws by (auto simp: buddy_wf_def unat_simps)
  have h1: "(if prev_N (h this) K4 = None \<and> k4_zero (h this) then link_N K4 this h else h) = h1"
    using q by (simp add: h1_def k4_zero_iff)
  define h' where "h' = h1(this := (h1 this)\<lparr>k4 := (k4 (h1 this))[?q := k4 (h1 this) ! ?q OR ?b]\<rparr>)"
  have read: "array_read (k4 (h1 this)) ?q = Inr (k4 (h1 this) ! ?q)"
    using q by simp
  have "mark_free_k4 i this h = Inr h'"
    unfolding mark_free_k4_def Let_def h1 read kbind_Inr h'_def ..
  moreover have "marked_free K4 (unat i) this h h'"
  proof (rule marked_freeI [of _ _ _ _ h1])
    show "level_bits l' (h' q) = (if q = this \<and> l' = K4 then insert (unat i) (level_bits l' (h1 q))
        else level_bits l' (h1 q))" for q l'
      using q by (cases l') (auto simp: h'_def unat_simps word_bits_or)
  qed (use ws q in \<open>auto simp: h1_def h'_def buddy_wf_def\<close>)
  ultimately show ?thesis by blast
qed

lemma mark_alloc_k8_spec:
  assumes wf: "buddy_wf (h this)" and i: "unat i < 64"
  shows "\<exists>r h'. mark_alloc_k8 i this h = Inr (r, h') \<and>
    (r \<noteq> 0 \<longleftrightarrow> unat i \<in> level_bits K8 (h this)) \<and> marked_alloc K8 (unat i) this h h'"
proof -
  let ?q = "unat (drop_bit 5 i)" and ?ws = "k8 (h this)"
  let ?b = "push_bit (unat (i AND 0x1F)) 1 :: u32"
  have q: "?q = unat i div 32" "unat i div 32 < length ?ws" "length ?ws = 2"
    using wf i by (auto simp: buddy_wf_def unat_simps)
  define ws where "ws = ?ws[?q := ?ws ! ?q AND NOT (?ws ! ?q AND ?b)]"
  define h1 where "h1 = h(this := (h this)\<lparr>k8 := ws\<rparr>)"
  have ws: "length ws = 2" "word_bits ws = word_bits ?ws - {unat i}"
    using q by (simp_all add: ws_def unat_simps word_bits_and_not)
  have zero: "(k8 (h1 this) ! ?q = 0 \<and> k8_zero (h1 this)) = (word_bits ?ws - {unat i} = {})"
    using k8_zero_iff [of "h1 this"] word_bits_empty_iff [of ws] ws q nth_mem [of ?q ws]
    by (auto simp: h1_def)
  define h' where "h' = (if word_bits ?ws - {unat i} = {} then unlink_N K8 this h1 else h1)"
  have read: "array_read ?ws ?q = Inr (?ws ! ?q)"
    using q by simp
  have "mark_alloc_k8 i this h = Inr (?ws ! ?q AND ?b, h')"
    unfolding mark_alloc_k8_def Let_def read kbind_Inr ws_def [symmetric] h1_def [symmetric] zero h'_def
    by simp
  moreover have "marked_alloc K8 (unat i) this h h'"
  proof (rule marked_allocI [of h1])
    show "level_bits l' (h1 q) = (if q = this \<and> l' = K8 then level_bits l' (h q) - {unat i}
        else level_bits l' (h q))" for q l'
      using ws(2) by (cases l') (auto simp: h1_def)
  qed (use ws q in \<open>auto simp: h1_def h'_def buddy_wf_def\<close>)
  ultimately show ?thesis
    using q by (auto simp: word_bits_iff unat_simps)
qed

lemma mark_free_k8_spec:
  assumes wf: "buddy_wf (h this)" and i: "unat i < 64"
  shows "\<exists>h'. mark_free_k8 i this h = Inr h' \<and> marked_free K8 (unat i) this h h'"
proof -
  let ?q = "unat (drop_bit 5 i)"
  let ?b = "push_bit (unat (i AND 0x1F)) 1 :: u32"
  define h1 where "h1 = (if prev_N (h this) K8 = None \<and> level_bits K8 (h this) = {}
    then link_N K8 this h else h)"
  have ws: "k8 (h1 this) = k8 (h this)"
    by (simp add: h1_def)
  have q: "?q = unat i div 32" "unat i div 32 < length (k8 (h1 this))" "length (k8 (h this)) = 2"
    using wf i ws by (auto simp: buddy_wf_def unat_simps)
  have h1: "(if prev_N (h this) K8 = None \<and> k8_zero (h this) then link_N K8 this h else h) = h1"
    using q by (simp add: h1_def k8_zero_iff)
  define h' where "h' = h1(this := (h1 this)\<lparr>k8 := (k8 (h1 this))[?q := k8 (h1 this) ! ?q OR ?b]\<rparr>)"
  have read: "array_read (k8 (h1 this)) ?q = Inr (k8 (h1 this) ! ?q)"
    using q by simp
  have "mark_free_k8 i this h = Inr h'"
    unfolding mark_free_k8_def Let_def h1 read kbind_Inr h'_def ..
  moreover have "marked_free K8 (unat i) this h h'"
  proof (rule marked_freeI [of _ _ _ _ h1])
    show "level_bits l' (h' q) = (if q = this \<and> l' = K8 then insert (unat i) (level_bits l' (h1 q))
        else level_bits l' (h1 q))" for q l'
      using q by (cases l') (auto simp: h'_def unat_simps word_bits_or)
  qed (use ws q in \<open>auto simp: h1_def h'_def buddy_wf_def\<close>)
  ultimately show ?thesis by blast
qed

lemma mark_alloc_k16_spec:
  assumes i: "unat i < 32"
  shows "\<exists>r h'. mark_alloc_k16 i this h = Inr (r, h') \<and>
    (r \<noteq> 0 \<longleftrightarrow> unat i \<in> level_bits K16 (h this)) \<and> marked_alloc K16 (unat i) this h h'"
proof -
  let ?w = "k16 (h this)" and ?b = "push_bit (unat i) 1 :: u32"
  have guard: "(32 \<le> i) = False"
    using i by (simp add: word_le_nat_alt)
  define h1 where "h1 = h(this := (h this)\<lparr>k16 := ?w AND NOT (?w AND ?b)\<rparr>)"
  have bits: "{j. bit (k16 (h1 this)) j} = {j. bit ?w j} - {unat i}"
    by (auto simp: h1_def bit_simps dest: bit_imp_le_length)
  then have zero: "(k16 (h1 this) = 0) = ({j. bit ?w j} - {unat i} = {})"
    using bits_empty_iff [of "k16 (h1 this)"] by simp
  define h' where "h' = (if {j. bit ?w j} - {unat i} = {} then unlink_N K16 this h1 else h1)"
  have "mark_alloc_k16 i this h = Inr (?w AND ?b, h')"
    unfolding mark_alloc_k16_def Let_def guard if_False h1_def [symmetric] zero h'_def by simp
  moreover have "marked_alloc K16 (unat i) this h h'"
  proof (rule marked_allocI [of h1])
    show "level_bits l' (h1 q) = (if q = this \<and> l' = K16 then level_bits l' (h q) - {unat i}
        else level_bits l' (h q))" for q l'
      using bits by (cases l') (auto simp: h1_def)
  qed (auto simp: h1_def h'_def buddy_wf_def)
  ultimately show ?thesis using i by auto
qed

lemma mark_free_k16_spec:
  assumes i: "unat i < 32"
  shows "\<exists>h'. mark_free_k16 i this h = Inr h' \<and> marked_free K16 (unat i) this h h'"
proof -
  have guard: "(32 \<le> i) = False"
    using i by (simp add: word_le_nat_alt)
  define h1 where "h1 = (if prev_N (h this) K16 = None \<and> level_bits K16 (h this) = {}
    then link_N K16 this h else h)"
  have h1: "(if prev_N (h this) K16 = None \<and> k16 (h this) = 0 then link_N K16 this h else h) = h1"
    using bits_empty_iff [of "k16 (h this)"] by (simp add: h1_def)
  define h' where "h' = h1(this := (h1 this)\<lparr>k16 := k16 (h1 this) OR push_bit (unat i) 1\<rparr>)"
  have "mark_free_k16 i this h = Inr h'"
    unfolding mark_free_k16_def Let_def guard if_False h1 h'_def ..
  moreover have "marked_free K16 (unat i) this h h'"
  proof (rule marked_freeI [of _ _ _ _ h1])
    show "level_bits l' (h' q) = (if q = this \<and> l' = K16 then insert (unat i) (level_bits l' (h1 q))
        else level_bits l' (h1 q))" for q l'
      using i by (cases l') (auto simp: h'_def bit_simps)
  qed (auto simp: h1_def h'_def buddy_wf_def)
  ultimately show ?thesis by blast
qed

lemma mark_alloc_k32_spec:
  assumes i: "unat i < 16"
  shows "\<exists>r h'. mark_alloc_k32 i this h = Inr (r, h') \<and>
    (r \<noteq> 0 \<longleftrightarrow> unat i \<in> level_bits K32 (h this)) \<and> marked_alloc K32 (unat i) this h h'"
proof -
  let ?w = "k32 (h this)" and ?b = "push_bit (unat i) 1 :: u32"
  have guard: "(32 \<le> i) = False"
    using i by (simp add: word_le_nat_alt)
  define h1 where "h1 = h(this := (h this)\<lparr>k32 := ucast (ucast ?w AND NOT (ucast ?w AND ?b))\<rparr>)"
  have bits: "{j. bit (k32 (h1 this)) j} = {j. bit ?w j} - {unat i}"
    by (auto simp: h1_def bit_simps dest: bit_imp_le_length)
  then have zero: "(k32 (h1 this) = 0) = ({j. bit ?w j} - {unat i} = {})"
    using bits_empty_iff [of "k32 (h1 this)"] by simp
  define h' where "h' = (if {j. bit ?w j} - {unat i} = {} then unlink_N K32 this h1 else h1)"
  have "mark_alloc_k32 i this h = Inr (ucast (ucast ?w AND ?b), h')"
    unfolding mark_alloc_k32_def Let_def guard if_False h1_def [symmetric] zero h'_def by simp
  moreover have "marked_alloc K32 (unat i) this h h'"
  proof (rule marked_allocI [of h1])
    show "level_bits l' (h1 q) = (if q = this \<and> l' = K32 then level_bits l' (h q) - {unat i}
        else level_bits l' (h q))" for q l'
      using bits by (cases l') (auto simp: h1_def)
  qed (auto simp: h1_def h'_def buddy_wf_def)
  moreover have "{j. bit (ucast (ucast ?w AND ?b) :: u16) j} = {j. bit ?w j} \<inter> {unat i}"
    using i by (auto simp: bit_simps dest: bit_imp_le_length)
  then have "(ucast (ucast ?w AND ?b) :: u16) \<noteq> 0 \<longleftrightarrow> unat i \<in> level_bits K32 (h this)"
    using bits_empty_iff [of "ucast (ucast ?w AND ?b) :: u16"] by auto
  ultimately show ?thesis by blast
qed

lemma mark_free_k32_spec:
  assumes i: "unat i < 16"
  shows "\<exists>h'. mark_free_k32 i this h = Inr h' \<and> marked_free K32 (unat i) this h h'"
proof -
  have guard: "(32 \<le> i) = False"
    using i by (simp add: word_le_nat_alt)
  define h1 where "h1 = (if prev_N (h this) K32 = None \<and> level_bits K32 (h this) = {}
    then link_N K32 this h else h)"
  have h1: "(if prev_N (h this) K32 = None \<and> k32 (h this) = 0 then link_N K32 this h else h) = h1"
    using bits_empty_iff [of "k32 (h this)"] by (simp add: h1_def)
  define h' where "h' = h1(this := (h1 this)\<lparr>k32 := ucast (ucast (k32 (h1 this)) OR push_bit (unat i) (1 :: u32))\<rparr>)"
  have "mark_free_k32 i this h = Inr h'"
    unfolding mark_free_k32_def Let_def guard if_False h1 h'_def ..
  moreover have "marked_free K32 (unat i) this h h'"
  proof (rule marked_freeI [of _ _ _ _ h1])
    show "level_bits l' (h' q) = (if q = this \<and> l' = K32 then insert (unat i) (level_bits l' (h1 q))
        else level_bits l' (h1 q))" for q l'
      using i by (cases l') (auto simp: h'_def bit_simps dest: bit_imp_le_length)
  qed (auto simp: h1_def h'_def buddy_wf_def)
  ultimately show ?thesis by blast
qed

end
