(* ===== verification/Buddy_Lists.thy ===== *)
theory Buddy_Lists
  imports Buddy_Spec
begin

section \<open>The free lists\<close>

text \<open>
  The free list of a level as a list of buddy numbers: from the head the next pointers run through
  the list and end with null, and each prev pointer points back. The invariant of a level says that
  the list holds exactly the buddies with a free block of that level, and that every other buddy
  has null links. Marking a block keeps it at every level.
\<close>

subsection \<open>Chains of links\<close>

type_synonym level_links = "bptr \<Rightarrow> bptr option \<times> bptr option"

fun chain :: "level_links \<Rightarrow> bptr \<Rightarrow> nat list \<Rightarrow> bool" where
  "chain M p [] \<longleftrightarrow> snd (M p) = None"
| "chain M p (x # xs) \<longleftrightarrow> snd (M p) = Some (Bud x) \<and> fst (M (Bud x)) = Some p \<and> chain M (Bud x) xs"

lemma chain_cong:
  assumes "snd (M p) = snd (M' p)" and "\<And>x. x \<in> set xs \<Longrightarrow> M (Bud x) = M' (Bud x)"
  shows "chain M p xs = chain M' p xs"
  using assms by (induction xs arbitrary: p) auto

lemma chain_last_prev: "chain M p (xs @ x # ys) \<Longrightarrow> fst (M (Bud x)) = Some (if xs = [] then p else Bud (last xs))"
  by (induction xs arbitrary: p) auto

lemma chain_next: "chain M p (xs @ x # ys) \<Longrightarrow>
    snd (M (Bud x)) = (case ys of [] \<Rightarrow> None | y # _ \<Rightarrow> Some (Bud y))"
  by (induction xs arbitrary: p) (auto split: list.split)

text \<open>Taking \<open>t\<close> out of a chain, on the links of one level.\<close>

definition cut :: "bptr \<Rightarrow> level_links \<Rightarrow> level_links" where
  "cut t M = (\<lambda>q. if q = t then (None, None)
     else (if snd (M t) = Some q then fst (M t) else fst (M q),
           if fst (M t) = Some q then snd (M t) else snd (M q)))"

lemma unlink_map_other: "l' \<noteq> l \<Longrightarrow> unlink_map l t L l' = L l'"
  by (auto simp: unlink_map_def upd_next_def upd_prev_def Let_def fun_eq_iff split: option.split)

lemma unlink_map_cut:
  "fst (L l t) \<noteq> Some t \<Longrightarrow> snd (L l t) \<noteq> Some t \<Longrightarrow> unlink_map l t L l = cut t (L l)"
  by (cases "fst (L l t)"; cases "snd (L l t)")
    (auto simp: unlink_map_def cut_def upd_next_def upd_prev_def Let_def fun_eq_iff)

lemma chain_cut:
  assumes "chain M p (xs @ x # ys)" and "distinct (xs @ x # ys)" and "p \<notin> Bud ` set (xs @ x # ys)"
  shows "chain (cut (Bud x) M) p (xs @ ys)"
  using assms
proof (induction xs arbitrary: p)
  case Nil
  then have M: "snd (M p) = Some (Bud x)" "fst (M (Bud x)) = Some p" "chain M (Bud x) ys" "p \<noteq> Bud x"
    by auto
  show ?case
  proof (cases ys)
    case Nil
    with M show ?thesis by (simp add: cut_def)
  next
    case (Cons y zs)
    have "chain (cut (Bud x) M) (Bud y) zs = chain M (Bud y) zs"
      using M Nil.prems Cons by (intro chain_cong) (auto simp: cut_def)
    with M Cons Nil.prems show ?thesis by (auto simp: cut_def)
  qed
next
  case (Cons z zs)
  have tail: "chain (cut (Bud x) M) (Bud z) (zs @ ys)"
    by (rule Cons.IH) (use Cons.prems in auto)
  have p: "p \<noteq> Bud x" "p \<noteq> Bud z" "p \<noteq> Bud (last (z # zs))"
    using Cons.prems(3) by (auto simp: image_iff split: if_splits)
  have prev: "fst (M (Bud x)) = Some (Bud (last (z # zs)))"
    using chain_last_prev [OF Cons.prems(1)] by simp
  have nz: "snd (M (Bud x)) \<noteq> Some (Bud z)"
    using chain_next [OF Cons.prems(1)] Cons.prems(2) by (auto split: list.splits)
  have "z \<noteq> x" using Cons.prems(2) by auto
  with tail p prev nz Cons.prems(1) show ?case
    by (auto simp: cut_def split: if_splits)
qed

text \<open>Putting \<open>t\<close>, whose own links do not matter, in front of the chain of a list head.\<close>

definition push :: "bptr \<Rightarrow> bptr \<Rightarrow> level_links \<Rightarrow> level_links" where
  "push anchor t M = (\<lambda>q. if q = t then (Some anchor, snd (M anchor))
     else (if snd (M anchor) = Some q then Some t else fst (M q), if q = anchor then Some t else snd (M q)))"

lemma link_map_front_other: "l' \<noteq> l \<Longrightarrow> link_map_front l t L l' = L l'"
  by (auto simp: link_map_front_def upd_next_def upd_prev_def Let_def fun_eq_iff split: option.split)

lemma link_map_front_push:
  "t \<noteq> First l \<Longrightarrow> snd (L l (First l)) \<noteq> Some t \<Longrightarrow> link_map_front l t L l = push (First l) t (L l)"
  by (cases "snd (L l (First l))")
    (auto simp: link_map_front_def push_def upd_next_def upd_prev_def Let_def fun_eq_iff)

lemma chain_push:
  assumes "chain M anchor xs" and "distinct (x # xs)" and "anchor \<notin> Bud ` set (x # xs)"
  shows "chain (push anchor (Bud x) M) anchor (x # xs)"
proof (cases xs)
  case Nil
  with assms show ?thesis by (auto simp: push_def)
next
  case (Cons y zs)
  have "chain (push anchor (Bud x) M) (Bud y) zs = chain M (Bud y) zs"
    using assms Cons by (intro chain_cong) (auto simp: push_def)
  with assms Cons show ?thesis by (auto simp: push_def)
qed

subsection \<open>The invariant of a level\<close>

definition free_list :: "nat \<Rightarrow> level \<Rightarrow> bheap \<Rightarrow> nat list \<Rightarrow> bool" where
  "free_list n l h xs \<longleftrightarrow> chain (links h l) (First l) xs \<and> distinct xs \<and>
    set xs = {i. i < n \<and> level_bits l (h (Bud i)) \<noteq> {}} \<and>
    (\<forall>i < n. i \<notin> set xs \<longrightarrow> links h l (Bud i) = (None, None))"

definition lists_inv :: "nat \<Rightarrow> bheap \<Rightarrow> bool" where
  "lists_inv n h \<longleftrightarrow> (\<forall>l. \<exists>xs. free_list n l h xs)"

lemma free_list_frame:
  assumes "free_list n l h xs" and "links h' l = links h l"
    and "\<And>i. i < n \<Longrightarrow> level_bits l (h' (Bud i)) = {} \<longleftrightarrow> level_bits l (h (Bud i)) = {}"
  shows "free_list n l h' xs"
  using assms by (auto simp: free_list_def)

lemma free_list_prev:
  assumes "free_list n l h xs" and "j < n"
  shows "prev_N (h (Bud j)) l = None \<longleftrightarrow> level_bits l (h (Bud j)) = {}"
proof (cases "j \<in> set xs")
  case True
  then obtain ys zs where "xs = ys @ j # zs"
    by (metis split_list)
  with assms True chain_last_prev [of "links h l" "First l" ys j zs] show ?thesis
    by (auto simp: free_list_def prev_next_links)
next
  case False
  with assms show ?thesis
    by (auto simp: free_list_def prev_next_links)
qed

lemma free_list_alloc:
  assumes fl: "free_list n l h xs" and j: "j < n" and m: "marked_alloc l i (Bud j) h h'"
  shows "\<exists>ys. free_list n l h' ys"
proof (cases "level_bits l (h (Bud j)) - {i} = {}")
  case False
  with m have "links h' l = links h l"
    by (simp add: marked_alloc_def)
  with m False fl have "free_list n l h' xs"
    by (intro free_list_frame [OF fl]) (auto simp: marked_alloc_def)
  then show ?thesis ..
next
  case True
  then have L: "links h' l = unlink_map l (Bud j) (links h) l"
    using m by (simp add: marked_alloc_def)
  have bits: "level_bits l (h' (Bud k)) = (if k = j then {} else level_bits l (h (Bud k)))" for k
    using m True by (simp add: marked_alloc_def)
  show ?thesis
  proof (cases "j \<in> set xs")
    case jin: True
    then obtain ys zs where xs: "xs = ys @ j # zs"
      by (metis split_list)
    have ch: "chain (links h l) (First l) (ys @ j # zs)" and d: "distinct (ys @ j # zs)"
      using fl xs by (auto simp: free_list_def)
    have "fst (links h l (Bud j)) \<noteq> Some (Bud j)" "snd (links h l (Bud j)) \<noteq> Some (Bud j)"
      using chain_last_prev [OF ch] chain_next [OF ch] d by (auto split: list.splits if_splits)
    then have L': "links h' l = cut (Bud j) (links h l)"
      unfolding L by (rule unlink_map_cut)
    have "free_list n l h' (ys @ zs)"
      unfolding free_list_def
    proof (intro conjI allI impI)
      show "chain (links h' l) (First l) (ys @ zs)"
        unfolding L' using ch d by (intro chain_cut) auto
      show "set (ys @ zs) = {i. i < n \<and> level_bits l (h' (Bud i)) \<noteq> {}}"
        using fl d unfolding free_list_def xs bits by auto
      show "links h' l (Bud k) = (None, None)" if "k < n" "k \<notin> set (ys @ zs)" for k
      proof (cases "k = j")
        case False
        then have "links h l (Bud k) = (None, None)" "k \<notin> set xs"
          using fl that xs by (auto simp: free_list_def)
        moreover have "snd (links h l (Bud j)) \<noteq> Some (Bud k)" "fst (links h l (Bud j)) \<noteq> Some (Bud k)"
          using chain_last_prev [OF ch] chain_next [OF ch] that
          by (auto split: list.splits if_splits)
        ultimately show ?thesis
          using False by (simp add: L' cut_def)
      qed (simp add: L' cut_def)
    qed (use d in auto)
    then show ?thesis ..
  next
    case False
    then have "links h l (Bud j) = (None, None)"
      using fl j by (auto simp: free_list_def)
    then have "links h' l = cut (Bud j) (links h l)"
      unfolding L by (intro unlink_map_cut) auto
    also have "\<dots> = links h l"
      using \<open>links h l (Bud j) = (None, None)\<close> by (auto simp: cut_def fun_eq_iff)
    finally have "links h' l = links h l" .
    moreover have "level_bits l (h (Bud j)) = {}"
      using fl j False by (auto simp: free_list_def)
    ultimately have "free_list n l h' xs"
      using bits by (intro free_list_frame [OF fl]) auto
    then show ?thesis ..
  qed
qed

lemma free_list_free:
  assumes fl: "free_list n l h xs" and j: "j < n" and m: "marked_free l i (Bud j) h h'"
  shows "\<exists>ys. free_list n l h' ys"
proof (cases "level_bits l (h (Bud j)) = {}")
  case False
  with m have "links h' l = links h l"
    by (simp add: marked_free_def)
  with m False fl have "free_list n l h' xs"
    by (intro free_list_frame [OF fl]) (auto simp: marked_free_def)
  then show ?thesis ..
next
  case True
  then have jx: "j \<notin> set xs" and "prev_N (h (Bud j)) l = None"
    using fl j free_list_prev [OF fl j] by (auto simp: free_list_def)
  with m True have "links h' l = link_map_front l (Bud j) (links h) l"
    by (simp add: marked_free_def)
  moreover have ch: "chain (links h l) (First l) xs" and d: "distinct xs"
    using fl by (auto simp: free_list_def)
  moreover have "snd (links h l (First l)) \<noteq> Some (Bud j)"
    using ch jx by (cases xs) auto
  ultimately have L: "links h' l = push (First l) (Bud j) (links h l)"
    by (simp add: link_map_front_push)
  have bits: "level_bits l (h' (Bud k)) = (if k = j then {i} else level_bits l (h (Bud k)))" for k
    using m True by (simp add: marked_free_def)
  have "free_list n l h' (j # xs)"
    unfolding free_list_def
  proof (intro conjI allI impI)
    show "chain (links h' l) (First l) (j # xs)"
      unfolding L using ch d jx by (intro chain_push) auto
    show "set (j # xs) = {i. i < n \<and> level_bits l (h' (Bud i)) \<noteq> {}}"
      using fl j unfolding free_list_def bits by auto
    show "links h' l (Bud k) = (None, None)" if "k < n" "k \<notin> set (j # xs)" for k
    proof -
      have "links h l (Bud k) = (None, None)"
        using fl that by (auto simp: free_list_def)
      moreover have "snd (links h l (First l)) \<noteq> Some (Bud k)"
        using ch that by (cases xs) auto
      ultimately show ?thesis
        using that by (simp add: L push_def)
    qed
  qed (use d jx in auto)
  then show ?thesis ..
qed

lemma marked_alloc_lists_inv:
  assumes "lists_inv n h" and "j < n" and m: "marked_alloc l i (Bud j) h h'"
  shows "lists_inv n h'"
  unfolding lists_inv_def
proof
  fix l'
  obtain xs where xs: "free_list n l' h xs"
    using assms(1) by (auto simp: lists_inv_def)
  show "\<exists>ys. free_list n l' h' ys"
  proof (cases "l' = l")
    case True
    then show ?thesis using free_list_alloc xs assms(2) m by blast
  next
    case False
    with m have "free_list n l' h' xs"
      by (intro free_list_frame [OF xs]) (auto simp: marked_alloc_def unlink_map_other)
    then show ?thesis ..
  qed
qed

lemma marked_free_lists_inv:
  assumes "lists_inv n h" and "j < n" and m: "marked_free l i (Bud j) h h'"
  shows "lists_inv n h'"
  unfolding lists_inv_def
proof
  fix l'
  obtain xs where xs: "free_list n l' h xs"
    using assms(1) by (auto simp: lists_inv_def)
  show "\<exists>ys. free_list n l' h' ys"
  proof (cases "l' = l")
    case True
    then show ?thesis using free_list_free xs assms(2) m by blast
  next
    case False
    with m have "free_list n l' h' xs"
      by (intro free_list_frame [OF xs]) (auto simp: marked_free_def link_map_front_other)
    then show ?thesis ..
  qed
qed

end
