(* ===== verification/Buddy_Alloc.thy ===== *)
theory Buddy_Alloc
  imports Buddy_Lists
begin

section \<open>Allocating and freeing blocks: correctness\<close>

text \<open>
  A block of a level covers \<open>1\<close>, \<open>2\<close>, \<open>4\<close> or \<open>8\<close> pages of its buddy. In a consistent buddy (\<open>hier\<close>) a
  block is free at a level exactly when both its halves are free one level below, so the 4 KiB map
  determines the others. Allocation removes the pages of the lowest free block, freeing adds the
  pages of an allocated block; both keep the buddy consistent and the free lists exact.
\<close>

subsection \<open>Sequences of marks\<close>

fun removes :: "(level \<times> nat) list \<Rightarrow> bptr \<Rightarrow> bheap \<Rightarrow> bheap \<Rightarrow> bool" where
  "removes [] this h h' \<longleftrightarrow> h = h'"
| "removes ((l, i) # ms) this h h' \<longleftrightarrow> (\<exists>h1. marked_alloc l i this h h1 \<and> removes ms this h1 h')"

fun adds :: "(level \<times> nat) list \<Rightarrow> bptr \<Rightarrow> bheap \<Rightarrow> bheap \<Rightarrow> bool" where
  "adds [] this h h' \<longleftrightarrow> h = h'"
| "adds ((l, i) # ms) this h h' \<longleftrightarrow> (\<exists>h1. marked_free l i this h h1 \<and> adds ms this h1 h')"

lemma removes_bits:
  "removes ms this h h' \<Longrightarrow>
    level_bits l (h' q) = level_bits l (h q) - (if q = this then {i. (l, i) \<in> set ms} else {})"
proof (induction ms this h h' rule: removes.induct)
  case (2 l' i ms this h h')
  then obtain h1 where "marked_alloc l' i this h h1" "removes ms this h1 h'"
    by auto
  with 2(1) [of h1] show ?case
    by (auto simp: marked_alloc_def)
qed auto

lemma removes_wf: "removes ms this h h' \<Longrightarrow> buddy_wf (h' q) = buddy_wf (h q)"
  by (induction ms this h h' rule: removes.induct) (auto simp: marked_alloc_def)

lemma removes_lists_inv: "removes ms (Bud j) h h' \<Longrightarrow> j < n \<Longrightarrow> lists_inv n h \<Longrightarrow> lists_inv n h'"
  by (induction ms "Bud j" h h' rule: removes.induct) (auto intro: marked_alloc_lists_inv)

lemma adds_bits:
  "adds ms this h h' \<Longrightarrow>
    level_bits l (h' q) = level_bits l (h q) \<union> (if q = this then {i. (l, i) \<in> set ms} else {})"
proof (induction ms this h h' rule: adds.induct)
  case (2 l' i ms this h h')
  then obtain h1 where "marked_free l' i this h h1" "adds ms this h1 h'"
    by auto
  with 2(1) [of h1] show ?case
    by (auto simp: marked_free_def)
qed auto

lemma adds_wf: "adds ms this h h' \<Longrightarrow> buddy_wf (h' q) = buddy_wf (h q)"
  by (induction ms this h h' rule: adds.induct) (auto simp: marked_free_def)

lemma adds_lists_inv: "adds ms (Bud j) h h' \<Longrightarrow> j < n \<Longrightarrow> lists_inv n h \<Longrightarrow> lists_inv n h'"
  by (induction ms "Bud j" h h' rule: adds.induct) (auto intro: marked_free_lists_inv)

lemma adds_append: "adds ms this h h1 \<Longrightarrow> adds ms' this h1 h' \<Longrightarrow> adds (ms @ ms') this h h'"
  by (induction ms this h h1 rule: adds.induct) auto

lemma removes_append: "removes ms this h h1 \<Longrightarrow> removes ms' this h1 h' \<Longrightarrow> removes (ms @ ms') this h h'"
  by (induction ms this h h1 rule: removes.induct) auto

text \<open>
  Running one mark at the front of a computation: what remains to be shown of the rest.
\<close>

definition takes :: "bptr \<Rightarrow> bheap \<Rightarrow> (u32 \<times> bheap) res \<Rightarrow> u32 \<Rightarrow> (level \<times> nat) list \<Rightarrow> bool" where
  "takes this h c off ms \<longleftrightarrow> (\<exists>h'. c = Inr (off, h') \<and> removes ms this h h')"

lemma takes_Inr: "takes this h (Inr (off, h)) off []"
  by (simp add: takes_def)

lemma takes_k4:
  assumes "buddy_wf (h this)" and "unat i < 128"
    and "\<And>r h1. marked_alloc K4 (unat i) this h h1 \<Longrightarrow> buddy_wf (h1 this) \<Longrightarrow> takes this h1 (f (r, h1)) off ms"
  shows "takes this h (kbind (mark_alloc_k4 i this h) f) off ((K4, unat i) # ms)"
proof -
  obtain r h1 where m: "mark_alloc_k4 i this h = Inr (r, h1)" "marked_alloc K4 (unat i) this h h1"
    using mark_alloc_k4_spec [of h this i] assms(1,2) by blast
  then have "takes this h1 (f (r, h1)) off ms"
    using assms(1,3) by (auto simp: marked_alloc_def)
  with m show ?thesis by (auto simp: takes_def)
qed

lemma takes_k8:
  assumes "buddy_wf (h this)" and "unat i < 64"
    and "\<And>r h1. marked_alloc K8 (unat i) this h h1 \<Longrightarrow> buddy_wf (h1 this) \<Longrightarrow>
      (r \<noteq> 0 \<longleftrightarrow> unat i \<in> level_bits K8 (h this)) \<Longrightarrow> takes this h1 (f (r, h1)) off ms"
  shows "takes this h (kbind (mark_alloc_k8 i this h) f) off ((K8, unat i) # ms)"
proof -
  obtain r h1 where m: "mark_alloc_k8 i this h = Inr (r, h1)" "marked_alloc K8 (unat i) this h h1"
      "r \<noteq> 0 \<longleftrightarrow> unat i \<in> level_bits K8 (h this)"
    using mark_alloc_k8_spec [of h this i] assms(1,2) by blast
  then have "takes this h1 (f (r, h1)) off ms"
    using assms(1,3) by (auto simp: marked_alloc_def)
  with m show ?thesis by (auto simp: takes_def)
qed

lemma takes_k16:
  assumes "buddy_wf (h this)" and "unat i < 32"
    and "\<And>r h1. marked_alloc K16 (unat i) this h h1 \<Longrightarrow> buddy_wf (h1 this) \<Longrightarrow>
      (r \<noteq> 0 \<longleftrightarrow> unat i \<in> level_bits K16 (h this)) \<Longrightarrow> takes this h1 (f (r, h1)) off ms"
  shows "takes this h (kbind (mark_alloc_k16 i this h) f) off ((K16, unat i) # ms)"
proof -
  obtain r h1 where m: "mark_alloc_k16 i this h = Inr (r, h1)" "marked_alloc K16 (unat i) this h h1"
      "r \<noteq> 0 \<longleftrightarrow> unat i \<in> level_bits K16 (h this)"
    using mark_alloc_k16_spec [OF assms(2)] by blast
  then have "takes this h1 (f (r, h1)) off ms"
    using assms(1,3) by (auto simp: marked_alloc_def)
  with m show ?thesis by (auto simp: takes_def)
qed

lemma takes_k32:
  assumes "buddy_wf (h this)" and "unat i < 16"
    and "\<And>r h1. marked_alloc K32 (unat i) this h h1 \<Longrightarrow> buddy_wf (h1 this) \<Longrightarrow> takes this h1 (f (r, h1)) off ms"
  shows "takes this h (kbind (mark_alloc_k32 i this h) f) off ((K32, unat i) # ms)"
proof -
  obtain r h1 where m: "mark_alloc_k32 i this h = Inr (r, h1)" "marked_alloc K32 (unat i) this h h1"
    using mark_alloc_k32_spec [OF assms(2)] by blast
  then have "takes this h1 (f (r, h1)) off ms"
    using assms(1,3) by (auto simp: marked_alloc_def)
  with m show ?thesis by (auto simp: takes_def)
qed

subsection \<open>Blocks, pages and consistency\<close>

definition block_pages :: "level \<Rightarrow> nat" where
  "block_pages l = (case l of K4 \<Rightarrow> 1 | K8 \<Rightarrow> 2 | K16 \<Rightarrow> 4 | K32 \<Rightarrow> 8)"

definition block_shift :: "level \<Rightarrow> nat" where
  "block_shift l = (case l of K4 \<Rightarrow> 12 | K8 \<Rightarrow> 13 | K16 \<Rightarrow> 14 | K32 \<Rightarrow> 15)"

definition pages_of :: "level \<Rightarrow> nat \<Rightarrow> nat set" where
  "pages_of l i = {i * block_pages l ..< Suc i * block_pages l}"

text \<open>The pairs of a level whose two halves are both in \<open>X\<close>.\<close>

definition halves :: "nat set \<Rightarrow> nat set" where
  "halves X = {j. 2 * j \<in> X \<and> 2 * j + 1 \<in> X}"

definition hier :: "(level \<Rightarrow> nat set) \<Rightarrow> bool" where
  "hier B \<longleftrightarrow> B K8 = halves (B K4) \<and> B K16 = halves (B K8) \<and> B K32 = halves (B K16)"

definition blocks :: "buddy_data \<Rightarrow> level \<Rightarrow> nat set" where
  "blocks b l = level_bits l b"

lemma div2_cases: "(n::nat) = 2 * (n div 2) \<or> n = 2 * (n div 2) + 1"
  by presburger

lemma halves_remove: "halves (X - {i}) = halves X - {i div 2}"
  using div2_cases [of i] by (auto simp: halves_def)

lemma halves_remove_pair: "halves (X - {2 * i, 2 * i + 1}) = halves X - {i}"
  by (auto simp: halves_def)

lemma halves_add: "halves (insert i X) = (if xor1 i \<in> X then insert (i div 2) (halves X) else halves X)"
proof (cases "even i")
  case True
  then obtain k where i: "i = 2 * k" by (elim evenE)
  have "Suc (2 * j) = 2 * k \<longleftrightarrow> False" for j by presburger
  with i show ?thesis by (auto simp: halves_def xor1_def)
next
  case False
  then obtain k where i: "i = 2 * k + 1" by (elim oddE)
  have "2 * j = Suc (2 * k) \<longleftrightarrow> False" for j by presburger
  with i show ?thesis by (auto simp: halves_def xor1_def)
qed

lemma halves_add_pair: "halves (insert (2 * i) (insert (2 * i + 1) X)) = insert i (halves X)"
proof -
  have "2 * j = Suc (2 * i) \<longleftrightarrow> False" "Suc (2 * j) = 2 * i \<longleftrightarrow> False" for j
    by presburger+
  then show ?thesis by (auto simp: halves_def)
qed

lemma halves_parent: "i \<notin> X \<Longrightarrow> i div 2 \<notin> halves X"
  using div2_cases [of i] by (auto simp: halves_def)

lemma pages_of_halves:
  "pages_of K8 i = pages_of K4 (2 * i) \<union> pages_of K4 (2 * i + 1)"
  "pages_of K16 i = pages_of K8 (2 * i) \<union> pages_of K8 (2 * i + 1)"
  "pages_of K32 i = pages_of K16 (2 * i) \<union> pages_of K16 (2 * i + 1)"
  by (auto simp: pages_of_def block_pages_def)

lemma pages_of_K4: "pages_of K4 i = {i}"
  by (auto simp: pages_of_def block_pages_def)

lemma halves_iff: "j \<in> halves X \<longleftrightarrow> 2 * j \<in> X \<and> 2 * j + 1 \<in> X"
  by (simp add: halves_def)

lemma hier_pages: "hier B \<Longrightarrow> i \<in> B l \<longleftrightarrow> pages_of l i \<subseteq> B K4"
  unfolding hier_def by (cases l) (auto simp: pages_of_halves pages_of_K4 halves_iff)

lemma pages_of_less: "i < nblocks l \<Longrightarrow> pages_of l i \<subseteq> {..<128}"
  by (cases l) (auto simp: pages_of_def nblocks_def block_pages_def)

subsection \<open>Allocation\<close>

text \<open>What \<open>alloc<N>\<close> must achieve when it picks block \<open>i\<close> of level \<open>l\<close>.\<close>

definition allocates :: "level \<Rightarrow> nat \<Rightarrow> bptr \<Rightarrow> bheap \<Rightarrow> bheap \<Rightarrow> bool" where
  "allocates l i this h h' \<longleftrightarrow>
    i \<in> blocks (h this) l \<and> (\<forall>j \<in> blocks (h this) l. i \<le> j) \<and>
    blocks (h' this) K4 = blocks (h this) K4 - pages_of l i \<and> hier (blocks (h' this)) \<and>
    (\<exists>ms. removes ms this h h')"

lemma less_3_cases_iff: "j < 3 \<longleftrightarrow> j = 0 \<or> j = 1 \<or> j = (2::nat)"
  by auto

lemma find_arr_index_k4_spec:
  assumes "buddy_wf b" and "blocks b K4 \<noteq> {}"
  shows "\<exists>q. find_arr_index_k4 b = of_nat q \<and> q < 4 \<and> k4 b ! q \<noteq> 0 \<and> (\<forall>j < q. k4 b ! j = 0)"
proof -
  have "\<not> (k4 b ! 0 = 0 \<and> k4 b ! 1 = 0 \<and> k4 b ! 2 = 0 \<and> k4 b ! 3 = 0)"
    using assms length4 [of "k4 b" "\<lambda>w. w = 0"] by (simp add: buddy_wf_def blocks_def word_bits_empty_iff)
  then consider "k4 b ! 0 \<noteq> 0" | "k4 b ! 0 = 0" "k4 b ! 1 \<noteq> 0" | "k4 b ! 0 = 0" "k4 b ! 1 = 0" "k4 b ! 2 \<noteq> 0"
    | "k4 b ! 0 = 0" "k4 b ! 1 = 0" "k4 b ! 2 = 0" "k4 b ! 3 \<noteq> 0" by blast
  then show ?thesis
  proof cases
    case 1
    then show ?thesis by (intro exI [of _ 0]) (simp add: find_arr_index_k4_def)
  next
    case 2
    then show ?thesis by (intro exI [of _ 1]) (simp add: find_arr_index_k4_def)
  next
    case 3
    then show ?thesis by (intro exI [of _ 2]) (simp add: find_arr_index_k4_def less_2_cases_iff all_conj_distrib)
  next
    case 4
    then show ?thesis by (intro exI [of _ 3]) (simp add: find_arr_index_k4_def less_3_cases_iff)
  qed
qed

lemma find_arr_index_k8_spec:
  assumes "buddy_wf b" and "blocks b K8 \<noteq> {}"
  shows "\<exists>q. find_arr_index_k8 b = of_nat q \<and> q < 2 \<and> k8 b ! q \<noteq> 0 \<and> (\<forall>j < q. k8 b ! j = 0)"
proof -
  have "\<not> (k8 b ! 0 = 0 \<and> k8 b ! 1 = 0)"
    using assms length2 [of "k8 b" "\<lambda>w. w = 0"] by (simp add: buddy_wf_def blocks_def word_bits_empty_iff)
  then consider "k8 b ! 0 \<noteq> 0" | "k8 b ! 0 = 0" "k8 b ! 1 \<noteq> 0" by blast
  then show ?thesis
  proof cases
    case 1
    then show ?thesis by (intro exI [of _ 0]) (simp add: find_arr_index_k8_def)
  next
    case 2
    then show ?thesis by (intro exI [of _ 1]) (simp add: find_arr_index_k8_def)
  qed
qed

lemma removes_blocks:
  "removes ms this h h' \<Longrightarrow> blocks (h' this) l = blocks (h this) l - {i. (l, i) \<in> set ms}"
  using removes_bits [of ms this h h' l this] by (simp add: blocks_def)

lemmas halves_removes = halves_remove halves_remove_pair

lemma hier_remove_K4:
  assumes "hier B" and "B' K4 = B K4 - {n}" and "B' K8 = B K8 - {n div 2}"
    and "B' K16 = B K16 - {n div 4}" and "B' K32 = B K32 - {n div 8}"
  shows "hier B'"
  using assms by (simp add: hier_def halves_remove div_mult2_eq [symmetric])

lemma hier_remove_K8:
  assumes "hier B" and "B' K4 = B K4 - {2 * n, 2 * n + 1}" and "B' K8 = B K8 - {n}"
    and "B' K16 = B K16 - {n div 2}" and "B' K32 = B K32 - {n div 4}"
  shows "hier B'"
  using assms halves_remove_pair [of "B K4" n]
  by (simp add: hier_def halves_remove div_mult2_eq [symmetric])

lemma marked_alloc_blocks:
  "marked_alloc l i this h h' \<Longrightarrow> blocks (h' this) l' = (if l' = l then blocks (h this) l' - {i} else blocks (h this) l')"
  by (simp add: marked_alloc_def blocks_def)

lemma marked_alloc_wf: "marked_alloc l i this h h' \<Longrightarrow> buddy_wf (h' this) = buddy_wf (h this)"
  by (simp add: marked_alloc_def)

lemma alloc_4096_marks:
  assumes wf: "buddy_wf (h this)" and hier: "hier (blocks (h this))" and i: "unat i < 128"
    and c: "c = kbind (mark_alloc_k4 i this h) (\<lambda>(_, h1).
           kbind (mark_alloc_k8 (drop_bit 1 i) this h1) (\<lambda>(r8, h2).
           if r8 \<noteq> 0 then
             kbind (mark_alloc_k16 (drop_bit 2 i) this h2) (\<lambda>(r16, h3).
             if r16 \<noteq> 0 then
               kbind (mark_alloc_k32 (drop_bit 3 i) this h3) (\<lambda>(_, h4).
               Inr (push_bit 12 i, h4))
             else Inr (push_bit 12 i, h3))
           else Inr (push_bit 12 i, h2)))"
  shows "\<exists>h' ms. c = Inr (push_bit 12 i, h') \<and> removes ms this h h' \<and> hier (blocks (h' this)) \<and>
    blocks (h' this) K4 = blocks (h this) K4 - {unat i}"
proof -
  let ?n = "unat i" and ?B = "blocks (h this)"
  have idx: "unat (drop_bit 1 i) = ?n div 2" "unat (drop_bit 2 i) = ?n div 4" "unat (drop_bit 3 i) = ?n div 8"
    by (simp_all add: unat_simps)
  have lt: "?n div 2 < 64" "?n div 4 < 32" "?n div 8 < 16"
    using i by auto
  have up: "?n div 2 \<notin> ?B K8 \<Longrightarrow> ?n div 4 \<notin> ?B K16" "?n div 4 \<notin> ?B K16 \<Longrightarrow> ?n div 8 \<notin> ?B K32"
    using hier halves_parent [of "?n div 2" "?B K8"] halves_parent [of "?n div 4" "?B K16"]
    by (auto simp: hier_def div_mult2_eq [symmetric])
  obtain r h1 where 1: "mark_alloc_k4 i this h = Inr (r, h1)" "marked_alloc K4 ?n this h h1"
    using mark_alloc_k4_spec [of h this i] wf i by blast
  obtain r8 h2 where 2: "mark_alloc_k8 (drop_bit 1 i) this h1 = Inr (r8, h2)" "marked_alloc K8 (?n div 2) this h1 h2"
      "r8 \<noteq> 0 \<longleftrightarrow> ?n div 2 \<in> ?B K8"
    using mark_alloc_k8_spec [of h1 this "drop_bit 1 i"] wf i marked_alloc_wf [OF 1(2)] marked_alloc_blocks [OF 1(2), of K8] lt(1)
    unfolding idx blocks_def by auto
  note eff = marked_alloc_blocks [OF 1(2)] marked_alloc_blocks [OF 2(2)]
  show ?thesis
  proof (cases "r8 = 0")
    case True
    have "hier (blocks (h2 this))"
      by (rule hier_remove_K4 [OF hier, of _ ?n]) (use True 2(3) up in \<open>simp_all add: eff\<close>)
    moreover have "removes [(K4, ?n), (K8, ?n div 2)] this h h2"
      using 1(2) 2(2) by auto
    ultimately show ?thesis
      unfolding c 1(1) kbind_Inr prod.case 2(1) using True eff by (auto simp del: removes.simps)
  next
    case r8: False
    obtain r16 h3 where 3: "mark_alloc_k16 (drop_bit 2 i) this h2 = Inr (r16, h3)" "marked_alloc K16 (?n div 4) this h2 h3"
        "r16 \<noteq> 0 \<longleftrightarrow> ?n div 4 \<in> ?B K16"
      using mark_alloc_k16_spec [of "drop_bit 2 i" this h2] lt(2) eff [of K16]
      unfolding idx blocks_def by auto
    show ?thesis
    proof (cases "r16 = 0")
      case True
      have "hier (blocks (h3 this))"
        by (rule hier_remove_K4 [OF hier, of _ ?n])
          (use True 3(3) up in \<open>simp_all add: eff marked_alloc_blocks [OF 3(2)]\<close>)
      moreover have "removes [(K4, ?n), (K8, ?n div 2), (K16, ?n div 4)] this h h3"
        using 1(2) 2(2) 3(2) by auto
      ultimately show ?thesis
        unfolding c 1(1) kbind_Inr prod.case 2(1) 3(1) using r8 True eff marked_alloc_blocks [OF 3(2), of K4]
        by (auto simp del: removes.simps)
    next
      case False
      obtain r32 h4 where 4: "mark_alloc_k32 (drop_bit 3 i) this h3 = Inr (r32, h4)" "marked_alloc K32 (?n div 8) this h3 h4"
        using mark_alloc_k32_spec [of "drop_bit 3 i" this h3] lt(3) unfolding idx by auto
      have "hier (blocks (h4 this))"
        by (rule hier_remove_K4 [OF hier, of _ ?n])
          (simp_all add: eff marked_alloc_blocks [OF 3(2)] marked_alloc_blocks [OF 4(2)])
      moreover have "removes [(K4, ?n), (K8, ?n div 2), (K16, ?n div 4), (K32, ?n div 8)] this h h4"
        using 1(2) 2(2) 3(2) 4(2) by auto
      ultimately show ?thesis
        unfolding c 1(1) kbind_Inr prod.case 2(1) 3(1) 4(1)
        using r8 False eff marked_alloc_blocks [OF 3(2), of K4] marked_alloc_blocks [OF 4(2), of K4]
        by (auto simp del: removes.simps)
    qed
  qed
qed

lemma unat_index_32: "q < 4 \<Longrightarrow> b < 32 \<Longrightarrow> unat (push_bit 5 (of_nat q) + of_nat b :: u32) = 32 * q + b"
  by (subst unat_push_bit_add) (simp_all add: unat_of_nat_32)

lemma alloc_4096_spec:
  assumes wf: "buddy_wf (h this)" and hier: "hier (blocks (h this))" and free: "blocks (h this) K4 \<noteq> {}"
  shows "\<exists>i h'. alloc_4096 this h = Inr (push_bit 12 i, h') \<and> allocates K4 (unat i) this h h'"
proof -
  let ?ws = "k4 (h this)"
  obtain q where q: "find_arr_index_k4 (h this) = of_nat q" "q < 4" "?ws ! q \<noteq> 0" "\<forall>j < q. ?ws ! j = 0"
    using find_arr_index_k4_spec [OF wf free] by blast
  define i where "i = (push_bit 5 (of_nat q) + of_nat (trailing_zeros (?ws ! q)) :: u32)"
  have b: "trailing_zeros (?ws ! q) < 32"
    using trailing_zeros_spec(1) [OF q(3)] bit_imp_le_length by fastforce
  have i: "unat i = 32 * q + trailing_zeros (?ws ! q)" "unat i < 128"
    using unat_index_32 [OF q(2) b] q(2) b by (simp_all add: i_def)
  have "(of_nat q :: u32) \<noteq> 4" "unat (of_nat q :: u32) = q"
    using q(2) unat_of_nat_32 [of q] by (auto simp: word_unat_eq_iff)
  then have c: "alloc_4096 this h = kbind (mark_alloc_k4 i this h) (\<lambda>(_, h1).
           kbind (mark_alloc_k8 (drop_bit 1 i) this h1) (\<lambda>(r8, h2).
           if r8 \<noteq> 0 then
             kbind (mark_alloc_k16 (drop_bit 2 i) this h2) (\<lambda>(r16, h3).
             if r16 \<noteq> 0 then
               kbind (mark_alloc_k32 (drop_bit 3 i) this h3) (\<lambda>(_, h4).
               Inr (push_bit 12 i, h4))
             else Inr (push_bit 12 i, h3))
           else Inr (push_bit 12 i, h2)))"
    using q(3) unfolding alloc_4096_def Let_def q(1) i_def by (simp add: builtin_ctz_def)
  have "unat i \<in> blocks (h this) K4" "\<forall>j \<in> blocks (h this) K4. unat i \<le> j"
    using word_bits_lowest [of q ?ws] wf q(2-4) i(1) by (auto simp: blocks_def buddy_wf_def)
  with alloc_4096_marks [OF wf hier i(2) c] show ?thesis
    by (auto simp: allocates_def pages_of_K4)
qed

lemma pages_of_list:
  "pages_of K8 n = {2 * n, 2 * n + 1}"
  "pages_of K16 n = {4 * n, 4 * n + 1, 4 * n + 2, 4 * n + 3}"
  "pages_of K32 n = {8 * n, 8 * n + 1, 8 * n + 2, 8 * n + 3, 8 * n + 4, 8 * n + 5, 8 * n + 6, 8 * n + 7}"
  by (auto simp: pages_of_def block_pages_def)

lemma hier_remove_K16:
  assumes "hier B" and "B' K4 = B K4 - {4 * n, 4 * n + 1, 4 * n + 2, 4 * n + 3}"
    and "B' K8 = B K8 - {2 * n, 2 * n + 1}" and "B' K16 = B K16 - {n}" and "B' K32 = B K32 - {n div 2}"
  shows "hier B'"
proof -
  have "X - {4 * n, 4 * n + 1, 4 * n + 2, 4 * n + 3} =
      X - {2 * (2 * n), 2 * (2 * n) + 1} - {2 * (2 * n + 1), 2 * (2 * n + 1) + 1}" for X
    by auto
  then have "halves (X - {4 * n, 4 * n + 1, 4 * n + 2, 4 * n + 3}) = halves X - {2 * n, 2 * n + 1}" for X
    by (simp only: halves_remove_pair) auto
  then show ?thesis
    using assms halves_remove_pair [of "B K8" n] by (simp add: hier_def halves_remove)
qed

lemma hier_remove_K32:
  assumes "hier B" and "B' K4 = B K4 - pages_of K32 n"
    and "B' K8 = B K8 - {4 * n, 4 * n + 1, 4 * n + 2, 4 * n + 3}"
    and "B' K16 = B K16 - {2 * n, 2 * n + 1}" and "B' K32 = B K32 - {n}"
  shows "hier B'"
proof -
  have "X - {4 * n, 4 * n + 1, 4 * n + 2, 4 * n + 3} =
      X - {2 * (2 * n), 2 * (2 * n) + 1} - {2 * (2 * n + 1), 2 * (2 * n + 1) + 1}" for X
    by auto
  then have 4: "halves (X - {4 * n, 4 * n + 1, 4 * n + 2, 4 * n + 3}) = halves X - {2 * n, 2 * n + 1}" for X
    by (simp only: halves_remove_pair) auto
  have "X - pages_of K32 n = X - {2 * (4 * n), 2 * (4 * n) + 1} - {2 * (4 * n + 1), 2 * (4 * n + 1) + 1} -
      {2 * (4 * n + 2), 2 * (4 * n + 2) + 1} - {2 * (4 * n + 3), 2 * (4 * n + 3) + 1}" for X
    unfolding pages_of_list by auto
  then have "halves (X - pages_of K32 n) = halves X - {4 * n, 4 * n + 1, 4 * n + 2, 4 * n + 3}" for X
    by (simp only: halves_remove_pair) auto
  with 4 show ?thesis
    using assms halves_remove_pair [of "B K16" n] by (simp add: hier_def)
qed

lemma alloc_8192_marks:
  assumes wf: "buddy_wf (h this)" and i: "unat i < 64"
  shows "takes this h
     (kbind (mark_alloc_k4 (push_bit 1 i + 0) this h) (\<lambda>(_, h1).
      kbind (mark_alloc_k4 (push_bit 1 i + 1) this h1) (\<lambda>(_, h2).
      kbind (mark_alloc_k8 i this h2) (\<lambda>(_, h3).
      kbind (mark_alloc_k16 (drop_bit 1 i) this h3) (\<lambda>(r16, h4).
      if r16 \<noteq> 0 then
        kbind (mark_alloc_k32 (drop_bit 2 i) this h4) (\<lambda>(_, h5).
        Inr (push_bit 13 i, h5))
      else Inr (push_bit 13 i, h4)))))) (push_bit 13 i)
     ((K4, unat (push_bit 1 i + 0)) # (K4, unat (push_bit 1 i + 1)) # (K8, unat i) # (K16, unat (drop_bit 1 i)) #
      (if unat (drop_bit 1 i) \<in> blocks (h this) K16 then [(K32, unat (drop_bit 2 i))] else []))"
proof -
  have idx: "unat (push_bit 1 i + 0) < 128" "unat (push_bit 1 i + 1) < 128"
      "unat (drop_bit 1 i) < 32" "unat (drop_bit 2 i) < 16"
    using i unat_push_bit_add [of i 1 1] unat_push_bit [of i 1] by (auto simp: unat_simps)
  show ?thesis
    apply (rule takes_k4, rule wf, rule idx(1), unfold prod.case)
    apply (rule takes_k4, assumption, rule idx(2), unfold prod.case)
    apply (rule takes_k8, assumption, rule i, unfold prod.case)
    apply (rule takes_k16, assumption, rule idx(3), unfold prod.case)
    subgoal premises p for _ h1 _ h2 _ h3 r h4
    proof -
      have "r \<noteq> 0 \<longleftrightarrow> unat (drop_bit 1 i) \<in> blocks (h this) K16"
        using p by (simp add: marked_alloc_def blocks_def)
      then show ?thesis
        using p(9) idx(4) by (auto intro!: takes_Inr takes_k32)
    qed
    done
qed

lemma alloc_8192_spec:
  assumes wf: "buddy_wf (h this)" and hier: "hier (blocks (h this))" and free: "blocks (h this) K8 \<noteq> {}"
  shows "\<exists>i h'. alloc_8192 this h = Inr (push_bit 13 i, h') \<and> allocates K8 (unat i) this h h'"
proof -
  let ?ws = "k8 (h this)" and ?B = "blocks (h this)"
  obtain q where q: "find_arr_index_k8 (h this) = of_nat q" "q < 2" "?ws ! q \<noteq> 0" "\<forall>j < q. ?ws ! j = 0"
    using find_arr_index_k8_spec [OF wf free] by blast
  define i where "i = (push_bit 5 (of_nat q) + of_nat (trailing_zeros (?ws ! q)) :: u32)"
  have b: "trailing_zeros (?ws ! q) < 32"
    using trailing_zeros_spec(1) [OF q(3)] bit_imp_le_length by fastforce
  have i: "unat i = 32 * q + trailing_zeros (?ws ! q)" "unat i < 64"
    using unat_index_32 [of q, OF _ b] q(2) b by (simp_all add: i_def)
  have "(of_nat q :: u32) \<noteq> 2" "unat (of_nat q :: u32) = q"
    using q(2) unat_of_nat_32 [of q] by (auto simp: word_unat_eq_iff)
  then have run: "kassert ((of_nat q :: u32) \<noteq> 2) = Inr ()"
      "builtin_ctz (?ws ! unat (of_nat q :: u32)) = Inr (trailing_zeros (?ws ! q))"
    using q(3) by (simp_all add: builtin_ctz_def)
  have idx: "unat (push_bit 1 i + 0) = 2 * unat i" "unat (push_bit 1 i + 1) = 2 * unat i + 1"
      "unat (drop_bit 1 i) = unat i div 2" "unat (drop_bit 2 i) = unat i div 4"
    using i(2) unat_push_bit_add [of i 1 1] unat_push_bit [of i 1] by (auto simp: unat_simps)
  have "takes this h (alloc_8192 this h) (push_bit 13 i) ((K4, 2 * unat i) # (K4, 2 * unat i + 1) #
      (K8, unat i) # (K16, unat i div 2) # (if unat i div 2 \<in> ?B K16 then [(K32, unat i div 4)] else []))"
    unfolding alloc_8192_def Let_def q(1) run kbind_Inr i_def [symmetric]
    by (rule alloc_8192_marks [of h this i, OF wf i(2), unfolded idx])
  then obtain h' where h': "alloc_8192 this h = Inr (push_bit 13 i, h')"
    and rm: "removes ((K4, 2 * unat i) # (K4, 2 * unat i + 1) # (K8, unat i) # (K16, unat i div 2) #
      (if unat i div 2 \<in> ?B K16 then [(K32, unat i div 4)] else [])) this h h'"
    unfolding takes_def by blast
  have up: "unat i div 2 \<notin> ?B K16 \<Longrightarrow> unat i div 4 \<notin> ?B K32"
    using hier halves_parent [of "unat i div 2" "?B K16"] by (auto simp: hier_def div_mult2_eq [symmetric])
  note eff = removes_blocks [OF rm]
  have "hier (blocks (h' this))"
    by (rule hier_remove_K8 [OF hier, of _ "unat i"]) (use up in \<open>auto simp: eff\<close>)
  moreover have "blocks (h' this) K4 = ?B K4 - pages_of K8 (unat i)"
    by (auto simp: eff pages_of_list)
  moreover have "unat i \<in> ?B K8" "\<forall>j \<in> ?B K8. unat i \<le> j"
    using word_bits_lowest [of q ?ws] wf q(2-4) i(1) by (auto simp: blocks_def buddy_wf_def)
  ultimately show ?thesis
    using h' rm by (auto simp: allocates_def simp del: removes.simps)
qed

lemma takes_k4_run:
  assumes "buddy_wf (h this)" and "\<And>j. j < n \<Longrightarrow> unat (base + of_nat j) < 128"
    and "\<And>h1. buddy_wf (h1 this) \<Longrightarrow> takes this h1 (f h1) off ms"
  shows "takes this h (kbind (mark_alloc_k4_run n base this h) f) off
    (map (\<lambda>j. (K4, unat (base + of_nat j))) [0..<n] @ ms)"
  using assms
proof (induction n arbitrary: f ms)
  case (Suc n)
  have "takes this h1 (kbind (mark_alloc_k4 (base + of_nat n) this h1) (\<lambda>p. f (snd p))) off
      ((K4, unat (base + of_nat n)) # ms)" if "buddy_wf (h1 this)" for h1
    using that Suc.prems(2) by (intro takes_k4) (auto intro: Suc.prems(3))
  then show ?case
    using Suc.IH [of "\<lambda>h1. kbind (mark_alloc_k4 (base + of_nat n) this h1) (\<lambda>p. f (snd p))"
        "(K4, unat (base + of_nat n)) # ms"] Suc.prems(1,2)
    by (simp add: kbind_assoc case_prod_beta)
qed simp

lemma lowest_bit_32:
  fixes w :: "'a::len word"
  assumes "w \<noteq> 0" and "LENGTH('a) \<le> 32"
  shows "builtin_ctz w = Inr (trailing_zeros w)" and "unat (of_nat (trailing_zeros w) :: u32) = trailing_zeros w"
    and "trailing_zeros w < LENGTH('a)" and "bit w (trailing_zeros w)" and "bit w j \<Longrightarrow> trailing_zeros w \<le> j"
proof -
  show "trailing_zeros w < LENGTH('a)"
    using trailing_zeros_spec(1) [OF assms(1)] by (rule bit_imp_le_length)
  with assms(2) show "unat (of_nat (trailing_zeros w) :: u32) = trailing_zeros w"
    by (simp add: unat_of_nat_32)
  show "bit w j \<Longrightarrow> trailing_zeros w \<le> j"
    using trailing_zeros_spec(2) [OF assms(1)] not_less by blast
qed (use assms trailing_zeros_spec(1) in \<open>auto simp: builtin_ctz_def\<close>)

lemma alloc_16384_spec:
  assumes wf: "buddy_wf (h this)" and hier: "hier (blocks (h this))" and free: "blocks (h this) K16 \<noteq> {}"
  shows "\<exists>i h'. alloc_16384 this h = Inr (push_bit 14 i, h') \<and> allocates K16 (unat i) this h h'"
proof -
  let ?B = "blocks (h this)"
  have w: "k16 (h this) \<noteq> 0"
    using free bits_empty_iff [of "k16 (h this)"] by (auto simp: blocks_def)
  define i where "i = (of_nat (trailing_zeros (k16 (h this))) :: u32)"
  note low = lowest_bit_32 [OF w, simplified]
  have i: "unat i < 32" "unat i \<in> ?B K16" "\<forall>j \<in> ?B K16. unat i \<le> j"
    using low by (auto simp: i_def blocks_def)
  have idx: "unat (push_bit 2 i + 0) = 4 * unat i" "unat (push_bit 2 i + 1) = 4 * unat i + 1"
      "unat (push_bit 2 i + 2) = 4 * unat i + 2" "unat (push_bit 2 i + 3) = 4 * unat i + 3"
      "unat (push_bit 1 i + 0) = 2 * unat i" "unat (push_bit 1 i + 1) = 2 * unat i + 1"
      "unat (drop_bit 1 i) = unat i div 2"
    using i(1) unat_push_bit_add [of i 2 1] unat_push_bit_add [of i 2 2] unat_push_bit_add [of i 2 3]
      unat_push_bit_add [of i 1 1] unat_push_bit [of i 1] unat_push_bit [of i 2] by (simp_all add: unat_simps)
  then have lt: "unat (push_bit 2 i + 0) < 128" "unat (push_bit 2 i + 1) < 128" "unat (push_bit 2 i + 2) < 128"
      "unat (push_bit 2 i + 3) < 128" "unat (push_bit 1 i + 0) < 64" "unat (push_bit 1 i + 1) < 64"
      "unat i < 32" "unat (drop_bit 1 i) < 16"
    using i(1) by linarith+
  have "takes this h (alloc_16384 this h) (push_bit 14 i)
      [(K4, unat (push_bit 2 i + 0)), (K4, unat (push_bit 2 i + 1)), (K4, unat (push_bit 2 i + 2)),
       (K4, unat (push_bit 2 i + 3)), (K8, unat (push_bit 1 i + 0)), (K8, unat (push_bit 1 i + 1)),
       (K16, unat i), (K32, unat (drop_bit 1 i))]"
    unfolding alloc_16384_def low(1) kbind_Inr Let_def i_def [symmetric]
    by (rule takes_k4 takes_k8 takes_k16 takes_k32 takes_Inr | rule lt | assumption | rule wf | unfold prod.case)+
  then obtain h' where h': "alloc_16384 this h = Inr (push_bit 14 i, h')"
    and rm: "removes [(K4, 4 * unat i), (K4, 4 * unat i + 1), (K4, 4 * unat i + 2), (K4, 4 * unat i + 3),
      (K8, 2 * unat i), (K8, 2 * unat i + 1), (K16, unat i), (K32, unat i div 2)] this h h'"
    unfolding takes_def idx by blast
  note eff = removes_blocks [OF rm]
  have "hier (blocks (h' this))"
    by (rule hier_remove_K16 [OF hier, of _ "unat i"]) (auto simp: eff)
  moreover have "blocks (h' this) K4 = ?B K4 - pages_of K16 (unat i)"
    unfolding pages_of_list by (auto simp: eff)
  ultimately show ?thesis
    using i h' rm by (auto simp: allocates_def simp del: removes.simps)
qed

lemma upt_8: "[0..<8] = [0, 1, 2, 3, 4, 5, 6, 7::nat]"
  by (simp add: upt_rec)

lemma alloc_32768_spec:
  assumes wf: "buddy_wf (h this)" and hier: "hier (blocks (h this))" and free: "blocks (h this) K32 \<noteq> {}"
  shows "\<exists>i h'. alloc_32768 this h = Inr (push_bit 15 i, h') \<and> allocates K32 (unat i) this h h'"
proof -
  let ?B = "blocks (h this)"
  have w: "k32 (h this) \<noteq> 0"
    using free bits_empty_iff [of "k32 (h this)"] by (auto simp: blocks_def)
  define i where "i = (of_nat (trailing_zeros (k32 (h this))) :: u32)"
  note low = lowest_bit_32 [OF w, simplified]
  have i: "unat i < 16" "unat i \<in> ?B K32" "\<forall>j \<in> ?B K32. unat i \<le> j"
    using low by (auto simp: i_def blocks_def)
  have page: "unat (push_bit 3 i + of_nat j) = 8 * unat i + j" if "j < 8" for j
    using i(1) that unat_push_bit_add [of i 3 "of_nat j"] by (simp add: unat_of_nat_32)
  have idx: "unat (push_bit 2 i + 0) = 4 * unat i" "unat (push_bit 2 i + 1) = 4 * unat i + 1"
      "unat (push_bit 2 i + 2) = 4 * unat i + 2" "unat (push_bit 2 i + 3) = 4 * unat i + 3"
      "unat (push_bit 1 i + 0) = 2 * unat i" "unat (push_bit 1 i + 1) = 2 * unat i + 1"
    using i(1) unat_push_bit_add [of i 2 1] unat_push_bit_add [of i 2 2] unat_push_bit_add [of i 2 3]
      unat_push_bit_add [of i 1 1] unat_push_bit [of i 1] unat_push_bit [of i 2] by simp_all
  then have lt: "unat (push_bit 2 i + 0) < 64" "unat (push_bit 2 i + 1) < 64" "unat (push_bit 2 i + 2) < 64"
      "unat (push_bit 2 i + 3) < 64" "unat (push_bit 1 i + 0) < 32" "unat (push_bit 1 i + 1) < 32"
    using i(1) by linarith+
  have lt8: "unat (push_bit 3 i + of_nat j) < 128" if "j < 8" for j
    using page [OF that] that i(1) by linarith
  have "takes this h (alloc_32768 this h) (push_bit 15 i)
      ((K32, unat i) # map (\<lambda>j. (K4, unat (push_bit 3 i + of_nat j))) [0..<8] @
       [(K8, unat (push_bit 2 i + 0)), (K8, unat (push_bit 2 i + 1)), (K8, unat (push_bit 2 i + 2)),
        (K8, unat (push_bit 2 i + 3)), (K16, unat (push_bit 1 i + 0)), (K16, unat (push_bit 1 i + 1))])"
    unfolding alloc_32768_def low(1) kbind_Inr Let_def i_def [symmetric]
    by (rule takes_k4_run takes_k8 takes_k16 takes_k32 takes_Inr | rule lt i(1) | erule lt8 | assumption | rule wf | unfold prod.case)+
  then obtain h' where h': "alloc_32768 this h = Inr (push_bit 15 i, h')"
    and rm: "removes ((K32, unat i) # map (\<lambda>j. (K4, unat (push_bit 3 i + of_nat j))) [0..<8] @
      [(K8, 4 * unat i), (K8, 4 * unat i + 1), (K8, 4 * unat i + 2), (K8, 4 * unat i + 3),
       (K16, 2 * unat i), (K16, 2 * unat i + 1)]) this h h'"
    unfolding takes_def idx by blast
  have run: "map (\<lambda>j. (K4, unat (push_bit 3 i + of_nat j))) [0..<8] = map (\<lambda>j. (K4, 8 * unat i + j)) [0, 1, 2, 3, 4, 5, 6, 7]"
    using page unfolding upt_8 [symmetric] by (intro map_cong) auto
  note eff = removes_blocks [OF rm, unfolded run]
  have K4: "blocks (h' this) K4 = ?B K4 - pages_of K32 (unat i)"
    unfolding pages_of_list by (auto simp: eff)
  then have "hier (blocks (h' this))"
    by (rule hier_remove_K32 [OF hier, of _ "unat i"]) (auto simp: eff)
  with K4 show ?thesis
    using i h' rm by (auto simp: allocates_def simp del: removes.simps)
qed

text \<open>
  All sizes at once: \<open>alloc<N>\<close> on a buddy with a free block of the size returns the lowest one,
  removes exactly its pages and keeps the buddy consistent.
\<close>

lemma alloc_N_spec:
  assumes "buddy_wf (h this)" and "hier (blocks (h this))" and "blocks (h this) l \<noteq> {}"
  shows "\<exists>i h'. alloc_N l this h = Inr (push_bit (block_shift l) i, h') \<and> allocates l (unat i) this h h'"
  using assms alloc_4096_spec [of h this] alloc_8192_spec [of h this] alloc_16384_spec [of h this]
    alloc_32768_spec [of h this]
  by (cases l) (simp_all add: alloc_N_def block_shift_def)

subsection \<open>Freeing\<close>

lemma marked_free_blocks:
  "marked_free l i this h h' \<Longrightarrow> blocks (h' this) l' = (if l' = l then insert i (blocks (h this) l') else blocks (h this) l')"
  by (simp add: marked_free_def blocks_def)

lemma marked_free_wf: "marked_free l i this h h' \<Longrightarrow> buddy_wf (h' this) = buddy_wf (h this)"
  by (simp add: marked_free_def)

text \<open>
  \<open>gives c ms\<close>: the computation succeeds and is the sequence of frees \<open>ms\<close>.
\<close>

definition gives :: "bptr \<Rightarrow> bheap \<Rightarrow> bheap res \<Rightarrow> (level \<times> nat) list \<Rightarrow> bool" where
  "gives this h c ms \<longleftrightarrow> (\<exists>h'. c = Inr h' \<and> adds ms this h h')"

lemma gives_bind:
  assumes "gives this h c ms" and "buddy_wf (h this)"
    and "\<And>h1. c = Inr h1 \<Longrightarrow> adds ms this h h1 \<Longrightarrow> buddy_wf (h1 this) \<Longrightarrow> gives this h1 (f h1) ms'"
  shows "gives this h (kbind c f) (ms @ ms')"
proof -
  obtain h1 where "c = Inr h1" "adds ms this h h1"
    using assms(1) by (auto simp: gives_def)
  moreover from this have "gives this h1 (f h1) ms'"
    using assms(2,3) adds_wf by blast
  ultimately show ?thesis
    by (auto simp: gives_def intro: adds_append)
qed

lemma gives_mark:
  "buddy_wf (h this) \<Longrightarrow> unat i < 128 \<Longrightarrow> gives this h (mark_free_k4 i this h) [(K4, unat i)]"
  "buddy_wf (h this) \<Longrightarrow> unat i < 64 \<Longrightarrow> gives this h (mark_free_k8 i this h) [(K8, unat i)]"
  "unat i < 32 \<Longrightarrow> gives this h (mark_free_k16 i this h) [(K16, unat i)]"
  "unat i < 16 \<Longrightarrow> gives this h (mark_free_k32 i this h) [(K32, unat i)]"
  using mark_free_k4_spec [of h this i] mark_free_k8_spec [of h this i]
    mark_free_k16_spec [of i this h] mark_free_k32_spec [of i this h]
  by (auto simp: gives_def)

text \<open>The frees that the two recursions perform, as lists.\<close>

definition up16 :: "(level \<Rightarrow> nat set) \<Rightarrow> nat \<Rightarrow> (level \<times> nat) list" where
  "up16 B n = [(K16, n)] @ (if xor1 n \<in> B K16 then [(K32, n div 2)] else [])"

definition up8 :: "(level \<Rightarrow> nat set) \<Rightarrow> nat \<Rightarrow> (level \<times> nat) list" where
  "up8 B n = [(K8, n)] @ (if xor1 n \<in> B K8 then up16 B (n div 2) else [])"

definition up4 :: "(level \<Rightarrow> nat set) \<Rightarrow> nat \<Rightarrow> (level \<times> nat) list" where
  "up4 B n = [(K4, n)] @ (if xor1 n \<in> B K4 then up8 B (n div 2) else [])"

definition down8 :: "nat \<Rightarrow> (level \<times> nat) list" where
  "down8 n = [(K4, 2 * n)] @ [(K4, 2 * n + 1)]"

definition down16 :: "nat \<Rightarrow> (level \<times> nat) list" where
  "down16 n = [(K8, 2 * n)] @ down8 (2 * n) @ [(K8, 2 * n + 1)] @ down8 (2 * n + 1)"

definition down32 :: "nat \<Rightarrow> (level \<times> nat) list" where
  "down32 n = [(K16, 2 * n)] @ down16 (2 * n) @ [(K16, 2 * n + 1)] @ down16 (2 * n + 1)"

lemma xor1_neq [simp]: "xor1 n \<noteq> n"
  by (auto simp: xor1_def elim: oddE)

lemma unat_double: "unat i < 64 \<Longrightarrow> unat (push_bit 1 i) = 2 * unat i \<and> unat (push_bit 1 i XOR 1) = 2 * unat i + 1"
  for i :: u32
  using unat_push_bit [of i 1] unat_xor_1 [of "push_bit 1 i"] xor1_double [of "unat i"]
  by (simp add: mult.commute)

lemma blocks_iff:
  "j \<in> blocks b K16 \<longleftrightarrow> bit (k16 b) j"
  "buddy_wf b \<Longrightarrow> j < 64 \<Longrightarrow> j \<in> blocks b K8 \<longleftrightarrow> bit (k8 b ! (j div 32)) (j mod 32)"
  "buddy_wf b \<Longrightarrow> j < 128 \<Longrightarrow> j \<in> blocks b K4 \<longleftrightarrow> bit (k4 b ! (j div 32)) (j mod 32)"
  by (auto simp: blocks_def buddy_wf_def word_bits_iff)

lemma adds_one_blocks: "adds [(l, i)] this h h1 \<Longrightarrow> j \<noteq> i \<Longrightarrow> j \<in> blocks (h this) l \<longleftrightarrow> j \<in> blocks (h1 this) l"
  by (auto simp: marked_free_blocks)

lemma unat_buddy: "unat (i XOR 1) = xor1 (unat i)" "unat (drop_bit 1 (i XOR 1)) = unat i div 2" for i :: u32
  by (simp_all add: unat_xor_1 unat_simps)

lemma gives_free_up_16384:
  assumes "buddy_wf (h this)" and i: "unat i < 32"
  shows "gives this h (free_up_16384 i this h) (up16 (blocks (h this)) (unat i))"
  unfolding free_up_16384_def up16_def
proof (rule gives_bind)
  fix h1
  assume "adds [(K16, unat i)] this h h1"
  then have "xor1 (unat i) \<in> blocks (h this) K16 \<longleftrightarrow> bit (k16 (h1 this)) (xor1 (unat i))"
    using adds_one_blocks [of K16 "unat i" this h h1 "xor1 (unat i)"] by (simp add: blocks_iff)
  then show "gives this h1 (let index = i XOR 1; b = push_bit (unat index) 1
      in if k16 (h1 this) AND b \<noteq> 0 then free_up_32768 (drop_bit 1 index) this h1 else Inr h1)
    (if xor1 (unat i) \<in> blocks (h this) K16 then [(K32, unat i div 2)] else [])"
    using i gives_mark(4) [of "drop_bit 1 (i XOR 1)" this h1] xor1_less [of 32 "unat i"]
    by (auto simp: unat_buddy Let_def free_up_32768_def gives_def unat_simps)
qed (use assms in \<open>auto intro: gives_mark\<close>)

lemma gives_free_up_8192:
  assumes "buddy_wf (h this)" and i: "unat i < 64"
  shows "gives this h (free_up_8192 i this h) (up8 (blocks (h this)) (unat i))"
  unfolding free_up_8192_def up8_def
proof (rule gives_bind)
  fix h1
  assume a: "adds [(K8, unat i)] this h h1" and wf: "buddy_wf (h1 this)"
  have x: "xor1 (unat i) < 64"
    using i by (intro xor1_less) auto
  have "xor1 (unat i) \<in> blocks (h this) K8 \<longleftrightarrow> bit (k8 (h1 this) ! (xor1 (unat i) div 32)) (xor1 (unat i) mod 32)"
    using adds_one_blocks [OF a, of "xor1 (unat i)"] blocks_iff(2,3) [of "h1 this" "xor1 (unat i)"] wf x by simp
  moreover have "up16 (blocks (h this)) = up16 (blocks (h1 this))"
    using a by (intro ext) (auto simp: marked_free_blocks up16_def)
  ultimately show "gives this h1 (let index = i XOR 1; arr_index = unat (drop_bit 5 index);
      b = push_bit (unat (index AND 0x1F)) 1
      in kbind (array_read (k8 (h1 this)) arr_index) (\<lambda>w.
        if w AND b \<noteq> 0 then free_up_16384 (drop_bit 1 index) this h1 else Inr h1))
    (if xor1 (unat i) \<in> blocks (h this) K8 then up16 (blocks (h this)) (unat i div 2) else [])"
    using i x wf gives_free_up_16384 [of h1 this "drop_bit 1 (i XOR 1)"]
    by (auto simp: unat_buddy Let_def gives_def unat_simps buddy_wf_def)
qed (use assms in \<open>auto intro: gives_mark\<close>)

lemma gives_free_up_4096:
  assumes "buddy_wf (h this)" and i: "unat i < 128"
  shows "gives this h (free_up_4096 i this h) (up4 (blocks (h this)) (unat i))"
  unfolding free_up_4096_def up4_def
proof (rule gives_bind)
  fix h1
  assume a: "adds [(K4, unat i)] this h h1" and wf: "buddy_wf (h1 this)"
  have x: "xor1 (unat i) < 128"
    using i by (intro xor1_less) auto
  have "xor1 (unat i) \<in> blocks (h this) K4 \<longleftrightarrow> bit (k4 (h1 this) ! (xor1 (unat i) div 32)) (xor1 (unat i) mod 32)"
    using adds_one_blocks [OF a, of "xor1 (unat i)"] blocks_iff(2,3) [of "h1 this" "xor1 (unat i)"] wf x by simp
  moreover have "up8 (blocks (h this)) = up8 (blocks (h1 this))"
    using a by (intro ext) (auto simp: marked_free_blocks up8_def up16_def)
  ultimately show "gives this h1 (let index = i XOR 1; arr_index = unat (drop_bit 5 index);
      b = push_bit (unat (index AND 0x1F)) 1
      in kbind (array_read (k4 (h1 this)) arr_index) (\<lambda>w.
        if w AND b \<noteq> 0 then free_up_8192 (drop_bit 1 index) this h1 else Inr h1))
    (if xor1 (unat i) \<in> blocks (h this) K4 then up8 (blocks (h this)) (unat i div 2) else [])"
    using i x wf gives_free_up_8192 [of h1 this "drop_bit 1 (i XOR 1)"]
    by (auto simp: unat_buddy Let_def gives_def unat_simps buddy_wf_def)
qed (use assms in \<open>auto intro: gives_mark\<close>)

lemma gives_free_down_8192:
  assumes "buddy_wf (h this)" and "unat i < 64"
  shows "gives this h (free_down_8192 i this h) (down8 (unat i))"
proof -
  have idx: "2 * unat i = unat (push_bit 1 i)" "2 * unat i + 1 = unat (push_bit 1 i XOR 1)"
      "unat (push_bit 1 i) < 128" "unat (push_bit 1 i XOR 1) < 128"
    using unat_double [OF assms(2)] assms(2) by auto
  show ?thesis
    unfolding free_down_8192_def down8_def Let_def unfolding idx(2) unfolding idx(1)
    by (rule gives_bind gives_mark assms | assumption | rule idx)+
qed

lemma gives_free_down_16384:
  assumes "buddy_wf (h this)" and "unat i < 32"
  shows "gives this h (free_down_16384 i this h) (down16 (unat i))"
proof -
  have idx: "2 * unat i = unat (push_bit 1 i)" "2 * unat i + 1 = unat (push_bit 1 i XOR 1)"
      "unat (push_bit 1 i) < 64" "unat (push_bit 1 i XOR 1) < 64"
    using unat_double [of i] assms(2) by auto
  show ?thesis
    unfolding free_down_16384_def down16_def Let_def unfolding idx(2) unfolding idx(1)
    by (rule gives_bind gives_mark gives_free_down_8192 assms | assumption | rule idx)+
qed

lemma gives_free_down_32768:
  assumes "buddy_wf (h this)" and "unat i < 16"
  shows "gives this h (free_down_32768 i this h) (down32 (unat i))"
proof -
  have idx: "2 * unat i = unat (push_bit 1 i)" "2 * unat i + 1 = unat (push_bit 1 i XOR 1)"
      "unat (push_bit 1 i) < 32" "unat (push_bit 1 i XOR 1) < 32"
    using unat_double [of i] assms(2) by auto
  show ?thesis
    unfolding free_down_32768_def down32_def Let_def unfolding idx(2) unfolding idx(1)
    by (rule gives_bind gives_mark gives_free_down_16384 assms | assumption | rule idx)+
qed

definition free_marks :: "level \<Rightarrow> (level \<Rightarrow> nat set) \<Rightarrow> nat \<Rightarrow> (level \<times> nat) list" where
  "free_marks l B n = (case l of K4 \<Rightarrow> up4 B n @ [] | K8 \<Rightarrow> up8 B n @ down8 n
     | K16 \<Rightarrow> up16 B n @ down16 n | K32 \<Rightarrow> [(K32, n)] @ down32 n)"

lemma gives_buddy_free:
  assumes "buddy_wf (h this)" and "unat i < nblocks l"
  shows "gives this h (buddy_free l i this h) (free_marks l (blocks (h this)) (unat i))"
proof -
  have nop: "gives this h1 (Inr h1) []" for h1
    by (simp add: gives_def)
  have i: "l = K4 \<Longrightarrow> unat i < 128" "l = K8 \<Longrightarrow> unat i < 64" "l = K16 \<Longrightarrow> unat i < 32" "l = K32 \<Longrightarrow> unat i < 16"
    using assms(2) by (auto simp: nblocks_def)
  show ?thesis
    unfolding buddy_free_def free_up_def free_down_def free_marks_def free_up_32768_def
    by (cases l; simp only: level.case; rule gives_bind; (rule nop assms(1) gives_mark gives_free_up_16384
        gives_free_up_8192 gives_free_up_4096 gives_free_down_8192 gives_free_down_16384 gives_free_down_32768)?;
        (assumption | rule assms(1) i)?)
qed

lemma adds_blocks:
  "adds ms this h h' \<Longrightarrow> blocks (h' this) l = blocks (h this) l \<union> {i. (l, i) \<in> set ms}"
  using adds_bits [of ms this h h' l this] by (simp add: blocks_def)

lemma halves_add_pair2: "halves (X \<union> {2 * i, 2 * i + 1}) = halves X \<union> {i}"
  using halves_add_pair [of i X] by (simp add: insert_commute)

definition plus_block :: "(level \<Rightarrow> nat set) \<Rightarrow> level \<Rightarrow> nat \<Rightarrow> level \<Rightarrow> nat set" where
  "plus_block B l n l' = B l' \<union> {i. (l', i) \<in> set (free_marks l B n)}"

lemma plus_block_K4: "plus_block B l n K4 = B K4 \<union> pages_of l n"
  unfolding plus_block_def pages_of_K4 pages_of_list
  by (cases l) (auto simp: free_marks_def up4_def up8_def up16_def down8_def down16_def down32_def pages_of_K4 pages_of_list)

lemmas free_marks_simps = plus_block_def free_marks_def up4_def up8_def up16_def down8_def down16_def down32_def

lemma plus_block_hier_K4: "hier B \<Longrightarrow> hier (plus_block B K4 n)"
proof -
  assume "hier B"
  moreover have "plus_block B K4 n K4 = insert n (B K4)"
      "plus_block B K4 n K8 = (if xor1 n \<in> B K4 then insert (n div 2) (B K8) else B K8)"
      "plus_block B K4 n K16 = (if xor1 n \<in> B K4 \<and> xor1 (n div 2) \<in> B K8 then insert (n div 4) (B K16) else B K16)"
      "plus_block B K4 n K32 = (if xor1 n \<in> B K4 \<and> xor1 (n div 2) \<in> B K8 \<and> xor1 (n div 4) \<in> B K16
        then insert (n div 8) (B K32) else B K32)"
    by (auto simp: free_marks_simps div_mult2_eq [symmetric])
  ultimately show ?thesis
    by (simp add: hier_def halves_add div_mult2_eq [symmetric])
qed

lemma plus_block_hier_K8: "hier B \<Longrightarrow> hier (plus_block B K8 n)"
proof -
  assume "hier B"
  moreover have "plus_block B K8 n K4 = B K4 \<union> {2 * n, 2 * n + 1}"
      "plus_block B K8 n K8 = insert n (B K8)"
      "plus_block B K8 n K16 = (if xor1 n \<in> B K8 then insert (n div 2) (B K16) else B K16)"
      "plus_block B K8 n K32 = (if xor1 n \<in> B K8 \<and> xor1 (n div 2) \<in> B K16 then insert (n div 4) (B K32) else B K32)"
    by (auto simp: free_marks_simps div_mult2_eq [symmetric])
  ultimately show ?thesis
    unfolding hier_def by (simp only: halves_add_pair2) (simp add: halves_add div_mult2_eq [symmetric])
qed

lemma halves_add_4: "halves (X \<union> {4 * n, 4 * n + 1, 4 * n + 2, 4 * n + 3}) = halves X \<union> {2 * n, 2 * n + 1}"
proof -
  have "X \<union> {4 * n, 4 * n + 1, 4 * n + 2, 4 * n + 3} =
      X \<union> {2 * (2 * n), 2 * (2 * n) + 1} \<union> {2 * (2 * n + 1), 2 * (2 * n + 1) + 1}"
    by auto
  then show ?thesis by (simp only: halves_add_pair2) auto
qed

lemma plus_block_hier_K16: "hier B \<Longrightarrow> hier (plus_block B K16 n)"
proof -
  assume "hier B"
  moreover have "plus_block B K16 n K4 = B K4 \<union> {4 * n, 4 * n + 1, 4 * n + 2, 4 * n + 3}"
      "plus_block B K16 n K8 = B K8 \<union> {2 * n, 2 * n + 1}"
      "plus_block B K16 n K16 = insert n (B K16)"
      "plus_block B K16 n K32 = (if xor1 n \<in> B K16 then insert (n div 2) (B K32) else B K32)"
    by (auto simp: free_marks_simps)
  ultimately show ?thesis
    unfolding hier_def by (simp only: halves_add_pair2 halves_add_4) (simp add: halves_add)
qed

lemma plus_block_hier_K32: "hier B \<Longrightarrow> hier (plus_block B K32 n)"
proof -
  assume "hier B"
  moreover have "plus_block B K32 n K4 = B K4 \<union> {4 * (2 * n), 4 * (2 * n) + 1, 4 * (2 * n) + 2, 4 * (2 * n) + 3} \<union>
        {4 * (2 * n + 1), 4 * (2 * n + 1) + 1, 4 * (2 * n + 1) + 2, 4 * (2 * n + 1) + 3}"
      "plus_block B K32 n K8 = B K8 \<union> {4 * n, 4 * n + 1, 4 * n + 2, 4 * n + 3}"
      "plus_block B K32 n K16 = B K16 \<union> {2 * n, 2 * n + 1}"
      "plus_block B K32 n K32 = insert n (B K32)"
    by (auto simp: free_marks_simps)
  ultimately show ?thesis
    unfolding hier_def by (simp only: halves_add_pair2 halves_add_4) auto
qed

lemma plus_block_hier: "hier B \<Longrightarrow> hier (plus_block B l n)"
  by (cases l) (simp_all add: plus_block_hier_K4 plus_block_hier_K8 plus_block_hier_K16 plus_block_hier_K32)

text \<open>
  Freeing a block of any size adds exactly its pages to the free pages and keeps the buddy consistent.
\<close>

definition releases :: "level \<Rightarrow> nat \<Rightarrow> bptr \<Rightarrow> bheap \<Rightarrow> bheap \<Rightarrow> bool" where
  "releases l i this h h' \<longleftrightarrow>
    blocks (h' this) K4 = blocks (h this) K4 \<union> pages_of l i \<and>
    (hier (blocks (h this)) \<longrightarrow> hier (blocks (h' this))) \<and> (\<exists>ms. adds ms this h h')"

lemma buddy_free_spec:
  assumes "buddy_wf (h this)" and "unat i < nblocks l"
  shows "\<exists>h'. buddy_free l i this h = Inr h' \<and> releases l (unat i) this h h'"
proof -
  obtain h' where h': "buddy_free l i this h = Inr h'"
    and ad: "adds (free_marks l (blocks (h this)) (unat i)) this h h'"
    using gives_buddy_free [of h this i l] assms by (auto simp: gives_def)
  have eff: "blocks (h' this) = plus_block (blocks (h this)) l (unat i)"
    using adds_blocks [OF ad] by (intro ext) (simp add: plus_block_def)
  show ?thesis
    using h' ad plus_block_hier by (auto simp: releases_def eff plus_block_K4)
qed

end
