(* ===== verification/Kmem.thy ===== *)
theory Kmem
  imports Machine Buddy_Alloc
begin

section \<open>The page allocator\<close>

text \<open>
  The free functions of \<^verbatim>\<open>kernel/memory/page_allocator.cpp\<close> and the class \<^verbatim>\<open>phys_t\<close> of its header:
  kernel pages (\<open>kmem\<close>) from the buddies, page tables, and single physical pages of high memory
  (\<open>hmem\<close>).

  \<open>kmem_alloc\<close> and \<open>_map_page\<close> call each other: growing by a buddy maps its 128 pages, and mapping a
  page may allocate a page table. The first argument of \<open>kmem_alloc\<close> bounds the depth of that
  recursion; \<open>kmem_depth\<close> is enough, because a buddy that has just been linked satisfies the inner
  allocation.
\<close>

subsection \<open>Physical addresses and page flags\<close>

definition align_page_down :: "u32 \<Rightarrow> u32" where
  "align_page_down a = push_bit 12 (drop_bit 12 a)"

definition align_page_up :: "u32 \<Rightarrow> u32" where
  "align_page_up a = push_bit 12 (drop_bit 12 (a + 4095))"

definition from_kmem :: "u32 \<Rightarrow> u32" where
  "from_kmem virt = virt - 0xC0000000"

definition to_virt :: "u32 \<Rightarrow> u32" where
  "to_virt a = a + 0xC0000000"

datatype page_flag = present | writable_flag | user | write_through | cache_disable | accessed | dirty | global_flag

definition flag_value :: "page_flag \<Rightarrow> u32" where
  "flag_value f = (case f of present \<Rightarrow> 1 | writable_flag \<Rightarrow> 2 | user \<Rightarrow> 4 | write_through \<Rightarrow> 8
     | cache_disable \<Rightarrow> 16 | accessed \<Rightarrow> 32 | dirty \<Rightarrow> 64 | global_flag \<Rightarrow> 256)"

definition prwr :: u32 where
  "prwr = flag_value present OR flag_value writable_flag"

subsection \<open>Buddies\<close>

definition level_size :: "level \<Rightarrow> u32" where
  "level_size l = (case l of K4 \<Rightarrow> 4096 | K8 \<Rightarrow> 8192 | K16 \<Rightarrow> 16384 | K32 \<Rightarrow> 32768)"

definition pages_start :: "kstate \<Rightarrow> u32" where
  "pages_start st = buddy_array st + buddy_array_size st"

definition my_first_page :: "kstate \<Rightarrow> nat \<Rightarrow> u32" where
  "my_first_page st my_index = pages_start st + push_bit 19 (of_nat my_index)"

text \<open>
  \<open>buddy_alloc<N>\<close>: null when the free list is empty, else a block of the first buddy on the list,
  filled with 0x41. A list head is never itself on a list; \<^verbatim>\<open>this - buddy_array\<close> would be undefined.
\<close>

definition buddy_alloc :: "level \<Rightarrow> u32 option kop" where
  "buddy_alloc l st =
    (case next_N (buds st (First l)) l of
       None \<Rightarrow> Inr (None, st)
     | Some (First _) \<Rightarrow> Inl Undefined
     | Some (Bud j) \<Rightarrow>
         kbind (alloc_N l (Bud j) (buds st)) (\<lambda>(off, h).
         let res = my_first_page st j + off
         in Inr (Some res, st\<lparr>buds := h, kmem := memset res 0x41 (level_size l) (kmem st)\<rparr>)))"

text \<open>
  A new buddy: all bits of its maps are set (\<^verbatim>\<open>memset\<close> with 0xFF), and it goes to the front of the
  four lists.
\<close>

definition full_buddy :: "(level \<Rightarrow> bptr option) \<Rightarrow> (level \<Rightarrow> bptr option) \<Rightarrow> buddy_data" where
  "full_buddy p n = \<lparr>k4 = [- 1, - 1, - 1, - 1], k8 = [- 1, - 1], k16 = - 1, k32 = - 1, prev_N = p, next_N = n\<rparr>"

definition link_new_buddy :: "nat \<Rightarrow> bheap \<Rightarrow> bheap" where
  "link_new_buddy pos h =
    (let h0 = h(Bud pos := full_buddy (\<lambda>l. Some (First l)) (\<lambda>l. next_N (h (First l)) l));
         h1 = set_next K4 (First K4) (Some (Bud pos)) h0;
         h2 = set_next K8 (First K8) (Some (Bud pos)) h1;
         h3 = set_next K16 (First K16) (Some (Bud pos)) h2
     in set_next K32 (First K32) (Some (Bud pos)) h3)"

definition kmem_buddy_new_no_alloc :: "kstate \<Rightarrow> kstate res" where
  "kmem_buddy_new_no_alloc st =
    (let pos = buddy_array_pos st;
         st1 = st\<lparr>buddy_array_pos := pos + 1\<rparr>
     in kbind (kassert (pos * 64 < buddy_array_size st1)) (\<lambda>_.
        Inr (st1\<lparr>buds := link_new_buddy (unat pos) (buds st1)\<rparr>)))"

text \<open>\<open>kmem_free_4k\<close> to \<open>kmem_free_32k\<close>; a buddy number past the array is out of bounds.\<close>

definition kmem_free :: "level \<Rightarrow> u32 \<Rightarrow> unit kop" where
  "kmem_free l ptr = scoped_intlock (\<lambda>st.
    let buddy_rel_pos = ptr - buddy_array st - buddy_array_size st;
        bud = drop_bit 19 buddy_rel_pos
    in if buddy_array_size st \<le> bud * 64 then Inl OutOfBounds
       else kbind (kassert (buddy_rel_pos AND (level_size l - 1) = 0)) (\<lambda>_.
         let alloc_index = drop_bit (block_shift l) (buddy_rel_pos AND 0x7FFFF)
         in kbind (buddy_free l alloc_index (Bud (unat bud)) (buds st)) (\<lambda>h.
            Inr ((), st\<lparr>buds := h\<rparr>))))"

subsection \<open>Page tables\<close>

definition dir_entry_addr :: "u32 \<Rightarrow> u32 \<Rightarrow> u32" where
  "dir_entry_addr pd virt = pd + 4 * drop_bit 22 virt"

definition table_entry_addr :: "u32 \<Rightarrow> u32 \<Rightarrow> u32" where
  "table_entry_addr page_table virt = page_table + 4 * (drop_bit 12 virt AND 0x03FF)"

definition table_of :: "u32 \<Rightarrow> u32" where
  "table_of dir_entry = to_virt (align_page_down dir_entry)"

definition is_present :: "u32 \<Rightarrow> bool" where
  "is_present entry \<longleftrightarrow> entry AND flag_value present \<noteq> 0"

text \<open>\<open>_map_page\<close>, with \<open>kmem_alloc_4k\<close> as its first argument.\<close>

definition map_page :: "u32 kop \<Rightarrow> u32 \<Rightarrow> u32 \<Rightarrow> u32 \<Rightarrow> u32 \<Rightarrow> unit kop" where
  "map_page alloc_4k virt pde_flags pte pd = scoped_intlock (\<lambda>st.
    kbind (kassert (virt AND 0xFFF = 0)) (\<lambda>_.
    let entry = dir_entry_addr pd virt;
        dir_entry = load32 (kmem st) entry
    in if is_present dir_entry
       then Inr ((), st\<lparr>kmem := store32 (table_entry_addr (table_of dir_entry) virt) pte (kmem st)\<rparr>)
       else
         kbind (alloc_4k st) (\<lambda>(page_table, st1).
         if is_present (load32 (kmem st1) entry)
         then kbind (kmem_free K4 page_table st1) (\<lambda>(_, st2).
           let page_table' = table_of (load32 (kmem st2) entry)
           in Inr ((), st2\<lparr>kmem := store32 (table_entry_addr page_table' virt) pte (kmem st2)\<rparr>))
         else
           let m1 = memset page_table 0 4096 (kmem st1);
               m2 = store32 entry (from_kmem page_table OR pde_flags) m1
           in Inr ((), st1\<lparr>kmem := store32 (table_entry_addr page_table virt) pte m2\<rparr>))))"

text \<open>
  The loop of \<open>kmem_buddy_new\<close> and of \<open>init_page_allocator\<close> over the pages from \<open>addr\<close> to \<open>end\<close>. The
  fuel is a bound on the number of iterations.
\<close>

fun map_range :: "u32 kop \<Rightarrow> nat \<Rightarrow> u32 \<Rightarrow> u32 \<Rightarrow> kstate \<Rightarrow> kstate res" where
  "map_range alloc_4k fuel addr end_addr st =
    (if addr < end_addr then
       (case fuel of
          0 \<Rightarrow> Inl OutOfFuel
        | Suc n \<Rightarrow>
            kbind (map_page alloc_4k addr prwr (prwr OR from_kmem addr) (first_page_directory st) st) (\<lambda>(_, st1).
            map_range alloc_4k n (addr + 4096) end_addr st1))
     else Inr st)"

declare map_range.simps [simp del]

definition kmem_buddy_new :: "u32 kop \<Rightarrow> kstate \<Rightarrow> kstate res" where
  "kmem_buddy_new alloc_4k st =
    kbind (kmem_buddy_new_no_alloc st) (\<lambda>st1.
    let pos = buddy_array_pos st1 - 1;
        start = pages_start st1 + push_bit 19 pos;
        end_addr = start + push_bit 19 1
    in kbind (map_range alloc_4k 128 start end_addr st1) (\<lambda>st2.
       kbind (kassert (to_virt (kmem_phys_end st2) = start)) (\<lambda>_.
       let st3 = st2\<lparr>kmem_phys_end := kmem_phys_end st2 + push_bit 19 1\<rparr>
       in kbind (kassert (kmem_phys_end st3 < kmem_region_end st3)) (\<lambda>_. Inr st3))))"

text \<open>\<open>kmem_alloc_4k\<close> to \<open>kmem_alloc_32k\<close>.\<close>

primrec kmem_alloc :: "nat \<Rightarrow> level \<Rightarrow> u32 kop" where
  "kmem_alloc 0 l = (\<lambda>st. Inl OutOfFuel)"
| "kmem_alloc (Suc d) l = scoped_intlock (\<lambda>st.
    kbind (buddy_alloc l st) (\<lambda>(result, st1).
    case result of
      Some p \<Rightarrow> Inr (p, st1)
    | None \<Rightarrow>
        kbind (kmem_buddy_new (\<lambda>s. kmem_alloc d K4 s) st1) (\<lambda>st2.
        kbind (buddy_alloc l st2) (\<lambda>(result2, st3).
        case result2 of None \<Rightarrow> Inl KAssert | Some p \<Rightarrow> Inr (p, st3)))))"

definition kmem_depth :: nat where
  "kmem_depth = 2"

definition kmem_alloc_pages :: "level \<Rightarrow> u32 kop" where
  "kmem_alloc_pages l = kmem_alloc kmem_depth l"

definition new_page_directory :: "u32 kop" where
  "new_page_directory st =
    kbind (kmem_alloc_pages K4 st) (\<lambda>(page_table, st1).
    Inr (from_kmem page_table, st1\<lparr>kmem := memcpy page_table (first_page_directory st1) 4096 (kmem st1)\<rparr>))"

definition map_user_page :: "u32 \<Rightarrow> u32 \<Rightarrow> bool \<Rightarrow> unit kop" where
  "map_user_page virt phys writable st =
    (let pde_flags = flag_value present OR flag_value writable_flag OR flag_value user;
         pte = phys OR flag_value present OR flag_value user;
         pte' = (if writable then pte OR flag_value writable_flag else pte)
     in map_page (kmem_alloc_pages K4) virt pde_flags pte' (to_virt (cr3 st)) st)"

subsection \<open>High memory\<close>

text \<open>
  The address translation of the CPU: two levels of tables from \<open>cr3\<close>. \<open>None\<close> is a page fault.
\<close>

definition walk :: "mem \<Rightarrow> u32 \<Rightarrow> u32 \<Rightarrow> u32 option" where
  "walk m root virt =
    (let dir_entry = load32 m (dir_entry_addr (to_virt (align_page_down root)) virt)
     in if is_present dir_entry then
          let pte = load32 m (table_entry_addr (table_of dir_entry) virt)
          in if is_present pte then Some (align_page_down pte + (virt AND 0xFFF)) else None
        else None)"

definition virt_read :: "u32 \<Rightarrow> kstate \<Rightarrow> u32 res" where
  "virt_read virt st =
    (case walk (kmem st) (cr3 st) virt of None \<Rightarrow> Inl Undefined | Some p \<Rightarrow> Inr (load32 (kmem st) (to_virt p)))"

definition virt_write :: "u32 \<Rightarrow> u32 \<Rightarrow> kstate \<Rightarrow> kstate res" where
  "virt_write virt v st =
    (case walk (kmem st) (cr3 st) virt of None \<Rightarrow> Inl Undefined
     | Some p \<Rightarrow> Inr (st\<lparr>kmem := store32 (to_virt p) v (kmem st)\<rparr>))"

text \<open>The constructor (its result is \<open>m_virt\<close>) and destructor of \<^verbatim>\<open>scoped_hmem_mapping\<close>.\<close>

definition scoped_hmem_mapping :: "u32 \<Rightarrow> u32 kop" where
  "scoped_hmem_mapping addr st =
    kbind (kassert (current_task st \<noteq> None)) (\<lambda>_.
    let m_virt = hmem_end st - 4096;
        st1 = st\<lparr>hmem_end := m_virt\<rparr>;
        pte = addr OR prwr;
        dir_index = drop_bit 22 m_virt
    in kbind (kassert (dir_index = 0x03FF)) (\<lambda>_.
       let page_dir = to_virt (cr3 st1);
           dir_entry = load32 (kmem st1) (page_dir + 4 * dir_index)
       in kbind (kassert (is_present dir_entry)) (\<lambda>_.
          Inr (m_virt, st1\<lparr>kmem := store32 (table_entry_addr (table_of dir_entry) m_virt) pte (kmem st1)\<rparr>))))"

definition scoped_hmem_mapping_end :: "u32 \<Rightarrow> kstate \<Rightarrow> kstate res" where
  "scoped_hmem_mapping_end m_virt st =
    kbind (kassert (current_task st \<noteq> None)) (\<lambda>_.
    kbind (kassert (hmem_end st = m_virt)) (\<lambda>_.
    Inr (st\<lparr>hmem_end := hmem_end st + 4096\<rparr>)))"

definition hmem_alloc_page :: "u32 kop" where
  "hmem_alloc_page st0 =
    kbind (kassert (\<not> is_interrupt_context st0)) (\<lambda>_.
    scoped_preemptlock (\<lambda>st.
      if hmem_phys_list st = 0 then
        let st1 = st\<lparr>hmem_phys_end := hmem_phys_end st - 4096\<rparr>
        in kbind (kassert (kmem_phys_end st1 < hmem_phys_end st1)) (\<lambda>_. Inr (hmem_phys_end st1, st1))
      else
        let result = hmem_phys_list st
        in kbind (scoped_hmem_mapping result st) (\<lambda>(map_value, st1).
           kbind (virt_read map_value st1) (\<lambda>contents.
           kbind (scoped_hmem_mapping_end map_value (st1\<lparr>hmem_phys_list := contents\<rparr>)) (\<lambda>st2.
           Inr (result, st2))))) st0)"

definition hmem_free_page :: "u32 \<Rightarrow> unit kop" where
  "hmem_free_page addr st0 =
    kbind (kassert (\<not> is_interrupt_context st0)) (\<lambda>_.
    scoped_preemptlock (\<lambda>st.
      kbind (kassert (hmem_phys_end st \<le> addr)) (\<lambda>_.
      if hmem_phys_list st = 0 then Inr ((), st\<lparr>hmem_phys_list := addr\<rparr>)
      else
        kbind (scoped_hmem_mapping addr st) (\<lambda>(map_value, st1).
        kbind (virt_write map_value (hmem_phys_list st1) st1) (\<lambda>st2.
        kbind (scoped_hmem_mapping_end map_value (st2\<lparr>hmem_phys_list := addr\<rparr>)) (\<lambda>st3.
        Inr ((), st3)))))) st0)"

subsection \<open>Initialisation\<close>

text \<open>
  \<open>init_page_allocator\<close>: the second loop allocates the page tables of the whole kernel region. A page
  directory has 1024 entries, so 1024 iterations bound it; \<open>2 ^ 20\<close> pages bound the first loop.
\<close>

fun make_tables :: "nat \<Rightarrow> u32 \<Rightarrow> kstate \<Rightarrow> kstate res" where
  "make_tables fuel addr st =
    (if addr < to_virt (kmem_region_end st) then
       (case fuel of
          0 \<Rightarrow> Inl OutOfFuel
        | Suc n \<Rightarrow>
            let entry = dir_entry_addr (first_page_directory st) addr
            in kbind (kassert (\<not> is_present (load32 (kmem st) entry))) (\<lambda>_.
               kbind (kmem_alloc_pages K4 st) (\<lambda>(page_table, st1).
               let m1 = memset page_table 0 4096 (kmem st1);
                   m2 = store32 entry (from_kmem page_table OR flag_value present OR flag_value writable_flag) m1
               in make_tables n (addr + push_bit 22 1) (st1\<lparr>kmem := m2\<rparr>))))
     else Inr st)"

declare make_tables.simps [simp del]

definition zero_buddy :: buddy_data where
  "zero_buddy = \<lparr>k4 = [0, 0, 0, 0], k8 = [0, 0], k16 = 0, k32 = 0, prev_N = (\<lambda>l. None), next_N = (\<lambda>l. None)\<rparr>"

definition zero_heads :: "bheap \<Rightarrow> bheap" where
  "zero_heads h = (\<lambda>q. case q of First l \<Rightarrow> zero_buddy | Bud j \<Rightarrow> h (Bud j))"

definition init_page_allocator :: "u32 \<Rightarrow> u32 \<Rightarrow> u32 \<Rightarrow> kstate \<Rightarrow> kstate res" where
  "init_page_allocator kernel_end ram_amount ram_amount_start st =
    (let total_page_count = drop_bit 12 (ram_amount + 4095);
         total_buddy_count = drop_bit 7 (total_page_count + 127);
         total_buddy_page_count = drop_bit 6 (total_buddy_count + 63);
         buddy_memory_phys = align_page_up (from_kmem kernel_end);
         arr = to_virt buddy_memory_phys;
         buddy_array_end = push_bit 15 (drop_bit 15 (arr + push_bit 12 total_buddy_page_count + 32767));
         arr_size = buddy_array_end - arr;
         buddy_memory_end_phys = buddy_memory_phys + arr_size;
         st1 = st\<lparr>buddy_array := arr, buddy_array_size := arr_size, buddy_array_pos := 0,
                  buds := zero_heads (buds st)\<rparr>
     in kbind (kmem_buddy_new_no_alloc st1) (\<lambda>st2.
        let region_end = buddy_memory_end_phys + push_bit 12 total_page_count;
            st3 = st2\<lparr>kmem_phys_end := buddy_memory_end_phys + push_bit 19 1,
              kmem_region_end := (if 0x38000000 < region_end then 0x38000000 else region_end),
              hmem_phys_end := align_page_down (ram_amount_start + ram_amount),
              hmem_phys_list := 0\<rparr>;
            initially_mapped = to_virt (kmem_phys_end st3);
            st4 = st3\<lparr>kmem := memset (first_page_directory st3) 0 4096 (kmem st3)\<rparr>
        in kbind (map_range (kmem_alloc_pages K4) (2 ^ 20) 0xC0000000 initially_mapped st4) (\<lambda>st5.
           let st6 = st5\<lparr>cr3 := from_kmem (first_page_directory st5)\<rparr>
           in make_tables 1024 (push_bit 22 (drop_bit 22 (initially_mapped + push_bit 22 1 - 1))) st6)))"

end
