(* ===== verification/Kmem_Correct.thy ===== *)
theory Kmem_Correct
  imports Kmem
begin

section \<open>Correctness of the kernel page allocator\<close>

text \<open>
  The abstraction of the allocator is its set of free pages, each a pair of a buddy number and a page
  number in the buddy. Allocation takes the pages of one block out of it, freeing puts them back, and
  growing adds the 128 pages of a new buddy. The invariant \<open>kmem_inv n\<close> says that the first \<open>n\<close> buddies
  are in use, are consistent, and are on exactly the right free lists.
\<close>

subsection \<open>Invariant and abstraction\<close>

definition maps_ok :: "nat \<Rightarrow> bheap \<Rightarrow> bool" where
  "maps_ok n h \<longleftrightarrow> (\<forall>j < n. buddy_wf (h (Bud j)) \<and> hier (blocks (h (Bud j))))"

definition buddies_ok :: "nat \<Rightarrow> bheap \<Rightarrow> bool" where
  "buddies_ok n h \<longleftrightarrow> (\<forall>j < n. buddy_wf (h (Bud j)) \<and> hier (blocks (h (Bud j)))) \<and> lists_inv n h"

definition kmem_inv :: "nat \<Rightarrow> kstate \<Rightarrow> bool" where
  "kmem_inv n st \<longleftrightarrow> unat (buddy_array_pos st) = n \<and> buddies_ok n (buds st) \<and>
    64 * n \<le> unat (buddy_array_size st) \<and>
    unat (buddy_array st) + unat (buddy_array_size st) + n * 2 ^ 19 \<le> 2 ^ 32 \<and>
    2 ^ 15 dvd unat (buddy_array st) + unat (buddy_array_size st)"

text \<open>The part of the invariant that is about the addresses of the buddies.\<close>

definition layout :: "nat \<Rightarrow> kstate \<Rightarrow> bool" where
  "layout n st \<longleftrightarrow> unat (buddy_array_pos st) = n \<and> 64 * n < unat (buddy_array_size st) + 64 \<and>
    unat (buddy_array st) + unat (buddy_array_size st) + n * 2 ^ 19 \<le> 2 ^ 32 \<and>
    2 ^ 15 dvd unat (buddy_array st) + unat (buddy_array_size st)"

lemma buddies_ok_iff: "buddies_ok n h \<longleftrightarrow> maps_ok n h \<and> lists_inv n h"
  by (simp add: buddies_ok_def maps_ok_def)

lemma kmem_inv_layout: "kmem_inv n st \<Longrightarrow> layout n st"
  by (simp add: kmem_inv_def layout_def)

lemma kmem_inv_maps: "kmem_inv n st \<Longrightarrow> maps_ok n (buds st)"
  by (simp add: kmem_inv_def buddies_ok_iff)

definition free_pages :: "nat \<Rightarrow> bheap \<Rightarrow> (nat \<times> nat) set" where
  "free_pages n h = {(j, p). j < n \<and> p \<in> blocks (h (Bud j)) K4}"

definition block_addr :: "kstate \<Rightarrow> nat \<Rightarrow> level \<Rightarrow> nat \<Rightarrow> u32" where
  "block_addr st j l i = my_first_page st j + push_bit (block_shift l) (of_nat i)"

lemma kmem_inv_cong:
  "kmem_inv n st \<Longrightarrow> buddies_ok n (buds st') \<Longrightarrow> buddy_array_pos st' = buddy_array_pos st \<Longrightarrow>
    buddy_array st' = buddy_array st \<Longrightarrow> buddy_array_size st' = buddy_array_size st \<Longrightarrow> kmem_inv n st'"
  by (simp add: kmem_inv_def)

subsection \<open>One block of one buddy\<close>

lemma removes_other: "removes ms (Bud j) h h' \<Longrightarrow> k \<noteq> j \<Longrightarrow> blocks (h' (Bud k)) = blocks (h (Bud k))"
  using removes_bits [of ms "Bud j" h h' _ "Bud k"] by (auto simp: blocks_def fun_eq_iff)

lemma adds_other: "adds ms (Bud j) h h' \<Longrightarrow> k \<noteq> j \<Longrightarrow> blocks (h' (Bud k)) = blocks (h (Bud k))"
  using adds_bits [of ms "Bud j" h h' _ "Bud k"] by (auto simp: blocks_def fun_eq_iff)

lemma allocates_maps:
  assumes ok: "maps_ok n h" and j: "j < n" and al: "allocates l i (Bud j) h h'"
  shows "maps_ok n h'" and "free_pages n h' = free_pages n h - {j} \<times> pages_of l i"
    and "{j} \<times> pages_of l i \<subseteq> free_pages n h"
proof -
  obtain ms where ms: "removes ms (Bud j) h h'"
    using al by (auto simp: allocates_def)
  show "maps_ok n h'"
    unfolding maps_ok_def
  proof (intro allI impI conjI)
    fix k assume "k < n"
    then show "buddy_wf (h' (Bud k))"
      using ok removes_wf [OF ms] by (simp add: maps_ok_def)
    from \<open>k < n\<close> show "hier (blocks (h' (Bud k)))"
      using ok al removes_other [OF ms, of k] by (cases "k = j") (auto simp: maps_ok_def allocates_def)
  qed
  have "blocks (h' (Bud k)) K4 = blocks (h (Bud k)) K4 - (if k = j then pages_of l i else {})" for k
    using al removes_other [OF ms, of k] by (auto simp: allocates_def)
  then show "free_pages n h' = free_pages n h - {j} \<times> pages_of l i"
    by (auto simp: free_pages_def split: if_splits)
  show "{j} \<times> pages_of l i \<subseteq> free_pages n h"
    using ok j al hier_pages [of "blocks (h (Bud j))" i l]
    by (auto simp: maps_ok_def allocates_def free_pages_def)
qed

lemma allocates_ok:
  assumes ok: "buddies_ok n h" and j: "j < n" and al: "allocates l i (Bud j) h h'"
  shows "buddies_ok n h'" and "free_pages n h' = free_pages n h - {j} \<times> pages_of l i"
    and "{j} \<times> pages_of l i \<subseteq> free_pages n h"
proof -
  obtain ms where "removes ms (Bud j) h h'"
    using al by (auto simp: allocates_def)
  then show "buddies_ok n h'" "free_pages n h' = free_pages n h - {j} \<times> pages_of l i"
      "{j} \<times> pages_of l i \<subseteq> free_pages n h"
    using ok j allocates_maps [OF _ j al] removes_lists_inv by (auto simp: buddies_ok_iff)
qed

lemma releases_maps:
  assumes ok: "maps_ok n h" and j: "j < n" and re: "releases l i (Bud j) h h'"
  shows "maps_ok n h'" and "free_pages n h' = free_pages n h \<union> {j} \<times> pages_of l i"
proof -
  obtain ms where ms: "adds ms (Bud j) h h'"
    using re by (auto simp: releases_def)
  show "maps_ok n h'"
    unfolding maps_ok_def
  proof (intro allI impI conjI)
    fix k assume "k < n"
    then show "buddy_wf (h' (Bud k))"
      using ok adds_wf [OF ms] by (simp add: maps_ok_def)
    from \<open>k < n\<close> show "hier (blocks (h' (Bud k)))"
      using ok re adds_other [OF ms, of k] by (cases "k = j") (auto simp: maps_ok_def releases_def)
  qed
  have "blocks (h' (Bud k)) K4 = blocks (h (Bud k)) K4 \<union> (if k = j then pages_of l i else {})" for k
    using re adds_other [OF ms, of k] by (auto simp: releases_def)
  then show "free_pages n h' = free_pages n h \<union> {j} \<times> pages_of l i"
    using j by (auto simp: free_pages_def split: if_splits)
qed

lemma releases_ok:
  assumes ok: "buddies_ok n h" and j: "j < n" and re: "releases l i (Bud j) h h'"
  shows "buddies_ok n h'" and "free_pages n h' = free_pages n h \<union> {j} \<times> pages_of l i"
proof -
  obtain ms where "adds ms (Bud j) h h'"
    using re by (auto simp: releases_def)
  then show "buddies_ok n h'" "free_pages n h' = free_pages n h \<union> {j} \<times> pages_of l i"
    using ok j releases_maps [OF _ j re] adds_lists_inv by (auto simp: buddies_ok_iff)
qed

subsection \<open>Taking a block\<close>

lemma lists_inv_head:
  assumes "lists_inv n h"
  obtains "next_N (h (First l)) l = None" and "\<forall>j < n. level_bits l (h (Bud j)) = {}"
  | j where "next_N (h (First l)) l = Some (Bud j)" and "j < n" and "level_bits l (h (Bud j)) \<noteq> {}"
proof -
  obtain xs where "free_list n l h xs"
    using assms by (auto simp: lists_inv_def)
  then show ?thesis
    using that by (cases xs) (auto simp: free_list_def links_def)
qed

lemma buddy_alloc_spec:
  assumes inv: "kmem_inv n st"
  obtains "buddy_alloc l st = Inr (None, st)" and "\<forall>j < n. blocks (buds st (Bud j)) l = {}"
  | j i h where "buddy_alloc l st = Inr (Some (block_addr st j l i),
        st\<lparr>buds := h, kmem := memset (block_addr st j l i) 0x41 (level_size l) (kmem st)\<rparr>)"
      and "j < n" and "i < nblocks l" and "allocates l i (Bud j) (buds st) h"
proof (rule lists_inv_head [of n "buds st" l])
  show "lists_inv n (buds st)"
    using inv by (simp add: kmem_inv_def buddies_ok_def)
next
  assume "next_N (buds st (First l)) l = None" "\<forall>j < n. level_bits l (buds st (Bud j)) = {}"
  then show thesis
    by (intro that(1)) (simp_all add: buddy_alloc_def blocks_def)
next
  fix j
  assume j: "next_N (buds st (First l)) l = Some (Bud j)" "j < n" "level_bits l (buds st (Bud j)) \<noteq> {}"
  then have wf: "buddy_wf (buds st (Bud j))"
    using inv by (simp add: kmem_inv_def buddies_ok_def)
  obtain i h where i: "alloc_N l (Bud j) (buds st) = Inr (push_bit (block_shift l) i, h)"
      "allocates l (unat i) (Bud j) (buds st) h"
    using alloc_N_spec [of "buds st" "Bud j" l] inv j by (auto simp: kmem_inv_def buddies_ok_def blocks_def)
  have "unat i < nblocks l"
    using i(2) level_bits_bound [OF wf, of l] by (auto simp: allocates_def blocks_def)
  with i j show thesis
    by (intro that(2) [of j "unat i" h]) (simp_all add: buddy_alloc_def block_addr_def Let_def)
qed

subsection \<open>Giving a block back\<close>

text \<open>The address of a block determines the buddy and the block, which \<open>kmem_free\<close> recovers.\<close>

definition block_offset :: "nat \<Rightarrow> level \<Rightarrow> nat \<Rightarrow> nat" where
  "block_offset j l i = j * 2 ^ 19 + i * 2 ^ block_shift l"

lemma block_shift_bound: "i < nblocks l \<Longrightarrow> i * 2 ^ block_shift l + 2 ^ block_shift l \<le> 2 ^ 19"
  by (cases l) (auto simp: nblocks_def block_shift_def)

lemma block_addr_offset: "block_addr st j l i = pages_start st + of_nat (block_offset j l i)"
  by (simp add: block_addr_def my_first_page_def block_offset_def push_bit_eq_mult)

lemma unat_and_mask: "unat (w AND mask n) = unat w mod 2 ^ n" for w :: u32
  unfolding take_bit_eq_mask [symmetric] unsigned_take_bit_eq by (simp add: take_bit_eq_mod)

lemma block_offset_decode:
  assumes "j < 2 ^ 13" and "i < nblocks l"
  shows "unat (of_nat (block_offset j l i) :: u32) = block_offset j l i"
    and "drop_bit 19 (of_nat (block_offset j l i) :: u32) = of_nat j"
    and "(of_nat (block_offset j l i) :: u32) AND (level_size l - 1) = 0"
    and "drop_bit (block_shift l) ((of_nat (block_offset j l i) :: u32) AND 0x7FFFF) = of_nat i"
proof -
  let ?w = "of_nat (block_offset j l i) :: u32"
  have "0 < (2::nat) ^ block_shift l"
    by simp
  then have i: "i * 2 ^ block_shift l < 2 ^ 19"
    using block_shift_bound [OF assms(2)] by linarith
  have "j * 2 ^ 19 + 2 ^ 19 \<le> 2 ^ 32"
    using assms(1) by simp
  then have "block_offset j l i < 2 ^ 32"
    using i unfolding block_offset_def by linarith
  then show w: "unat ?w = block_offset j l i"
    by (simp add: unat_of_nat_32)
  have ij: "unat (of_nat j :: u32) = j" "unat (of_nat i :: u32) = i"
    using assms by (auto simp: unat_of_nat_32 nblocks_def split: level.splits)
  show "drop_bit 19 ?w = of_nat j"
    using i w ij by (simp add: word_unat_eq_iff unat_drop_bit block_offset_def)
  have sz: "level_size l - 1 = mask (block_shift l)" "(0x7FFFF :: u32) = mask 19"
    by (cases l; simp add: level_size_def block_shift_def mask_eq_exp_minus_1)+
  have dv: "2 ^ block_shift l dvd block_offset j l i"
    unfolding block_offset_def
    by (intro dvd_add dvd_mult dvd_triv_right le_imp_power_dvd) (cases l; simp add: block_shift_def)
  then show "?w AND (level_size l - 1) = 0"
    using w by (simp add: sz word_unat_eq_iff unat_and_mask)
  have "unat (?w AND 0x7FFFF) = block_offset j l i mod 2 ^ 19"
    using w by (simp only: sz unat_and_mask)
  also have "\<dots> = i * 2 ^ block_shift l"
    using i by (simp add: block_offset_def)
  finally show "drop_bit (block_shift l) (?w AND 0x7FFFF) = of_nat i"
    using ij unfolding word_unat_eq_iff unat_drop_bit by simp
qed

lemma layout_bound: "layout n st \<Longrightarrow> j < n \<Longrightarrow> j < 2 ^ 13"
  by (auto simp: layout_def)

lemma kmem_inv_bound: "kmem_inv n st \<Longrightarrow> j < n \<Longrightarrow> j < 2 ^ 13"
  by (rule layout_bound [OF kmem_inv_layout])

lemma kmem_free_maps:
  assumes lay: "layout n st" and ok: "maps_ok n (buds st)" and j: "j < n" and i: "i < nblocks l"
  obtains h where "kmem_free l (block_addr st j l i) st = Inr ((), st\<lparr>buds := h\<rparr>)"
    and "releases l i (Bud j) (buds st) h"
proof -
  have rel: "block_addr st j l i - buddy_array st - buddy_array_size st = of_nat (block_offset j l i)"
    by (simp add: block_addr_offset pages_start_def)
  note dec = block_offset_decode [OF layout_bound [OF lay j] i]
  have j': "unat (of_nat j :: u32) = j" and i': "unat (of_nat i :: u32) = i"
    using layout_bound [OF lay j] i by (auto simp: unat_of_nat_32 nblocks_def split: level.splits)
  have "unat (of_nat j * 64 :: u32) = 64 * j"
    using layout_bound [OF lay j] j' by (simp add: unat_word_ariths take_bit_eq_mod)
  then have guard: "(buddy_array_size st \<le> of_nat j * 64) = False"
    using lay j by (simp add: word_le_nat_alt layout_def)
  obtain h where h: "buddy_free l (of_nat i) (Bud j) (buds st) = Inr h" "releases l i (Bud j) (buds st) h"
    using buddy_free_spec [of "buds st" "Bud j" "of_nat i" l] ok j i i' by (auto simp: maps_ok_def)
  have "kmem_free l (block_addr st j l i) st = Inr ((), st\<lparr>buds := h\<rparr>)"
    unfolding kmem_free_def Let_def
    by (subst scoped_intlock_eq [where st' = "st\<lparr>if_flag := False, buds := h\<rparr>"])
      (simp_all add: rel dec guard j' h del: drop_bit_and)
  from that [OF this h(2)] show thesis .
qed

lemma kmem_free_spec:
  assumes inv: "kmem_inv n st" and "j < n" and "i < nblocks l"
  obtains h where "kmem_free l (block_addr st j l i) st = Inr ((), st\<lparr>buds := h\<rparr>)"
    and "releases l i (Bud j) (buds st) h"
  using kmem_free_maps [OF kmem_inv_layout [OF inv] kmem_inv_maps [OF inv] assms(2,3)] .

subsection \<open>Growing\<close>

lemma bits_minus_1 [simp]: "{i. bit (- 1 :: 'a::len word) i} = {..<LENGTH('a)}"
  by auto

lemma full_buddy_bits: "level_bits l (full_buddy p q) = {..<nblocks l}"
proof -
  have "word_bits [- 1, - 1, - 1, - 1] = {..<128}" "word_bits [- 1, - 1] = {..<64}"
    by (auto simp: word_bits_iff nth_Cons split: nat.splits)
  then show ?thesis
    by (cases l) (auto simp: full_buddy_def nblocks_def)
qed

lemma full_buddy_blocks: "blocks (full_buddy p q) l = {..<nblocks l}"
  by (simp only: blocks_def full_buddy_bits)

lemma full_buddy_wf: "buddy_wf (full_buddy p q)"
  by (simp add: full_buddy_def buddy_wf_def)

lemma full_buddy_hier: "hier (blocks (full_buddy p q))"
  by (auto simp: hier_def halves_def blocks_def full_buddy_bits nblocks_def)

lemma link_new_buddy_Bud:
  "link_new_buddy pos h (Bud j) =
    (if j = pos then full_buddy (\<lambda>l. Some (First l)) (\<lambda>l. next_N (h (First l)) l) else h (Bud j))"
  by (simp add: link_new_buddy_def set_next_def Let_def)

lemma link_new_buddy_First: "next_N (link_new_buddy pos h (First l)) l = Some (Bud pos)"
  by (cases l) (simp_all add: link_new_buddy_def set_next_def Let_def)

text \<open>
  Linking a new buddy keeps the lists exact when they were all empty, as they are when
  \<open>kmem_alloc_4k\<close> found no free page.
\<close>

lemma link_new_buddy_ok:
  assumes ok: "buddies_ok n h" and empty: "free_pages n h = {}"
  shows "buddies_ok (Suc n) (link_new_buddy n h)" and "free_pages (Suc n) (link_new_buddy n h) = {n} \<times> {..<128}"
proof -
  have K4: "blocks (h (Bud j)) K4 = {}" if "j < n" for j
    using empty that by (auto simp: free_pages_def)
  have none: "level_bits l (h (Bud j)) = {}" if "j < n" for j l
  proof -
    have "\<not> pages_of l i \<subseteq> {}" for i
      by (cases l) (auto simp: pages_of_def block_pages_def)
    then show ?thesis
      using that ok K4 [OF that] hier_pages [of "blocks (h (Bud j))" _ l]
      by (auto simp: buddies_ok_def blocks_def)
  qed
  have lists: "next_N (h (First l)) l = None \<and> (\<forall>j < n. links h l (Bud j) = (None, None))" for l
  proof -
    obtain xs where xs: "free_list n l h xs"
      using ok by (auto simp: buddies_ok_def lists_inv_def)
    then have "set xs = {i. i < n \<and> level_bits l (h (Bud i)) \<noteq> {}}"
      by (simp add: free_list_def)
    moreover have "{i. i < n \<and> level_bits l (h (Bud i)) \<noteq> {}} = {}"
      using none [of _ l] by simp
    ultimately have "xs = []"
      by simp
    with xs show ?thesis
      by (simp add: free_list_def links_def)
  qed
  have "free_list (Suc n) l (link_new_buddy n h) [n]" for l
  proof -
    have "chain (links (link_new_buddy n h) l) (First l) [n]"
      using lists [of l] by (simp add: links_def link_new_buddy_First link_new_buddy_Bud full_buddy_def)
    moreover have "links (link_new_buddy n h) l (Bud j) = (None, None)" if "j < n" for j
      using lists [of l] that by (simp add: links_def link_new_buddy_Bud)
    moreover have "0 < nblocks l"
      by (cases l) (simp_all add: nblocks_def)
    ultimately show ?thesis
      using none [of _ l] unfolding free_list_def
      by (intro conjI) (auto simp: link_new_buddy_Bud full_buddy_bits less_Suc_eq lessThan_empty_iff)
  qed
  moreover have "buddy_wf (link_new_buddy n h (Bud j)) \<and> hier (blocks (link_new_buddy n h (Bud j)))" if "j < Suc n" for j
    using that ok full_buddy_hier full_buddy_wf by (cases "j = n") (simp_all add: link_new_buddy_Bud buddies_ok_def)
  ultimately show "buddies_ok (Suc n) (link_new_buddy n h)"
    by (auto simp: buddies_ok_def lists_inv_def)
  show "free_pages (Suc n) (link_new_buddy n h) = {n} \<times> {..<128}"
    using K4 by (auto simp: free_pages_def link_new_buddy_Bud full_buddy_blocks nblocks_def less_Suc_eq split: if_splits)
qed

subsection \<open>Page tables\<close>

definition page_aligned :: "u32 \<Rightarrow> bool" where
  "page_aligned a \<longleftrightarrow> 4096 dvd unat a"

lemma page_aligned_and: "page_aligned a \<longleftrightarrow> a AND 0xFFF = 0"
proof -
  have "(0xFFF :: u32) = mask 12"
    by (simp add: mask_eq_exp_minus_1)
  then have "unat (a AND 0xFFF) = unat a mod 4096"
    using unat_and_mask [of a 12] by simp
  then show ?thesis
    by (auto simp: page_aligned_def word_unat_eq_iff dvd_eq_mod_eq_0)
qed

lemma unat_page_entry:
  assumes "page_aligned p" and "k < 1024"
  shows "unat (p + 4 * of_nat k) = unat p + 4 * k"
proof -
  obtain c where c: "unat p = 4096 * c"
    using assms(1) unfolding page_aligned_def by (elim dvdE)
  then have "c < 1048576"
    using unat_less_32 [of p] by simp
  with c assms(2) have "unat p + 4 * k < 4294967296"
    by simp
  then show ?thesis
    using unat_add_of_nat [of p "4 * k"] by simp
qed

lemma page_entry_aligned: "page_aligned p \<Longrightarrow> k < 1024 \<Longrightarrow> aligned4 (p + 4 * of_nat k)"
  unfolding aligned4_def by (auto simp: unat_page_entry page_aligned_def elim: dvdE)

lemma page_entry_eq:
  assumes "page_aligned p" and "page_aligned q" and "k < 1024" and "j < 1024"
  shows "p + 4 * of_nat k = q + 4 * of_nat j \<longleftrightarrow> p = q \<and> k = j"
proof
  assume "p + 4 * of_nat k = q + 4 * of_nat j"
  then have "unat p + 4 * k = unat q + 4 * j"
    using unat_page_entry assms by metis
  moreover obtain c d where cd: "unat p = 4096 * c" "unat q = 4096 * d"
    using assms(1,2) unfolding page_aligned_def by (elim dvdE)
  ultimately have eq: "1024 * c + k = 1024 * d + j"
    by linarith
  then have "k = j"
    using assms(3,4) mod_mult_self4 [of 1024 c k] mod_mult_self4 [of 1024 d j] by simp
  with eq cd have "unat p = unat q" "k = j"
    by simp_all
  then show "p = q \<and> k = j"
    by (simp add: word_unat_eq_iff)
qed auto

definition dir_index :: "u32 \<Rightarrow> nat" where
  "dir_index virt = unat virt div 2 ^ 22"

definition tab_index :: "u32 \<Rightarrow> nat" where
  "tab_index virt = unat virt div 2 ^ 12 mod 1024"

lemma dir_index_less [simp]: "dir_index virt < 1024"
  using unat_less_32 [of virt] by (simp add: dir_index_def less_mult_imp_div_less)

lemma tab_index_less [simp]: "tab_index virt < 1024"
  by (simp add: tab_index_def)

lemma dir_entry_addr_eq: "dir_entry_addr pd virt = pd + 4 * of_nat (dir_index virt)"
proof -
  have "drop_bit 22 virt = of_nat (dir_index virt)"
    using le_less_trans [OF div_le_dividend unat_less_32, of virt "2 ^ 22"]
    by (simp add: word_unat_eq_iff unat_drop_bit dir_index_def unat_of_nat_32)
  then show ?thesis by (simp add: dir_entry_addr_def)
qed

lemma table_entry_addr_eq: "table_entry_addr t virt = t + 4 * of_nat (tab_index virt)"
proof -
  have "(0x3FF :: u32) = mask 10"
    by (simp add: mask_eq_exp_minus_1)
  then have "unat (drop_bit 12 virt AND 0x3FF) = tab_index virt"
    using unat_and_mask [of "drop_bit 12 virt" 10] by (simp add: unat_drop_bit tab_index_def)
  then have "drop_bit 12 virt AND 0x3FF = of_nat (tab_index virt)"
    using tab_index_less [of virt] by (simp add: word_unat_eq_iff unat_of_nat_32 del: tab_index_less)
  then show ?thesis by (simp add: table_entry_addr_def)
qed

lemma unat_align_page_down: "unat (align_page_down a) = unat a div 4096 * 4096"
  unfolding align_page_down_def
  using le_less_trans [OF div_times_less_eq_dividend unat_less_32, of a 4096]
  by (subst unat_push_bit) (simp_all add: unat_drop_bit)

lemma page_aligned_add: "page_aligned a \<Longrightarrow> page_aligned b \<Longrightarrow> page_aligned (a + b)"
  unfolding page_aligned_def unat_word_ariths by (auto intro!: dvd_mod)

lemma page_aligned_diff: "page_aligned a \<Longrightarrow> page_aligned b \<Longrightarrow> page_aligned (a - b)"
  by (simp add: page_aligned_def unat_sub_if_size word_size)

lemma table_of_aligned: "page_aligned (table_of e)"
  unfolding table_of_def to_virt_def
  by (rule page_aligned_add) (simp_all add: page_aligned_def unat_align_page_down)

text \<open>
  A page directory \<open>pd\<close> has the tables of an address range when each entry of the range is present,
  no table is the directory itself, and different entries have different tables. After
  \<open>init_page_allocator\<close> this holds for the whole kernel region.
\<close>

definition tables_ok :: "mem \<Rightarrow> u32 \<Rightarrow> u32 set \<Rightarrow> bool" where
  "tables_ok m pd V \<longleftrightarrow> page_aligned pd \<and>
    (\<forall>v \<in> V. is_present (load32 m (dir_entry_addr pd v)) \<and> table_of (load32 m (dir_entry_addr pd v)) \<noteq> pd) \<and>
    (\<forall>v \<in> V. \<forall>w \<in> V. dir_index v \<noteq> dir_index w \<longrightarrow>
       table_of (load32 m (dir_entry_addr pd v)) \<noteq> table_of (load32 m (dir_entry_addr pd w)))"

definition pte_of :: "mem \<Rightarrow> u32 \<Rightarrow> u32 \<Rightarrow> u32" where
  "pte_of m pd v = load32 m (table_entry_addr (table_of (load32 m (dir_entry_addr pd v))) v)"

lemma store_table_entry:
  assumes ok: "tables_ok m pd V" and v: "v \<in> V"
    and m': "m' = store32 (table_entry_addr (table_of (load32 m (dir_entry_addr pd v))) v) pte m"
  shows "load32 m' (dir_entry_addr pd w) = load32 m (dir_entry_addr pd w)" (is ?dir)
    and "pte_of m' pd v = pte"
    and "w \<in> V \<Longrightarrow> (dir_index w, tab_index w) \<noteq> (dir_index v, tab_index v) \<Longrightarrow> pte_of m' pd w = pte_of m pd w"
    and "tables_ok m' pd V"
proof -
  let ?e = "\<lambda>w. load32 m (dir_entry_addr pd w)"
  have pd: "page_aligned pd" and t: "table_of (?e v) \<noteq> pd"
    using ok v by (auto simp: tables_ok_def)
  show dir: "load32 m' (dir_entry_addr pd w) = ?e w" for w
    unfolding m' using pd t
    by (intro load32_store32_other)
      (simp_all add: dir_entry_addr_eq table_entry_addr_eq page_entry_aligned table_of_aligned page_entry_eq)
  show "pte_of m' pd v = pte"
    unfolding pte_of_def dir by (simp add: m')
  show "tables_ok m' pd V"
    using ok by (simp add: tables_ok_def dir)
  assume w: "w \<in> V" "(dir_index w, tab_index w) \<noteq> (dir_index v, tab_index v)"
  then have "table_of (?e v) \<noteq> table_of (?e w) \<or> tab_index v \<noteq> tab_index w"
    using ok v unfolding tables_ok_def by (metis (no_types))
  then show "pte_of m' pd w = pte_of m pd w"
    unfolding pte_of_def dir unfolding m'
    by (intro load32_store32_other)
      (auto simp: table_entry_addr_eq page_entry_aligned table_of_aligned page_entry_eq)
qed

lemma map_page_present:
  assumes "page_aligned virt" and "is_present (load32 (kmem st) (dir_entry_addr pd virt))"
  shows "map_page alloc_4k virt pde_flags pte pd st = Inr ((), st\<lparr>kmem :=
    store32 (table_entry_addr (table_of (load32 (kmem st) (dir_entry_addr pd virt))) virt) pte (kmem st)\<rparr>)"
  using assms unfolding map_page_def
  by (subst scoped_intlock_eq [where st' = "st\<lparr>if_flag := False, kmem :=
    store32 (table_entry_addr (table_of (load32 (kmem st) (dir_entry_addr pd virt))) virt) pte (kmem st)\<rparr>"])
    (simp_all add: page_aligned_and Let_def)

text \<open>The addresses of \<open>k\<close> pages from \<open>a\<close>.\<close>

definition page_range :: "u32 \<Rightarrow> nat \<Rightarrow> u32 set" where
  "page_range a k = (\<lambda>i. a + of_nat (4096 * i)) ` {..<k}"

lemma page_range_Suc: "page_range a (Suc k) = insert a (page_range (a + 4096) k)"
proof -
  have "(\<lambda>i. a + of_nat (4096 * i)) ` {..<Suc k} = insert a ((\<lambda>i. a + of_nat (4096 * Suc i)) ` {..<k})"
    by (simp only: lessThan_Suc_eq_insert_0 image_insert image_image) simp
  then show ?thesis
    by (simp add: page_range_def algebra_simps)
qed

lemma unat_page_range:
  "unat a + 4096 * k \<le> 2 ^ 32 \<Longrightarrow> i < k \<Longrightarrow> unat (a + of_nat (4096 * i)) = unat a + 4096 * i" for a :: u32
  by (intro unat_add_of_nat) simp

lemma page_number_eq:
  "page_aligned v \<Longrightarrow> page_aligned w \<Longrightarrow> dir_index v = dir_index w \<Longrightarrow> tab_index v = tab_index w \<Longrightarrow> v = w"
proof -
  assume a: "page_aligned v" "page_aligned w" "dir_index v = dir_index w" "tab_index v = tab_index w"
  have "unat u = (dir_index u * 1024 + tab_index u) * 4096" if u: "page_aligned u" for u
  proof -
    obtain c where "unat u = 4096 * c"
      using u unfolding page_aligned_def by (elim dvdE)
    then show ?thesis
      using div_mult_mod_eq [of c 1024] by (simp add: dir_index_def tab_index_def div_mult2_eq [of _ 4096 1024, simplified, symmetric])
  qed
  with a show "v = w"
    by (simp add: word_unat_eq_iff)
qed

text \<open>
  The mapping loop over a range whose tables exist: it writes only page table entries, and afterwards
  each page of the range has the entry of its own physical address.
\<close>

lemma map_range_spec:
  assumes "page_aligned a" and "unat a + 4096 * k < 2 ^ 32" and "k \<le> fuel"
    and "tables_ok (kmem st) (first_page_directory st) V" and "page_range a k \<subseteq> V"
  shows "\<exists>m. map_range alloc_4k fuel a (a + of_nat (4096 * k)) st = Inr (st\<lparr>kmem := m\<rparr>) \<and>
    tables_ok m (first_page_directory st) V \<and>
    (\<forall>v \<in> page_range a k. pte_of m (first_page_directory st) v = prwr OR from_kmem v) \<and>
    (\<forall>v \<in> V. page_aligned v \<longrightarrow> v \<notin> page_range a k \<longrightarrow>
       pte_of m (first_page_directory st) v = pte_of (kmem st) (first_page_directory st) v) \<and>
    (\<forall>w. load32 m (dir_entry_addr (first_page_directory st) w) = load32 (kmem st) (dir_entry_addr (first_page_directory st) w))"
  using assms
proof (induction k arbitrary: a fuel st)
  case 0
  then show ?case
    by (intro exI [of _ "kmem st"]) (simp add: map_range.simps page_range_def)
next
  case (Suc k)
  let ?pd = "first_page_directory st" and ?b = "a + 4096"
  obtain n where n: "fuel = Suc n"
    using Suc.prems(3) by (cases fuel) auto
  have e: "a + of_nat (4096 * Suc k) = ?b + of_nat (4096 * k)"
    by (simp add: algebra_simps)
  have b: "unat ?b = unat a + 4096"
    using unat_add_of_nat [of a 4096] Suc.prems(2) by simp
  have less: "a < a + of_nat (4096 * Suc k)"
    using unat_add_of_nat [of a "4096 * Suc k"] Suc.prems(2) by (simp add: word_less_nat_alt)
  have a: "a \<in> V" "page_range ?b k \<subseteq> V"
    using Suc.prems(5) by (auto simp: page_range_Suc)
  define m1 where "m1 = store32 (table_entry_addr (table_of (load32 (kmem st) (dir_entry_addr ?pd a))) a)
    (prwr OR from_kmem a) (kmem st)"
  note step = store_table_entry [OF Suc.prems(4) a(1) m1_def]
  have run: "map_range alloc_4k fuel a (a + of_nat (4096 * Suc k)) st =
      map_range alloc_4k n ?b (?b + of_nat (4096 * k)) (st\<lparr>kmem := m1\<rparr>)"
    using Suc.prems(1,4) a(1) less unfolding e n m1_def
    by (subst map_range.simps) (simp add: map_page_present tables_ok_def)
  have aligned: "page_aligned ?b"
    using Suc.prems(1) by (rule page_aligned_add) (simp add: page_aligned_def)
  obtain m where m: "map_range alloc_4k n ?b (?b + of_nat (4096 * k)) (st\<lparr>kmem := m1\<rparr>) = Inr (st\<lparr>kmem := m\<rparr>)"
      "tables_ok m ?pd V" "\<forall>v \<in> page_range ?b k. pte_of m ?pd v = prwr OR from_kmem v"
      "\<forall>v \<in> V. page_aligned v \<longrightarrow> v \<notin> page_range ?b k \<longrightarrow> pte_of m ?pd v = pte_of m1 ?pd v"
      "\<forall>w. load32 m (dir_entry_addr ?pd w) = load32 m1 (dir_entry_addr ?pd w)"
    using Suc.IH [of ?b n "st\<lparr>kmem := m1\<rparr>"] aligned b Suc.prems(2,3) n a(2) step(4) by auto
  have notin: "a \<notin> page_range ?b k"
    using unat_page_range [of ?b k] b Suc.prems(2) by (auto simp: page_range_def word_unat_eq_iff)
  have "pte_of m ?pd a = prwr OR from_kmem a"
    using m(4) a(1) notin Suc.prems(1) step(2) by simp
  moreover have "pte_of m ?pd v = pte_of (kmem st) ?pd v"
    if "v \<in> V" "page_aligned v" "v \<notin> page_range a (Suc k)" for v
    using that m(4) step(3) [of v] page_number_eq [of v a] Suc.prems(1) by (auto simp: page_range_Suc)
  moreover have "load32 m (dir_entry_addr ?pd w) = load32 (kmem st) (dir_entry_addr ?pd w)" for w
    using m(5) step(1) by simp
  ultimately show ?case
    using m run by (auto simp: page_range_Suc)
qed

subsection \<open>Allocation with growth\<close>

text \<open>
  What must hold for the allocator to grow by a buddy: the buddy array has room, the kernel region
  has room, and the page tables of the new 512 KiB exist.
\<close>

definition can_grow :: "nat \<Rightarrow> kstate \<Rightarrow> bool" where
  "can_grow n st \<longleftrightarrow> 64 * Suc n \<le> unat (buddy_array_size st) \<and>
    unat (buddy_array st) + unat (buddy_array_size st) + Suc n * 2 ^ 19 < 2 ^ 32 \<and>
    to_virt (kmem_phys_end st) = my_first_page st n \<and>
    unat (kmem_phys_end st) + 2 ^ 19 < unat (kmem_region_end st) \<and>
    tables_ok (kmem st) (first_page_directory st) (page_range (my_first_page st n) 128)"

lemma unat_my_first_page:
  assumes "unat (buddy_array st) + unat (buddy_array_size st) + n * 2 ^ 19 < 2 ^ 32"
  shows "unat (my_first_page st n) = unat (buddy_array st) + unat (buddy_array_size st) + n * 2 ^ 19"
proof -
  have "unat (of_nat (n * 2 ^ 19) :: u32) = n * 2 ^ 19" "unat (pages_start st) = unat (buddy_array st) + unat (buddy_array_size st)"
    using assms by (simp_all add: unat_of_nat_32 pages_start_def unat_word_ariths take_bit_eq_mod)
  then show ?thesis
    using assms unat_add_of_nat [of "pages_start st" "n * 2 ^ 19"] by (simp add: my_first_page_def push_bit_eq_mult)
qed

lemma my_first_page_aligned:
  assumes "kmem_inv k st" and "unat (buddy_array st) + unat (buddy_array_size st) + n * 2 ^ 19 < 2 ^ 32"
  shows "page_aligned (my_first_page st n)"
proof -
  have page: "(4096 :: nat) dvd 2 ^ 15" "(4096 :: nat) dvd n * 2 ^ 19"
    by (simp_all add: dvd_mult)
  have "2 ^ 15 dvd unat (buddy_array st) + unat (buddy_array_size st)"
    using assms(1) by (simp add: kmem_inv_def)
  from dvd_add [OF dvd_trans [OF page(1) this] page(2)] show ?thesis
    unfolding page_aligned_def unat_my_first_page [OF assms(2)] .
qed

definition grown :: "kstate \<Rightarrow> mem \<Rightarrow> kstate" where
  "grown st m = st\<lparr>buddy_array_pos := buddy_array_pos st + 1,
     buds := link_new_buddy (unat (buddy_array_pos st)) (buds st), kmem := m,
     kmem_phys_end := kmem_phys_end st + push_bit 19 1\<rparr>"

lemma kmem_buddy_new_all:
  assumes inv: "kmem_inv n st" and grow: "can_grow n st"
    and V: "tables_ok (kmem st) (first_page_directory st) V" "page_range (my_first_page st n) 128 \<subseteq> V"
  shows "\<exists>m. kmem_buddy_new alloc_4k st = Inr (grown st m) \<and> tables_ok m (first_page_directory st) V \<and>
    (\<forall>v \<in> page_range (my_first_page st n) 128. pte_of m (first_page_directory st) v = prwr OR from_kmem v) \<and>
    (\<forall>v \<in> V. page_aligned v \<longrightarrow> v \<notin> page_range (my_first_page st n) 128 \<longrightarrow>
       pte_of m (first_page_directory st) v = pte_of (kmem st) (first_page_directory st) v) \<and>
    (\<forall>w. load32 m (dir_entry_addr (first_page_directory st) w) = load32 (kmem st) (dir_entry_addr (first_page_directory st) w))"
proof -
  let ?a = "my_first_page st n"
  have pos: "buddy_array_pos st = of_nat n" and n: "n < 2 ^ 13"
    using inv grow by (auto simp: kmem_inv_def can_grow_def)
  have end_addr: "?a + push_bit 19 1 = ?a + of_nat (4096 * 128)"
    by simp
  have "unat (of_nat n * 64 :: u32) = 64 * n"
    using n by (simp add: unat_word_ariths take_bit_eq_mod unat_of_nat)
  then have room: "of_nat n * 64 < buddy_array_size st"
    using grow by (simp add: word_less_nat_alt can_grow_def)
  have "unat (kmem_phys_end st) + 2 ^ 19 < 4294967296"
    using grow less_trans [OF _ unat_less_32 [of "kmem_region_end st"]] unfolding can_grow_def by blast
  then have "unat (kmem_phys_end st + push_bit 19 1) = unat (kmem_phys_end st) + 2 ^ 19"
    using unat_add_of_nat [of "kmem_phys_end st" "2 ^ 19"] by simp
  then have region: "kmem_phys_end st + push_bit 19 1 < kmem_region_end st"
    using grow by (simp add: word_less_nat_alt can_grow_def)
  define st1 where "st1 = st\<lparr>buddy_array_pos := buddy_array_pos st + 1, buds := link_new_buddy n (buds st)\<rparr>"
  have new: "kmem_buddy_new_no_alloc st = Inr st1"
    using room n by (simp add: kmem_buddy_new_no_alloc_def Let_def st1_def pos unat_of_nat_32)
  have start: "pages_start st1 + push_bit 19 (buddy_array_pos st1 - 1) = ?a"
    by (simp add: st1_def pages_start_def my_first_page_def pos)
  have "unat ?a = unat (buddy_array st) + unat (buddy_array_size st) + n * 2 ^ 19"
    using grow by (intro unat_my_first_page) (simp add: can_grow_def)
  then have lim: "unat ?a + 4096 * 128 < 2 ^ 32"
    using grow by (simp add: can_grow_def)
  have al: "page_aligned ?a"
    using inv grow by (intro my_first_page_aligned) (auto simp: can_grow_def)
  have st1: "tables_ok (kmem st1) (first_page_directory st1) V" "first_page_directory st1 = first_page_directory st" "kmem st1 = kmem st"
    using V(1) by (simp_all add: st1_def)
  obtain m where m: "map_range alloc_4k 128 ?a (?a + of_nat (4096 * 128)) st1 = Inr (st1\<lparr>kmem := m\<rparr>)"
      "tables_ok m (first_page_directory st) V"
      "\<forall>v \<in> page_range ?a 128. pte_of m (first_page_directory st) v = prwr OR from_kmem v"
      "\<forall>v \<in> V. page_aligned v \<longrightarrow> v \<notin> page_range ?a 128 \<longrightarrow>
         pte_of m (first_page_directory st) v = pte_of (kmem st) (first_page_directory st) v"
      "\<forall>w. load32 m (dir_entry_addr (first_page_directory st) w) = load32 (kmem st) (dir_entry_addr (first_page_directory st) w)"
    using map_range_spec [OF al lim order_refl st1(1) V(2), of alloc_4k] unfolding st1(2,3) by blast
  have "kmem_buddy_new alloc_4k st = Inr (grown st m)"
    unfolding kmem_buddy_new_def new kbind_Inr Let_def start end_addr m(1)
    using grow region by (simp add: can_grow_def st1_def grown_def pos unat_of_nat_32 n)
  with m show ?thesis by blast
qed

lemma kmem_buddy_new_spec:
  assumes inv: "kmem_inv n st" and grow: "can_grow n st"
  shows "\<exists>m. kmem_buddy_new alloc_4k st = Inr (grown st m) \<and>
    tables_ok m (first_page_directory st) (page_range (my_first_page st n) 128) \<and>
    (\<forall>v \<in> page_range (my_first_page st n) 128. pte_of m (first_page_directory st) v = prwr OR from_kmem v)"
  using kmem_buddy_new_all [OF inv grow _ order_refl] grow unfolding can_grow_def by blast

text \<open>
  The specification of \<open>kmem_alloc<N>\<close>: the result is the address of a block of free pages of the
  state after a possible growth, and exactly those pages are no longer free.
\<close>

definition hands_out :: "level \<Rightarrow> nat \<Rightarrow> kstate \<Rightarrow> u32 \<Rightarrow> nat \<Rightarrow> nat \<Rightarrow> nat \<Rightarrow> kstate \<Rightarrow> bool" where
  "hands_out l n st p m j i st' \<longleftrightarrow>
    p = block_addr st j l i \<and> j < m \<and> i < nblocks l \<and> kmem_inv m st' \<and>
    (m = n \<and> {j} \<times> pages_of l i \<subseteq> free_pages n (buds st) \<or>
     m = Suc n \<and> j = n \<and> free_pages n (buds st) = {}) \<and>
    free_pages m (buds st') = free_pages n (buds st) \<union> {n ..< m} \<times> {..<128} - {j} \<times> pages_of l i \<and>
    buddy_array st' = buddy_array st \<and> buddy_array_size st' = buddy_array_size st \<and> if_flag st' = if_flag st"

lemma hands_outD:
  assumes "hands_out l n st p m j i st'"
  shows "p = block_addr st j l i" and "j < m" and "i < nblocks l" and "kmem_inv m st'" and "m \<in> {n, Suc n}"
    and "free_pages m (buds st') = free_pages n (buds st) \<union> {n ..< m} \<times> {..<128} - {j} \<times> pages_of l i"
    and "buddy_array st' = buddy_array st" and "buddy_array_size st' = buddy_array_size st" and "if_flag st' = if_flag st"
    and "pages_start st' = pages_start st" and "block_addr st' = block_addr st"
proof -
  show "p = block_addr st j l i" "j < m" "i < nblocks l" "kmem_inv m st'" "m \<in> {n, Suc n}"
    "free_pages m (buds st') = free_pages n (buds st) \<union> {n ..< m} \<times> {..<128} - {j} \<times> pages_of l i"
    "if_flag st' = if_flag st"
    using assms unfolding hands_out_def by blast+
  show arr: "buddy_array st' = buddy_array st" "buddy_array_size st' = buddy_array_size st"
    using assms unfolding hands_out_def by blast+
  show "pages_start st' = pages_start st" "block_addr st' = block_addr st"
    by (simp_all add: pages_start_def arr fun_eq_iff block_addr_def my_first_page_def)
qed

lemma kmem_inv_if_flag [simp]: "kmem_inv n (st\<lparr>if_flag := b\<rparr>) = kmem_inv n st"
  by (simp add: kmem_inv_def)

lemma can_grow_if_flag [simp]: "can_grow n (st\<lparr>if_flag := b\<rparr>) = can_grow n st"
  by (simp add: can_grow_def my_first_page_def pages_start_def)

lemma block_addr_cong:
  "buddy_array st' = buddy_array st \<Longrightarrow> buddy_array_size st' = buddy_array_size st \<Longrightarrow> block_addr st' j l i = block_addr st j l i"
  by (simp add: block_addr_def my_first_page_def pages_start_def)

lemma buddy_alloc_hands_out:
  assumes inv: "kmem_inv n st" and i: "j < n" "i < nblocks l" and al: "allocates l i (Bud j) (buds st) h"
  shows "hands_out l n st (block_addr st j l i) n j i (st\<lparr>buds := h, kmem := m\<rparr>)"
proof -
  have "buddies_ok n (buds st)"
    using inv by (simp add: kmem_inv_def)
  from allocates_ok [OF this i(1) al] i inv show ?thesis
    by (auto simp: hands_out_def kmem_inv_def)
qed

lemma kmem_inv_grown:
  assumes "kmem_inv n st" and "can_grow n st" and "free_pages n (buds st) = {}"
  shows "kmem_inv (Suc n) (grown st m)" and "free_pages (Suc n) (buds (grown st m)) = {n} \<times> {..<128}"
proof -
  have ok: "buddies_ok n (buds st)" and n: "unat (buddy_array_pos st) = n" "n < 2 ^ 13"
    using assms by (auto simp: kmem_inv_def can_grow_def)
  have "unat (buddy_array_pos st + 1) = Suc n"
    using n unat_add_of_nat [of "buddy_array_pos st" 1] by simp
  with link_new_buddy_ok [OF ok assms(3)] n assms
  show "kmem_inv (Suc n) (grown st m)" and "free_pages (Suc n) (buds (grown st m)) = {n} \<times> {..<128}"
    by (auto simp: kmem_inv_def grown_def can_grow_def)
qed

lemma kmem_alloc_spec:
  assumes inv: "kmem_inv n st"
    and avail: "(\<exists>j < n. blocks (buds st (Bud j)) l \<noteq> {}) \<or> free_pages n (buds st) = {} \<and> can_grow n st"
  shows "\<exists>p m j i st'. kmem_alloc (Suc d) l st = Inr (p, st') \<and> hands_out l n st p m j i st'"
proof -
  let ?st = "st\<lparr>if_flag := False\<rparr>"
  have inv': "kmem_inv n ?st" using inv by simp
  show ?thesis
  proof (rule buddy_alloc_spec [OF inv', of l])
    fix j i h
    let ?p = "block_addr ?st j l i"
    let ?st' = "?st\<lparr>buds := h, kmem := memset ?p 0x41 (level_size l) (kmem ?st)\<rparr>"
    assume al: "buddy_alloc l ?st = Inr (Some ?p, ?st')" "j < n" "i < nblocks l" "allocates l i (Bud j) (buds ?st) h"
    have "hands_out l n st ?p n j i (?st'\<lparr>if_flag := if_flag st\<rparr>)"
      using buddy_alloc_hands_out [OF inv' al(2-4)] by (auto simp: hands_out_def kmem_inv_def block_addr_def my_first_page_def pages_start_def)
    moreover have "kmem_alloc (Suc d) l st = Inr (?p, ?st'\<lparr>if_flag := if_flag st\<rparr>)"
      unfolding kmem_alloc.simps by (rule scoped_intlock_eq) (simp_all add: al(1))
    ultimately show ?thesis by blast
  next
    assume none: "buddy_alloc l ?st = Inr (None, ?st)" "\<forall>j < n. blocks (buds ?st (Bud j)) l = {}"
    then have empty: "free_pages n (buds st) = {}" and grow: "can_grow n st"
      using avail by auto
    obtain m where m: "kmem_buddy_new (\<lambda>s. kmem_alloc d K4 s) ?st = Inr (grown ?st m)"
      using kmem_buddy_new_spec [OF inv', of "\<lambda>s. kmem_alloc d K4 s"] grow by auto
    let ?g = "grown ?st m"
    have g: "kmem_inv (Suc n) ?g" "free_pages (Suc n) (buds ?g) = {n} \<times> {..<128}"
      using kmem_inv_grown [OF inv', of m] grow empty by auto
    have pages: "pages_of l i \<noteq> {}" "i < nblocks l \<Longrightarrow> pages_of l i \<subseteq> {..<128}" for i
      by (cases l; simp add: pages_of_def block_pages_def) (rule pages_of_less)
    show ?thesis
    proof (rule buddy_alloc_spec [OF g(1), of l])
      assume "\<forall>j < Suc n. blocks (buds ?g (Bud j)) l = {}"
      moreover have "blocks (buds ?g (Bud n)) l = {..<nblocks l}"
        using inv by (simp add: grown_def link_new_buddy_Bud full_buddy_blocks kmem_inv_def)
      moreover have "0 < nblocks l"
        by (cases l) (simp_all add: nblocks_def)
      ultimately show ?thesis
        using lessThan_iff [of 0 "nblocks l"] by simp
    next
      fix j i h
      let ?p = "block_addr ?g j l i"
      let ?st' = "?g\<lparr>buds := h, kmem := memset ?p 0x41 (level_size l) (kmem ?g)\<rparr>"
      assume al: "buddy_alloc l ?g = Inr (Some ?p, ?st')" "j < Suc n" "i < nblocks l" "allocates l i (Bud j) (buds ?g) h"
      have out: "hands_out l (Suc n) ?g ?p (Suc n) j i ?st'"
        using buddy_alloc_hands_out [OF g(1) al(2-4)] .
      then have "j = n"
        using g(2) pages(1) [of i] by (auto simp: hands_out_def)
      with out g(2) empty have "hands_out l n st ?p (Suc n) j i (?st'\<lparr>if_flag := if_flag st\<rparr>)"
        by (auto simp: hands_out_def grown_def block_addr_def my_first_page_def pages_start_def kmem_inv_def)
      moreover have "kmem_alloc (Suc d) l st = Inr (?p, ?st'\<lparr>if_flag := if_flag st\<rparr>)"
        unfolding kmem_alloc.simps
        by (rule scoped_intlock_eq) (simp add: none(1) m al(1), simp add: grown_def)
      ultimately show ?thesis by blast
    qed
  qed
qed

subsection \<open>Blocks and their pages\<close>

text \<open>
  The block behind an address, and its pages as pairs of a buddy and a page number in it.
\<close>

definition locate :: "kstate \<Rightarrow> level \<times> u32 \<Rightarrow> nat \<times> nat" where
  "locate st b = (let rel = unat (snd b - pages_start st)
     in (rel div 2 ^ 19, rel mod 2 ^ 19 div 2 ^ block_shift (fst b)))"

definition block_set :: "kstate \<Rightarrow> level \<times> u32 \<Rightarrow> (nat \<times> nat) set" where
  "block_set st b = {fst (locate st b)} \<times> pages_of (fst b) (snd (locate st b))"

definition is_block :: "nat \<Rightarrow> kstate \<Rightarrow> level \<times> u32 \<Rightarrow> bool" where
  "is_block n st b \<longleftrightarrow> (\<exists>j i. j < n \<and> i < nblocks (fst b) \<and> snd b = block_addr st j (fst b) i)"

lemma locate_block_addr:
  assumes "j < 2 ^ 13" and "i < nblocks l"
  shows "locate st (l, block_addr st j l i) = (j, i)"
proof -
  have "i * 2 ^ block_shift l < 2 ^ 19"
    using block_shift_bound [OF assms(2)] less_le_trans [of "i * 2 ^ block_shift l" "i * 2 ^ block_shift l + 2 ^ block_shift l"]
    by simp
  then show ?thesis
    using block_offset_decode(1) [OF assms]
    by (simp add: locate_def Let_def block_addr_offset) (simp add: block_offset_def)
qed

lemma block_set_block_addr:
  "j < 2 ^ 13 \<Longrightarrow> i < nblocks l \<Longrightarrow> block_set st (l, block_addr st j l i) = {j} \<times> pages_of l i"
  by (simp add: block_set_def locate_block_addr)

lemma is_block_layout:
  "layout n st \<Longrightarrow> is_block n st b \<Longrightarrow> block_set st b \<subseteq> {..<n} \<times> UNIV"
  using layout_bound by (cases b) (auto simp: is_block_def block_set_block_addr)

lemma pages_of_nonempty: "pages_of l i \<noteq> {}"
  by (cases l) (auto simp: pages_of_def block_pages_def)

end
