(* ===== verification/Kmem_Props.thy ===== *)
theory Kmem_Props
  imports Kmem_Correct
begin

section \<open>Properties of the page allocator\<close>

text \<open>
  The statements about \<^verbatim>\<open>page_allocator.cpp\<close> that its callers rely on, with a small booted state
  for their witnesses: one fresh buddy, and a memory in which every byte is 1, so that every page
  directory entry is present.
\<close>

subsection \<open>A booted state\<close>

definition boot_state :: kstate where
  "boot_state = \<lparr>if_flag = True, preempt_counter = 0, interrupt_context_depth = 0, current_task = Some 0,
     hmem_end = 0, cr3 = 0x100000, kmem = (\<lambda>a. 1),
     buds = link_new_buddy 0 (zero_heads (\<lambda>q. zero_buddy)),
     buddy_array = 0xC0200000, buddy_array_pos = 1, buddy_array_size = 0x8000,
     kmem_phys_end = 0x288000, kmem_region_end = 0x8000000, hmem_phys_end = 0x7000000,
     hmem_phys_list = 0x7000000, first_page_directory = 0xC0100000\<rparr>"

text \<open>No buddy is linked to empty list heads; the first one makes all its 128 pages free.\<close>

lemma first_buddy:
  "buddies_ok 1 (link_new_buddy 0 (zero_heads h))" "free_pages 1 (link_new_buddy 0 (zero_heads h)) = {0} \<times> {..<128}"
proof -
  have "free_list 0 l (zero_heads h) []" for l
    by (simp add: free_list_def zero_heads_def zero_buddy_def links_def)
  then have "buddies_ok 0 (zero_heads h)"
    by (auto simp: buddies_ok_def lists_inv_def)
  moreover have "free_pages 0 (zero_heads h) = {}"
    by (simp add: free_pages_def)
  ultimately show "buddies_ok 1 (link_new_buddy 0 (zero_heads h))"
      "free_pages 1 (link_new_buddy 0 (zero_heads h)) = {0} \<times> {..<128}"
    using link_new_buddy_ok [of 0 "zero_heads h"] by simp_all
qed

lemma boot_buddies: "buddies_ok 1 (buds boot_state)" "free_pages 1 (buds boot_state) = {0} \<times> {..<128}"
  by (simp_all add: boot_state_def first_buddy [unfolded One_nat_def])

lemma boot_inv: "kmem_inv 1 boot_state"
  using boot_buddies(1) by (simp add: kmem_inv_def) (simp add: boot_state_def)

lemma boot_blocks: "blocks (buds boot_state (Bud 0)) l = {..<nblocks l}"
  by (simp add: boot_state_def link_new_buddy_Bud full_buddy_blocks)

subsection \<open>Bytes of a block\<close>

definition block_bytes :: "level \<times> u32 \<Rightarrow> nat set" where
  "block_bytes b = {unat (snd b) ..< unat (snd b) + 2 ^ block_shift (fst b)}"

lemma unat_block_addr_layout:
  assumes inv: "layout n st" and j: "j < n" and i: "i < nblocks l"
  shows "unat (block_addr st j l i) = unat (buddy_array st) + unat (buddy_array_size st) + block_offset j l i"
proof -
  have "j * 2 ^ 19 + 2 ^ 19 \<le> n * 2 ^ 19"
    using j mult_le_mono1 [of "Suc j" n "2 ^ 19"] by simp
  moreover have "i * 2 ^ block_shift l + 2 ^ block_shift l \<le> 2 ^ 19" "0 < (2::nat) ^ block_shift l"
    using block_shift_bound [OF i] by simp_all
  moreover have "unat (buddy_array st) + unat (buddy_array_size st) + n * 2 ^ 19 \<le> 2 ^ 32"
    using inv by (simp add: layout_def)
  ultimately have lim: "unat (buddy_array st) + unat (buddy_array_size st) + block_offset j l i < 2 ^ 32"
    unfolding block_offset_def by linarith
  then have "unat (pages_start st) = unat (buddy_array st) + unat (buddy_array_size st)"
    by (simp add: pages_start_def unat_word_ariths take_bit_eq_mod)
  then show ?thesis
    using lim unat_add_of_nat [of "pages_start st" "block_offset j l i"] by (simp add: block_addr_offset)
qed

lemma unat_block_addr:
  assumes "kmem_inv n st" and "j < n" and "i < nblocks l"
  shows "unat (block_addr st j l i) = unat (buddy_array st) + unat (buddy_array_size st) + block_offset j l i"
  by (rule unat_block_addr_layout [OF kmem_inv_layout [OF assms(1)] assms(2,3)])

lemma block_bytes_pages:
  assumes inv: "layout n st" and b: "is_block n st b" and x: "x \<in> block_bytes b"
  defines "r \<equiv> x - (unat (buddy_array st) + unat (buddy_array_size st))"
  shows "(r div 2 ^ 19, r mod 2 ^ 19 div 2 ^ 12) \<in> block_set st b"
proof -
  obtain l p where lp: "b = (l, p)" by fastforce
  then obtain j i where ji: "j < n" "i < nblocks l" "p = block_addr st j l i"
    using b by (auto simp: is_block_def)
  obtain d where d: "r = j * 2 ^ 19 + (i * 2 ^ block_shift l + d)" "d < 2 ^ block_shift l"
  proof
    let ?d = "x - unat p"
    show "r = j * 2 ^ 19 + (i * 2 ^ block_shift l + ?d)" "?d < 2 ^ block_shift l"
      using x lp unat_block_addr_layout [OF inv ji(1,2)] ji(3) by (auto simp: block_bytes_def r_def block_offset_def)
  qed
  have "i * 2 ^ block_shift l + d < 2 ^ 19"
    using d(2) block_shift_bound [OF ji(2)] by linarith
  then have r: "r div 2 ^ 19 = j" "r mod 2 ^ 19 = i * 2 ^ block_shift l + d"
    using d(1) by simp_all
  have s: "2 ^ block_shift l = block_pages l * (2 ^ 12 :: nat)"
    by (cases l) (simp_all add: block_shift_def block_pages_def)
  have "(i * 2 ^ block_shift l + d) div 2 ^ 12 = i * block_pages l + d div 2 ^ 12"
    unfolding s by (simp add: mult.assoc [symmetric])
  moreover have "d div 2 ^ 12 < block_pages l"
    using d(2) unfolding s by (simp add: less_mult_imp_div_less)
  ultimately show ?thesis
    using lp ji layout_bound [OF inv ji(1)] unfolding r by (simp add: block_set_block_addr pages_of_def)
qed

subsection \<open>Allocation\<close>

lemma kmem_alloc_pages_spec:
  assumes "kmem_inv n st"
    and "(\<exists>j < n. blocks (buds st (Bud j)) l \<noteq> {}) \<or> free_pages n (buds st) = {} \<and> can_grow n st"
  obtains p m j i st' where "kmem_alloc_pages l st = Inr (p, st')" and "hands_out l n st p m j i st'"
  using kmem_alloc_spec [OF assms, of 1]
  by (auto simp: kmem_alloc_pages_def kmem_depth_def numeral_2_eq_2 simp del: kmem_alloc.simps)

lemma hands_out_free:
  assumes "hands_out l n st p m j i st'" and "free_pages n (buds st) \<noteq> {}"
  shows "m = n" and "kmem_inv n st'" and "free_pages n (buds st') = free_pages n (buds st) - {j} \<times> pages_of l i"
    and "{j} \<times> pages_of l i \<subseteq> free_pages n (buds st)"
  using assms unfolding hands_out_def by auto

lemma blocks_free_pages: "j < n \<Longrightarrow> blocks (h (Bud j)) K4 = {p. (j, p) \<in> free_pages n h}"
  by (simp add: free_pages_def)

lemma hands_out_pages:
  "hands_out l n st p m j i st' \<Longrightarrow> {j} \<times> pages_of l i \<subseteq> free_pages n (buds st) \<union> {n ..< m} \<times> {..<128}"
  using pages_of_less [of i l] unfolding hands_out_def by auto

text \<open>
  C3: Round trip. Freeing a block that has just been allocated succeeds, keeps the invariant, and the
  free pages are again those before the allocation, plus the pages of a new buddy when the
  allocation had to grow.
\<close>

theorem kmem_alloc_free_roundtrip:
  assumes "kmem_inv n st"
    and "(\<exists>j < n. blocks (buds st (Bud j)) l \<noteq> {}) \<or> free_pages n (buds st) = {} \<and> can_grow n st"
  shows "\<exists>p m st' st''. kmem_alloc_pages l st = Inr (p, st') \<and> kmem_free l p st' = Inr ((), st'') \<and>
    kmem_inv m st'' \<and> free_pages m (buds st'') = free_pages n (buds st) \<union> {n ..< m} \<times> {..<128}"
proof -
  obtain p m j i st' where run: "kmem_alloc_pages l st = Inr (p, st')" and out: "hands_out l n st p m j i st'"
    using kmem_alloc_pages_spec [OF assms] .
  note outD = hands_outD [OF out]
  have inv: "kmem_inv m st'" and ji: "j < m" "i < nblocks l" and p: "p = block_addr st' j l i"
    using outD(1-4,11) by simp_all
  obtain h where h: "kmem_free l p st' = Inr ((), st'\<lparr>buds := h\<rparr>)" "releases l i (Bud j) (buds st') h"
    using kmem_free_spec [OF inv ji] p by metis
  have "buddies_ok m h" "free_pages m h = free_pages m (buds st') \<union> {j} \<times> pages_of l i"
    using releases_ok [OF _ ji(1) h(2)] inv by (auto simp: kmem_inv_def)
  moreover from this have "kmem_inv m (st'\<lparr>buds := h\<rparr>)"
    using inv by (simp add: kmem_inv_def)
  moreover have "free_pages m (buds st') = free_pages n (buds st) \<union> {n ..< m} \<times> {..<128} - {j} \<times> pages_of l i"
    by (rule outD(6))
  ultimately have "kmem_inv m (st'\<lparr>buds := h\<rparr>)"
      "free_pages m (buds (st'\<lparr>buds := h\<rparr>)) = free_pages n (buds st) \<union> {n ..< m} \<times> {..<128}"
    using hands_out_pages [OF out] by auto
  with run h(1) show ?thesis by blast
qed

theorem kmem_alloc_free_roundtrip_witness:
  "\<exists>p m st' st''. kmem_alloc_pages K32 boot_state = Inr (p, st') \<and> kmem_free K32 p st' = Inr ((), st'') \<and>
    kmem_inv m st'' \<and> free_pages m (buds st'') = free_pages 1 (buds boot_state) \<union> {1 ..< m} \<times> {..<128}"
proof (rule kmem_alloc_free_roundtrip [OF boot_inv])
  have "blocks (buds boot_state (Bud 0)) K32 \<noteq> {}"
    by (simp add: boot_blocks nblocks_def lessThan_empty_iff)
  then show "(\<exists>j < 1. blocks (buds boot_state (Bud j)) K32 \<noteq> {}) \<or>
      free_pages 1 (buds boot_state) = {} \<and> can_grow 1 boot_state"
    by blast
qed

text \<open>
  Growing when a free list is not empty loses a buddy. \<open>kmem_buddy_new_no_alloc\<close> puts the new
  buddy in front of the old head \<open>x\<close> of a list but leaves the prev pointer of \<open>x\<close> on the list head. As
  soon as \<open>x\<close> is unlinked, the list continues behind \<open>x\<close>: the new buddy, all of whose blocks are
  free, is no longer on it.
\<close>

lemma growth_loses_buddy:
  assumes "next_N (h (First l)) l = Some (Bud x)" and "prev_N (h (Bud x)) l = Some (First l)" and "x \<noteq> pos"
  shows "next_N (link_new_buddy pos h (First l)) l = Some (Bud pos) \<and>
    next_N (link_new_buddy pos h (Bud pos)) l = Some (Bud x) \<and>
    next_N (unlink_N l (Bud x) (link_new_buddy pos h) (First l)) l = next_N (h (Bud x)) l"
proof -
  have "next_N (unlink_N l (Bud x) g (First l)) l = next_N (g (Bud x)) l"
    if "prev_N (g (Bud x)) l = Some (First l)" for g
    using that by (auto simp: unlink_N_def Let_def set_next_def set_prev_def split: option.split)
  then show ?thesis
    using assms by (simp add: link_new_buddy_First link_new_buddy_Bud full_buddy_def)
qed

lemma boot_head: "next_N (zero_heads h (First l)) l = None"
  by (simp add: zero_heads_def zero_buddy_def)

lemma growth_loses_buddy_example:
  "next_N (unlink_N K4 (Bud 0) (link_new_buddy 1 (buds boot_state)) (First K4)) K4 = None"
  using growth_loses_buddy [of "buds boot_state" K4 0 1]
  by (simp add: boot_head boot_state_def link_new_buddy_First link_new_buddy_Bud full_buddy_def)

subsection \<open>Address translation\<close>

lemma align_page_down_id: "page_aligned a \<Longrightarrow> align_page_down a = a"
  by (simp add: word_unat_eq_iff unat_align_page_down page_aligned_def)

lemma page_aligned_from_kmem: "page_aligned a \<Longrightarrow> page_aligned (from_kmem a)"
  unfolding from_kmem_def by (rule page_aligned_diff) (simp_all add: page_aligned_def)

lemma page_aligned_to_virt: "page_aligned a \<Longrightarrow> page_aligned (to_virt a)"
  unfolding to_virt_def by (rule page_aligned_add) (simp_all add: page_aligned_def)

lemma to_virt_from_kmem [simp]: "to_virt (from_kmem a) = a"
  by (simp add: to_virt_def from_kmem_def)

lemma from_kmem_to_virt [simp]: "from_kmem (to_virt a) = a"
  by (simp add: to_virt_def from_kmem_def)

text \<open>An entry: a page address with flags in its low twelve bits.\<close>

lemma align_page_down_flags:
  assumes "page_aligned a" and "f < 4096"
  shows "align_page_down (a OR f) = a"
proof (rule bit_word_eqI)
  fix n
  assume n: "n < LENGTH(32)"
  have "take_bit 12 a = 0"
    using assms(1) by (simp add: page_aligned_and take_bit_eq_mask mask_eq_exp_minus_1)
  then have a: "\<not> bit a n" if "n < 12"
    using that bit_take_bit_iff [of 12 a n] by simp
  have "f = f AND mask 12"
    using assms(2) by (simp only: word_unat_eq_iff unat_and_mask word_less_nat_alt) simp
  then have "\<not> bit f n" if "12 \<le> n"
    using that by (metis bit_and_iff bit_mask_iff not_less)
  with n a show "bit (align_page_down (a OR f)) n = bit a n"
    by (cases "n < 12") (auto simp: align_page_down_def bit_simps)
qed

lemma is_present_bit: "is_present a \<longleftrightarrow> bit a 0"
  using word_and_bit_eq_0 [of a 0] by (simp add: is_present_def flag_value_def)

lemma is_present_or: "is_present (a OR f) \<longleftrightarrow> is_present a \<or> is_present f"
  unfolding is_present_bit by (rule bit_or_iff)

lemma is_present_3: "is_present 3" "is_present 5" "is_present 7"
  by (simp_all add: is_present_def flag_value_def)

lemma walk_eq:
  assumes "page_aligned pd"
  shows "walk m (from_kmem pd) v =
    (if is_present (load32 m (dir_entry_addr pd v)) \<and> is_present (pte_of m pd v)
     then Some (align_page_down (pte_of m pd v) + (v AND 0xFFF)) else None)"
  using assms by (simp add: walk_def Let_def align_page_down_id page_aligned_from_kmem pte_of_def)

text \<open>
  Growing maps the new memory. After a successful \<open>kmem_buddy_new\<close> every page of the new 512 KiB
  translates, under the kernel's page directory, to its own physical address, the page below
  0xC0000000 bytes.
\<close>

lemma kmem_buddy_new_maps:
  assumes "kmem_inv n st" and "can_grow n st" and "k < 128"
  shows "\<exists>st'. kmem_buddy_new alloc_4k st = Inr st' \<and>
    walk (kmem st') (from_kmem (first_page_directory st')) (my_first_page st n + of_nat (4096 * k)) =
      Some (from_kmem (my_first_page st n + of_nat (4096 * k)))"
proof -
  let ?a = "my_first_page st n" and ?pd = "first_page_directory st"
  let ?v = "?a + of_nat (4096 * k)"
  obtain m where m: "kmem_buddy_new alloc_4k st = Inr (grown st m)" "tables_ok m ?pd (page_range ?a 128)"
      "\<forall>v \<in> page_range ?a 128. pte_of m ?pd v = prwr OR from_kmem v"
    using kmem_buddy_new_spec [OF assms(1,2)] by blast
  have v: "?v \<in> page_range ?a 128"
    using assms(3) by (auto simp: page_range_def)
  have "unat (of_nat (4096 * k) :: u32) = 4096 * k"
    using assms(3) by (intro unat_of_nat_32) simp
  then have al: "page_aligned ?v"
    using my_first_page_aligned [OF assms(1), of n] assms(2)
    by (intro page_aligned_add) (auto simp: can_grow_def page_aligned_def)
  have pte: "pte_of m ?pd ?v = from_kmem ?v OR 3"
    using m(3) v by (simp add: prwr_def flag_value_def or.commute)
  have "page_aligned ?pd" "is_present (load32 m (dir_entry_addr ?pd ?v))"
    using m(2) v unfolding tables_ok_def by blast+
  moreover have "is_present (from_kmem ?v OR 3)" "align_page_down (from_kmem ?v OR 3) = from_kmem ?v" "?v AND 0xFFF = 0"
    using al page_aligned_from_kmem [OF al] align_page_down_flags [of "from_kmem ?v" 3]
    by (simp_all add: is_present_or is_present_3 page_aligned_and)
  ultimately have "walk m (from_kmem ?pd) ?v = Some (from_kmem ?v)"
    unfolding walk_eq [OF \<open>page_aligned ?pd\<close>] pte by simp
  with m(1) show ?thesis
    by (auto simp: grown_def)
qed

lemma load_ones: "load32 (\<lambda>a. 1) v = 0x01010101"
  by (simp add: load32_def)

lemma tables_ok_ones:
  assumes "\<And>v. v \<in> V \<Longrightarrow> dir_index v = d"
  shows "tables_ok (\<lambda>a. 1) 0xC0100000 V"
proof -
  have "is_present 0x01010101" "table_of 0x01010101 = 0xC1010000" "page_aligned 0xC0100000"
    by (simp_all add: is_present_def flag_value_def table_of_def to_virt_def align_page_down_def page_aligned_def)
  with assms show ?thesis
    by (auto simp: tables_ok_def load_ones)
qed

lemma boot_can_grow: "can_grow 1 boot_state"
proof -
  have a: "my_first_page boot_state 1 = 0xC0288000"
    by (simp add: my_first_page_def pages_start_def boot_state_def)
  have "dir_index v = 768" if v: "v \<in> page_range 0xC0288000 128" for v
  proof -
    obtain i where i: "i < 128" "v = 0xC0288000 + of_nat (4096 * i)"
      using v unfolding page_range_def by blast
    then have "unat v = 0xC0288000 + 4096 * i"
      using unat_add_of_nat [of "0xC0288000" "4096 * i"] by simp
    with i(1) show ?thesis by (simp add: dir_index_def)
  qed
  then have "tables_ok (kmem boot_state) (first_page_directory boot_state) (page_range (my_first_page boot_state 1) 128)"
    unfolding a using tables_ok_ones [of "page_range 0xC0288000 128" 768] by (simp add: boot_state_def)
  then show ?thesis
    unfolding can_grow_def a by (simp add: boot_state_def to_virt_def)
qed

theorem kmem_buddy_new_maps_witness:
  "\<exists>st'. kmem_buddy_new (kmem_alloc_pages K4) boot_state = Inr st' \<and>
    walk (kmem st') (from_kmem (first_page_directory st')) (my_first_page boot_state 1 + of_nat (4096 * 5)) =
      Some (from_kmem (my_first_page boot_state 1 + of_nat (4096 * 5)))"
  by (rule kmem_buddy_new_maps [OF boot_inv boot_can_grow]) simp

subsection \<open>What an allocation leaves alone\<close>

text \<open>The state of the CPU and of the scheduler.\<close>

definition same_cpu :: "kstate \<Rightarrow> kstate \<Rightarrow> bool" where
  "same_cpu st st' \<longleftrightarrow> current_task st' = current_task st \<and> preempt_counter st' = preempt_counter st \<and>
    interrupt_context_depth st' = interrupt_context_depth st \<and> cr3 st' = cr3 st \<and> hmem_end st' = hmem_end st"

definition keeps_cpu :: "'a kop \<Rightarrow> bool" where
  "keeps_cpu f \<longleftrightarrow> (\<forall>st r st'. f st = Inr (r, st') \<longrightarrow> same_cpu st st')"

lemma same_cpu_trans: "same_cpu s t \<Longrightarrow> same_cpu t u \<Longrightarrow> same_cpu s u"
  by (simp add: same_cpu_def)

lemma keeps_cpuD: "keeps_cpu f \<Longrightarrow> f st = Inr (r, st') \<Longrightarrow> same_cpu st st'"
  unfolding keeps_cpu_def by blast

lemma same_cpu_updates [simp]:
  "same_cpu s s" "same_cpu s (t\<lparr>kmem := m\<rparr>) = same_cpu s t" "same_cpu s (t\<lparr>buds := h\<rparr>) = same_cpu s t"
  "same_cpu s (t\<lparr>if_flag := b\<rparr>) = same_cpu s t" "same_cpu s (t\<lparr>buddy_array_pos := n\<rparr>) = same_cpu s t"
  "same_cpu s (t\<lparr>kmem_phys_end := n\<rparr>) = same_cpu s t" "same_cpu (s\<lparr>if_flag := b\<rparr>) t = same_cpu s t"
  by (simp_all add: same_cpu_def)

lemma keeps_cpu_intlock: "keeps_cpu f \<Longrightarrow> keeps_cpu (scoped_intlock f)"
  by (fastforce simp: keeps_cpu_def scoped_intlock_def kbind_eq_Inr)

lemma keeps_cpu_buddy_alloc: "keeps_cpu (buddy_alloc l)"
  by (auto simp: keeps_cpu_def buddy_alloc_def Let_def kbind_eq_Inr split: option.splits bptr.splits)

lemma keeps_cpu_kmem_free: "keeps_cpu (kmem_free l p)"
  unfolding kmem_free_def by (rule keeps_cpu_intlock) (auto simp: keeps_cpu_def Let_def kbind_eq_Inr split: if_splits)

lemma keeps_cpu_map_page:
  assumes "keeps_cpu alloc_4k"
  shows "keeps_cpu (map_page alloc_4k virt flags pte pd)"
  unfolding map_page_def
proof (rule keeps_cpu_intlock)
  show "keeps_cpu (\<lambda>st. kbind (kassert (virt AND 0xFFF = 0)) (\<lambda>_.
    let entry = dir_entry_addr pd virt;
        dir_entry = load32 (kmem st) entry
    in if is_present dir_entry
       then Inr ((), st\<lparr>kmem := store32 (table_entry_addr (table_of dir_entry) virt) pte (kmem st)\<rparr>)
       else
         kbind (alloc_4k st) (\<lambda>(page_table, st1).
         if is_present (load32 (kmem st1) entry)
         then kbind (kmem_free K4 page_table st1) (\<lambda>(_, st2).
           let page_table' = table_of (load32 (kmem st2) entry)
           in Inr ((), st2\<lparr>kmem := store32 (table_entry_addr page_table' virt) pte (kmem st2)\<rparr>))
         else
           let m1 = memset page_table 0 4096 (kmem st1);
               m2 = store32 entry (from_kmem page_table OR flags) m1
           in Inr ((), st1\<lparr>kmem := store32 (table_entry_addr page_table virt) pte m2\<rparr>))))"
    unfolding keeps_cpu_def Let_def
    by (auto simp: kbind_eq_Inr split: if_splits dest!: keeps_cpuD [OF assms] keeps_cpuD [OF keeps_cpu_kmem_free] intro: same_cpu_trans)
qed

lemma map_range_cpu:
  assumes "keeps_cpu alloc_4k"
  shows "map_range alloc_4k n a e st = Inr st' \<Longrightarrow> same_cpu st st'"
proof (induction n arbitrary: a st)
  case 0
  then show ?case
    by (simp add: map_range.simps split: if_splits)
next
  case (Suc n)
  show ?case
  proof (cases "a < e")
    case True
    then obtain st1 where "map_page alloc_4k a prwr (prwr OR from_kmem a) (first_page_directory st) st = Inr ((), st1)"
        "map_range alloc_4k n (a + 4096) e st1 = Inr st'"
      using Suc.prems by (auto simp: map_range.simps [of alloc_4k "Suc n"] kbind_eq_Inr)
    then show ?thesis
      using Suc.IH keeps_cpuD [OF keeps_cpu_map_page [OF assms]] same_cpu_trans by blast
  next
    case False
    then show ?thesis
      using Suc.prems by (simp add: map_range.simps)
  qed
qed

lemma kmem_buddy_new_cpu:
  assumes "keeps_cpu alloc_4k" and "kmem_buddy_new alloc_4k st = Inr st'"
  shows "same_cpu st st'"
proof -
  obtain st1 st2 a e where st1: "kmem_buddy_new_no_alloc st = Inr st1" and st2: "map_range alloc_4k 128 a e st1 = Inr st2"
      and st': "st' = st2\<lparr>kmem_phys_end := kmem_phys_end st2 + push_bit 19 1\<rparr>"
    using assms(2) unfolding kmem_buddy_new_def Let_def kbind_eq_Inr by auto
  have "same_cpu st st1"
    using st1 by (auto simp: kmem_buddy_new_no_alloc_def Let_def kbind_eq_Inr)
  then show ?thesis
    using map_range_cpu [OF assms(1) st2] st' by (auto intro: same_cpu_trans)
qed

lemma kmem_alloc_cpu: "keeps_cpu (kmem_alloc d l)"
proof (induction d arbitrary: l)
  case 0
  then show ?case
    by (simp add: keeps_cpu_def)
next
  case (Suc d)
  note new = kmem_buddy_new_cpu [OF Suc.IH [of K4]] and alloc = keeps_cpuD [OF keeps_cpu_buddy_alloc]
  show ?case
    unfolding kmem_alloc.simps
  proof (rule keeps_cpu_intlock, unfold keeps_cpu_def, intro allI impI)
    fix st r st'
    assume "kbind (buddy_alloc l st) (\<lambda>(result, st1). case result of
        None \<Rightarrow> kbind (kmem_buddy_new (kmem_alloc d K4) st1) (\<lambda>st2. kbind (buddy_alloc l st2) (\<lambda>(result2, st3).
          case result2 of None \<Rightarrow> Inl KAssert | Some p \<Rightarrow> Inr (p, st3)))
      | Some p \<Rightarrow> Inr (p, st1)) = Inr (r, st')"
    then show "same_cpu st st'"
      by (auto simp: kbind_eq_Inr split: option.splits dest!: new alloc intro: same_cpu_trans)
  qed
qed

lemma kmem_alloc_pages_cpu: "kmem_alloc_pages l st = Inr (p, st') \<Longrightarrow> same_cpu st st'"
  unfolding kmem_alloc_pages_def by (rule keeps_cpuD [OF kmem_alloc_cpu])

end
