(* ===== verification/Hmem_Props.thy ===== *)
theory Hmem_Props
  imports Kmem_Props
begin

section \<open>High memory and user mappings\<close>

text \<open>
  \<^verbatim>\<open>hmem\<close> pages are not in the kernel's identity map: the allocator reads and writes the link in a
  free page through a temporary mapping at the top of the address space. The lemmas show that the
  mapping reaches the page, so that a free followed by an allocation is a push and a pop.
\<close>

subsection \<open>The temporary mapping\<close>

definition hmem_slot :: "kstate \<Rightarrow> u32" where
  "hmem_slot st = hmem_end st - 4096"

definition slot_table :: "kstate \<Rightarrow> u32" where
  "slot_table st = table_of (load32 (kmem st) (dir_entry_addr (to_virt (cr3 st)) (hmem_slot st)))"

definition slot_mapped :: "kstate \<Rightarrow> u32 \<Rightarrow> mem" where
  "slot_mapped st addr = store32 (table_entry_addr (slot_table st) (hmem_slot st)) (addr OR prwr) (kmem st)"

text \<open>
  What the code relies on: a task is running whose mapping window is in the last directory entry and
  not full, that entry has a table, and the page is neither the directory nor that table.
\<close>

definition hmem_ready :: "u32 \<Rightarrow> kstate \<Rightarrow> bool" where
  "hmem_ready addr st \<longleftrightarrow> current_task st \<noteq> None \<and>
    page_aligned (hmem_end st) \<and> drop_bit 22 (hmem_slot st) = 0x3FF \<and>
    page_aligned (cr3 st) \<and> tables_ok (kmem st) (to_virt (cr3 st)) {hmem_slot st} \<and>
    page_aligned addr \<and> to_virt addr \<noteq> to_virt (cr3 st) \<and> to_virt addr \<noteq> slot_table st"

lemma hmem_slot_aligned: "page_aligned (hmem_end st) \<Longrightarrow> page_aligned (hmem_slot st)"
  unfolding hmem_slot_def by (rule page_aligned_diff) (simp_all add: page_aligned_def)

lemma prwr_3: "prwr = 3"
  by (simp add: prwr_def flag_value_def)

lemma slot_walk:
  assumes "hmem_ready addr st"
  shows "walk (slot_mapped st addr) (cr3 st) (hmem_slot st) = Some addr"
    and "load32 (slot_mapped st addr) (to_virt addr) = load32 (kmem st) (to_virt addr)"
    and "tables_ok (slot_mapped st addr) (to_virt (cr3 st)) {hmem_slot st}"
    and "load32 (slot_mapped st addr) (dir_entry_addr (to_virt (cr3 st)) (hmem_slot st)) =
      load32 (kmem st) (dir_entry_addr (to_virt (cr3 st)) (hmem_slot st))"
proof -
  let ?pd = "to_virt (cr3 st)" and ?v = "hmem_slot st" and ?m = "slot_mapped st addr"
  have r: "page_aligned ?pd" "tables_ok (kmem st) ?pd {?v}" "page_aligned addr" "to_virt addr \<noteq> slot_table st"
      "page_aligned ?v"
    using assms by (auto simp: hmem_ready_def page_aligned_to_virt hmem_slot_aligned)
  note step = store_table_entry [OF r(2), of ?v ?m "addr OR prwr"]
  have m: "?m = store32 (table_entry_addr (table_of (load32 (kmem st) (dir_entry_addr ?pd ?v))) ?v) (addr OR prwr) (kmem st)"
    by (simp add: slot_mapped_def slot_table_def)
  show "tables_ok ?m ?pd {?v}" and dir: "load32 ?m (dir_entry_addr ?pd ?v) = load32 (kmem st) (dir_entry_addr ?pd ?v)"
    using step(1,4) m by simp_all
  have "pte_of ?m ?pd ?v = addr OR 3" "is_present (load32 ?m (dir_entry_addr ?pd ?v))"
    using step(2) m r(2) dir by (simp_all add: prwr_3 tables_ok_def)
  then show "walk ?m (cr3 st) ?v = Some addr"
    using walk_eq [OF r(1), of ?m ?v] r(3,5) align_page_down_flags [of addr 3]
    by (simp add: is_present_or is_present_3 page_aligned_and)
  have "aligned4 (to_virt addr)" "aligned4 (table_entry_addr (slot_table st) ?v)"
    using page_entry_aligned [of "to_virt addr" 0] r(3) page_entry_aligned [OF table_of_aligned]
    by (simp_all add: page_aligned_to_virt table_entry_addr_eq slot_table_def)
  moreover have "to_virt addr \<noteq> table_entry_addr (slot_table st) ?v"
    using page_entry_eq [of "to_virt addr" "slot_table st" 0 "tab_index ?v"] r(3,4)
    by (simp add: page_aligned_to_virt table_entry_addr_eq slot_table_def table_of_aligned)
  ultimately show "load32 ?m (to_virt addr) = load32 (kmem st) (to_virt addr)"
    unfolding slot_mapped_def by (intro load32_store32_other) auto
qed

lemma scoped_hmem_mapping_spec:
  "hmem_ready addr st \<Longrightarrow> scoped_hmem_mapping addr st =
    Inr (hmem_slot st, st\<lparr>hmem_end := hmem_slot st, kmem := slot_mapped st addr\<rparr>)"
  unfolding hmem_ready_def scoped_hmem_mapping_def Let_def slot_mapped_def slot_table_def hmem_slot_def [symmetric]
  by (elim conjE) (simp add: tables_ok_def dir_entry_addr_def)

lemma preempt_frame [simp]:
  "hmem_slot (st\<lparr>preempt_counter := c\<rparr>) = hmem_slot st" "slot_table (st\<lparr>preempt_counter := c\<rparr>) = slot_table st"
  "slot_mapped (st\<lparr>preempt_counter := c\<rparr>) addr = slot_mapped st addr"
  "hmem_ready addr (st\<lparr>preempt_counter := c\<rparr>) = hmem_ready addr st"
  by (simp_all add: hmem_slot_def slot_table_def slot_mapped_def hmem_ready_def)

text \<open>The contexts in which the two calls are allowed.\<close>

definition hmem_callable :: "kstate \<Rightarrow> bool" where
  "hmem_callable st \<longleftrightarrow> \<not> is_interrupt_context st \<and> preempt_counter st + 1 \<noteq> 0"

lemma hmem_alloc_page_list:
  assumes ready: "hmem_ready addr st" and addr: "hmem_phys_list st = addr" "addr \<noteq> 0" and call: "hmem_callable st"
  shows "hmem_alloc_page st = Inr (addr, st\<lparr>kmem := slot_mapped st addr, hmem_phys_list := load32 (kmem st) (to_virt addr)\<rparr>)"
proof -
  let ?m = "slot_mapped st addr" and ?st = "preempt_up st"
  have "scoped_hmem_mapping addr ?st = Inr (hmem_slot st, ?st\<lparr>hmem_end := hmem_slot st, kmem := ?m\<rparr>)"
    using scoped_hmem_mapping_spec [of addr ?st] ready by (simp add: preempt_up_def)
  moreover have "virt_read (hmem_slot st) (?st\<lparr>hmem_end := hmem_slot st, kmem := ?m\<rparr>) = Inr (load32 (kmem st) (to_virt addr))"
    using slot_walk(1,2) [OF ready] by (simp add: virt_read_def preempt_up_def)
  moreover have "hmem_slot st + 4096 = hmem_end st" "current_task st \<noteq> None"
    using ready by (simp_all add: hmem_slot_def hmem_ready_def)
  ultimately show ?thesis
    using addr call
    by (simp add: hmem_alloc_page_def scoped_preemptlock_def hmem_callable_def 
        scoped_hmem_mapping_end_def preempt_up_def preempt_down_def Let_def)
qed

lemma hmem_free_page_list:
  assumes ready: "hmem_ready addr st" and call: "hmem_callable st" and list: "hmem_phys_list st \<noteq> 0"
    and addr: "hmem_phys_end st \<le> addr"
  shows "hmem_free_page addr st = Inr ((), st\<lparr>kmem := store32 (to_virt addr) (hmem_phys_list st) (slot_mapped st addr),
    hmem_phys_list := addr\<rparr>)"
proof -
  let ?m = "slot_mapped st addr" and ?st = "preempt_up st"
  have "scoped_hmem_mapping addr ?st = Inr (hmem_slot st, ?st\<lparr>hmem_end := hmem_slot st, kmem := ?m\<rparr>)"
    using scoped_hmem_mapping_spec [of addr ?st] ready by (simp add: preempt_up_def)
  moreover have "virt_write (hmem_slot st) v (?st\<lparr>hmem_end := hmem_slot st, kmem := ?m\<rparr>) =
      Inr (?st\<lparr>hmem_end := hmem_slot st, kmem := store32 (to_virt addr) v ?m\<rparr>)" for v
    using slot_walk(1) [OF ready] by (simp add: virt_write_def preempt_up_def)
  moreover have "hmem_slot st + 4096 = hmem_end st" "current_task st \<noteq> None"
    using ready by (simp_all add: hmem_slot_def hmem_ready_def)
  ultimately show ?thesis
    using addr call list
    by (simp add: hmem_free_page_def scoped_preemptlock_def hmem_callable_def
        scoped_hmem_mapping_end_def preempt_up_def preempt_down_def Let_def)
qed

lemma hmem_free_page_empty:
  assumes "hmem_callable st" and "hmem_phys_list st = 0" and "hmem_phys_end st \<le> addr"
  shows "hmem_free_page addr st = Inr ((), st\<lparr>hmem_phys_list := addr\<rparr>)"
  using assms by (simp add: hmem_free_page_def scoped_preemptlock_def hmem_callable_def preempt_up_def preempt_down_def Let_def)

text \<open>Freeing a page leaves the mapping window usable for the page.\<close>

lemma hmem_ready_freed:
  assumes ready: "hmem_ready addr st"
    and st': "st' = st\<lparr>kmem := store32 (to_virt addr) v (slot_mapped st addr), hmem_phys_list := w\<rparr>"
  shows "hmem_ready addr st'" and "slot_table st' = slot_table st"
proof -
  let ?pd = "to_virt (cr3 st)" and ?e = "dir_entry_addr (to_virt (cr3 st)) (hmem_slot st)"
  have r: "page_aligned ?pd" "page_aligned (to_virt addr)" "to_virt addr \<noteq> ?pd"
    using ready by (auto simp: hmem_ready_def page_aligned_to_virt)
  have "aligned4 (to_virt addr)" "aligned4 ?e" "to_virt addr \<noteq> ?e"
    using page_entry_aligned [of "to_virt addr" 0] page_entry_eq [of "to_virt addr" ?pd 0 "dir_index (hmem_slot st)"] r
    by (simp_all add: page_entry_aligned dir_entry_addr_eq)
  then have e: "load32 (kmem st') ?e = load32 (kmem st) ?e"
    using slot_walk(4) [OF ready] unfolding st' by (simp add: load32_store32_other)
  then show t: "slot_table st' = slot_table st"
    by (simp add: slot_table_def hmem_slot_def st')
  show "hmem_ready addr st'"
    using ready e t by (simp add: hmem_ready_def hmem_slot_def tables_ok_def st')
qed

text \<open>
  Freeing a high-memory page and allocating again. When the free list is not empty, the page comes
  back and the list is again what it was: the link is written to and read from the page itself,
  through the temporary mapping.
\<close>

lemma hmem_free_alloc_roundtrip:
  assumes "hmem_ready addr st" and "hmem_callable st" and "hmem_phys_end st \<le> addr" and "addr \<noteq> 0"
    and "hmem_phys_list st \<noteq> 0"
  shows "\<exists>st' st''. hmem_free_page addr st = Inr ((), st') \<and> hmem_alloc_page st' = Inr (addr, st'') \<and>
    hmem_phys_list st'' = hmem_phys_list st \<and> hmem_end st'' = hmem_end st \<and> preempt_counter st'' = preempt_counter st"
proof -
  define st' where "st' = st\<lparr>kmem := store32 (to_virt addr) (hmem_phys_list st) (slot_mapped st addr), hmem_phys_list := addr\<rparr>"
  have free: "hmem_free_page addr st = Inr ((), st')"
    using hmem_free_page_list [OF assms(1,2,5,3)] by (simp add: st'_def)
  have "hmem_ready addr st'" "hmem_callable st'" "hmem_phys_list st' = addr"
    using hmem_ready_freed(1) [OF assms(1) st'_def] assms(2)
    by (auto simp: st'_def hmem_callable_def is_interrupt_context_def)
  from hmem_alloc_page_list [OF this(1,3) assms(4) this(2)] free show ?thesis
    by (simp add: st'_def)
qed

lemma boot_hmem_ready: "hmem_ready 0x7001000 (boot_state\<lparr>hmem_phys_list := w\<rparr>)"
proof -
  have "tables_ok (\<lambda>a. 1) 0xC0100000 {- 4096}"
    by (rule tables_ok_ones [of _ "dir_index (- 4096)"]) simp
  then show ?thesis
    by (simp add: hmem_ready_def boot_state_def hmem_slot_def slot_table_def load_ones page_aligned_def to_virt_def
        table_of_def align_page_down_def)
qed

lemma boot_hmem_callable: "hmem_callable (boot_state\<lparr>hmem_phys_list := w\<rparr>)"
  by (simp add: hmem_callable_def boot_state_def is_interrupt_context_def)

theorem hmem_free_alloc_roundtrip_witness:
  "\<exists>st' st''. hmem_free_page 0x7001000 (boot_state\<lparr>hmem_phys_list := 0x7000000\<rparr>) = Inr ((), st') \<and>
    hmem_alloc_page st' = Inr (0x7001000, st'') \<and> hmem_phys_list st'' = 0x7000000"
  using hmem_free_alloc_roundtrip [OF boot_hmem_ready [of "0x7000000"] boot_hmem_callable]
  by (auto simp: boot_state_def)

text \<open>
  Freeing the first page onto an empty list does not end the list. \<open>hmem_free_page\<close> writes nothing
  to the page then, so the allocation that takes it makes whatever the page contained the new head of
  the free list.
\<close>

lemma hmem_free_empty_stale_head:
  assumes "hmem_ready addr st" and "hmem_callable st" and "hmem_phys_end st \<le> addr" and "addr \<noteq> 0"
    and "hmem_phys_list st = 0"
  shows "\<exists>st' st''. hmem_free_page addr st = Inr ((), st') \<and> hmem_alloc_page st' = Inr (addr, st'') \<and>
    hmem_phys_list st'' = load32 (kmem st) (to_virt addr)"
proof -
  define st' where "st' = st\<lparr>hmem_phys_list := addr\<rparr>"
  have free: "hmem_free_page addr st = Inr ((), st')"
    using hmem_free_page_empty [OF assms(2,5,3)] by (simp add: st'_def)
  have "hmem_ready addr st'" "hmem_callable st'" "hmem_phys_list st' = addr"
    using assms(1,2) by (auto simp: st'_def hmem_callable_def is_interrupt_context_def hmem_ready_def hmem_slot_def slot_table_def)
  from hmem_alloc_page_list [OF this(1,3) assms(4) this(2)] free show ?thesis
    by (simp add: st'_def)
qed

lemma hmem_free_empty_stale_head_example:
  "\<exists>st' st''. hmem_free_page 0x7001000 (boot_state\<lparr>hmem_phys_list := 0\<rparr>) = Inr ((), st') \<and>
    hmem_alloc_page st' = Inr (0x7001000, st'') \<and> hmem_phys_list st'' = 0x01010101"
  using hmem_free_empty_stale_head [OF boot_hmem_ready [of 0] boot_hmem_callable]
  by (auto simp: boot_state_def load_ones)

subsection \<open>User pages\<close>

text \<open>
  Allocating a 4 KiB block from a free page changes memory only in that page.
\<close>

lemma kmem_alloc_4k_free:
  assumes inv: "kmem_inv n st" and free: "free_pages n (buds st) \<noteq> {}"
  obtains j i h where "kmem_alloc_pages K4 st =
      Inr (block_addr st j K4 i, st\<lparr>buds := h, kmem := memset (block_addr st j K4 i) 0x41 4096 (kmem st)\<rparr>)"
    and "(j, i) \<in> free_pages n (buds st)"
    and "kmem_inv n (st\<lparr>buds := h\<rparr>)" and "free_pages n h = free_pages n (buds st) - {(j, i)}"
proof -
  let ?st = "st\<lparr>if_flag := False\<rparr>"
  have inv': "kmem_inv n ?st" using inv by simp
  show thesis
  proof (rule buddy_alloc_spec [OF inv', of K4])
    assume "\<forall>j < n. blocks (buds ?st (Bud j)) K4 = {}"
    with free show thesis by (auto simp: free_pages_def)
  next
    fix j i h
    let ?p = "block_addr ?st j K4 i"
    assume al: "buddy_alloc K4 ?st = Inr (Some ?p, ?st\<lparr>buds := h, kmem := memset ?p 0x41 (level_size K4) (kmem ?st)\<rparr>)"
      "j < n" "i < nblocks K4" "allocates K4 i (Bud j) (buds ?st) h"
    have "kmem_alloc_pages K4 st = Inr (?p, (?st\<lparr>buds := h, kmem := memset ?p 0x41 (level_size K4) (kmem ?st)\<rparr>)\<lparr>if_flag := if_flag st\<rparr>)"
      unfolding kmem_alloc_pages_def kmem_depth_def numeral_2_eq_2 kmem_alloc.simps
      by (rule scoped_intlock_eq) (simp_all add: al(1))
    moreover have "?p = block_addr st j K4 i"
      by (rule block_addr_cong) simp_all
    moreover have "buddies_ok n h" "free_pages n h = free_pages n (buds st) - {(j, i)}" "(j, i) \<in> free_pages n (buds st)"
      using allocates_ok [of n "buds st" j K4 i h] inv al(2,4) by (auto simp: kmem_inv_def pages_of_K4)
    ultimately show thesis
      using inv by (intro that [of j i h]) (simp_all add: level_size_def kmem_inv_def)
  qed
qed

lemma unat_page_byte: "page_aligned p \<Longrightarrow> k < 4096 \<Longrightarrow> unat (p + of_nat k) = unat p + k"
proof -
  assume "page_aligned p" "k < 4096"
  then obtain c where c: "unat p = 4096 * c"
    unfolding page_aligned_def by (elim dvdE)
  then have "c < 1048576"
    using unat_less_32 [of p] by simp
  with c \<open>k < 4096\<close> show ?thesis
    by (intro unat_add_of_nat) simp
qed

lemma page_disjoint:
  assumes "page_aligned p" and "page_aligned q" and "p \<noteq> q" and "k < 4096"
  shows "\<not> in_range p 4096 (q + of_nat k)"
proof
  assume "in_range p 4096 (q + of_nat k)"
  then obtain c where c: "c < 4096" "q + of_nat k = p + of_nat c"
    unfolding in_range_def by (metis add_offset)
  then have "unat q + k = unat p + c"
    using unat_page_byte assms(1,2,4) by metis
  moreover obtain x y where xy: "unat p = 4096 * x" "unat q = 4096 * y"
    using assms(1,2) unfolding page_aligned_def by (elim dvdE)
  ultimately have "(4096 * y + k) div 4096 = (4096 * x + c) div 4096"
    by simp
  then have "x = y"
    using assms(4) c(1) by simp
  with xy assms(3) show False
    by (simp add: word_unat_eq_iff)
qed

lemma load32_memset_page:
  assumes "page_aligned p" and "page_aligned q" and "p \<noteq> q" and "k < 1024"
  shows "load32 (memset p v 4096 m) (q + 4 * of_nat k) = load32 m (q + 4 * of_nat k)"
proof (rule load32_memset_other)
  fix i :: nat
  assume "i < 4"
  then have "\<not> in_range p 4096 (q + of_nat (4 * k + i))"
    using assms by (intro page_disjoint) auto
  then show "\<not> in_range p (unat (4096 :: u32)) (q + 4 * of_nat k + of_nat i)"
    by (simp add: add.assoc)
qed

lemma block_addr_aligned:
  assumes "kmem_inv n st" and "j < n" and "i < 128"
  shows "page_aligned (block_addr st j K4 i)"
proof -
  have "(2 :: nat) ^ 15 dvd unat (buddy_array st) + unat (buddy_array_size st)"
    using assms(1) by (simp add: kmem_inv_def)
  then have "4096 dvd unat (buddy_array st) + unat (buddy_array_size st)"
    by (rule dvd_trans [rotated]) simp
  moreover have "block_offset j K4 i = 4096 * (j * 128 + i)"
    by (simp add: block_offset_def block_shift_def)
  ultimately show ?thesis
    using unat_block_addr [OF assms(1,2), of i K4] assms(3)
    by (simp add: page_aligned_def nblocks_def)
qed

text \<open>The new page table of \<open>_map_page\<close>, entered into the directory and with one entry.\<close>

lemma new_table_walk:
  assumes "page_aligned p" and "page_aligned pd" and "p \<noteq> pd" and "flags < 4096"
    and m': "m' = store32 (table_entry_addr p virt) pte (store32 (dir_entry_addr pd virt) (from_kmem p OR flags) m)"
  shows "load32 m' (dir_entry_addr pd virt) = from_kmem p OR flags" and "pte_of m' pd virt = pte"
proof -
  show dir: "load32 m' (dir_entry_addr pd virt) = from_kmem p OR flags"
    unfolding m' using assms(1-3)
    by (subst load32_store32_other) (simp_all add: dir_entry_addr_eq table_entry_addr_eq page_entry_aligned page_entry_eq)
  have "table_of (from_kmem p OR flags) = p"
    using assms(1,4) by (simp add: table_of_def align_page_down_flags page_aligned_from_kmem)
  then show "pte_of m' pd virt = pte"
    unfolding pte_of_def dir by (simp add: m')
qed

definition user_pte :: "u32 \<Rightarrow> bool \<Rightarrow> u32" where
  "user_pte phys writable = phys OR (if writable then 7 else 5)"

lemma map_user_page_eq:
  "map_user_page virt phys writable st = map_page (kmem_alloc_pages K4) virt 7 (user_pte phys writable) (to_virt (cr3 st)) st"
  by (simp add: map_user_page_def Let_def flag_value_def user_pte_def or.assoc)

lemma map_user_page_pte:
  assumes inv: "kmem_inv n st" and free: "free_pages n (buds st) \<noteq> {}"
    and al: "page_aligned (cr3 st)" "page_aligned virt"
    and pd: "\<forall>(j, i) \<in> free_pages n (buds st). block_addr st j K4 i \<noteq> to_virt (cr3 st)"
    and e: "e = load32 (kmem st) (dir_entry_addr (to_virt (cr3 st)) virt)" "is_present e \<longrightarrow> table_of e \<noteq> to_virt (cr3 st)"
  shows "\<exists>st'. map_user_page virt phys writable st = Inr ((), st') \<and> kmem_inv n st' \<and> cr3 st' = cr3 st \<and>
    is_present (load32 (kmem st') (dir_entry_addr (to_virt (cr3 st)) virt)) \<and>
    pte_of (kmem st') (to_virt (cr3 st)) virt = user_pte phys writable"
proof (cases "is_present e")
  let ?pd = "to_virt (cr3 st)" and ?pte = "user_pte phys writable"
  case True
  then have ok: "tables_ok (kmem st) ?pd {virt}"
    using al e by (simp add: tables_ok_def page_aligned_to_virt)
  define m where "m = store32 (table_entry_addr (table_of (load32 (kmem st) (dir_entry_addr ?pd virt))) virt) ?pte (kmem st)"
  have "map_user_page virt phys writable st = Inr ((), st\<lparr>kmem := m\<rparr>)"
    using map_page_present [OF al(2), of st ?pd] True e(1) by (simp add: map_user_page_eq m_def)
  moreover have "kmem_inv n (st\<lparr>kmem := m\<rparr>)"
    using inv by (simp add: kmem_inv_def)
  ultimately show ?thesis
    using store_table_entry(1,2) [OF ok _ m_def] True e(1) by simp
next
  let ?pd = "to_virt (cr3 st)" and ?pte = "user_pte phys writable"
  case False
  let ?st = "st\<lparr>if_flag := False\<rparr>"
  have inv0: "kmem_inv n ?st" and free0: "free_pages n (buds ?st) \<noteq> {}"
    using inv free by simp_all
  obtain j i h where p: "kmem_alloc_pages K4 ?st =
      Inr (block_addr ?st j K4 i, ?st\<lparr>buds := h, kmem := memset (block_addr ?st j K4 i) 0x41 4096 (kmem ?st)\<rparr>)"
    and ji: "(j, i) \<in> free_pages n (buds ?st)" and inv': "kmem_inv n (?st\<lparr>buds := h\<rparr>)"
    using kmem_alloc_4k_free [OF inv0 free0] .
  define q where "q = block_addr st j K4 i"
  have q: "block_addr ?st j K4 i = q"
    unfolding q_def by (rule block_addr_cong) simp_all
  have "j < n" "i < 128"
    using ji inv level_bits_bound [of "buds st (Bud j)" K4]
    by (auto simp: free_pages_def blocks_def kmem_inv_def buddies_ok_def nblocks_def)
  then have qa: "page_aligned q" "page_aligned ?pd" "q \<noteq> ?pd"
    using block_addr_aligned [OF inv] al(1) pd ji by (auto simp: q_def page_aligned_to_virt)
  let ?e = "dir_entry_addr ?pd virt" and ?m = "memset q 0 4096 (memset q 0x41 4096 (kmem st))"
  have same: "load32 (memset q 0x41 4096 (kmem st)) ?e = e"
    using load32_memset_page [OF qa] by (simp add: e(1) dir_entry_addr_eq)
  define m where "m = store32 (table_entry_addr q virt) ?pte (store32 ?e (from_kmem q OR 7) ?m)"
  have "map_user_page virt phys writable st = Inr ((), (?st\<lparr>buds := h, kmem := m\<rparr>)\<lparr>if_flag := if_flag st\<rparr>)"
    unfolding map_user_page_eq map_page_def
    by (rule scoped_intlock_eq)
      (use al(2) False in \<open>simp_all add: page_aligned_and Let_def e(1) [symmetric] p q same m_def\<close>)
  moreover have "kmem_inv n ((?st\<lparr>buds := h, kmem := m\<rparr>)\<lparr>if_flag := if_flag st\<rparr>)"
    using inv' by (simp add: kmem_inv_def)
  moreover have "is_present (from_kmem q OR 7)"
    by (simp add: is_present_or is_present_3)
  ultimately show ?thesis
    using new_table_walk [OF qa, of 7 m virt ?pte ?m] m_def by simp
qed

text \<open>
  C14: \<open>map_user_page\<close> maps the page. Afterwards the address translates to the physical page under the
  current page directory, whether its page table existed or had to be allocated, the entry has the
  user flag, and the write flag exactly when asked for; the allocator keeps its invariant.
\<close>

theorem map_user_page_translates:
  assumes "kmem_inv n st" and "free_pages n (buds st) \<noteq> {}"
    and "page_aligned (cr3 st)" and "page_aligned virt" and "page_aligned phys"
    and "\<forall>(j, i) \<in> free_pages n (buds st). block_addr st j K4 i \<noteq> to_virt (cr3 st)"
    and "e = load32 (kmem st) (dir_entry_addr (to_virt (cr3 st)) virt)"
    and "is_present e \<longrightarrow> table_of e \<noteq> to_virt (cr3 st)"
  shows "\<exists>st'. map_user_page virt phys writable st = Inr ((), st') \<and> kmem_inv n st' \<and>
    walk (kmem st') (cr3 st') virt = Some phys \<and>
    pte_of (kmem st') (to_virt (cr3 st')) virt = phys OR (if writable then 7 else 5)"
proof -
  obtain st' where st': "map_user_page virt phys writable st = Inr ((), st')" "kmem_inv n st'" "cr3 st' = cr3 st"
      "is_present (load32 (kmem st') (dir_entry_addr (to_virt (cr3 st)) virt))"
      "pte_of (kmem st') (to_virt (cr3 st)) virt = user_pte phys writable"
    using map_user_page_pte [OF assms(1-4,6-8)] by blast
  have "is_present (user_pte phys writable)" "align_page_down (user_pte phys writable) = phys"
    using assms(5) by (simp_all add: user_pte_def is_present_or is_present_3 align_page_down_flags)
  then have "walk (kmem st') (cr3 st) virt = Some phys"
    using walk_eq [OF page_aligned_to_virt [OF assms(3)], of "kmem st'" virt] st'(4,5) assms(4)
    by (simp add: page_aligned_and)
  with st' show ?thesis
    by (auto simp: user_pte_def)
qed

theorem map_user_page_translates_witness:
  "\<exists>st'. map_user_page 0x08048000 0x7000000 True boot_state = Inr ((), st') \<and> kmem_inv 1 st' \<and>
    walk (kmem st') (cr3 st') 0x08048000 = Some 0x7000000 \<and>
    pte_of (kmem st') (to_virt (cr3 st')) 0x08048000 = 0x7000000 OR (if True then 7 else 5)"
proof (rule map_user_page_translates [OF boot_inv])
  show "free_pages 1 (buds boot_state) \<noteq> {}"
    unfolding boot_buddies by (simp add: lessThan_empty_iff)
  have "unat (block_addr boot_state j K4 i) = 0xC0208000 + 4096 * i" if "j = 0" "i < 128" for j i
    using unat_block_addr [OF boot_inv, of j i K4] that
    by (simp add: nblocks_def block_offset_def block_shift_def) (simp add: boot_state_def)
  then show "\<forall>(j, i) \<in> free_pages 1 (buds boot_state). block_addr boot_state j K4 i \<noteq> to_virt (cr3 boot_state)"
    unfolding boot_buddies by (auto simp: to_virt_def word_unat_eq_iff) (simp add: boot_state_def)
  show "is_present 0x01010101 \<longrightarrow> table_of 0x01010101 \<noteq> to_virt (cr3 boot_state)"
    by (simp add: boot_state_def table_of_def align_page_down_def to_virt_def)
qed (simp_all add: boot_state_def page_aligned_def load_ones)

end
