(* ===== verification/Kmem_Safe.thy ===== *)
theory Kmem_Safe
  imports Kmem_Props
begin

section \<open>The page allocator in every history\<close>

text \<open>
  The invariant \<open>kmem_inv\<close> is lost when the allocator grows while pages are still free: the new buddy is put in
  front of a list whose old head keeps its prev pointer, and the list breaks. What such a growth cannot break is
  the account of the free blocks, which depends on the bit maps alone. This theory has the invariant of all
  histories, growth of that kind included: the maps of the buddies are consistent and the pointers of the lists,
  whatever their order, lead to buddies in use.
\<close>

subsection \<open>Pointers to buddies in use\<close>

definition node_ok :: "nat \<Rightarrow> bptr \<Rightarrow> bool" where
  "node_ok n q = (case q of First l \<Rightarrow> True | Bud j \<Rightarrow> j < n)"

text \<open>The pointers of level \<open>l\<close> that the operations read: next of the list head, prev and next of a buddy.\<close>

definition reads :: "nat \<Rightarrow> link_map \<Rightarrow> level \<Rightarrow> bptr \<Rightarrow> bptr option set" where
  "reads n L l q = (case q of First l' \<Rightarrow> if l' = l then {snd (L l q)} else {}
     | Bud j \<Rightarrow> if j < n then {fst (L l q), snd (L l q)} else {})"

definition ptrs_in :: "nat \<Rightarrow> link_map \<Rightarrow> bool" where
  "ptrs_in n L \<longleftrightarrow> (\<forall>l q r. Some r \<in> reads n L l q \<longrightarrow> node_ok n r)"

lemma node_ok_simps [simp]: "node_ok n (First l)" "node_ok n (Bud j) \<longleftrightarrow> j < n"
  by (simp_all add: node_ok_def)

lemma reads_simps [simp]:
  "reads n L l (First l') = (if l' = l then {snd (L l (First l'))} else {})"
  "reads n L l (Bud j) = (if j < n then {fst (L l (Bud j)), snd (L l (Bud j))} else {})"
  by (simp_all add: reads_def)












subsection \<open>One buddy\<close>


text \<open>The heads and the maps of the first \<open>n\<close> buddies, without the order of the lists.\<close>

definition heap_ok :: "nat \<Rightarrow> bheap \<Rightarrow> bool" where
  "heap_ok n h \<longleftrightarrow> maps_ok n h \<and> ptrs_in n (links h)"





subsection \<open>What an operation on page tables keeps\<close>


definition frame_inv :: "(kstate \<Rightarrow> bool) \<Rightarrow> bool" where
  "frame_inv P \<longleftrightarrow> (\<forall>s m. P s \<longrightarrow> P (s\<lparr>kmem := m\<rparr>)) \<and> (\<forall>s b. P s \<longrightarrow> P (s\<lparr>if_flag := b\<rparr>))"






subsection \<open>Growing\<close>

text \<open>The fields that place the buddies and the two ends of kernel memory.\<close>

definition same_layout :: "kstate \<Rightarrow> kstate \<Rightarrow> bool" where
  "same_layout s t \<longleftrightarrow> buddy_array t = buddy_array s \<and> buddy_array_size t = buddy_array_size s \<and>
    buddy_array_pos t = buddy_array_pos s \<and> kmem_phys_end t = kmem_phys_end s \<and> kmem_region_end t = kmem_region_end s"

lemma same_layout_simps [simp]:
  "same_layout s s" "same_layout s (t\<lparr>kmem := m\<rparr>) = same_layout s t" "same_layout s (t\<lparr>buds := h\<rparr>) = same_layout s t"
  "same_layout s (t\<lparr>if_flag := b\<rparr>) = same_layout s t" "same_layout (s\<lparr>kmem := m\<rparr>) t = same_layout s t"
  "same_layout (s\<lparr>buds := h\<rparr>) t = same_layout s t" "same_layout (s\<lparr>if_flag := b\<rparr>) t = same_layout s t"
  by (simp_all add: same_layout_def)










lemma frame_conj: "frame_inv P \<Longrightarrow> frame_inv Q \<Longrightarrow> frame_inv (\<lambda>s. P s \<and> Q s)"
  by (simp add: frame_inv_def)








text \<open>
  The invariant of every history: the kernel is mapped from 3 GiB on, its region ends at 896 MiB of physical
  memory at most, and the mapped part of it ends where the next buddy begins.
\<close>

definition kmem_safe :: "nat \<Rightarrow> kstate \<Rightarrow> bool" where
  "kmem_safe n st \<longleftrightarrow> layout n st \<and> heap_ok n (buds st) \<and> 0xC0000000 \<le> unat (buddy_array st) \<and>
    unat (kmem_region_end st) \<le> 0x38000000 \<and> to_virt (kmem_phys_end st) = my_first_page st n"

lemma kmem_safe_if_flag [simp]: "kmem_safe n (st\<lparr>if_flag := b\<rparr>) = kmem_safe n st"
  by (simp add: kmem_safe_def layout_def my_first_page_def pages_start_def)




subsection \<open>An allocation that returns\<close>







subsection \<open>Histories of allocations\<close>

text \<open>
  A client history: allocations that return, and frees of blocks that the client holds. The ghost component is
  the set of blocks that the client holds, each a size and an address.
\<close>

inductive kmem_step :: "kstate \<times> (level \<times> u32) set \<Rightarrow> kstate \<times> (level \<times> u32) set \<Rightarrow> bool" where
  step_alloc: "kmem_alloc_pages l st = Inr (p, st') \<Longrightarrow> kmem_step (st, live) (st', insert (l, p) live)"
| step_free: "(l, p) \<in> live \<Longrightarrow> kmem_free l p st = Inr ((), st') \<Longrightarrow> kmem_step (st, live) (st', live - {(l, p)})"

inductive_cases kmem_stepE: "kmem_step (st, live) (st', live')"









subsection \<open>The invariant with exact lists\<close>

lemma chain_snd: "chain M p xs \<Longrightarrow> snd (M p) = Some r \<Longrightarrow> r \<in> Bud ` set xs"
  by (cases xs) auto

lemma chain_ptrs: "chain M p xs \<Longrightarrow> x \<in> set xs \<Longrightarrow>
    fst (M (Bud x)) = Some r \<or> snd (M (Bud x)) = Some r \<Longrightarrow> r \<in> insert p (Bud ` set xs)"
proof (induction xs arbitrary: p)
  case (Cons a xs)
  then have chain: "chain M (Bud a) xs" "fst (M (Bud a)) = Some p"
    by simp_all
  show ?case
  proof (cases "x \<in> set xs")
    case True
    then show ?thesis
      using Cons.IH [OF chain(1)] Cons.prems(3) by auto
  next
    case False
    then show ?thesis
      using Cons.prems chain(2) chain_snd [OF chain(1)] by auto
  qed
qed simp

lemma free_list_ptrs:
  assumes fl: "free_list n l h xs" and r: "Some r \<in> reads n (links h) l q"
  shows "node_ok n r"
proof -
  have xs: "set xs \<subseteq> {..<n}"
    using fl by (auto simp: free_list_def)
  show ?thesis
  proof (cases q)
    case (Bud j)
    then have j: "j < n" "fst (links h l (Bud j)) = Some r \<or> snd (links h l (Bud j)) = Some r"
      using r by (auto split: if_splits)
    then have "j \<in> set xs"
      using fl by (auto simp: free_list_def)
    then have "r \<in> insert (First l) (Bud ` set xs)"
      using chain_ptrs [of "links h l" "First l" xs j r] fl j(2) by (simp add: free_list_def)
    then show ?thesis
      using xs by auto
  next
    case (First l')
    then have "snd (links h l (First l)) = Some r"
      using r by (auto split: if_splits)
    then show ?thesis
      using fl xs by (cases xs) (auto simp: free_list_def)
  qed
qed

lemma kmem_inv_safe:
  assumes inv: "kmem_inv n st" and "0xC0000000 \<le> unat (buddy_array st)" and "unat (kmem_region_end st) \<le> 0x38000000"
    and "to_virt (kmem_phys_end st) = my_first_page st n"
  shows "kmem_safe n st"
proof -
  have "ptrs_in n (links (buds st))"
    using inv free_list_ptrs unfolding ptrs_in_def kmem_inv_def buddies_ok_def lists_inv_def by blast
  then show ?thesis
    using assms kmem_inv_layout [OF inv] kmem_inv_maps [OF inv] by (simp add: kmem_safe_def heap_ok_def)
qed

subsection \<open>No memory is handed out twice\<close>



lemma boot_safe_fields:
  "0xC0000000 \<le> unat (buddy_array boot_state)" "unat (kmem_region_end boot_state) \<le> 0x38000000"
  "to_virt (kmem_phys_end boot_state) = my_first_page boot_state 1"
  by (simp_all add: boot_state_def to_virt_def my_first_page_def pages_start_def)

lemma boot_safe: "kmem_safe 1 boot_state"
  by (rule kmem_inv_safe [OF boot_inv boot_safe_fields])


subsection \<open>One allocation, growth included\<close>

text \<open>A fresh buddy keeps a free block of every size when one block is taken from it, so it stays on every list.\<close>

lemma other_block:
  assumes "i < nblocks l"
  shows "pages_of l' 0 \<subseteq> {..<128} - pages_of l i \<or> pages_of l' (nblocks l' - 1) \<subseteq> {..<128} - pages_of l i"
proof (cases "i * block_pages l < 8")
  case True
  have small: "block_pages l \<le> 8"
    by (cases l) (simp_all add: block_pages_def)
  have "120 \<le> x \<and> x < 128" if "x \<in> pages_of l' (nblocks l' - 1)" for x
    using that by (cases l') (simp_all add: pages_of_def block_pages_def nblocks_def)
  moreover have "x < 16" if "x \<in> pages_of l i" for x
    using that True small by (simp add: pages_of_def)
  ultimately show ?thesis
    by fastforce
next
  case False
  have "x < 8" if "x \<in> pages_of l' 0" for x
    using that by (cases l') (simp_all add: pages_of_def block_pages_def)
  moreover have "8 \<le> x" if "x \<in> pages_of l i" for x
    using that False by (simp add: pages_of_def)
  ultimately show ?thesis
    by fastforce
qed

lemma removes_links:
  assumes "removes ms t h h'" and "\<And>l. level_bits l (h' t) \<noteq> {}"
  shows "links h' = links h"
  using assms
proof (induction ms t h h' rule: removes.induct)
  case (2 l i ms t h h')
  then obtain h1 where h1: "marked_alloc l i t h h1" "removes ms t h1 h'"
    by auto
  have "level_bits l (h' t) \<subseteq> level_bits l (h t) - {i}"
    using removes_bits [OF h1(2), of l t] h1(1) by (auto simp: marked_alloc_def)
  then have "links h1 = links h"
    using h1(1) 2(3) [of l] by (auto simp: marked_alloc_def)
  then show ?case
    using 2 h1 by simp
qed simp

lemma allocates_fresh_links:
  assumes al: "allocates l i (Bud n) (link_new_buddy n h) h'"
  shows "links h' = links (link_new_buddy n h)"
proof -
  have K4: "blocks (h' (Bud n)) K4 = {..<128} - pages_of l i" and hier: "hier (blocks (h' (Bud n)))" and i: "i < nblocks l"
    using al by (auto simp: allocates_def link_new_buddy_Bud full_buddy_blocks nblocks_def)
  have "blocks (h' (Bud n)) l' \<noteq> {}" for l'
    using other_block [OF i, of l'] hier_pages [OF hier, of _ l'] K4 by blast
  then have "level_bits l' (h' (Bud n)) \<noteq> {}" for l'
    by (simp add: blocks_def)
  then show ?thesis
    using al removes_links [of _ "Bud n" "link_new_buddy n h" h'] by (auto simp: allocates_def)
qed

text \<open>
  The old head of the list of single pages keeps the list head as its prev pointer, where the exact lists have
  the new buddy.
\<close>

lemma growth_breaks_lists:
  assumes inv: "lists_inv n h" and free: "free_pages n h \<noteq> {}" and h': "links h' = links (link_new_buddy n h)"
  shows "\<not> lists_inv (Suc n) h'"
proof
  assume "lists_inv (Suc n) h'"
  then obtain ys where ys: "chain (links h' K4) (First K4) ys"
    unfolding lists_inv_def free_list_def by blast
  obtain xs where xs: "chain (links h K4) (First K4) xs" "set xs = {i. i < n \<and> level_bits K4 (h (Bud i)) \<noteq> {}}"
    using inv unfolding lists_inv_def free_list_def by blast
  moreover have "set xs \<noteq> {}"
    using free xs(2) by (auto simp: free_pages_def blocks_def)
  ultimately obtain x xs' where x: "xs = x # xs'" "snd (links h K4 (First K4)) = Some (Bud x)"
      "fst (links h K4 (Bud x)) = Some (First K4)" "x < n"
    by (cases xs) auto
  have *: "snd (links h' K4 (First K4)) = Some (Bud n)" "snd (links h' K4 (Bud n)) = Some (Bud x)"
      "fst (links h' K4 (Bud x)) = Some (First K4)"
    using x(2-4) unfolding h' by (simp_all add: links_def link_new_buddy_First link_new_buddy_Bud full_buddy_def)
  show False
  proof (cases ys)
    case (Cons y zs)
    then show ?thesis
      using ys * by (cases zs) auto
  qed (use ys * in simp)
qed

lemma grown_layout:
  assumes inv: "kmem_inv n st" and grow: "can_grow n st"
  shows "buds (grown st m) = link_new_buddy n (buds st)" and "block_addr (grown st m) = block_addr st"
    and "kmem_inv (Suc n) ((grown st m)\<lparr>buds := h, kmem := m', if_flag := b\<rparr>) = buddies_ok (Suc n) h"
proof -
  have pos: "unat (buddy_array_pos st) = n" "n < 2 ^ 13"
    using inv grow by (auto simp: kmem_inv_def can_grow_def)
  then have "unat (buddy_array_pos st + 1) = Suc n"
    using unat_add_of_nat [of "buddy_array_pos st" 1] by simp
  then show "kmem_inv (Suc n) ((grown st m)\<lparr>buds := h, kmem := m', if_flag := b\<rparr>) = buddies_ok (Suc n) h"
    using inv grow by (auto simp: kmem_inv_def grown_def can_grow_def)
  show "buds (grown st m) = link_new_buddy n (buds st)" "block_addr (grown st m) = block_addr st"
    using pos by (simp_all add: grown_def fun_eq_iff block_addr_def my_first_page_def pages_start_def)
qed

lemma buddy_alloc_grown:
  assumes inv: "kmem_inv n st" and grow: "can_grow n st"
  obtains i h where "buddy_alloc l (grown st m) = Inr (Some (block_addr st n l i),
      (grown st m)\<lparr>buds := h, kmem := memset (block_addr st n l i) 0x41 (level_size l) m\<rparr>)"
    and "i < nblocks l" and "allocates l i (Bud n) (link_new_buddy n (buds st)) h"
proof -
  let ?h = "link_new_buddy n (buds st)"
  note g = grown_layout [OF inv grow, where m = m]
  have n: "blocks (?h (Bud n)) l = {..<nblocks l}" "0 < nblocks l" for l
    by (simp add: link_new_buddy_Bud full_buddy_blocks) (cases l; simp add: nblocks_def)
  have wf: "buddy_wf (?h (Bud n))" "hier (blocks (?h (Bud n)))" "blocks (?h (Bud n)) l \<noteq> {}"
    using n [of l] by (simp_all add: link_new_buddy_Bud full_buddy_wf full_buddy_hier) (auto simp: lessThan_empty_iff)
  obtain w h where w: "alloc_N l (Bud n) ?h = Inr (push_bit (block_shift l) w, h)" "allocates l (unat w) (Bud n) ?h h"
    using alloc_N_spec [of ?h "Bud n" l, OF wf] by blast
  have "unat w < nblocks l"
    using w(2) n(1) [of l] by (simp add: allocates_def)
  moreover have "my_first_page (grown st m) n = my_first_page st n" "kmem (grown st m) = m"
    by (simp_all add: grown_def my_first_page_def pages_start_def)
  ultimately show thesis
    using w by (intro that [of "unat w" h]) (simp_all add: buddy_alloc_def g(1) link_new_buddy_First block_addr_def Let_def)
qed

lemma alloc_with_growth:
  assumes inv: "kmem_inv n st" and none: "\<forall>j < n. blocks (buds st (Bud j)) l = {}" and grow: "can_grow n st"
  obtains i st' where "kmem_alloc_pages l st = Inr (block_addr st n l i, st')" and "i < nblocks l"
    and "if_flag st' = if_flag st" and "maps_ok (Suc n) (buds st')"
    and "free_pages (Suc n) (buds st') = free_pages n (buds st) \<union> {n} \<times> {..<128} - {n} \<times> pages_of l i"
    and "kmem_inv (Suc n) st' \<longleftrightarrow> free_pages n (buds st) = {}"
proof -
  let ?s = "st\<lparr>if_flag := False\<rparr>"
  have inv': "kmem_inv n ?s" and grow': "can_grow n ?s"
    using inv grow by simp_all
  have first: "buddy_alloc l ?s = Inr (None, ?s)"
  proof (rule buddy_alloc_spec [OF inv', of l])
    fix j i h
    assume "j < n" "allocates l i (Bud j) (buds ?s) h"
    then show ?thesis
      using none by (simp add: allocates_def)
  qed
  obtain m where m: "kmem_buddy_new (kmem_alloc (Suc 0) K4) ?s = Inr (grown ?s m)"
    using kmem_buddy_new_spec [OF inv' grow', of "kmem_alloc (Suc 0) K4"] by auto
  obtain i h where i: "buddy_alloc l (grown ?s m) = Inr (Some (block_addr ?s n l i),
      (grown ?s m)\<lparr>buds := h, kmem := memset (block_addr ?s n l i) 0x41 (level_size l) m\<rparr>)"
    "i < nblocks l" "allocates l i (Bud n) (link_new_buddy n (buds ?s)) h"
    using buddy_alloc_grown [OF inv' grow'] .
  let ?u = "(grown ?s m)\<lparr>buds := h, kmem := memset (block_addr ?s n l i) 0x41 (level_size l) m\<rparr>"
  let ?st' = "?u\<lparr>if_flag := if_flag st\<rparr>"
  have addr: "block_addr ?s = block_addr st"
    by (simp add: fun_eq_iff block_addr_def my_first_page_def pages_start_def)
  have run: "kmem_alloc_pages l st = Inr (block_addr st n l i, ?st')"
    unfolding kmem_alloc_pages_def kmem_depth_def numeral_2_eq_2 kmem_alloc.simps(2) [of "Suc 0"]
    by (rule scoped_intlock_eq) (simp_all add: first m i(1) addr del: kmem_alloc.simps, simp add: grown_def)
  let ?h = "link_new_buddy n (buds st)"
  have al: "allocates l i (Bud n) ?h h"
    using i(3) by simp
  have "maps_ok (Suc n) ?h"
    using kmem_inv_maps [OF inv] full_buddy_hier full_buddy_wf by (auto simp: maps_ok_def link_new_buddy_Bud less_Suc_eq)
  note maps = allocates_maps [OF this lessI al]
  have pages: "free_pages (Suc n) ?h = free_pages n (buds st) \<union> {n} \<times> {..<128}"
    by (auto simp: free_pages_def link_new_buddy_Bud full_buddy_blocks nblocks_def less_Suc_eq split: if_splits)
  have ok: "buddies_ok n (buds st)"
    using inv by (simp add: kmem_inv_def)
  have "buddies_ok (Suc n) h \<longleftrightarrow> free_pages n (buds st) = {}"
  proof
    assume "free_pages n (buds st) = {}"
    then show "buddies_ok (Suc n) h"
      using allocates_ok(1) [OF link_new_buddy_ok(1) [OF ok] lessI al] by simp
  next
    assume "buddies_ok (Suc n) h"
    then show "free_pages n (buds st) = {}"
      using growth_breaks_lists [of n "buds st" h] allocates_fresh_links [OF al] ok by (auto simp: buddies_ok_iff)
  qed
  then have "kmem_inv (Suc n) ?st' \<longleftrightarrow> free_pages n (buds st) = {}"
    using grown_layout(3) [OF inv' grow'] by simp
  then show thesis
    using that [OF run i(2)] maps(1,2) pages by simp
qed

text \<open>
  C2: \<open>kmem_alloc_4k\<close> to \<open>kmem_alloc_32k\<close>. When a block of the size is free, or else the allocator can grow, the
  call returns the address of a block all of whose pages were free (or belong to the new buddy), removes exactly
  those pages from the free pages, keeps the bit maps consistent and leaves the interrupt flag as the caller had
  it. It grows exactly when no block of the size is free. The invariant with its exact free lists holds after the
  call unless it grew while smaller blocks were free; then, and only then, the lists are broken.
\<close>

theorem kmem_alloc_correct:
  assumes inv: "kmem_inv n st" and avail: "(\<exists>j < n. blocks (buds st (Bud j)) l \<noteq> {}) \<or> can_grow n st"
  shows "\<exists>m j i st'. kmem_alloc_pages l st = Inr (block_addr st j l i, st') \<and>
    m = (if \<exists>j < n. blocks (buds st (Bud j)) l \<noteq> {} then n else Suc n) \<and> j < m \<and> i < nblocks l \<and>
    maps_ok m (buds st') \<and> if_flag st' = if_flag st \<and>
    {j} \<times> pages_of l i \<subseteq> free_pages n (buds st) \<union> {n ..< m} \<times> {..<128} \<and>
    free_pages m (buds st') = free_pages n (buds st) \<union> {n ..< m} \<times> {..<128} - {j} \<times> pages_of l i \<and>
    (kmem_inv m st' \<longleftrightarrow> m = n \<or> free_pages n (buds st) = {})"
proof (cases "\<exists>j < n. blocks (buds st (Bud j)) l \<noteq> {}")
  case True
  then obtain p m j i st' where run: "kmem_alloc_pages l st = Inr (p, st')" and out: "hands_out l n st p m j i st'"
    using kmem_alloc_pages_spec [OF inv] by metis
  obtain j' i' where j': "j' < n" "i' \<in> blocks (buds st (Bud j')) l"
    using True by blast
  then have "hier (blocks (buds st (Bud j')))"
    using inv by (simp add: kmem_inv_def buddies_ok_def)
  then have "pages_of l i' \<subseteq> blocks (buds st (Bud j')) K4"
    using j'(2) by (simp add: hier_pages)
  with j'(1) have "free_pages n (buds st) \<noteq> {}"
    using pages_of_nonempty [of l i'] unfolding free_pages_def by blast
  note free = hands_out_free [OF out this]
  have "kmem_alloc_pages l st = Inr (block_addr st j l i, st')" "j < n" "i < nblocks l" "if_flag st' = if_flag st"
    using run hands_outD(1-3,9) [OF out] free(1) by simp_all
  with free kmem_inv_maps [OF free(2)] show ?thesis
    by (intro exI [of _ n] exI [of _ j] exI [of _ i] exI [of _ st']) (simp only: True if_True, simp)
next
  case False
  then have "\<forall>j < n. blocks (buds st (Bud j)) l = {}" "can_grow n st"
    using avail by auto
  from inv this obtain i st' where "kmem_alloc_pages l st = Inr (block_addr st n l i, st')" "i < nblocks l"
      "if_flag st' = if_flag st" "maps_ok (Suc n) (buds st')"
      "free_pages (Suc n) (buds st') = free_pages n (buds st) \<union> {n} \<times> {..<128} - {n} \<times> pages_of l i"
      "kmem_inv (Suc n) st' \<longleftrightarrow> free_pages n (buds st) = {}"
    by (rule alloc_with_growth)
  moreover have "{n} \<times> pages_of l i \<subseteq> free_pages n (buds st) \<union> {n} \<times> {..<128}"
    using pages_of_less [OF calculation(2)] by blast
  ultimately show ?thesis
    by (intro exI [of _ "Suc n"] exI [of _ n] exI [of _ i] exI [of _ st'])
      (simp only: False if_False atLeastLessThan_singleton, simp)
qed

theorem kmem_alloc_correct_witness:
  "\<exists>m j i st'. kmem_alloc_pages K16 boot_state = Inr (block_addr boot_state j K16 i, st') \<and>
    m = (if \<exists>j < 1. blocks (buds boot_state (Bud j)) K16 \<noteq> {} then 1 else Suc 1) \<and> j < m \<and> i < nblocks K16 \<and>
    maps_ok m (buds st') \<and> if_flag st' = if_flag boot_state \<and>
    {j} \<times> pages_of K16 i \<subseteq> free_pages 1 (buds boot_state) \<union> {1 ..< m} \<times> {..<128} \<and>
    free_pages m (buds st') = free_pages 1 (buds boot_state) \<union> {1 ..< m} \<times> {..<128} - {j} \<times> pages_of K16 i \<and>
    (kmem_inv m st' \<longleftrightarrow> m = 1 \<or> free_pages 1 (buds boot_state) = {})"
  by (rule kmem_alloc_correct [OF boot_inv disjI2 [OF boot_can_grow]])

end
