(* ===== verification/Kmem_Init.thy ===== *)
theory Kmem_Init
  imports Hmem_Props Kmem_Safe
begin

section \<open>Initialisation of the page allocator\<close>

text \<open>
  \<^verbatim>\<open>init_page_allocator\<close> starts from an empty page directory and a buddy array without buddies. Its first
  loop maps the kernel image, the array and the first buddy, and takes page tables from that buddy as
  it goes; its second loop takes the tables of the rest of the kernel region. The theory shows that it
  establishes what the rest of the kernel relies on: the allocator's invariant, the identity mapping,
  and a page table for each address into which the allocator may grow.
\<close>

subsection \<open>The page tables taken so far\<close>

text \<open>
  The pages of the first \<open>n\<close> buddies, each a pair of the buddy and the page in it. The tables are a list \<open>ts\<close> of such
  pages, in the order of the directory's entries from 768 on; the entries behind them are empty, and the pages that
  are not tables are free.
\<close>

definition first_page :: "kstate \<Rightarrow> nat \<times> nat \<Rightarrow> u32" where
  "first_page st q = block_addr st (fst q) K4 (snd q)"

definition page_tables :: "nat \<Rightarrow> kstate \<Rightarrow> (nat \<times> nat) list \<Rightarrow> bool" where
  "page_tables n st ts \<longleftrightarrow> kmem_inv n st \<and> page_aligned (first_page_directory st) \<and>
    unat (first_page_directory st) < unat (buddy_array st) + unat (buddy_array_size st) \<and>
    distinct ts \<and> set ts \<subseteq> {..<n} \<times> {..<128} \<and> free_pages n (buds st) = {..<n} \<times> {..<128} - set ts \<and>
    (\<forall>v. 768 \<le> dir_index v \<longrightarrow> load32 (kmem st) (dir_entry_addr (first_page_directory st) v) =
      (if dir_index v < 768 + length ts then from_kmem (first_page st (ts ! (dir_index v - 768))) OR 3 else 0))"

text \<open>The addresses that the first \<open>n\<close> tables cover.\<close>

definition covered :: "nat \<Rightarrow> u32 set" where
  "covered n = {v. 768 \<le> dir_index v \<and> dir_index v < 768 + n}"

lemma first_page_frame [simp]:
  "first_page (st\<lparr>if_flag := b\<rparr>) = first_page st" "first_page (st\<lparr>buds := h\<rparr>) = first_page st"
  "first_page (st\<lparr>kmem := m\<rparr>) = first_page st" "first_page (st\<lparr>cr3 := c\<rparr>) = first_page st"
  "first_page (grown st m) = first_page st"
  by (simp_all add: fun_eq_iff first_page_def block_addr_def my_first_page_def pages_start_def grown_def)

lemma page_tables_if_flag [simp]: "page_tables n (st\<lparr>if_flag := b\<rparr>) ts = page_tables n st ts"
  by (simp add: page_tables_def)

lemma page_tables_length: "page_tables n st ts \<Longrightarrow> length ts \<le> 128 * n"
  using card_mono [of "{..<n} \<times> {..<128}" "set ts"] by (auto simp: page_tables_def distinct_card card_cartesian_product mult.commute)

lemma first_page_props:
  assumes "page_tables n st ts" and q: "q \<in> {..<n} \<times> {..<128}"
  shows "page_aligned (first_page st q)" and "first_page st q \<noteq> first_page_directory st"
    and "r \<in> {..<n} \<times> {..<128} \<Longrightarrow> first_page st q = first_page st r \<longleftrightarrow> q = r"
proof -
  have inv: "kmem_inv n st"
    using assms(1) by (simp add: page_tables_def)
  have u: "unat (first_page st r) = unat (buddy_array st) + unat (buddy_array_size st) + 4096 * (128 * fst r + snd r)"
    if "r \<in> {..<n} \<times> {..<128}" for r
    using unat_block_addr [OF inv, of "fst r" "snd r" K4] that
    by (auto simp: first_page_def nblocks_def block_offset_def block_shift_def)
  show "page_aligned (first_page st q)"
    using block_addr_aligned [OF inv, of "fst q" "snd q"] q by (auto simp: first_page_def)
  show "first_page st q \<noteq> first_page_directory st"
    using u [OF q] assms(1) by (auto simp: page_tables_def)
  assume r: "r \<in> {..<n} \<times> {..<128}"
  have "128 * fst q + snd q = 128 * fst r + snd r \<longleftrightarrow> q = r"
  proof
    assume eq: "128 * fst q + snd q = 128 * fst r + snd r"
    have "snd q < 128" "snd r < 128"
      using q r by auto
    then have "fst q = fst r"
      using eq by linarith
    moreover from this have "snd q = snd r"
      using eq by simp
    ultimately show "q = r"
      by (rule prod_eqI)
  qed simp
  then show "first_page st q = first_page st r \<longleftrightarrow> q = r"
    unfolding word_unat_eq_iff u [OF q] u [OF r] by (simp only: add_left_cancel nat_mult_eq_cancel1 [of 4096])
qed

lemma table_of_entry: "page_aligned p \<Longrightarrow> table_of (from_kmem p OR 3) = p"
  by (simp add: table_of_def align_page_down_flags page_aligned_from_kmem)

lemma present_entry: "is_present (p OR 3)"
  by (simp add: is_present_or is_present_3)

lemma page_tables_entry:
  assumes "page_tables n st ts" and "v \<in> covered (length ts)"
  shows "load32 (kmem st) (dir_entry_addr (first_page_directory st) v) = from_kmem (first_page st (ts ! (dir_index v - 768))) OR 3"
    and "table_of (load32 (kmem st) (dir_entry_addr (first_page_directory st) v)) = first_page st (ts ! (dir_index v - 768))"
    and "ts ! (dir_index v - 768) \<in> {..<n} \<times> {..<128}"
proof -
  show e: "load32 (kmem st) (dir_entry_addr (first_page_directory st) v) = from_kmem (first_page st (ts ! (dir_index v - 768))) OR 3"
    using assms by (auto simp: page_tables_def covered_def)
  have "ts ! (dir_index v - 768) \<in> set ts"
    using assms(2) by (intro nth_mem) (auto simp: covered_def)
  then show less: "ts ! (dir_index v - 768) \<in> {..<n} \<times> {..<128}"
    using assms(1) unfolding page_tables_def by blast
  show "table_of (load32 (kmem st) (dir_entry_addr (first_page_directory st) v)) = first_page st (ts ! (dir_index v - 768))"
    unfolding e by (rule table_of_entry) (rule first_page_props [OF assms(1) less])
qed

lemma page_tables_ok:
  assumes "page_tables n st ts"
  shows "tables_ok (kmem st) (first_page_directory st) (covered (length ts))"
  unfolding tables_ok_def
proof (intro conjI ballI impI)
  show "page_aligned (first_page_directory st)"
    using assms by (simp add: page_tables_def)
next
  fix v
  assume v: "v \<in> covered (length ts)"
  note e = page_tables_entry [OF assms v]
  show "is_present (load32 (kmem st) (dir_entry_addr (first_page_directory st) v))"
    unfolding e(1) by (rule present_entry)
  show "table_of (load32 (kmem st) (dir_entry_addr (first_page_directory st) v)) \<noteq> first_page_directory st"
    unfolding e(2) by (rule first_page_props [OF assms e(3)])
  fix w
  assume w: "w \<in> covered (length ts)" and neq: "dir_index v \<noteq> dir_index w"
  have "ts ! (dir_index v - 768) \<noteq> ts ! (dir_index w - 768)"
    using v w neq assms by (subst nth_eq_iff_index_eq) (auto simp: covered_def page_tables_def)
  then show "table_of (load32 (kmem st) (dir_entry_addr (first_page_directory st) v)) \<noteq>
      table_of (load32 (kmem st) (dir_entry_addr (first_page_directory st) w))"
    unfolding e(2) page_tables_entry(2) [OF assms w]
    using first_page_props(3) [OF assms e(3)] page_tables_entry(3) [OF assms w] by simp
qed

text \<open>A store into a table of the list keeps the list.\<close>

lemma page_tables_store:
  assumes pt: "page_tables n st ts" and a: "a \<in> covered (length ts)"
    and m: "m = store32 (table_entry_addr (table_of (load32 (kmem st) (dir_entry_addr (first_page_directory st) a))) a) pte (kmem st)"
  shows "page_tables n (st\<lparr>kmem := m\<rparr>) ts"
  using pt store_table_entry(1) [OF page_tables_ok [OF pt] a m]
  by (simp add: page_tables_def kmem_inv_def)

lemma zero_page_entry:
  assumes "page_aligned p" and "k < 1024"
  shows "load32 (memset p 0 4096 m) (p + 4 * of_nat k) = 0"
proof (rule load32_memset_0)
  fix i :: nat
  assume "i < 4"
  then have "in_range p 4096 (p + of_nat (4 * k + i))"
    using assms(2) by (intro in_range_offset) simp_all
  then show "in_range p (unat (4096 :: u32)) (p + 4 * of_nat k + of_nat i)"
    by (simp add: add.assoc)
qed

text \<open>A new table at the end of the list, all of whose entries are empty: the code of both loops.\<close>

definition table_added :: "kstate \<Rightarrow> nat \<times> nat \<Rightarrow> u32 \<Rightarrow> mem" where
  "table_added st q a = store32 (dir_entry_addr (first_page_directory st) a) (from_kmem (first_page st q) OR 3)
     (memset (first_page st q) 0 4096 (memset (first_page st q) 0x41 4096 (kmem st)))"

lemma add_table:
  assumes pt: "page_tables n st ts" and q: "q \<in> {..<n} \<times> {..<128}" "q \<notin> set ts" and a: "dir_index a = 768 + length ts"
    and h: "kmem_inv n (st\<lparr>buds := h\<rparr>)" "free_pages n h = free_pages n (buds st) - {q}"
  shows "page_tables n (st\<lparr>buds := h, kmem := table_added st q a\<rparr>) (ts @ [q])"
    and "v \<in> covered (length ts) \<Longrightarrow>
      pte_of (table_added st q a) (first_page_directory st) v = pte_of (kmem st) (first_page_directory st) v"
    and "dir_index v = 768 + length ts \<Longrightarrow> pte_of (table_added st q a) (first_page_directory st) v = 0"
proof -
  let ?pd = "first_page_directory st" and ?q = "first_page st q" and ?m = "table_added st q a"
  have pd: "page_aligned ?pd"
    using pt by (simp add: page_tables_def)
  note fq = first_page_props [OF pt q(1)]
  have clear: "load32 (memset ?q 0 4096 (memset ?q 0x41 4096 (kmem st))) (p + 4 * of_nat k) = load32 (kmem st) (p + 4 * of_nat k)"
    if "page_aligned p" "p \<noteq> ?q" "k < 1024" for p k
    using that fq(1) by (simp add: load32_memset_page)
  have dir: "load32 ?m (dir_entry_addr ?pd v) =
      (if dir_index v = 768 + length ts then from_kmem ?q OR 3 else load32 (kmem st) (dir_entry_addr ?pd v))" for v
  proof (cases "dir_index v = 768 + length ts")
    case False
    then have "dir_index a \<noteq> dir_index v"
      using a by simp
    then have "load32 ?m (dir_entry_addr ?pd v) = load32 (memset ?q 0 4096 (memset ?q 0x41 4096 (kmem st))) (dir_entry_addr ?pd v)"
      using pd page_entry_eq [OF pd pd, of "dir_index a" "dir_index v"] unfolding table_added_def
      by (intro load32_store32_other) (simp_all add: dir_entry_addr_eq page_entry_aligned)
    with False clear [OF pd, of "dir_index v"] fq(2) show ?thesis
      by (simp add: dir_entry_addr_eq)
  qed (simp add: table_added_def dir_entry_addr_eq a)
  show "page_tables n (st\<lparr>buds := h, kmem := ?m\<rparr>) (ts @ [q])"
    unfolding page_tables_def
  proof (intro conjI allI impI)
    fix v
    assume v: "768 \<le> dir_index v"
    show "load32 (kmem (st\<lparr>buds := h, kmem := ?m\<rparr>)) (dir_entry_addr (first_page_directory (st\<lparr>buds := h, kmem := ?m\<rparr>)) v) =
      (if dir_index v < 768 + length (ts @ [q])
       then from_kmem (first_page (st\<lparr>buds := h, kmem := ?m\<rparr>) ((ts @ [q]) ! (dir_index v - 768))) OR 3 else 0)"
      using pt v by (auto simp: dir page_tables_def nth_append)
  next
    show "kmem_inv n (st\<lparr>buds := h, kmem := ?m\<rparr>)"
      using h(1) by (simp add: kmem_inv_def)
    show "set (ts @ [q]) \<subseteq> {..<n} \<times> {..<128}"
      using pt q(1) unfolding page_tables_def by auto
    show "free_pages n (buds (st\<lparr>buds := h, kmem := ?m\<rparr>)) = {..<n} \<times> {..<128} - set (ts @ [q])"
      using pt h(2) unfolding page_tables_def by auto
  qed (use pt q(2) in \<open>simp_all add: page_tables_def\<close>)
  show "pte_of ?m ?pd v = 0" if v: "dir_index v = 768 + length ts"
  proof -
    have "load32 ?m (table_entry_addr ?q v) = load32 (memset ?q 0 4096 (memset ?q 0x41 4096 (kmem st))) (table_entry_addr ?q v)"
      using pd fq(1,2) unfolding table_added_def
      by (intro load32_store32_other) (auto simp: dir_entry_addr_eq table_entry_addr_eq page_entry_aligned page_entry_eq)
    also have "\<dots> = 0"
      unfolding table_entry_addr_eq by (rule zero_page_entry [OF fq(1)]) simp
    finally show ?thesis
      using v by (simp add: pte_of_def dir table_of_entry [OF fq(1)])
  qed
  show "pte_of ?m ?pd v = pte_of (kmem st) ?pd v" if v: "v \<in> covered (length ts)"
  proof -
    note e = page_tables_entry [OF pt v]
    let ?t = "first_page st (ts ! (dir_index v - 768))"
    have "ts ! (dir_index v - 768) \<in> set ts"
      using v by (intro nth_mem) (auto simp: covered_def)
    then have "ts ! (dir_index v - 768) \<noteq> q"
      using q(2) by auto
    then have t: "page_aligned ?t" "?t \<noteq> ?pd" "?t \<noteq> ?q"
      using first_page_props [OF pt e(3)] q(1) by auto
    have "load32 ?m (table_entry_addr ?t v) = load32 (memset ?q 0 4096 (memset ?q 0x41 4096 (kmem st))) (table_entry_addr ?t v)"
      using pd t(1,2) unfolding table_added_def
      by (intro load32_store32_other) (auto simp: dir_entry_addr_eq table_entry_addr_eq page_entry_aligned page_entry_eq)
    also have "\<dots> = load32 (kmem st) (table_entry_addr ?t v)"
      using clear [OF t(1,3), of "tab_index v"] by (simp add: table_entry_addr_eq)
    finally show ?thesis
      using v e(2) by (simp add: pte_of_def dir covered_def)
  qed
qed

text \<open>The page of a new table when a page is free.\<close>

lemma alloc_table:
  assumes pt: "page_tables n st ts" and less: "length ts < 128 * n"
  obtains q h where "kmem_alloc_pages K4 st =
      Inr (first_page st q, st\<lparr>buds := h, kmem := memset (first_page st q) 0x41 4096 (kmem st)\<rparr>)"
    and "q \<in> {..<n} \<times> {..<128}" and "q \<notin> set ts"
    and "kmem_inv n (st\<lparr>buds := h\<rparr>)" and "free_pages n h = free_pages n (buds st) - {q}"
proof -
  have inv: "kmem_inv n st" and free: "free_pages n (buds st) = {..<n} \<times> {..<128} - set ts"
    and sub: "set ts \<subseteq> {..<n} \<times> {..<128}"
    using pt by (simp_all add: page_tables_def)
  have "card (set ts) < card ({..<n} \<times> {..<128::nat})"
    using less card_length [of ts] by (simp add: card_cartesian_product mult.commute)
  then have "set ts \<subset> {..<n} \<times> {..<128}"
    using sub by (metis less_irrefl psubsetI)
  then have nonempty: "free_pages n (buds st) \<noteq> {}"
    unfolding free by (blast dest: psubset_imp_ex_mem)
  obtain j i h where al: "kmem_alloc_pages K4 st =
      Inr (block_addr st j K4 i, st\<lparr>buds := h, kmem := memset (block_addr st j K4 i) 0x41 4096 (kmem st)\<rparr>)"
      "(j, i) \<in> free_pages n (buds st)" "kmem_inv n (st\<lparr>buds := h\<rparr>)" "free_pages n h = free_pages n (buds st) - {(j, i)}"
    using kmem_alloc_4k_free [OF inv nonempty] .
  then show thesis
    using that [of "(j, i)" h] unfolding free by (simp add: first_page_def)
qed

subsection \<open>The first loop\<close>

text \<open>The pages of the kernel region, by number.\<close>

definition kernel_page :: "nat \<Rightarrow> u32" where
  "kernel_page i = 0xC0000000 + of_nat (4096 * i)"

definition identity_mapped :: "nat \<Rightarrow> kstate \<Rightarrow> (nat \<times> nat) list \<Rightarrow> nat \<Rightarrow> bool" where
  "identity_mapped n st ts j \<longleftrightarrow> page_tables n st ts \<and> length ts \<le> 224 \<and>
    (\<forall>i < 1024 * length ts. pte_of (kmem st) (first_page_directory st) (kernel_page i) =
      (if i < j then prwr OR from_kmem (kernel_page i) else 0))"

lemma kernel_page_props:
  assumes "i < 262144"
  shows "unat (kernel_page i) = 0xC0000000 + 4096 * i" and "page_aligned (kernel_page i)"
    and "dir_index (kernel_page i) = 768 + i div 1024" and "tab_index (kernel_page i) = i mod 1024"
proof -
  show u: "unat (kernel_page i) = 0xC0000000 + 4096 * i"
    using assms unat_add_of_nat [of "0xC0000000" "4096 * i"] by (simp add: kernel_page_def)
  have e: "0xC0000000 + 4096 * i = 4096 * (786432 + i)" "786432 + i = i + 768 * 1024"
    by simp_all
  show "page_aligned (kernel_page i)"
    unfolding page_aligned_def u e(1) by simp
  show "tab_index (kernel_page i) = i mod 1024"
    unfolding tab_index_def u e(1) using mod_mult_self1 [of i 768 1024] by (simp add: e(2))
  show "dir_index (kernel_page i) = 768 + i div 1024"
    unfolding dir_index_def u using div_mult2_eq [of "4096 * (786432 + i)" 4096 1024] by simp
qed

lemma tables_for:
  "(j + 1023) div 1024 = j div 1024 + (if j mod 1024 = 0 then 0 else 1)" "(Suc j + 1023) div 1024 = Suc (j div 1024)"
  for j :: nat
proof -
  have "(j mod 1024 + 1023) div 1024 = 1" if "j mod 1024 \<noteq> 0"
    using that mod_less_divisor [of 1024 j] div_nat_eqI [of 1024 1 "j mod 1024 + 1023"] by simp
  then show "(j + 1023) div 1024 = j div 1024 + (if j mod 1024 = 0 then 0 else 1)"
    using div_add1_eq [of j 1023 1024] by simp
  show "(Suc j + 1023) div 1024 = Suc (j div 1024)"
    using div_add_self2 [of 1024 j] by simp
qed

lemma identity_mapped_frame [simp]: "identity_mapped n (st\<lparr>if_flag := b\<rparr>) ts j = identity_mapped n st ts j"
  by (simp add: identity_mapped_def)

lemma kernel_page_covered:
  assumes "i < 262144"
  shows "kernel_page i \<in> covered n \<longleftrightarrow> i < 1024 * n"
  using kernel_page_props(3) [OF assms] by (simp add: covered_def div_less_iff_less_mult mult.commute)

text \<open>After the table exists, storing the entry of page \<open>j\<close> extends the mapped part by that page.\<close>

lemma identity_mapped_store:
  assumes pt: "page_tables n st ts" and len: "length ts \<le> 224" and jl: "j < 1024 * length ts"
    and old: "\<And>i. i < 1024 * length ts \<Longrightarrow> pte_of (kmem st) (first_page_directory st) (kernel_page i) =
      (if i < j then prwr OR from_kmem (kernel_page i) else 0)"
    and m: "m = store32 (table_entry_addr (table_of (load32 (kmem st) (dir_entry_addr (first_page_directory st) (kernel_page j)))) (kernel_page j))
      (prwr OR from_kmem (kernel_page j)) (kmem st)"
  shows "identity_mapped n (st\<lparr>kmem := m\<rparr>) ts (Suc j)"
proof -
  let ?pd = "first_page_directory st"
  have cov: "kernel_page i \<in> covered (length ts)" "i < 262144" if "i < 1024 * length ts" for i
    using that len by (simp_all add: kernel_page_covered)
  note step = store_table_entry [OF page_tables_ok [OF pt] cov(1) [OF jl] m]
  have "pte_of m ?pd (kernel_page i) = (if i < Suc j then prwr OR from_kmem (kernel_page i) else 0)"
    if i: "i < 1024 * length ts" for i
  proof (cases "i = j")
    case False
    then have "(i div 1024, i mod 1024) \<noteq> (j div 1024, j mod 1024)"
      using div_mult_mod_eq [of i 1024] div_mult_mod_eq [of j 1024] by (metis prod.inject)
    then have "(dir_index (kernel_page i), tab_index (kernel_page i)) \<noteq> (dir_index (kernel_page j), tab_index (kernel_page j))"
      using kernel_page_props(3,4) [OF cov(2) [OF i]] kernel_page_props(3,4) [OF cov(2) [OF jl]] by simp
    with False old [OF i] cov(1) [OF i] step(3) [of "kernel_page i"] show ?thesis
      by (simp add: less_Suc_eq)
  qed (use step(2) in simp)
  then show ?thesis
    using page_tables_store [OF pt cov(1) [OF jl] m] len by (simp add: identity_mapped_def)
qed

text \<open>A new table, with the part mapped so far inside the old ones.\<close>

lemma identity_mapped_table:
  assumes im: "identity_mapped n st ts j" and len: "length ts < 224" and j: "j \<le> 1024 * length ts"
    and q: "q \<in> {..<n} \<times> {..<128}" "q \<notin> set ts"
    and h: "kmem_inv n (st\<lparr>buds := h\<rparr>)" "free_pages n h = free_pages n (buds st) - {q}"
  shows "identity_mapped n (st\<lparr>buds := h, kmem := table_added st q (kernel_page (1024 * length ts))\<rparr>) (ts @ [q]) j"
proof -
  let ?a = "kernel_page (1024 * length ts)" and ?pd = "first_page_directory st"
  let ?m = "table_added st q ?a"
  have pt: "page_tables n st ts" and old: "\<And>i. i < 1024 * length ts \<Longrightarrow>
      pte_of (kmem st) ?pd (kernel_page i) = (if i < j then prwr OR from_kmem (kernel_page i) else 0)"
    using im by (auto simp: identity_mapped_def)
  have "dir_index ?a = 768 + length ts"
    using kernel_page_props(3) [of "1024 * length ts"] len by simp
  note new = add_table [OF pt q this h]
  have "pte_of ?m ?pd (kernel_page i) = (if i < j then prwr OR from_kmem (kernel_page i) else 0)"
    if i: "i < 1024 * length (ts @ [q])" for i
  proof (cases "i < 1024 * length ts")
    case True
    then show ?thesis
      using new(2) [of "kernel_page i"] old [OF True] len by (simp add: kernel_page_covered)
  next
    case False
    then have d: "i div 1024 = length ts"
      using i by (intro div_nat_eqI) simp_all
    have "i < 262144"
      using i len by simp
    then have "dir_index (kernel_page i) = 768 + length ts"
      using kernel_page_props(3) d by simp
    then show ?thesis
      using new(3) [of "kernel_page i"] False j by simp
  qed
  then show ?thesis
    using new(1) len by (simp add: identity_mapped_def)
qed

lemma map_page_step:
  assumes im: "identity_mapped 1 st ts j" and len: "length ts = (j + 1023) div 1024" and j: "j < 131072"
  shows "\<exists>h m ts'. map_page (kmem_alloc_pages K4) (kernel_page j) prwr (prwr OR from_kmem (kernel_page j))
      (first_page_directory st) st = Inr ((), st\<lparr>buds := h, kmem := m\<rparr>) \<and>
    identity_mapped 1 (st\<lparr>buds := h, kmem := m\<rparr>) ts' (Suc j) \<and> length ts' = (Suc j + 1023) div 1024"
proof -
  let ?pd = "first_page_directory st" and ?a = "kernel_page j" and ?pte = "prwr OR from_kmem (kernel_page j)"
  have pt: "page_tables 1 st ts"
    and old: "\<And>i. i < 1024 * length ts \<Longrightarrow> pte_of (kmem st) ?pd (kernel_page i) = (if i < j then prwr OR from_kmem (kernel_page i) else 0)"
    using im by (auto simp: identity_mapped_def)
  have a: "page_aligned ?a" "dir_index ?a = 768 + j div 1024"
    using kernel_page_props [of j] j by simp_all
  have bound: "j div 1024 < 128"
    using j by (simp add: less_mult_imp_div_less)
  have jl: "j < 1024 * Suc (j div 1024)"
    using div_mult_mod_eq [of j 1024] mod_less_divisor [of 1024 j] by simp
  show ?thesis
  proof (cases "j mod 1024 = 0")
    case False
    then have len': "length ts = Suc (j div 1024)"
      unfolding len tables_for(1) by simp
    then have "?a \<in> covered (length ts)"
      by (simp add: covered_def a)
    then have "is_present (load32 (kmem st) (dir_entry_addr ?pd ?a))"
      using page_tables_entry(1) [OF pt] present_entry by simp
    note run = map_page_present [OF a(1) this, of "kmem_alloc_pages K4" prwr ?pte]
    define m where "m = store32 (table_entry_addr (table_of (load32 (kmem st) (dir_entry_addr ?pd ?a))) ?a) ?pte (kmem st)"
    have "identity_mapped 1 (st\<lparr>kmem := m\<rparr>) ts (Suc j)"
      by (rule identity_mapped_store [OF pt _ _ old m_def]) (use len' bound jl in simp_all)
    with run len' show ?thesis
      by (intro exI [of _ "buds st"] exI [of _ m] exI [of _ ts]) (simp add: m_def tables_for(2))
  next
    case True
    then have len': "length ts = j div 1024"
      unfolding len tables_for(1) by simp
    then have eq: "1024 * length ts = j"
      using True div_mult_mod_eq [of j 1024] by simp
    let ?st = "st\<lparr>if_flag := False\<rparr>"
    have pt0: "page_tables 1 ?st ts" and im0: "identity_mapped 1 ?st ts j"
      using pt im by simp_all
    obtain q h where al: "kmem_alloc_pages K4 ?st =
        Inr (first_page ?st q, ?st\<lparr>buds := h, kmem := memset (first_page ?st q) 0x41 4096 (kmem ?st)\<rparr>)"
      and q: "q \<in> {..<1} \<times> {..<128}" "q \<notin> set ts" "kmem_inv 1 (?st\<lparr>buds := h\<rparr>)" "free_pages 1 h = free_pages 1 (buds ?st) - {q}"
      using alloc_table [OF pt0] len' bound by auto
    let ?q = "first_page st q" and ?st1 = "?st\<lparr>buds := h, kmem := table_added ?st q ?a\<rparr>"
    have new: "identity_mapped 1 ?st1 (ts @ [q]) j"
      using identity_mapped_table [OF im0 _ _ q] len' bound unfolding eq by simp
    note fq = first_page_props [OF pt q(1)]
    have e: "load32 (kmem st) (dir_entry_addr ?pd ?a) = 0"
      using pt a(2) len' by (simp add: page_tables_def)
    have e1: "load32 (memset ?q 0x41 4096 (kmem st)) (dir_entry_addr ?pd ?a) = 0"
      using load32_memset_page [OF fq(1) _ fq(2), of "dir_index ?a"] pt e
      by (simp add: dir_entry_addr_eq page_tables_def)
    have entry: "table_of (from_kmem ?q OR 3) = ?q"
      by (rule table_of_entry) (rule fq(1))
    define m where "m = store32 (table_entry_addr (table_of (load32 (kmem ?st1) (dir_entry_addr (first_page_directory ?st1) ?a))) ?a) ?pte (kmem ?st1)"
    have "identity_mapped 1 (?st1\<lparr>kmem := m\<rparr>) (ts @ [q]) (Suc j)"
    proof (rule identity_mapped_store [OF _ _ _ _ m_def])
      show "page_tables 1 ?st1 (ts @ [q])" "length (ts @ [q]) \<le> 224" "j < 1024 * length (ts @ [q])"
        using new len' jl by (simp_all add: identity_mapped_def)
      show "pte_of (kmem ?st1) (first_page_directory ?st1) (kernel_page i) = (if i < j then prwr OR from_kmem (kernel_page i) else 0)"
        if "i < 1024 * length (ts @ [q])" for i
        using new that by (simp add: identity_mapped_def)
    qed
    moreover have "map_page (kmem_alloc_pages K4) ?a prwr ?pte ?pd st = Inr ((), (?st1\<lparr>kmem := m\<rparr>)\<lparr>if_flag := if_flag st\<rparr>)"
      unfolding map_page_def
      by (rule scoped_intlock_eq)
        (use a(1) in \<open>simp_all add: page_aligned_and e e1 al Let_def m_def entry is_present_def table_added_def prwr_3\<close>)
    ultimately show ?thesis
      using len' by (intro exI [of _ h] exI [of _ m] exI [of _ "ts @ [q]"])
        (simp add: identity_mapped_def page_tables_def kmem_inv_def tables_for(2))
  qed
qed

lemma kernel_page_less: "i < 262144 \<Longrightarrow> k < 262144 \<Longrightarrow> kernel_page i < kernel_page k \<longleftrightarrow> i < k"
  by (simp add: word_less_nat_alt kernel_page_props)

lemma map_range_initial:
  assumes "identity_mapped 1 st ts j" and "length ts = (j + 1023) div 1024" and "j + k \<le> 131072" and "k \<le> fuel"
  shows "\<exists>h m ts'. map_range (kmem_alloc_pages K4) fuel (kernel_page j) (kernel_page (j + k)) st =
      Inr (st\<lparr>buds := h, kmem := m\<rparr>) \<and> identity_mapped 1 (st\<lparr>buds := h, kmem := m\<rparr>) ts' (j + k) \<and>
    length ts' = (j + k + 1023) div 1024"
  using assms
proof (induction k arbitrary: j st ts fuel)
  case 0
  then show ?case
    by (intro exI [of _ "buds st"] exI [of _ "kmem st"] exI [of _ ts]) (simp add: map_range.simps)
next
  case (Suc k)
  obtain n where n: "fuel = Suc n"
    using Suc.prems(4) by (cases fuel) auto
  obtain h m ts1 where step: "map_page (kmem_alloc_pages K4) (kernel_page j) prwr (prwr OR from_kmem (kernel_page j))
        (first_page_directory st) st = Inr ((), st\<lparr>buds := h, kmem := m\<rparr>)"
      and im: "identity_mapped 1 (st\<lparr>buds := h, kmem := m\<rparr>) ts1 (Suc j)" "length ts1 = (Suc j + 1023) div 1024"
    using map_page_step [OF Suc.prems(1,2)] Suc.prems(3) by auto
  have "kernel_page j + 4096 = kernel_page (Suc j)"
    by (simp add: kernel_page_def algebra_simps)
  then have run: "map_range (kmem_alloc_pages K4) fuel (kernel_page j) (kernel_page (j + Suc k)) st =
      map_range (kmem_alloc_pages K4) n (kernel_page (Suc j)) (kernel_page (Suc j + k)) (st\<lparr>buds := h, kmem := m\<rparr>)"
    using Suc.prems(3) unfolding n by (subst map_range.simps) (simp add: kernel_page_less step)
  from Suc.IH [OF im, of n] Suc.prems(3,4) n show ?case
    unfolding run by auto
qed

subsection \<open>A new buddy\<close>

text \<open>
  Where the buddies lie: the first page after the array is page \<open>e\<close> of the kernel region, which has \<open>R\<close> pages,
  and the mapped part ends with the pages of the first \<open>n\<close> buddies.
\<close>

definition place :: "nat \<Rightarrow> nat \<Rightarrow> nat \<Rightarrow> kstate \<Rightarrow> bool" where
  "place e R n st \<longleftrightarrow> unat (buddy_array st) + unat (buddy_array_size st) = 0xC0000000 + 4096 * e \<and>
    4096 \<le> unat (buddy_array_size st) \<and> unat (kmem_phys_end st) = 4096 * (e + 128 * n) \<and>
    unat (kmem_region_end st) = 4096 * R \<and> e \<le> 20000 \<and> R \<le> 229376"

lemma unat_to_virt: "unat a < 0x40000000 \<Longrightarrow> unat (to_virt a) = 0xC0000000 + unat a"
  by (simp add: to_virt_def unat_word_ariths take_bit_eq_mod)

lemma place_pages:
  assumes "place e R n st" and "n \<le> 2"
  shows "my_first_page st n = kernel_page (e + 128 * n)" and "to_virt (kmem_phys_end st) = kernel_page (e + 128 * n)"
    and "to_virt (kmem_region_end st) = kernel_page R"
proof -
  have small: "e + 128 * n < 262144" "R < 262144"
    using assms by (simp_all add: place_def)
  have "unat (my_first_page st n) = 0xC0000000 + 4096 * (e + 128 * n)"
    using unat_my_first_page [of st n] assms by (simp add: place_def)
  then show "my_first_page st n = kernel_page (e + 128 * n)"
    using small by (simp add: word_unat_eq_iff kernel_page_props)
  show "to_virt (kmem_phys_end st) = kernel_page (e + 128 * n)" "to_virt (kmem_region_end st) = kernel_page R"
    using unat_to_virt [of "kmem_phys_end st"] unat_to_virt [of "kmem_region_end st"] assms small
    by (simp_all add: place_def word_unat_eq_iff kernel_page_props)
qed

lemma page_range_kernel: "page_range (kernel_page j) k = kernel_page ` {j..<j + k}"
proof -
  have "kernel_page j + of_nat (4096 * i) = kernel_page (j + i)" for i
    by (simp add: kernel_page_def algebra_simps)
  then have "page_range (kernel_page j) k = kernel_page ` ((\<lambda>i. j + i) ` {..<k})"
    by (simp add: page_range_def image_image)
  moreover have "(\<lambda>i. j + i) ` {..<k} = {j..<j + k}"
    using image_add_atLeastLessThan [of j 0 k] by (simp add: lessThan_atLeast0 add.commute)
  ultimately show ?thesis by simp
qed

lemma kernel_page_inj: "i < 262144 \<Longrightarrow> k < 262144 \<Longrightarrow> kernel_page i = kernel_page k \<longleftrightarrow> i = k"
  by (simp add: word_unat_eq_iff kernel_page_props)

lemma place_can_grow:
  assumes pl: "place e R n st" and n: "n \<le> 2" and pt: "page_tables n st ts"
    and room: "e + 128 * n + 128 < R" and tabs: "e + 128 * n + 128 \<le> 1024 * length ts"
  shows "can_grow n st" and "page_range (my_first_page st n) 128 \<subseteq> covered (length ts)"
proof -
  have small: "e + 128 * n + 128 < 262144"
    using pl n by (simp add: place_def)
  then show cov: "page_range (my_first_page st n) 128 \<subseteq> covered (length ts)"
    using tabs by (auto simp: place_pages [OF pl n] page_range_kernel kernel_page_covered)
  have "tables_ok (kmem st) (first_page_directory st) (page_range (my_first_page st n) 128)"
    using page_tables_ok [OF pt] cov unfolding tables_ok_def by blast
  moreover have "64 * Suc n \<le> unat (buddy_array_size st)"
    using pl n by (simp add: place_def)
  moreover have "unat (buddy_array st) + unat (buddy_array_size st) + Suc n * 2 ^ 19 < 2 ^ 32"
    using pl n by (simp add: place_def)
  moreover have "unat (kmem_phys_end st) + 2 ^ 19 < unat (kmem_region_end st)"
    using pl room by (simp add: place_def)
  ultimately show "can_grow n st"
    using place_pages [OF pl n] by (simp add: can_grow_def)
qed

lemma alloc_table_grow:
  assumes pt: "page_tables n st ts" and full: "length ts = 128 * n" and grow: "can_grow n st"
    and cov: "page_range (my_first_page st n) 128 \<subseteq> covered (length ts)"
  obtains q h m where "kmem_alloc_pages K4 st =
      Inr (first_page st q, (grown st m)\<lparr>buds := h, kmem := memset (first_page st q) 0x41 4096 m\<rparr>)"
    and "q \<in> {..<Suc n} \<times> {..<128}" and "q \<notin> set ts" and "page_tables (Suc n) (grown st m) ts"
    and "kmem_inv (Suc n) ((grown st m)\<lparr>buds := h\<rparr>)"
    and "free_pages (Suc n) h = free_pages (Suc n) (buds (grown st m)) - {q}"
    and "\<forall>v \<in> page_range (my_first_page st n) 128. pte_of m (first_page_directory st) v = prwr OR from_kmem v"
    and "\<forall>v \<in> covered (length ts). page_aligned v \<longrightarrow> v \<notin> page_range (my_first_page st n) 128 \<longrightarrow>
      pte_of m (first_page_directory st) v = pte_of (kmem st) (first_page_directory st) v"
proof -
  let ?s = "st\<lparr>if_flag := False\<rparr>" and ?pd = "first_page_directory st"
  have inv: "kmem_inv n st" and free: "free_pages n (buds st) = {..<n} \<times> {..<128} - set ts"
    and sub: "set ts \<subseteq> {..<n} \<times> {..<128}" and dist: "distinct ts"
    using pt by (simp_all add: page_tables_def)
  have "card (set ts) = card ({..<n} \<times> {..<128::nat})"
    using full distinct_card [OF dist] by (simp add: card_cartesian_product mult.commute)
  then have all: "set ts = {..<n} \<times> {..<128}"
    using sub by (intro card_subset_eq) simp_all
  then have empty: "free_pages n (buds st) = {}"
    using free by simp
  have inv': "kmem_inv n ?s" and grow': "can_grow n ?s"
    using inv grow by simp_all
  have first: "buddy_alloc K4 ?s = Inr (None, ?s)"
  proof (rule buddy_alloc_spec [OF inv', of K4])
    fix j i h
    assume "j < n" "allocates K4 i (Bud j) (buds ?s) h"
    then show ?thesis
      using empty by (auto simp: allocates_def free_pages_def)
  qed
  have tabs: "tables_ok (kmem ?s) (first_page_directory ?s) (covered (length ts))"
      "page_range (my_first_page ?s n) 128 \<subseteq> covered (length ts)"
    using page_tables_ok [OF pt] cov by (simp_all add: my_first_page_def pages_start_def)
  have mfp: "my_first_page ?s n = my_first_page st n" "block_addr ?s = block_addr st"
    by (simp_all add: fun_eq_iff block_addr_def my_first_page_def pages_start_def)
  obtain m where m: "kmem_buddy_new (kmem_alloc (Suc 0) K4) ?s = Inr (grown ?s m)"
      "\<forall>v \<in> page_range (my_first_page st n) 128. pte_of m ?pd v = prwr OR from_kmem v"
      "\<forall>v \<in> covered (length ts). page_aligned v \<longrightarrow> v \<notin> page_range (my_first_page st n) 128 \<longrightarrow>
         pte_of m ?pd v = pte_of (kmem st) ?pd v"
      "\<forall>w. load32 m (dir_entry_addr ?pd w) = load32 (kmem st) (dir_entry_addr ?pd w)"
    using kmem_buddy_new_all [OF inv' grow' tabs, of "kmem_alloc (Suc 0) K4"] unfolding mfp by auto
  obtain i h where i: "buddy_alloc K4 (grown ?s m) = Inr (Some (block_addr ?s n K4 i),
      (grown ?s m)\<lparr>buds := h, kmem := memset (block_addr ?s n K4 i) 0x41 (level_size K4) m\<rparr>)"
    "i < nblocks K4" "allocates K4 i (Bud n) (link_new_buddy n (buds ?s)) h"
    using buddy_alloc_grown [OF inv' grow'] .
  let ?q = "(n, i)"
  have q: "first_page st ?q = block_addr st n K4 i" "?q \<in> {..<Suc n} \<times> {..<128}" "?q \<notin> set ts"
    using i(2) all by (simp_all add: first_page_def nblocks_def)
  have run: "kmem_alloc_pages K4 st =
      Inr (first_page st ?q, (grown st m)\<lparr>buds := h, kmem := memset (first_page st ?q) 0x41 4096 m\<rparr>)"
  proof -
    let ?u = "(grown ?s m)\<lparr>buds := h, kmem := memset (block_addr st n K4 i) 0x41 (level_size K4) m\<rparr>"
    have "kmem_alloc_pages K4 st = Inr (first_page st ?q, ?u\<lparr>if_flag := if_flag st\<rparr>)"
      unfolding kmem_alloc_pages_def kmem_depth_def numeral_2_eq_2 kmem_alloc.simps(2) [of "Suc 0"]
      by (rule scoped_intlock_eq) (simp_all add: first m(1) i(1) mfp q(1) del: kmem_alloc.simps, simp add: grown_def)
    then show ?thesis
      by (simp add: grown_def q(1) level_size_def)
  qed
  have pos: "unat (buddy_array_pos st) = n" "buds (grown st m) = link_new_buddy n (buds st)"
    using inv by (simp_all add: kmem_inv_def grown_def)
  have al: "allocates K4 i (Bud n) (buds (grown st m)) h"
    using i(3) pos by simp
  have g: "kmem_inv (Suc n) (grown st m)" "free_pages (Suc n) (buds (grown st m)) = {n} \<times> {..<128}"
    using kmem_inv_grown [OF inv grow empty] by simp_all
  have ok: "buddies_ok (Suc n) (buds (grown st m))"
    using g(1) by (simp add: kmem_inv_def)
  note al_ok = allocates_ok [OF ok lessI al]
  have inv_h: "kmem_inv (Suc n) ((grown st m)\<lparr>buds := h\<rparr>)"
    using g(1) al_ok(1) by (simp add: kmem_inv_def)
  have pages: "{..<Suc n} \<times> {..<128} - set ts = {n} \<times> {..<128}"
    unfolding all by (auto simp: less_Suc_eq)
  have fields: "first_page_directory (grown st m) = ?pd" "kmem (grown st m) = m" "buddy_array (grown st m) = buddy_array st"
      "buddy_array_size (grown st m) = buddy_array_size st"
    by (simp_all add: grown_def)
  have "page_tables (Suc n) (grown st m) ts"
    unfolding page_tables_def fields first_page_frame m(4) [rule_format]
  proof (intro conjI)
    show "set ts \<subseteq> {..<Suc n} \<times> {..<128}"
      unfolding all by auto
    show "free_pages (Suc n) (buds (grown st m)) = {..<Suc n} \<times> {..<128} - set ts"
      using g(2) pages by simp
  qed (use pt g(1) in \<open>simp_all add: page_tables_def\<close>)
  moreover have "free_pages (Suc n) h = free_pages (Suc n) (buds (grown st m)) - {?q}"
    using al_ok(2) by (simp add: pages_of_K4)
  ultimately show thesis
    using that [OF run q(2,3) _ inv_h _ m(2,3)] by blast
qed

lemma identity_mapped_grown:
  assumes im: "identity_mapped n st ts j" and j: "j + 128 \<le> 1024 * length ts" and first: "my_first_page st n = kernel_page j"
    and pt: "page_tables (Suc n) (grown st m) ts"
    and new: "\<forall>v \<in> page_range (my_first_page st n) 128. pte_of m (first_page_directory st) v = prwr OR from_kmem v"
    and old: "\<forall>v \<in> covered (length ts). page_aligned v \<longrightarrow> v \<notin> page_range (my_first_page st n) 128 \<longrightarrow>
      pte_of m (first_page_directory st) v = pte_of (kmem st) (first_page_directory st) v"
  shows "identity_mapped (Suc n) (grown st m) ts (j + 128)"
proof -
  have len: "length ts \<le> 224"
    using im by (simp add: identity_mapped_def)
  have "pte_of m (first_page_directory st) (kernel_page i) = (if i < j + 128 then prwr OR from_kmem (kernel_page i) else 0)"
    if i: "i < 1024 * length ts" for i
  proof (cases "i \<in> {j..<j + 128}")
    case True
    then show ?thesis
      using new unfolding first page_range_kernel by auto
  next
    case False
    have small: "i < 262144"
      using i len by simp
    have "kernel_page i \<notin> kernel_page ` {j..<j + 128}"
    proof
      assume "kernel_page i \<in> kernel_page ` {j..<j + 128}"
      then obtain k where k: "kernel_page i = kernel_page k" "k \<in> {j..<j + 128}"
        by blast
      then have "k < 262144"
        using j len by simp
      then show False
        using k False kernel_page_inj [OF small, of k] by simp
    qed
    then have "pte_of m (first_page_directory st) (kernel_page i) = pte_of (kmem st) (first_page_directory st) (kernel_page i)"
      using old i small kernel_page_props(2) [OF small] unfolding first page_range_kernel by (simp add: kernel_page_covered)
    also have "\<dots> = (if i < j then prwr OR from_kmem (kernel_page i) else 0)"
      using im i by (simp add: identity_mapped_def)
    finally show ?thesis
      using False by auto
  qed
  then show ?thesis
    using pt len by (simp add: identity_mapped_def grown_def)
qed

lemma place_grown:
  assumes "place e R n st" and "n \<le> 2"
  shows "place e R (Suc n) (grown st m)"
proof -
  have "unat (kmem_phys_end st + push_bit 19 1) = unat (kmem_phys_end st) + 2 ^ 19"
    using unat_add_of_nat [of "kmem_phys_end st" "2 ^ 19"] assms by (simp add: place_def)
  then show ?thesis
    using assms(1) by (simp add: place_def grown_def)
qed

subsection \<open>The second loop\<close>

text \<open>The fields that the loop leaves alone.\<close>

definition same_rest :: "kstate \<Rightarrow> kstate \<Rightarrow> bool" where
  "same_rest st st' \<longleftrightarrow> first_page_directory st' = first_page_directory st \<and> cr3 st' = cr3 st \<and> if_flag st' = if_flag st \<and>
    hmem_phys_list st' = hmem_phys_list st \<and> hmem_phys_end st' = hmem_phys_end st \<and>
    kmem_region_end st' = kmem_region_end st \<and> buddy_array st' = buddy_array st \<and> buddy_array_size st' = buddy_array_size st"

lemma same_rest_trans: "same_rest s t \<Longrightarrow> same_rest t u \<Longrightarrow> same_rest s u"
  by (simp add: same_rest_def)

lemma same_rest_updates [simp]:
  "same_rest st st" "same_rest st (grown st m)" "same_rest st (s\<lparr>buds := h\<rparr>) = same_rest st s"
  "same_rest st (s\<lparr>kmem := m\<rparr>) = same_rest st s"
  by (simp_all add: same_rest_def grown_def)

text \<open>
  The loop's state: the tables so far, the mapped part inside what they cover, and one buddy, or two when the
  tables have used up the pages of the first.
\<close>

definition tables_state :: "nat \<Rightarrow> nat \<Rightarrow> nat \<Rightarrow> kstate \<Rightarrow> (nat \<times> nat) list \<Rightarrow> bool" where
  "tables_state e R n st ts \<longleftrightarrow> identity_mapped n st ts (e + 128 * n) \<and> place e R n st \<and> e + 128 * n \<le> 1024 * length ts \<and>
    (n = 1 \<or> n = 2 \<and> 128 < length ts)"

definition add_entry :: "kstate \<Rightarrow> u32 \<Rightarrow> u32 \<Rightarrow> kstate" where
  "add_entry st p a = st\<lparr>kmem := store32 (dir_entry_addr (first_page_directory st) a) (from_kmem p OR 3) (memset p 0 4096 (kmem st))\<rparr>"

lemma identity_mapped_pt: "identity_mapped n st ts j \<Longrightarrow> page_tables n st ts"
  by (simp add: identity_mapped_def)

lemma place_update [simp]: "place e R n (st\<lparr>kmem := m\<rparr>) = place e R n st" "place e R n (st\<lparr>buds := h\<rparr>) = place e R n st"
  by (simp_all add: place_def)

lemma new_table:
  assumes ts: "tables_state e R n st ts" and len: "length ts < 224" and R: "1024 * length ts < R"
  obtains p s n' q where "kmem_alloc_pages K4 st = Inr (p, s)" and "same_rest st s"
    and "tables_state e R n' (add_entry s p (kernel_page (1024 * length ts))) (ts @ [q])"
proof -
  let ?a = "kernel_page (1024 * length ts)"
  have im: "identity_mapped n st ts (e + 128 * n)" and pl: "place e R n st" and le: "e + 128 * n \<le> 1024 * length ts"
    and n: "n = 1 \<or> n = 2 \<and> 128 < length ts"
    using ts by (simp_all add: tables_state_def)
  note pt = identity_mapped_pt [OF im]
  show thesis
  proof (cases "length ts < 128 * n")
    case True
    obtain q h where q: "kmem_alloc_pages K4 st =
        Inr (first_page st q, st\<lparr>buds := h, kmem := memset (first_page st q) 0x41 4096 (kmem st)\<rparr>)"
      "q \<in> {..<n} \<times> {..<128}" "q \<notin> set ts" "kmem_inv n (st\<lparr>buds := h\<rparr>)" "free_pages n h = free_pages n (buds st) - {q}"
      using alloc_table [OF pt True] by metis
    let ?s = "st\<lparr>buds := h, kmem := memset (first_page st q) 0x41 4096 (kmem st)\<rparr>"
    have eq: "add_entry ?s (first_page st q) ?a = st\<lparr>buds := h, kmem := table_added st q ?a\<rparr>"
      by (simp add: add_entry_def table_added_def)
    show thesis
    proof (rule that [OF q(1), of n q])
      show "tables_state e R n (add_entry ?s (first_page st q) ?a) (ts @ [q])"
        unfolding tables_state_def eq
        using identity_mapped_table [OF im len le q(2-5)] pl le n by simp linarith
    qed simp
  next
    case False
    then have full: "length ts = 128 * n" and one: "n = 1"
      using page_tables_length [OF pt] n len by auto
    have small: "e + 128 * n + 128 \<le> 1024 * length ts"
      using pl full one by (simp add: place_def)
    then have room: "e + 128 * n + 128 < R"
      using R by simp
    have n2: "n \<le> 2"
      using one by simp
    note grow = place_can_grow [OF pl n2 pt room small]
    obtain q h m where q: "kmem_alloc_pages K4 st =
        Inr (first_page st q, (grown st m)\<lparr>buds := h, kmem := memset (first_page st q) 0x41 4096 m\<rparr>)"
      "q \<in> {..<Suc n} \<times> {..<128}" "q \<notin> set ts" "page_tables (Suc n) (grown st m) ts"
      "kmem_inv (Suc n) ((grown st m)\<lparr>buds := h\<rparr>)" "free_pages (Suc n) h = free_pages (Suc n) (buds (grown st m)) - {q}"
      "\<forall>v \<in> page_range (my_first_page st n) 128. pte_of m (first_page_directory st) v = prwr OR from_kmem v"
      "\<forall>v \<in> covered (length ts). page_aligned v \<longrightarrow> v \<notin> page_range (my_first_page st n) 128 \<longrightarrow>
        pte_of m (first_page_directory st) v = pte_of (kmem st) (first_page_directory st) v"
      using alloc_table_grow [OF pt full grow] by metis
    let ?g = "grown st m"
    let ?s = "?g\<lparr>buds := h, kmem := memset (first_page st q) 0x41 4096 m\<rparr>"
    have img: "identity_mapped (Suc n) ?g ts (e + 128 * Suc n)"
      using identity_mapped_grown [OF im small place_pages(1) [OF pl n2] q(4,7,8)] by (simp add: add.commute add.left_commute)
    have leg: "e + 128 * Suc n \<le> 1024 * length ts"
      using small by simp
    have eq: "add_entry ?s (first_page st q) ?a = ?g\<lparr>buds := h, kmem := table_added ?g q ?a\<rparr>"
      unfolding add_entry_def table_added_def first_page_frame by (simp add: grown_def)
    have "tables_state e R (Suc n) (add_entry ?s (first_page st q) ?a) (ts @ [q])"
      unfolding tables_state_def eq
      using identity_mapped_table [OF img len leg q(2,3,5,6)] place_grown [OF pl n2, of m] leg one full by simp
    then show thesis
      by (rule that [OF q(1), rotated]) simp
  qed
qed

lemma make_tables_spec:
  assumes "tables_state e R n st ts" and "length ts + k \<le> 224" and "k \<le> fuel"
    and "\<And>i. i < length ts + k \<Longrightarrow> 1024 * i < R" and "R \<le> 1024 * (length ts + k)"
  shows "\<exists>st' n' ts'. make_tables fuel (kernel_page (1024 * length ts)) st = Inr st' \<and>
    tables_state e R n' st' ts' \<and> length ts' = length ts + k \<and> same_rest st st'"
  using assms
proof (induction k arbitrary: st ts fuel n)
  case 0
  have "n \<le> 2"
    using 0(1) by (auto simp: tables_state_def)
  then have "to_virt (kmem_region_end st) = kernel_page R"
    using 0(1) place_pages(3) by (auto simp: tables_state_def)
  moreover have "\<not> kernel_page (1024 * length ts) < kernel_page R"
    using 0 by (subst kernel_page_less) (auto simp: tables_state_def place_def)
  ultimately have "make_tables fuel (kernel_page (1024 * length ts)) st = Inr st"
    by (subst make_tables.simps) simp
  then show ?case
    using 0(1) by (intro exI [of _ st] exI [of _ n] exI [of _ ts]) simp
next
  case (Suc k)
  let ?pd = "first_page_directory st" and ?a = "kernel_page (1024 * length ts)"
  obtain f where f: "fuel = Suc f"
    using Suc.prems(3) by (cases fuel) auto
  have len: "length ts < 224" and R: "1024 * length ts < R" and n: "n \<le> 2"
    and pl: "place e R n st" and pt: "page_tables n st ts"
    using Suc.prems(1,2,4) by (auto simp: tables_state_def identity_mapped_def)
  obtain p s n' q where al: "kmem_alloc_pages K4 st = Inr (p, s)" "same_rest st s"
      "tables_state e R n' (add_entry s p ?a) (ts @ [q])"
    using new_table [OF Suc.prems(1) len R] .
  have a: "dir_index ?a = 768 + length ts"
    using kernel_page_props(3) [of "1024 * length ts"] len by simp
  then have e: "load32 (kmem st) (dir_entry_addr ?pd ?a) = 0"
    using pt by (simp add: page_tables_def)
  have next_page: "?a + push_bit 22 1 = kernel_page (1024 * length (ts @ [q]))"
    by (simp add: kernel_page_def algebra_simps)
  have flags: "w OR flag_value present OR flag_value writable_flag = w OR 3" for w
    by (simp add: flag_value_def or.assoc)
  have lt: "?a < to_virt (kmem_region_end st)"
    unfolding place_pages(3) [OF pl n] using R pl len by (subst kernel_page_less) (simp_all add: place_def)
  have pd: "first_page_directory s = ?pd"
    using al(2) by (simp add: same_rest_def)
  have run: "make_tables fuel ?a st = make_tables f (kernel_page (1024 * length (ts @ [q]))) (add_entry s p ?a)"
    unfolding f next_page [symmetric]
    by (subst make_tables.simps) (simp add: lt e is_present_def al(1) Let_def flags add_entry_def pd)
  have "\<exists>st' n'' ts'. make_tables f (kernel_page (1024 * length (ts @ [q]))) (add_entry s p ?a) = Inr st' \<and>
      tables_state e R n'' st' ts' \<and> length ts' = length (ts @ [q]) + k \<and> same_rest (add_entry s p ?a) st'"
    using Suc.prems(2-5) f by (intro Suc.IH [OF al(3)]) auto
  moreover have "same_rest st (add_entry s p ?a)"
    using al(2) by (simp add: add_entry_def)
  ultimately show ?case
    unfolding run using same_rest_trans by fastforce
qed

subsection \<open>The layout\<close>

text \<open>
  The computations in front of the loops, on natural numbers: the kernel image lies in the first
  64 MiB and there are at most 3840 MiB of RAM, so that no addition wraps around. The region ends at 896 MiB at
  the latest, so that 224 page tables cover it.
\<close>

lemma init_array:
  assumes "0x100000 < ram" and "ram \<le> 0xF0000000" and "0xC0000000 \<le> kernel_end" and "kernel_end \<le> 0xC4000000"
    and pages: "pages = drop_bit 12 (ram + 4095)" and arr: "arr = to_virt (align_page_up (from_kmem kernel_end))"
    and array_end: "array_end = push_bit 15 (drop_bit 15
      (arr + push_bit 12 (drop_bit 6 (drop_bit 7 (pages + 127) + 63)) + 32767))"
  shows "256 < unat pages" "unat pages \<le> 983040" "unat kernel_end \<le> unat arr" "0xC0000000 \<le> unat arr"
    "unat arr + 4096 \<le> unat array_end" "unat array_end \<le> 0xC4080000" "2 ^ 15 dvd unat array_end"
proof -
  have ram: "0x100000 < unat ram" "unat ram \<le> 0xF0000000" and ke: "0xC0000000 \<le> unat kernel_end" "unat kernel_end \<le> 0xC4000000"
    using assms(1-4) by (simp_all add: word_less_nat_alt word_le_nat_alt)
  have "unat (ram + 4095) = unat ram + 4095"
    using unat_add_of_nat [of ram 4095] ram by simp
  then have pg: "unat pages = (unat ram + 4095) div 4096"
    by (simp add: pages unat_drop_bit)
  show p: "256 < unat pages" "unat pages \<le> 983040"
    using ram div_le_mono [of "257 * 4096" "unat ram + 4095" 4096] div_le_mono [of "unat ram + 4095" "983040 * 4096 + 4095" 4096]
    unfolding pg by simp_all
  have "unat (pages + 127) = unat pages + 127"
    using unat_add_of_nat [of pages 127] p by simp
  then have b: "unat (drop_bit 7 (pages + 127)) = (unat pages + 127) div 128"
    by (simp add: unat_drop_bit)
  moreover have "(unat pages + 127) div 128 \<le> 7680"
    using p div_le_mono [of "unat pages + 127" "7680 * 128 + 127" 128] by simp
  moreover have "1 \<le> (unat pages + 127) div 128"
    using p div_le_mono [of 128 "unat pages + 127" 128] by simp
  ultimately have b': "unat (drop_bit 7 (pages + 127)) \<le> 7680" "1 \<le> unat (drop_bit 7 (pages + 127))"
    by simp_all
  define c where "c = drop_bit 6 (drop_bit 7 (pages + 127) + 63)"
  have "unat (drop_bit 7 (pages + 127) + 63) = unat (drop_bit 7 (pages + 127)) + 63"
    using unat_add_of_nat [of "drop_bit 7 (pages + 127)" 63] b' by simp
  then have "unat c = (unat (drop_bit 7 (pages + 127)) + 63) div 64"
    by (simp add: c_def unat_drop_bit)
  then have c: "1 \<le> unat c" "unat c \<le> 120"
    using b' div_le_mono [of 64 "unat (drop_bit 7 (pages + 127)) + 63" 64]
      div_le_mono [of "unat (drop_bit 7 (pages + 127)) + 63" "120 * 64 + 63" 64] by simp_all
  then have pc: "unat (push_bit 12 c) = unat c * 4096"
    by (subst unat_push_bit) simp_all
  have f: "unat (from_kmem kernel_end) = unat kernel_end - 0xC0000000"
    using ke by (simp add: from_kmem_def unat_sub_if_size word_size)
  have "unat (from_kmem kernel_end + 4095) = unat kernel_end - 0xC0000000 + 4095"
    using unat_add_of_nat [of "from_kmem kernel_end" 4095] f ke by simp
  then have "unat (align_page_up (from_kmem kernel_end)) = (unat kernel_end - 0xC0000000 + 4095) div 4096 * 4096"
    using ke div_times_less_eq_dividend [of "unat kernel_end - 0xC0000000 + 4095" 4096] unfolding align_page_up_def
    by (subst unat_push_bit) (simp_all add: unat_drop_bit)
  moreover have "unat arr = 0xC0000000 + unat (align_page_up (from_kmem kernel_end))"
    if "unat (align_page_up (from_kmem kernel_end)) \<le> 0x4001000"
    using that by (simp add: arr to_virt_def unat_word_ariths take_bit_eq_mod)
  ultimately have a: "unat kernel_end \<le> unat arr" "0xC0000000 \<le> unat arr" "unat arr \<le> 0xC4001000"
    using ke div_mod_decomp [of "unat kernel_end - 0xC0000000 + 4095" 4096]
      mod_less_divisor [of 4096 "unat kernel_end - 0xC0000000 + 4095"] by simp_all
  then show "unat kernel_end \<le> unat arr" "0xC0000000 \<le> unat arr"
    by simp_all
  define d where "d = unat arr + unat c * 4096 + 32767"
  have "unat (arr + push_bit 12 c + 32767) = d"
    using a c pc unat_add_of_nat [of arr "unat c * 4096"] unat_add_of_nat [of arr "unat c * 4096 + 32767"]
    by (simp add: d_def add.assoc unat_word_ariths take_bit_eq_mod)
  then have e: "unat array_end = d div 32768 * 32768"
    using a c div_times_less_eq_dividend [of d 32768] unfolding array_end c_def [symmetric]
    by (subst unat_push_bit) (simp_all add: unat_drop_bit d_def)
  then show "unat arr + 4096 \<le> unat array_end" "unat array_end \<le> 0xC4080000" "2 ^ 15 dvd unat array_end"
    using a c div_mod_decomp [of d 32768] mod_less_divisor [of 32768 d] by (simp_all add: d_def)
qed


lemma init_start:
  assumes "0x100000 < ram" and "ram \<le> 0xF0000000" and "0xC0000000 \<le> kernel_end" and "kernel_end \<le> 0xC4000000"
    and pd: "page_aligned (first_page_directory st)" "first_page_directory st < kernel_end"
  obtains st4 e P R where "init_page_allocator kernel_end ram ram_start st =
      kbind (map_range (kmem_alloc_pages K4) (2 ^ 20) 0xC0000000 (to_virt (kmem_phys_end st4)) st4) (\<lambda>st5.
      make_tables 1024 (push_bit 22 (drop_bit 22 (to_virt (kmem_phys_end st4) + push_bit 22 1 - 1)))
        (st5\<lparr>cr3 := from_kmem (first_page_directory st5)\<rparr>))"
    and "page_tables 1 st4 []" and "first_page_directory st4 = first_page_directory st"
    and "if_flag st4 = if_flag st" and "hmem_phys_list st4 = 0"
    and "place e R 1 st4" and "e \<le> 0x4080" and "256 < P" and "R = (if 0x38000 < e + P then 0x38000 else e + P)"
    and "0xC0000000 \<le> unat (buddy_array st4)"
proof -
  define pages where "pages = drop_bit 12 (ram + 4095)"
  define arr where "arr = to_virt (align_page_up (from_kmem kernel_end))"
  define array_end where "array_end = push_bit 15 (drop_bit 15
      (arr + push_bit 12 (drop_bit 6 (drop_bit 7 (pages + 127) + 63)) + 32767))"
  note lay = init_array [OF assms(1-4) pages_def arr_def array_end_def]
  define E where "E = unat array_end - 0xC0000000"
  have ae: "unat array_end = 0xC0000000 + E" and E: "E \<le> 0x4080000"
    using lay by (simp_all add: E_def)
  have size: "unat (array_end - arr) = unat array_end - unat arr"
    using lay by (simp add: unat_sub_if_size word_size)
  have phys: "from_kmem arr + (array_end - arr) = from_kmem array_end" "align_page_up (from_kmem kernel_end) = from_kmem arr"
    by (simp add: from_kmem_def) (simp add: arr_def)
  have fe: "unat (from_kmem array_end) = E"
    using ae by (simp add: from_kmem_def unat_sub_if_size word_size)
  then have pe: "unat (from_kmem array_end + push_bit 19 1) = E + 2 ^ 19"
    using E unat_add_of_nat [of "from_kmem array_end" "2 ^ 19"] by simp
  have pp: "unat (push_bit 12 pages) = unat pages * 4096"
    using lay(2) by (subst unat_push_bit) simp_all
  then have re: "unat (from_kmem array_end + push_bit 12 pages) = E + 4096 * unat pages"
    using E fe lay(2) by (simp add: unat_word_ariths take_bit_eq_mod)
  obtain e where e: "E = 4096 * e"
  proof -
    have "2 ^ 15 dvd (0xC0000000 :: nat)"
      by simp
    then have "2 ^ 15 dvd E"
      using lay(7) unfolding ae by (simp add: dvd_add_right_iff)
    then have "4096 dvd E"
      by (rule dvd_trans [rotated]) simp
    then show thesis
      using that by (auto elim: dvdE)
  qed
  define R where "R = (if 0x38000 < e + unat pages then 0x38000 else e + unat pages)"
  define region where "region = from_kmem array_end + push_bit 12 pages"
  have region: "unat (if 0x38000000 < region then 0x38000000 else region) = 4096 * R"
    using re e by (simp add: R_def region_def word_less_nat_alt)
  let ?st4 = "st\<lparr>buddy_array := arr, buddy_array_size := array_end - arr, buddy_array_pos := 1,
      buds := link_new_buddy 0 (zero_heads (buds st)), kmem_phys_end := from_kmem array_end + push_bit 19 1,
      kmem_region_end := (if 0x38000000 < region then 0x38000000 else region), hmem_phys_end := align_page_down (ram_start + ram),
      hmem_phys_list := 0, kmem := memset (first_page_directory st) 0 4096 (kmem st)\<rparr>"
  have "0 < array_end - arr"
    using size lay(5) by (simp add: word_less_nat_alt)
  then have run: "init_page_allocator kernel_end ram ram_start st =
      kbind (map_range (kmem_alloc_pages K4) (2 ^ 20) 0xC0000000 (to_virt (kmem_phys_end ?st4)) ?st4) (\<lambda>st5.
      make_tables 1024 (push_bit 22 (drop_bit 22 (to_virt (kmem_phys_end ?st4) + push_bit 22 1 - 1)))
        (st5\<lparr>cr3 := from_kmem (first_page_directory st5)\<rparr>))"
    unfolding init_page_allocator_def Let_def pages_def [symmetric] arr_def [symmetric]
    unfolding array_end_def [symmetric] kmem_buddy_new_no_alloc_def phys region_def
    by simp
  have "kmem_inv 1 ?st4"
    using lay E ae size first_buddy(1) by (simp add: kmem_inv_def)
  moreover have "load32 (memset (first_page_directory st) 0 4096 (kmem st)) (dir_entry_addr (first_page_directory st) v) = 0" for v
    unfolding dir_entry_addr_eq by (rule zero_page_entry [OF pd(1)]) simp
  moreover have "unat (first_page_directory st) < 0xC0000000 + E"
    using pd(2) lay(3,5) ae by (simp add: word_less_nat_alt)
  moreover have sum: "unat arr + unat (array_end - arr) = 0xC0000000 + E"
    using lay(5) by (simp add: size ae)
  ultimately have "page_tables 1 ?st4 []"
    using pd(1) by (simp add: page_tables_def first_buddy(2) [unfolded One_nat_def] lessThan_Suc)
  moreover have "place e R 1 ?st4"
    using sum E e size lay(5) pe region by (simp add: place_def R_def)
  ultimately show thesis
    using run by (intro that [of ?st4 e R "unat pages"]) (use lay E e R_def in simp_all)
qed

subsection \<open>The result\<close>

lemma next_table:
  assumes "j < 131072"
  shows "push_bit 22 (drop_bit 22 (kernel_page j + push_bit 22 1 - 1)) = kernel_page (1024 * ((j + 1023) div 1024))"
proof -
  have "4096 * j + 4194303 = 4096 * (j + 1023) + 4095"
    by simp
  then have "(4096 * j + 4194303) div 4194304 = (j + 1023) div 1024"
    using div_mult2_eq [of "4096 * j + 4194303" 4096 1024] by simp
  then have d: "(0xC0000000 + 4096 * j + 4194303) div 4194304 = 768 + (j + 1023) div 1024"
    using div_mult_self2 [of 4194304 "4096 * j + 4194303" 768] by (simp add: add.assoc)
  have le: "(j + 1023) div 1024 \<le> 128"
    using assms div_le_mono [of "j + 1023" "128 * 1024 + 1023" 1024] by simp
  have "unat (kernel_page j + push_bit 22 1 - 1) = 0xC0000000 + 4096 * j + 4194303"
    using unat_add_of_nat [of "kernel_page j" 4194303] kernel_page_props(1) [of j] assms by (simp add: add.commute)
  then have "unat (drop_bit 22 (kernel_page j + push_bit 22 1 - 1)) = 768 + (j + 1023) div 1024"
    using d by (simp add: unat_drop_bit)
  then have "unat (push_bit 22 (drop_bit 22 (kernel_page j + push_bit 22 1 - 1))) = (768 + (j + 1023) div 1024) * 4194304"
    using le by (subst unat_push_bit) simp_all
  then show ?thesis
    using kernel_page_props(1) [of "1024 * ((j + 1023) div 1024)"] le unfolding word_unat_eq_iff by simp
qed

text \<open>The page of an address.\<close>

lemma kernel_page_of:
  assumes "0xC0000000 \<le> v"
  obtains i where "i < 262144" and "dir_index v = dir_index (kernel_page i)" and "tab_index v = tab_index (kernel_page i)"
    and "kernel_page i + (v AND 0xFFF) = v" and "\<And>k. k < 262144 \<Longrightarrow> v < kernel_page k \<longleftrightarrow> i < k"
proof -
  define i where "i = (unat v - 0xC0000000) div 4096"
  have v: "0xC0000000 \<le> unat v"
    using assms by (simp add: word_le_nat_alt)
  have "unat v - 0xC0000000 < 4096 * 262144"
    using unat_less_32 [of v] by linarith
  then have i: "i < 262144"
    unfolding i_def by (rule less_mult_imp_div_less [OF _, of _ 262144 4096, simplified mult.commute])
  have "unat v = 0xC0000000 + 4096 * i + (unat v - 0xC0000000) mod 4096"
    using v mult_div_mod_eq [of 4096 "unat v - 0xC0000000"] unfolding i_def by linarith
  then obtain r where r: "unat v = 0xC0000000 + 4096 * i + r" "r < 4096"
    using mod_less_divisor [of 4096 "unat v - 0xC0000000"] by simp
  then have m: "unat v mod 4096 = r" and d: "unat v div 4096 = 786432 + i"
    using mod_mult_self4 [of 4096 "786432 + i" r] div_mult_self4 [of 4096 "786432 + i" r] by simp_all
  have u: "unat (kernel_page i) = 0xC0000000 + 4096 * i"
    using kernel_page_props(1) [OF i] .
  then have d': "unat (kernel_page i) div 4096 = 786432 + i"
    by simp
  have idx: "dir_index w = unat w div 4096 div 1024" "tab_index w = unat w div 4096 mod 1024" for w
    by (simp_all add: dir_index_def tab_index_def div_mult2_eq [of _ 4096 1024, simplified])
  have "unat (v AND mask 12) = r"
    unfolding unat_and_mask using m by simp
  then have "v AND 0xFFF = of_nat r"
    using r(2) by (simp add: word_unat_eq_iff unat_of_nat_32 mask_eq_exp_minus_1)
  moreover have "kernel_page i + of_nat r = v"
    using unat_add_of_nat [of "kernel_page i" r] u r unat_less_32 [of v] by (simp add: word_unat_eq_iff)
  moreover have "v < kernel_page k \<longleftrightarrow> i < k" if "k < 262144" for k
    using r kernel_page_props(1) [OF that] by (auto simp: word_less_nat_alt)
  ultimately show thesis
    using i d d' by (intro that [of i]) (simp_all add: idx)
qed

lemma identity_walk:
  assumes "page_aligned pd" and "is_present (load32 m (dir_entry_addr pd v))" and "0xC0000000 \<le> v" and n: "n < 262144"
    and entries: "\<And>i. i < 262144 \<Longrightarrow> dir_index (kernel_page i) = dir_index v \<Longrightarrow>
      pte_of m pd (kernel_page i) = (if i < n then prwr OR from_kmem (kernel_page i) else 0)"
  shows "walk m (from_kmem pd) v = (if v < kernel_page n then Some (from_kmem v) else None)"
proof -
  obtain i where i: "i < 262144" "dir_index v = dir_index (kernel_page i)" "tab_index v = tab_index (kernel_page i)"
      "kernel_page i + (v AND 0xFFF) = v" "v < kernel_page n \<longleftrightarrow> i < n"
    using kernel_page_of [OF assms(3)] n by metis
  let ?p = "from_kmem (kernel_page i)"
  have "pte_of m pd v = pte_of m pd (kernel_page i)"
    by (simp add: pte_of_def dir_entry_addr_eq table_entry_addr_eq i(2,3))
  also have "\<dots> = (if i < n then ?p OR 3 else 0)"
    using entries [OF i(1)] i(2) by (simp add: prwr_3 or.commute)
  finally have pte: "pte_of m pd v = (if i < n then ?p OR 3 else 0)" .
  have "page_aligned ?p"
    by (rule page_aligned_from_kmem [OF kernel_page_props(2) [OF i(1)]])
  then have "align_page_down (?p OR 3) = ?p"
    by (rule align_page_down_flags) simp
  moreover have "?p + (v AND 0xFFF) = from_kmem v"
    using i(4) by (simp add: from_kmem_def algebra_simps)
  moreover have "\<not> is_present 0"
    by (simp add: is_present_def)
  ultimately show ?thesis
    using assms(2) i(5) unfolding walk_eq [OF assms(1)] pte by (simp add: present_entry)
qed

lemma tables_ok_mono: "tables_ok m pd W \<Longrightarrow> V \<subseteq> W \<Longrightarrow> tables_ok m pd V"
  unfolding tables_ok_def by blast

lemma region_covered:
  assumes "p \<le> 1024 * n" and "p < 262144"
  shows "{v. 0xC0000000 \<le> v \<and> v < kernel_page p} \<subseteq> covered n"
proof
  fix v
  assume "v \<in> {v. 0xC0000000 \<le> v \<and> v < kernel_page p}"
  then have "0xC0000000 \<le> unat v" "unat v < (768 + n) * 4194304"
    using kernel_page_props(1) [OF assms(2)] assms(1) by (simp_all add: word_le_nat_alt word_less_nat_alt)
  then show "v \<in> covered n"
    using div_le_mono [of "0xC0000000" "unat v" 4194304] by (simp add: covered_def dir_index_def less_mult_imp_div_less)
qed

text \<open>
  C15: \<open>init_page_allocator\<close> establishes what the rest of the kernel relies on. With the end of the kernel image
  in the first 64 MiB, its page directory inside the image, and more than 1 MiB and at most 3840 MiB of RAM it
  returns. One or two buddies are in use and consistent, and the allocator can grow; the buddies lie above 3 GiB,
  the used memory ends with the last of them, and the kernel region ends at 896 MiB at the latest. Under the page directory that it loads, each address of the
  kernel region below the end of the used memory translates to itself minus 0xC0000000, and no other address of the
  region translates; but each of them has a page table, so that growing never has to allocate one. When the page
  tables use up the first buddy, the second one is taken on the way.
\<close>

theorem init_page_allocator_establishes:
  assumes "0x100000 < ram" and "ram \<le> 0xF0000000" and "0xC0000000 \<le> kernel_end" and "kernel_end \<le> 0xC4000000"
    and "page_aligned (first_page_directory st)" and "first_page_directory st < kernel_end"
  shows "\<exists>n st'. init_page_allocator kernel_end ram ram_start st = Inr st' \<and> n \<in> {1, 2} \<and> kmem_inv n st' \<and> can_grow n st' \<and>
    0xC0000000 \<le> unat (buddy_array st') \<and> unat (kmem_region_end st') \<le> 0x38000000 \<and> to_virt (kmem_phys_end st') = my_first_page st' n \<and>
    cr3 st' = from_kmem (first_page_directory st) \<and> hmem_phys_list st' = 0 \<and> if_flag st' = if_flag st \<and>
    (\<forall>v. 0xC0000000 \<le> v \<and> v < to_virt (kmem_region_end st') \<longrightarrow> walk (kmem st') (cr3 st') v =
      (if v < to_virt (kmem_phys_end st') then Some (from_kmem v) else None)) \<and>
    tables_ok (kmem st') (first_page_directory st) {v. 0xC0000000 \<le> v \<and> v < to_virt (kmem_region_end st')}"
proof -
  obtain st4 e P R where run: "init_page_allocator kernel_end ram ram_start st =
      kbind (map_range (kmem_alloc_pages K4) (2 ^ 20) 0xC0000000 (to_virt (kmem_phys_end st4)) st4) (\<lambda>st5.
      make_tables 1024 (push_bit 22 (drop_bit 22 (to_virt (kmem_phys_end st4) + push_bit 22 1 - 1)))
        (st5\<lparr>cr3 := from_kmem (first_page_directory st5)\<rparr>))"
    and st4: "page_tables 1 st4 []" "first_page_directory st4 = first_page_directory st"
      "if_flag st4 = if_flag st" "hmem_phys_list st4 = 0" "0xC0000000 \<le> unat (buddy_array st4)"
    and pl: "place e R 1 st4" and e: "e \<le> 0x4080" and P: "256 < P" and R: "R = (if 0x38000 < e + P then 0x38000 else e + P)"
    using init_start [OF assms] .
  let ?pd = "first_page_directory st"
  define J where "J = e + 128"
  define N where "N = (R + 1023) div 1024"
  have J: "J < 131072" "J + 128 < R"
    using e P by (simp_all add: J_def R)
  have R_le: "R \<le> 229376"
    using pl by (simp add: place_def)
  have top: "to_virt (kmem_phys_end st4) = kernel_page J"
    using place_pages(2) [OF pl] by (simp add: J_def)
  have "identity_mapped 1 st4 [] 0"
    using st4(1) by (simp add: identity_mapped_def)
  then obtain h m ts where loop1: "map_range (kmem_alloc_pages K4) (2 ^ 20) 0xC0000000 (kernel_page J) st4 = Inr (st4\<lparr>buds := h, kmem := m\<rparr>)"
      and im: "identity_mapped 1 (st4\<lparr>buds := h, kmem := m\<rparr>) ts J" and len: "length ts = (J + 1023) div 1024"
    using map_range_initial [of st4 "[]" 0 J "2 ^ 20"] J(1) by (auto simp: kernel_page_def)
  define st6 where "st6 = st4\<lparr>buds := h, kmem := m, cr3 := from_kmem ?pd\<rparr>"
  have "J \<le> 1024 * length ts"
    using div_mult_mod_eq [of "J + 1023" 1024] mod_less_divisor [of 1024 "J + 1023"] unfolding len by linarith
  then have ts: "tables_state e R 1 st6 ts"
    using im pl by (simp add: tables_state_def J_def st6_def identity_mapped_def page_tables_def kmem_inv_def place_def)
  have "length ts \<le> N"
    using J(2) unfolding N_def len by (intro div_le_mono) simp
  then obtain k where N: "length ts + k = N"
    by (metis le_Suc_ex)
  have N_up: "R \<le> 1024 * N" and N_low: "i < N \<Longrightarrow> 1024 * i < R" for i
    using div_mod_decomp [of "R + 1023" 1024] mod_less_divisor [of 1024 "R + 1023"] unfolding N_def by simp_all
  have N224: "N \<le> 224"
    using R_le div_le_mono [of "R + 1023" "224 * 1024 + 1023" 1024] unfolding N_def by simp
  obtain st' n ts' where loop2: "make_tables 1024 (kernel_page (1024 * length ts)) st6 = Inr st'"
      and ts': "tables_state e R n st' ts'" and len': "length ts' = N" and rest: "same_rest st6 st'"
    using make_tables_spec [OF ts, of k 1024] N N224 N_up N_low by auto
  have run': "init_page_allocator kernel_end ram ram_start st = Inr st'"
    unfolding run top next_table [OF J(1)] loop1 kbind_Inr using loop2 len by (simp add: st6_def st4(2))
  have frame: "first_page_directory st' = ?pd" "cr3 st' = from_kmem ?pd" "hmem_phys_list st' = 0" "if_flag st' = if_flag st"
      "buddy_array st' = buddy_array st4"
    using rest st4 by (simp_all add: same_rest_def st6_def)
  have im': "identity_mapped n st' ts' (e + 128 * n)" and pl': "place e R n st'" and n: "n = 1 \<or> n = 2 \<and> 128 < N"
    using ts' len' by (auto simp: tables_state_def)
  have n2: "n \<le> 2"
    using n by auto
  note pt' = identity_mapped_pt [OF im'] and pages = place_pages [OF pl' n2]
  have tables: "tables_ok (kmem st') ?pd (covered N)"
    using page_tables_ok [OF pt'] frame(1) by (simp add: len')
  have cov: "{v. 0xC0000000 \<le> v \<and> v < kernel_page R} \<subseteq> covered N"
    using region_covered [OF N_up] R_le by simp
  have region_tables: "tables_ok (kmem st') ?pd {v. 0xC0000000 \<le> v \<and> v < to_virt (kmem_region_end st')}"
    unfolding pages(3) by (rule tables_ok_mono [OF tables cov])
  have walks: "walk (kmem st') (from_kmem ?pd) v = (if v < kernel_page (e + 128 * n) then Some (from_kmem v) else None)"
    if v: "0xC0000000 \<le> v" "v < kernel_page R" for v
  proof (rule identity_walk [OF assms(5) _ v(1)])
    have c: "v \<in> covered N"
      using cov v by auto
    then show "is_present (load32 (kmem st') (dir_entry_addr ?pd v))"
      using tables by (simp add: tables_ok_def)
    fix i
    assume i: "i < 262144" "dir_index (kernel_page i) = dir_index v"
    then have "kernel_page i \<in> covered N"
      using c by (simp add: covered_def)
    then have "i < 1024 * length ts'"
      using kernel_page_covered [OF i(1)] len' by simp
    then show "pte_of (kmem st') ?pd (kernel_page i) = (if i < e + 128 * n then prwr OR from_kmem (kernel_page i) else 0)"
      using im' frame(1) by (simp add: identity_mapped_def)
  qed (use e n2 in simp)
  have "1024 * 128 < R" if "128 < N"
    using N_low [OF that] .
  then have room: "e + 128 * n + 128 < R" "e + 128 * n + 128 \<le> 1024 * length ts'"
    using n J(2) e N_up unfolding len' J_def by auto
  have inv: "kmem_inv n st'"
    using pt' by (simp add: page_tables_def)
  have "unat (kmem_region_end st') \<le> 0x38000000"
    using pl' by (simp add: place_def)
  moreover have "\<forall>v. 0xC0000000 \<le> v \<and> v < to_virt (kmem_region_end st') \<longrightarrow> walk (kmem st') (cr3 st') v =
      (if v < to_virt (kmem_phys_end st') then Some (from_kmem v) else None)"
    unfolding pages frame(2) using walks by simp
  moreover have "n \<in> {1, 2}" "0xC0000000 \<le> unat (buddy_array st')"
    using n st4(5) frame(5) by auto
  moreover have "to_virt (kmem_phys_end st') = my_first_page st' n"
    by (simp only: pages(1,2))
  ultimately show ?thesis
    using run' inv place_can_grow(1) [OF pl' n2 pt' room] region_tables frame(2-4) by blast
qed

theorem init_page_allocator_establishes_witness:
  "\<exists>n st'. init_page_allocator 0xC0200000 0x40000000 0 boot_state = Inr st' \<and> n \<in> {1, 2} \<and> kmem_inv n st' \<and> can_grow n st' \<and>
    0xC0000000 \<le> unat (buddy_array st') \<and> unat (kmem_region_end st') \<le> 0x38000000 \<and> to_virt (kmem_phys_end st') = my_first_page st' n \<and>
    cr3 st' = from_kmem (first_page_directory boot_state) \<and> hmem_phys_list st' = 0 \<and> if_flag st' = if_flag boot_state \<and>
    (\<forall>v. 0xC0000000 \<le> v \<and> v < to_virt (kmem_region_end st') \<longrightarrow> walk (kmem st') (cr3 st') v =
      (if v < to_virt (kmem_phys_end st') then Some (from_kmem v) else None)) \<and>
    tables_ok (kmem st') (first_page_directory boot_state) {v. 0xC0000000 \<le> v \<and> v < to_virt (kmem_region_end st')}"
  by (rule init_page_allocator_establishes) (simp_all add: boot_state_def page_aligned_def)

end
