(* ===== verification/Linked_List.thy ===== *)
theory Linked_List
  imports Kernel_Prelude
begin

section \<open>Circular doubly linked lists\<close>

text \<open>
  \<^verbatim>\<open>kernel/util/ds/list.hpp\<close>: \<open>intrusive_doubly_linked_node\<close>. Every node belongs to a ring; a node alone
  points to itself. The model is a store of the two pointer fields for all nodes of a kind, with
  nodes named by any type \<open>'p\<close>. The abstraction of a ring, read from one of its nodes, is the list of
  its nodes in the order of the next pointers.
\<close>

record 'p node_links =
  l_prev :: "'p \<Rightarrow> 'p"
  l_next :: "'p \<Rightarrow> 'p"

subsection \<open>Operations\<close>

definition node_new :: "'p \<Rightarrow> 'p node_links \<Rightarrow> 'p node_links" where
  "node_new this L = L\<lparr>l_prev := (l_prev L)(this := this), l_next := (l_next L)(this := this)\<rparr>"

definition get_next :: "'p node_links \<Rightarrow> 'p \<Rightarrow> 'p" where
  "get_next L this = l_next L this"

definition get_prev :: "'p node_links \<Rightarrow> 'p \<Rightarrow> 'p" where
  "get_prev L this = l_prev L this"

definition lonely :: "'p node_links \<Rightarrow> 'p \<Rightarrow> bool" where
  "lonely L this \<longleftrightarrow> l_next L this = this"

definition unlink :: "'p \<Rightarrow> 'p node_links \<Rightarrow> 'p node_links" where
  "unlink this L =
    (let L1 = L\<lparr>l_next := (l_next L)(l_prev L this := l_next L this)\<rparr>;
         L2 = L1\<lparr>l_prev := (l_prev L1)(l_next L1 this := l_prev L1 this)\<rparr>;
         L3 = L2\<lparr>l_prev := (l_prev L2)(this := this)\<rparr>
     in L3\<lparr>l_next := (l_next L3)(this := this)\<rparr>)"

definition add_after_self :: "'p \<Rightarrow> 'p \<Rightarrow> 'p node_links \<Rightarrow> 'p node_links" where
  "add_after_self this n L =
    (let L1 = L\<lparr>l_next := (l_next L)(n := l_next L this)\<rparr>;
         L2 = L1\<lparr>l_prev := (l_prev L1)(n := this)\<rparr>;
         L3 = L2\<lparr>l_prev := (l_prev L2)(l_next L2 this := n)\<rparr>
     in L3\<lparr>l_next := (l_next L3)(this := n)\<rparr>)"

text \<open>
  The range-based \<^verbatim>\<open>for\<close> loop over a ring: the iterator starts at the node with \<open>first_time\<close> set and
  ends at the node with it cleared. \<open>ring_nodes\<close> collects the nodes a loop visits before its body leaves
  it (\<open>stop\<close>); \<open>None\<close> is a loop that does not end.
\<close>

record 'p ring_iterator =
  first_time :: bool
  node :: 'p

definition iter_begin :: "'p \<Rightarrow> 'p ring_iterator" where
  "iter_begin this = \<lparr>first_time = True, node = this\<rparr>"

definition iter_end :: "'p \<Rightarrow> 'p ring_iterator" where
  "iter_end this = \<lparr>first_time = False, node = this\<rparr>"

definition iter_next :: "'p node_links \<Rightarrow> 'p ring_iterator \<Rightarrow> 'p ring_iterator" where
  "iter_next L it = \<lparr>first_time = False, node = l_next L (node it)\<rparr>"

definition iter_neq :: "'p ring_iterator \<Rightarrow> 'p ring_iterator \<Rightarrow> bool" where
  "iter_neq a b \<longleftrightarrow> node a \<noteq> node b \<or> first_time a \<noteq> first_time b"

partial_function (option) find_from :: "'p node_links \<Rightarrow> ('p \<Rightarrow> bool) \<Rightarrow> 'p \<Rightarrow> 'p ring_iterator \<Rightarrow> 'p option option" where
  "find_from L stop this it =
    (if iter_neq it (iter_end this)
     then if stop (node it) then Some (Some (node it)) else find_from L stop this (iter_next L it)
     else Some None)"

definition ring_find :: "'p node_links \<Rightarrow> ('p \<Rightarrow> bool) \<Rightarrow> 'p \<Rightarrow> 'p option option" where
  "ring_find L stop this = find_from L stop this (iter_begin this)"

text \<open>A range-based loop that runs over all nodes and updates a state.\<close>

partial_function (option) fold_from :: "'p node_links \<Rightarrow> ('p \<Rightarrow> 'b \<Rightarrow> 'b) \<Rightarrow> 'p \<Rightarrow> 'p ring_iterator \<Rightarrow> 'b \<Rightarrow> 'b option" where
  "fold_from L f this it b =
    (if iter_neq it (iter_end this) then fold_from L f this (iter_next L it) (f (node it) b) else Some b)"

definition ring_fold :: "'p node_links \<Rightarrow> ('p \<Rightarrow> 'b \<Rightarrow> 'b) \<Rightarrow> 'p \<Rightarrow> 'b \<Rightarrow> 'b option" where
  "ring_fold L f this b = fold_from L f this (iter_begin this) b"

subsection \<open>Rings\<close>

fun linked :: "'p node_links \<Rightarrow> 'p \<Rightarrow> 'p list \<Rightarrow> 'p \<Rightarrow> bool" where
  "linked L a [] b \<longleftrightarrow> l_next L a = b \<and> l_prev L b = a"
| "linked L a (x # xs) b \<longleftrightarrow> l_next L a = x \<and> l_prev L x = a \<and> linked L x xs b"

definition ring :: "'p node_links \<Rightarrow> 'p \<Rightarrow> 'p list \<Rightarrow> bool" where
  "ring L x xs \<longleftrightarrow> distinct (x # xs) \<and> linked L x xs x"

lemma linked_append: "linked L a (xs @ y # ys) b \<longleftrightarrow> linked L a xs y \<and> linked L y ys b"
  by (induction xs arbitrary: a) auto

lemma linked_cong:
  assumes "\<And>p. p \<in> set (a # xs) \<Longrightarrow> l_next L' p = l_next L p"
    and "\<And>p. p \<in> set (xs @ [b]) \<Longrightarrow> l_prev L' p = l_prev L p"
  shows "linked L' a xs b = linked L a xs b"
  using assms by (induction xs arbitrary: a) auto

text \<open>A ring can be read from each of its nodes.\<close>

lemma ring_rotate: "ring L x (ys @ z # zs) \<longleftrightarrow> ring L z (zs @ x # ys)"
  by (auto simp: ring_def linked_append)

lemma ring_ends:
  assumes "ring L x xs"
  shows "l_next L x = (case xs of [] \<Rightarrow> x | y # _ \<Rightarrow> y)" and "l_prev L x = (if xs = [] then x else last xs)"
proof -
  show "l_next L x = (case xs of [] \<Rightarrow> x | y # _ \<Rightarrow> y)"
    using assms by (cases xs) (auto simp: ring_def)
  show "l_prev L x = (if xs = [] then x else last xs)"
  proof (cases xs rule: rev_cases)
    case (snoc ys y)
    then show ?thesis
      using assms linked_append [of L x ys y "[]" x] by (simp add: ring_def)
  qed (use assms in \<open>simp add: ring_def\<close>)
qed

lemma lonely_ring: "ring L x xs \<Longrightarrow> lonely L x \<longleftrightarrow> xs = []"
  using ring_ends(1) [of L x xs] by (cases xs) (auto simp: lonely_def ring_def)

lemma ring_new: "ring (node_new x L) x []"
  by (simp add: ring_def node_new_def)

text \<open>
  The pointer updates, as functions of the nodes around: the nodes of other rings are not touched.
\<close>

lemma add_after_self_ring:
  assumes ring: "ring L x xs" and n: "n \<notin> set (x # xs)"
  shows "ring (add_after_self x n L) x (n # xs)"
    and "p \<notin> set (n # x # xs) \<Longrightarrow> l_next (add_after_self x n L) p = l_next L p \<and> l_prev (add_after_self x n L) p = l_prev L p"
proof -
  let ?L = "add_after_self x n L"
  have nx: "l_next L x = (case xs of [] \<Rightarrow> x | y # _ \<Rightarrow> y)"
    by (rule ring_ends(1) [OF ring])
  have upd: "l_next ?L = (l_next L)(n := l_next L x, x := n)" "l_prev ?L = (l_prev L)(n := x, l_next L x := n)"
    using n by (auto simp: add_after_self_def Let_def)
  show "ring ?L x (n # xs)"
  proof (cases xs)
    case Nil
    then show ?thesis
      using n nx by (auto simp: ring_def upd)
  next
    case (Cons y ys)
    then have "linked ?L y ys x = linked L y ys x"
      using n ring by (intro linked_cong) (auto simp: upd nx ring_def)
    then show ?thesis
      using n nx ring Cons by (auto simp: ring_def upd)
  qed
  show "p \<notin> set (n # x # xs) \<Longrightarrow> l_next ?L p = l_next L p \<and> l_prev ?L p = l_prev L p"
    using nx by (auto simp: upd split: list.splits)
qed

lemma unlink_ring:
  assumes ring: "ring L x (y # ys)"
  shows "ring (unlink x L) y ys" and "ring (unlink x L) x []"
    and "p \<notin> set (x # y # ys) \<Longrightarrow> l_next (unlink x L) p = l_next L p \<and> l_prev (unlink x L) p = l_prev L p"
proof -
  let ?L = "unlink x L" and ?z = "last (y # ys)"
  have nx: "l_next L x = y" "l_prev L x = ?z" "?z \<noteq> x" "x \<noteq> y"
    using ring_ends [OF ring] ring last_in_set [of "y # ys"] by (auto simp: ring_def simp del: last.simps)
  have upd: "l_next ?L = (l_next L)(?z := y, x := x)" "l_prev ?L = (l_prev L)(y := ?z, x := x)"
    using nx by (auto simp: unlink_def Let_def simp del: last.simps)
  show "ring ?L x []"
    by (simp add: ring_def upd)
  show "ring ?L y ys"
  proof (cases ys rule: rev_cases)
    case Nil
    then show ?thesis
      using nx ring by (simp add: ring_def upd)
  next
    case (snoc zs z)
    then have "linked ?L y zs z = linked L y zs z"
      using ring by (intro linked_cong) (auto simp: upd ring_def)
    then show ?thesis
      using ring snoc nx by (auto simp: ring_def upd linked_append)
  qed
  show "p \<notin> set (x # y # ys) \<Longrightarrow> l_next ?L p = l_next L p \<and> l_prev ?L p = l_prev L p"
    using last_in_set [of "y # ys"] unfolding upd by auto
qed

lemma unlink_ring_mid:
  assumes "ring L x (ys @ z # zs)"
  shows "ring (unlink z L) x (ys @ zs)" and "ring (unlink z L) z []"
    and "p \<notin> set (x # ys @ z # zs) \<Longrightarrow> l_next (unlink z L) p = l_next L p \<and> l_prev (unlink z L) p = l_prev L p"
proof -
  have z: "ring L z (zs @ x # ys)"
    by (rule iffD1 [OF ring_rotate assms])
  show "ring (unlink z L) x (ys @ zs)"
  proof (cases zs)
    case Nil
    with z show ?thesis
      using unlink_ring(1) [of L z x ys] by simp
  next
    case (Cons y ws)
    with z have "ring (unlink z L) y (ws @ x # ys)"
      using unlink_ring(1) [of L z y "ws @ x # ys"] by simp
    then show ?thesis
      using ring_rotate [of _ y ws x ys] Cons by simp
  qed
  show "ring (unlink z L) z []"
    using z unlink_ring(2) [of L z] by (cases zs) auto
  show "p \<notin> set (x # ys @ z # zs) \<Longrightarrow> l_next (unlink z L) p = l_next L p \<and> l_prev (unlink z L) p = l_prev L p"
    using z unlink_ring(3) [of L z _ _ p] by (cases zs) auto
qed

text \<open>Adding after the previous node of \<open>x\<close> puts the new node at the end of the ring read from \<open>x\<close>.\<close>

lemma add_last_ring:
  assumes ring: "ring L x xs" and n: "n \<notin> set (x # xs)"
  shows "ring (add_after_self (get_prev L x) n L) x (xs @ [n])"
    and "p \<notin> set (n # x # xs) \<Longrightarrow> l_next (add_after_self (get_prev L x) n L) p = l_next L p \<and>
      l_prev (add_after_self (get_prev L x) n L) p = l_prev L p"
proof -
  have "ring (add_after_self (get_prev L x) n L) x (xs @ [n]) \<and> (p \<notin> set (n # x # xs) \<longrightarrow>
      l_next (add_after_self (get_prev L x) n L) p = l_next L p \<and> l_prev (add_after_self (get_prev L x) n L) p = l_prev L p)"
  proof (cases xs rule: rev_cases)
    case Nil
    then have "get_prev L x = x"
      using ring_ends(2) [OF ring] by (simp add: get_prev_def)
    then show ?thesis
      using add_after_self_ring(1) [OF ring n] add_after_self_ring(2) [OF ring n, of p] Nil by simp
  next
    case (snoc ys z)
    then have z: "get_prev L x = z"
      using ring_ends(2) [OF ring] by (simp add: get_prev_def)
    have "ring L z (x # ys)"
      using ring snoc ring_rotate [of L x ys z "[]"] by simp
    moreover have "n \<notin> set (z # x # ys)"
      using n snoc by auto
    ultimately have "ring (add_after_self z n L) z ([n] @ x # ys)" "p \<notin> set (n # z # x # ys) \<Longrightarrow>
        l_next (add_after_self z n L) p = l_next L p \<and> l_prev (add_after_self z n L) p = l_prev L p"
      using add_after_self_ring(1) [of L z "x # ys" n] add_after_self_ring(2) [of L z "x # ys" n p] by simp_all
    moreover from this(1) have "ring (add_after_self z n L) x (ys @ z # [n])"
      by (rule iffD2 [OF ring_rotate])
    ultimately show ?thesis
      using z snoc by auto
  qed
  then show "ring (add_after_self (get_prev L x) n L) x (xs @ [n])"
    and "p \<notin> set (n # x # xs) \<Longrightarrow> l_next (add_after_self (get_prev L x) n L) p = l_next L p \<and>
      l_prev (add_after_self (get_prev L x) n L) p = l_prev L p"
    by blast+
qed

lemma unlink_lonely: "ring L x [] \<Longrightarrow> ring (unlink x L) x []"
  by (simp add: ring_def unlink_def)

text \<open>A ring is determined by the links of its own nodes.\<close>

lemma ring_frame:
  assumes "ring L x xs" and "\<And>p. p \<in> set (x # xs) \<Longrightarrow> l_next L' p = l_next L p \<and> l_prev L' p = l_prev L p"
  shows "ring L' x xs"
proof -
  have "linked L' x xs x = linked L x xs x"
    using assms(2) by (intro linked_cong) auto
  then show ?thesis using assms(1) by (simp add: ring_def)
qed

subsection \<open>Iteration\<close>

lemma find_from_path:
  assumes "linked L a xs b" and "this \<notin> set (a # xs)" and "b = this"
  shows "find_from L stop this \<lparr>first_time = False, node = a\<rparr> = Some (find stop (a # xs))"
  using assms
proof (induction xs arbitrary: a)
  case Nil
  then show ?case
    by (subst find_from.simps, simp add: iter_neq_def iter_end_def iter_next_def)
      (subst find_from.simps, simp add: iter_neq_def iter_end_def)
next
  case (Cons x xs)
  then show ?case
    by (subst find_from.simps) (auto simp: iter_neq_def iter_end_def iter_next_def)
qed

lemma ring_find_eq:
  assumes "ring L x xs"
  shows "ring_find L stop x = Some (find stop (x # xs))"
proof (cases xs)
  case Nil
  then show ?thesis
    using assms unfolding ring_find_def
    by (subst find_from.simps, simp add: iter_neq_def iter_end_def iter_begin_def iter_next_def ring_def)
      (subst find_from.simps, simp add: iter_neq_def iter_end_def)
next
  case (Cons y ys)
  then have "find_from L stop x \<lparr>first_time = False, node = y\<rparr> = Some (find stop (y # ys))"
    using assms by (intro find_from_path [of L y ys x]) (auto simp: ring_def)
  then show ?thesis
    using assms Cons unfolding ring_find_def
    by (subst find_from.simps) (simp add: iter_neq_def iter_end_def iter_begin_def iter_next_def ring_def)
qed

lemma fold_from_path:
  "linked L y ys this \<Longrightarrow> this \<notin> set (y # ys) \<Longrightarrow>
    fold_from L f this \<lparr>first_time = False, node = y\<rparr> b = Some (fold f (y # ys) b)"
proof (induction ys arbitrary: y b)
  case Nil
  then show ?case
    by (subst fold_from.simps, simp add: iter_neq_def iter_end_def iter_next_def)
      (subst fold_from.simps, simp add: iter_neq_def iter_end_def)
next
  case (Cons z zs)
  then show ?case
    by (subst fold_from.simps) (auto simp: iter_neq_def iter_end_def iter_next_def)
qed

lemma ring_fold_eq:
  assumes "ring L x xs"
  shows "ring_fold L f x b = Some (fold f (x # xs) b)"
proof (cases xs)
  case Nil
  then show ?thesis
    using assms unfolding ring_fold_def
    by (subst fold_from.simps, simp add: iter_neq_def iter_end_def iter_begin_def iter_next_def ring_def)
      (subst fold_from.simps, simp add: iter_neq_def iter_end_def)
next
  case (Cons y ys)
  then have "fold_from L f x \<lparr>first_time = False, node = y\<rparr> (f x b) = Some (fold f (y # ys) (f x b))"
    using assms by (intro fold_from_path) (auto simp: ring_def)
  then show ?thesis
    using assms Cons unfolding ring_fold_def
    by (subst fold_from.simps) (simp add: iter_neq_def iter_end_def iter_begin_def iter_next_def ring_def)
qed

subsection \<open>Property\<close>

text \<open>
  Insertion, removal and iteration. Adding a node that is not in a ring puts it right after the
  node \<open>x\<close>; a range-based loop from \<open>x\<close> then ends and visits \<open>x\<close>, the new node and the rest in order; and
  unlinking the new node restores the ring and leaves the node in a ring of its own.
\<close>

lemma list_add_iterate_unlink:
  assumes "ring L x xs" and "n \<notin> set (x # xs)"
  shows "ring (add_after_self x n L) x (n # xs) \<and>
    ring_find (add_after_self x n L) stop x = Some (find stop (x # n # xs)) \<and>
    ring (unlink n (add_after_self x n L)) x xs \<and> ring (unlink n (add_after_self x n L)) n []"
proof -
  have r: "ring (add_after_self x n L) x (n # xs)"
    using assms by (rule add_after_self_ring)
  with unlink_ring_mid(1,2) [of _ x "[]" n xs] show ?thesis
    using ring_find_eq [OF r, of stop] by simp
qed

theorem list_add_iterate_unlink_witness:
  "ring (add_after_self 1 2 (node_new (1::nat) \<lparr>l_prev = id, l_next = id\<rparr>)) 1 [2]"
  using list_add_iterate_unlink [of "node_new (1::nat) \<lparr>l_prev = id, l_next = id\<rparr>" 1 "[]" 2]
  by (simp add: ring_new)

end
