(* ===== verification/Bitset.thy ===== *)
theory Bitset
  imports Kernel_Prelude
begin

section \<open>The fixed-size bit set\<close>

text \<open>
  \<^verbatim>\<open>kernel/util/ds/bitset.hpp\<close>: \<^verbatim>\<open>ds::bitset<bits>\<close>, an array of 32-bit words with one bit per
  element. The template argument \<open>bits\<close> fixes the length of the array (\<open>int_count\<close>), which the
  model keeps as the length of the list \<open>m_set\<close>. The abstraction is the set of numbers whose bit
  is 1 (\<open>bitset_elems\<close>); the locale at the end states what the slab allocator relies on.
\<close>

record bitset =
  m_set :: "u32 list"

definition int_count :: "nat \<Rightarrow> nat" where
  "int_count bits = (bits + 31) div 32"

definition bitset_new :: "nat \<Rightarrow> bitset" where
  "bitset_new bits = \<lparr>m_set = replicate (int_count bits) 0\<rparr>"

definition bitset_set_bit :: "u32 \<Rightarrow> bitset \<Rightarrow> bitset res" where
  "bitset_set_bit index s =
    (let arr_index = drop_bit 5 index;
         b = push_bit (unat (index AND 0x1F)) 1
     in kbind (array_read (m_set s) (unat arr_index)) (\<lambda>w.
        kbind (array_write (m_set s) (unat arr_index) (w OR b)) (\<lambda>ws.
        Inr (s\<lparr>m_set := ws\<rparr>))))"

definition bitset_clear_bit :: "u32 \<Rightarrow> bitset \<Rightarrow> bitset res" where
  "bitset_clear_bit index s =
    (let arr_index = drop_bit 5 index;
         b = push_bit (unat (index AND 0x1F)) 1
     in kbind (array_read (m_set s) (unat arr_index)) (\<lambda>w.
        kbind (array_write (m_set s) (unat arr_index) (w AND NOT b)) (\<lambda>ws.
        Inr (s\<lparr>m_set := ws\<rparr>))))"

definition bitset_has_bit :: "u32 \<Rightarrow> bitset \<Rightarrow> bool res" where
  "bitset_has_bit index s =
    (let arr_index = drop_bit 5 index;
         b = push_bit (unat (index AND 0x1F)) 1
     in kbind (array_read (m_set s) (unat arr_index)) (\<lambda>w. Inr (w AND b \<noteq> 0)))"

text \<open>The \<^verbatim>\<open>for\<close> loop of \<open>find_bit\<close>, from word number \<open>i\<close> on; it returns \<^verbatim>\<open>-1\<close> past the end.\<close>

function bitset_find_bit_from :: "nat \<Rightarrow> bitset \<Rightarrow> u32 res" where
  "bitset_find_bit_from i s =
    (if i < length (m_set s) then
       (if m_set s ! i \<noteq> 0 then
          kbind (builtin_ctz (m_set s ! i)) (\<lambda>c. Inr (push_bit 5 (of_nat i) + of_nat c))
        else bitset_find_bit_from (Suc i) s)
     else Inr (- 1))"
  by pat_completeness auto
termination
  by (relation "measure (\<lambda>(i, s). length (m_set s) - i)") auto

definition bitset_find_bit :: "bitset \<Rightarrow> u32 res" where
  "bitset_find_bit s = bitset_find_bit_from 0 s"

text \<open>The first \<open>n\<close> words are overwritten by \<open>v\<close>: the loops of \<open>set_all_until\<close> and \<open>clear_all\<close>.\<close>

fun fill_words :: "nat \<Rightarrow> u32 \<Rightarrow> u32 list \<Rightarrow> u32 list res" where
  "fill_words 0 v ws = Inr ws"
| "fill_words (Suc n) v ws = kbind (fill_words n v ws) (\<lambda>ws'. array_write ws' n v)"

definition bitset_set_all_until :: "u32 \<Rightarrow> bitset \<Rightarrow> bitset res" where
  "bitset_set_all_until index s =
    (let ints_before = unat (drop_bit 5 index);
         remainder = unat (index AND 0x1F)
     in kbind (fill_words ints_before 0xFFFFFFFF (m_set s)) (\<lambda>ws.
        kbind (array_write ws ints_before (push_bit remainder 1 - 1)) (\<lambda>ws'.
        Inr (s\<lparr>m_set := ws'\<rparr>))))"

definition bitset_clear_all :: "bitset \<Rightarrow> bitset res" where
  "bitset_clear_all s =
    kbind (fill_words (length (m_set s)) 0 (m_set s)) (\<lambda>ws. Inr (s\<lparr>m_set := ws\<rparr>))"

text \<open>Are the first \<open>n\<close> words all equal to \<open>v\<close>? (the loop with its early \<^verbatim>\<open>return false\<close>)\<close>

function words_all_from :: "nat \<Rightarrow> nat \<Rightarrow> u32 \<Rightarrow> u32 list \<Rightarrow> bool res" where
  "words_all_from i n v ws =
    (if i < n then
       kbind (array_read ws i) (\<lambda>w. if w \<noteq> v then Inr False else words_all_from (Suc i) n v ws)
     else Inr True)"
  by pat_completeness auto
termination
  by (relation "measure (\<lambda>(i, n, v, ws). n - i)") auto

definition bitset_all_set_until :: "u32 \<Rightarrow> bitset \<Rightarrow> bool res" where
  "bitset_all_set_until index s =
    (let ints_before = unat (drop_bit 5 index);
         m = push_bit (unat (index AND 0x1F)) 1 - 1
     in kbind (words_all_from 0 ints_before 0xFFFFFFFF (m_set s)) (\<lambda>ok.
        if \<not> ok then Inr False
        else kbind (array_read (m_set s) ints_before) (\<lambda>w. Inr (w AND m = m))))"

definition bitset_all_clear_until :: "u32 \<Rightarrow> bitset \<Rightarrow> bool res" where
  "bitset_all_clear_until index s =
    (let ints_before = unat (drop_bit 5 index);
         m = push_bit (unat (index AND 0x1F)) 1 - 1
     in kbind (words_all_from 0 ints_before 0 (m_set s)) (\<lambda>ok.
        if \<not> ok then Inr False
        else kbind (array_read (m_set s) ints_before) (\<lambda>w. Inr (w AND m = 0))))"

definition bitset_all_clear :: "bitset \<Rightarrow> bool res" where
  "bitset_all_clear s = words_all_from 0 (length (m_set s)) 0 (m_set s)"

declare bitset_find_bit_from.simps [simp del] words_all_from.simps [simp del]

subsection \<open>Abstraction to a set of numbers\<close>

definition bitset_elems :: "bitset \<Rightarrow> nat set" where
  "bitset_elems s = word_bits (m_set s)"

definition bitset_cap :: "bitset \<Rightarrow> nat" where
  "bitset_cap s = 32 * length (m_set s)"

lemma bitset_elems_iff:
  "n \<in> bitset_elems s \<longleftrightarrow> n div 32 < length (m_set s) \<and> bit (m_set s ! (n div 32)) (n mod 32)"
  by (simp add: bitset_elems_def word_bits_iff)

lemma bitset_elems_cap: "bitset_elems s \<subseteq> {..<bitset_cap s}"
  by (auto simp: bitset_elems_def bitset_cap_def dest: word_bits_bound)

lemma bitset_elems_new: "bitset_elems (bitset_new bits) = {}"
  by (auto simp: bitset_elems_iff bitset_new_def)

lemma bitset_cap_word: "unat i < bitset_cap s \<Longrightarrow> unat i div 32 < length (m_set s)"
  by (simp add: bitset_cap_def less_mult_imp_div_less mult.commute)

lemma bitset_set_bit_spec:
  assumes "unat i < bitset_cap s"
  shows "\<exists>s'. bitset_set_bit i s = Inr s' \<and> bitset_elems s' = insert (unat i) (bitset_elems s) \<and>
    bitset_cap s' = bitset_cap s"
  using bitset_cap_word [OF assms]
  by (simp add: bitset_set_bit_def unat_simps bitset_elems_def word_bits_or bitset_cap_def)

lemma bitset_clear_bit_spec:
  assumes "unat i < bitset_cap s"
  shows "\<exists>s'. bitset_clear_bit i s = Inr s' \<and> bitset_elems s' = bitset_elems s - {unat i} \<and>
    bitset_cap s' = bitset_cap s"
  using bitset_cap_word [OF assms]
  by (simp add: bitset_clear_bit_def unat_simps bitset_elems_def word_bits_and_not bitset_cap_def)

lemma bitset_has_bit_spec:
  "unat i < bitset_cap s \<Longrightarrow> bitset_has_bit i s = Inr (unat i \<in> bitset_elems s)"
  by (simp add: bitset_has_bit_def bitset_elems_iff unat_simps bitset_cap_word)

lemma fill_words_spec:
  "n \<le> length ws \<Longrightarrow> fill_words n v ws = Inr (replicate n v @ drop n ws)"
proof (induction n)
  case (Suc n)
  then have "(replicate n v @ drop n ws)[n := v] = replicate (Suc n) v @ drop (Suc n) ws"
    by (simp add: list_update_append Cons_nth_drop_Suc [symmetric] replicate_app_Cons_same)
  with Suc show ?case by simp
qed simp

lemma bitset_clear_all_spec:
  "\<exists>s'. bitset_clear_all s = Inr s' \<and> bitset_elems s' = {} \<and> bitset_cap s' = bitset_cap s"
  by (auto simp: bitset_clear_all_def fill_words_spec bitset_elems_iff bitset_cap_def)

lemma words_all_from_spec:
  "n \<le> length ws \<Longrightarrow>
    words_all_from i n v ws = Inr (\<forall>j. i \<le> j \<and> j < n \<longrightarrow> ws ! j = v)"
proof (induction i n v ws rule: words_all_from.induct)
  case (1 i n v ws)
  show ?case
  proof (cases "i < n")
    case True
    have "(\<forall>j. i \<le> j \<and> j < n \<longrightarrow> ws ! j = v) \<longleftrightarrow>
        ws ! i = v \<and> (\<forall>j. Suc i \<le> j \<and> j < n \<longrightarrow> ws ! j = v)"
      using True by (metis Suc_leD Suc_leI le_antisym not_less_eq_eq order_refl)
    with 1 True show ?thesis
      by (subst words_all_from.simps) auto
  next
    case False
    then show ?thesis by (subst words_all_from.simps) auto
  qed
qed

text \<open>The mask \<^verbatim>\<open>(1 << r) - 1\<close> selects the bits below \<open>r\<close>.\<close>

lemma bit_low_mask: "r < 32 \<Longrightarrow> bit (push_bit r 1 - 1 :: u32) m \<longleftrightarrow> m < r"
proof -
  assume r: "r < 32"
  have "(push_bit r 1 - 1 :: u32) = mask r"
    by (simp add: mask_eq_exp_minus_1)
  then show ?thesis
    using r by (auto simp: bit_mask_iff)
qed

lemma bit_all_ones: "bit (0xFFFFFFFF :: u32) m \<longleftrightarrow> m < 32"
proof -
  have "(0xFFFFFFFF :: u32) = - 1"
    by simp
  then show ?thesis
    by (simp only: bit_minus_1_iff possible_bit_word) simp
qed

lemma bitset_set_all_until_spec:
  assumes "unat i < bitset_cap s" and "bitset_elems s = {}"
  shows "\<exists>s'. bitset_set_all_until i s = Inr s' \<and> bitset_elems s' = {..<unat i} \<and>
    bitset_cap s' = bitset_cap s"
proof -
  let ?q = "unat i div 32" and ?r = "unat i mod 32" and ?ws = "m_set s"
  have q: "?q < length ?ws"
    by (rule bitset_cap_word [OF assms(1)])
  have zero: "\<forall>w \<in> set ?ws. w = 0"
    using assms(2) by (simp add: bitset_elems_def word_bits_empty_iff)
  let ?ws' = "(replicate ?q 0xFFFFFFFF @ drop ?q ?ws)[?q := push_bit ?r 1 - 1]"
  have nth: "?ws' ! k = (if k < ?q then 0xFFFFFFFF else if k = ?q then push_bit ?r 1 - 1 else 0)"
    if "k < length ?ws" for k
    using q zero that by (auto simp: nth_list_update nth_append)
  have "n \<in> word_bits ?ws' \<longleftrightarrow> n div 32 < ?q \<or> n div 32 = ?q \<and> n mod 32 < ?r" for n
    using q nth [of "n div 32"] bit_low_mask [of ?r "n mod 32"] bit_all_ones [of "n mod 32"]
    by (auto simp: word_bits_iff simp del: push_bit_of_1 split: if_splits)
  then have "n \<in> word_bits ?ws' \<longleftrightarrow> n < unat i" for n
    by (simp only: less_div_mod_32 [of n "unat i"])
  then have "word_bits ?ws' = {..<unat i}"
    by auto
  with q show ?thesis
    by (simp add: bitset_set_all_until_def Let_def unat_simps fill_words_spec bitset_elems_def bitset_cap_def
        del: push_bit_of_1)
qed

lemma word_and_low_mask_eq_0:
  "r < 32 \<Longrightarrow> (w AND (push_bit r 1 - 1) = 0) \<longleftrightarrow> (\<forall>m < r. \<not> bit w m)" for w :: u32
  by (auto simp: bit_eq_iff bit_simps bit_low_mask simp del: push_bit_of_1 dest: less_trans)

lemma word_bits_below:
  assumes "i div 32 < length ws"
  shows "word_bits ws \<inter> {..<i} = {} \<longleftrightarrow>
    (\<forall>j < i div 32. ws ! j = 0) \<and> (\<forall>m < i mod 32. \<not> bit (ws ! (i div 32)) m)" (is "?L \<longleftrightarrow> ?R")
proof
  assume L: ?L
  have clear: "\<not> bit (ws ! j) m" if "j < i div 32 \<or> j = i div 32 \<and> m < i mod 32" "m < 32" for j m
  proof -
    have dm: "(32 * j + m) div 32 = j" "(32 * j + m) mod 32 = m"
      using that(2) by auto
    have "32 * j + m < i"
      unfolding less_div_mod_32 [of "32 * j + m" i] dm using that(1) .
    then show ?thesis
      using L assms that by (auto simp: word_bits_iff disjoint_iff dm dest!: spec [of _ "32 * j + m"])
  qed
  then have "\<forall>j < i div 32. ws ! j = 0"
    by (simp add: bit_eq_iff)
  moreover have "\<forall>m < i mod 32. \<not> bit (ws ! (i div 32)) m"
    using clear by (metis mod_less_divisor less_trans zero_less_numeral)
  ultimately show ?R ..
next
  assume R: ?R
  have "n \<notin> word_bits ws" if "n < i" for n
    using that R unfolding less_div_mod_32 [of n i] by (auto simp: word_bits_iff)
  then show ?L by auto
qed

lemma bitset_all_clear_until_spec:
  assumes "unat i < bitset_cap s"
  shows "bitset_all_clear_until i s = Inr (bitset_elems s \<inter> {..<unat i} = {})"
  using bitset_cap_word [OF assms]
  by (auto simp: bitset_all_clear_until_def Let_def unat_simps words_all_from_spec word_and_low_mask_eq_0
      bitset_elems_def word_bits_below simp del: push_bit_of_1)

text \<open>\<open>find_bit\<close> returns the least element, and \<^verbatim>\<open>-1\<close> on the empty set.\<close>

lemma unat_bit_index:
  "i < 134217728 \<Longrightarrow> c < 32 \<Longrightarrow> unat (push_bit 5 (of_nat i) + of_nat c :: u32) = 32 * i + c"
proof -
  assume "i < 134217728" and "c < 32"
  moreover have "(push_bit 5 (of_nat i) + of_nat c :: u32) = of_nat (32 * i + c)"
    by (simp add: push_bit_eq_mult)
  ultimately show ?thesis
    by (simp only: unat_of_nat_32)
qed

lemma bitset_find_bit_from_none:
  "\<forall>j. i \<le> j \<and> j < length (m_set s) \<longrightarrow> m_set s ! j = 0 \<Longrightarrow> bitset_find_bit_from i s = Inr (- 1)"
proof (induction i s rule: bitset_find_bit_from.induct)
  case (1 i s)
  then show ?case by (subst bitset_find_bit_from.simps) simp
qed

lemma bitset_find_bit_from_some:
  assumes "i \<le> k" and "k < length (m_set s)" and "m_set s ! k \<noteq> 0"
    and "\<And>j. i \<le> j \<Longrightarrow> j < k \<Longrightarrow> m_set s ! j = 0"
  shows "bitset_find_bit_from i s =
    Inr (push_bit 5 (of_nat k) + of_nat (trailing_zeros (m_set s ! k)))"
  using assms
proof (induction i s rule: bitset_find_bit_from.induct)
  case (1 i s)
  show ?case
  proof (cases "i = k")
    case True
    with 1 show ?thesis
      by (subst bitset_find_bit_from.simps) (simp add: builtin_ctz_def)
  next
    case False
    with 1 have "i < length (m_set s)" "m_set s ! i = 0" "Suc i \<le> k"
      by auto
    with 1 show ?thesis
      by (subst bitset_find_bit_from.simps) simp
  qed
qed

lemma bitset_find_bit_empty: "bitset_elems s = {} \<Longrightarrow> bitset_find_bit s = Inr (- 1)"
  unfolding bitset_find_bit_def
  by (rule bitset_find_bit_from_none) (simp add: bitset_elems_def word_bits_empty_iff)

lemma bitset_find_bit_spec:
  assumes "bitset_elems s \<noteq> {}" and "bitset_cap s < 4294967296"
  shows "\<exists>i. bitset_find_bit s = Inr i \<and> unat i \<in> bitset_elems s \<and>
    (\<forall>j \<in> bitset_elems s. unat i \<le> j)"
proof -
  let ?ws = "m_set s"
  have "\<exists>k. k < length ?ws \<and> ?ws ! k \<noteq> 0"
    using assms(1) by (metis bitset_elems_def in_set_conv_nth word_bits_empty_iff)
  then obtain k where k: "k < length ?ws" "?ws ! k \<noteq> 0"
      and "\<forall>j < k. \<not> (j < length ?ws \<and> ?ws ! j \<noteq> 0)"
    using exists_least_iff [of "\<lambda>k. k < length ?ws \<and> ?ws ! k \<noteq> 0"] by blast
  then have least: "\<And>j. j < k \<Longrightarrow> ?ws ! j = 0"
    by auto
  define i :: u32 where "i = push_bit 5 (of_nat k) + of_nat (trailing_zeros (?ws ! k))"
  have "bitset_find_bit s = Inr i"
    unfolding bitset_find_bit_def i_def
    by (rule bitset_find_bit_from_some) (use k least in auto)
  moreover have "unat i = 32 * k + trailing_zeros (?ws ! k)"
    unfolding i_def using k assms(2) trailing_zeros_spec(3) [OF k(2)]
    by (intro unat_bit_index) (auto simp: bitset_cap_def)
  ultimately show ?thesis
    using word_bits_lowest [OF k least] by (simp add: bitset_elems_def)
qed

subsection \<open>The interface the slab allocator uses\<close>

text \<open>
  A pool of numbered slots: find the lowest free slot, take it, give one back, and ask whether all
  slots below a bound are taken. The slab allocator's proofs rest on these laws only.
\<close>

locale slot_pool =
  fixes find :: "'s \<Rightarrow> u32 res"
    and take_slot :: "u32 \<Rightarrow> 's \<Rightarrow> 's res"
    and give_slot :: "u32 \<Rightarrow> 's \<Rightarrow> 's res"
    and none_until :: "u32 \<Rightarrow> 's \<Rightarrow> bool res"
    and free :: "'s \<Rightarrow> nat set"
    and cap :: "'s \<Rightarrow> nat"
  assumes free_cap: "free s \<subseteq> {..<cap s}"
    and find_free: "free s \<noteq> {} \<Longrightarrow> cap s < 4294967296 \<Longrightarrow>
      \<exists>i. find s = Inr i \<and> unat i \<in> free s \<and> (\<forall>j \<in> free s. unat i \<le> j)"
    and take_free: "unat i < cap s \<Longrightarrow>
      \<exists>s'. take_slot i s = Inr s' \<and> free s' = free s - {unat i} \<and> cap s' = cap s"
    and give_free: "unat i < cap s \<Longrightarrow>
      \<exists>s'. give_slot i s = Inr s' \<and> free s' = insert (unat i) (free s) \<and> cap s' = cap s"
    and none_free: "unat n < cap s \<Longrightarrow> none_until n s = Inr (free s \<inter> {..<unat n} = {})"
begin

lemma take_lowest:
  assumes "free s \<noteq> {}" and "cap s < 4294967296"
  shows "\<exists>i s'. find s = Inr i \<and> take_slot i s = Inr s' \<and> unat i \<in> free s \<and>
    (\<forall>j \<in> free s. unat i \<le> j) \<and> free s' = free s - {unat i} \<and> cap s' = cap s"
proof -
  obtain i where i: "find s = Inr i" "unat i \<in> free s" "\<forall>j \<in> free s. unat i \<le> j"
    using find_free [OF assms] by blast
  then have "unat i < cap s"
    using free_cap [of s] by auto
  from take_free [OF this] i show ?thesis by blast
qed

lemma take_then_give:
  assumes "unat i \<in> free s" and "take_slot i s = Inr s'"
  shows "\<exists>s''. give_slot i s' = Inr s'' \<and> free s'' = free s"
proof -
  have i: "unat i < cap s"
    using assms(1) free_cap [of s] by auto
  then have s': "free s' = free s - {unat i}" "cap s' = cap s"
    using take_free [OF i] assms(2) by auto
  then show ?thesis
    using give_free [of i s'] i assms(1) by (auto simp: insert_absorb)
qed

end

interpretation bits: slot_pool bitset_find_bit bitset_clear_bit bitset_set_bit bitset_all_clear_until
    bitset_elems bitset_cap
  by unfold_locales
    (simp_all add: bitset_elems_cap bitset_find_bit_spec bitset_clear_bit_spec bitset_set_bit_spec
      bitset_all_clear_until_spec)

subsection \<open>Property\<close>

text \<open>
  The bitset as a slot pool. On a nonempty bitset \<open>find_bit\<close> returns the least element; clearing it
  removes exactly that element, and setting it again restores the set.
\<close>

lemma bitset_find_clear_set:
  assumes "bitset_elems s \<noteq> {}" and "bitset_cap s < 4294967296"
  shows "\<exists>i s' s''. bitset_find_bit s = Inr i \<and> unat i \<in> bitset_elems s \<and> (\<forall>j \<in> bitset_elems s. unat i \<le> j) \<and>
    bitset_clear_bit i s = Inr s' \<and> bitset_elems s' = bitset_elems s - {unat i} \<and>
    bitset_set_bit i s' = Inr s'' \<and> bitset_elems s'' = bitset_elems s"
  using bits.take_lowest [OF assms] bits.take_then_give by metis

theorem bitset_find_clear_set_witness:
  "\<exists>i s' s''. bitset_find_bit \<lparr>m_set = [0, 40]\<rparr> = Inr i \<and> bitset_clear_bit i \<lparr>m_set = [0, 40]\<rparr> = Inr s' \<and>
    bitset_set_bit i s' = Inr s'' \<and> bitset_elems s'' = bitset_elems \<lparr>m_set = [0, 40]\<rparr>"
proof -
  have "bitset_elems \<lparr>m_set = [0, 40]\<rparr> \<noteq> {}"
    by (simp add: bitset_elems_def word_bits_empty_iff)
  from bitset_find_clear_set [OF this] show ?thesis
    by (auto simp: bitset_cap_def)
qed

end
