(* ===== verification/Slab.thy ===== *)
theory Slab
  imports Bitset Kmem_Safe
begin

section \<open>The slab allocator\<close>

text \<open>
  \<^verbatim>\<open>kernel/memory/slab.hpp\<close>: \<open>untyped_slab_allocator<N>\<close> hands out objects of \<open>N\<close> bytes. A slab is a block
  of pages with a header (\<open>m_bits\<close>: which objects are free, \<open>m_next\<close>: the next slab of the free list)
  followed by the objects. The sizes are computed at compile time from \<open>N\<close>. The headers are the store
  \<open>slabs\<close>, indexed by the address of the slab; pages come from the operation \<open>pages\<close>, which is
  \<open>kmem_alloc_pages<page_size>\<close>.
\<close>

subsection \<open>Sizes\<close>

definition get_metadata_size :: "nat \<Rightarrow> nat \<Rightarrow> nat" where
  "get_metadata_size N page_size =
    (let bits_in_set = page_size div N; bytes_for_set = (bits_in_set + 31) div 32 * 4
     in 4 + bytes_for_set)"

definition waste_pct :: "nat \<Rightarrow> nat \<Rightarrow> int" where
  "waste_pct N page_size =
    (if page_size < N then 1000
     else
       let waste_bytes = int (page_size - (page_size - get_metadata_size N page_size) div N * N)
       in 100 * waste_bytes div int page_size)"

definition get_page_size :: "nat \<Rightarrow> nat" where
  "get_page_size N =
    (let w1 = waste_pct N 4096; w2 = waste_pct N 8192; w3 = waste_pct N 16384; w4 = waste_pct N 32768
     in if w4 < w3 - 5 then 32768
        else if w3 < w2 - 5 then 16384
        else if w2 < w1 - 5 then 8192
        else 4096)"

definition num_objects_in_page :: "nat \<Rightarrow> nat" where
  "num_objects_in_page N = (get_page_size N - get_metadata_size N (get_page_size N)) div N"

definition slab_level :: "nat \<Rightarrow> level" where
  "slab_level N = (if get_page_size N = 4096 then K4 else if get_page_size N = 8192 then K8
     else if get_page_size N = 16384 then K16 else K32)"

subsection \<open>Operations\<close>

record slab =
  m_bits :: bitset
  m_next :: "u32 option"

record 's slab_allocator =
  m_free_list :: "u32 option"
  slabs :: "u32 \<Rightarrow> slab"
  page_state :: 's

text \<open>
  A new slab: its memory is not constructed, so the bits hold whatever the page contains (the page
  allocator fills pages with 0x41) until \<open>clear_all\<close>.
\<close>

definition fresh_bits :: "nat \<Rightarrow> bitset" where
  "fresh_bits N = \<lparr>m_set = replicate (int_count (get_page_size N div N)) 0x41414141\<rparr>"

definition new_slab :: "nat \<Rightarrow> ('s \<Rightarrow> (u32 \<times> 's) res) \<Rightarrow> 's slab_allocator \<Rightarrow> 's slab_allocator res" where
  "new_slab N pages a =
    kbind (pages (page_state a)) (\<lambda>(s, ps).
    kbind (bitset_clear_all (fresh_bits N)) (\<lambda>b1.
    kbind (bitset_set_all_until (of_nat (num_objects_in_page N)) b1) (\<lambda>b2.
    Inr (a\<lparr>m_free_list := Some s, slabs := (slabs a)(s := \<lparr>m_bits = b2, m_next = None\<rparr>), page_state := ps\<rparr>))))"

definition slab_allocate :: "nat \<Rightarrow> ('s \<Rightarrow> (u32 \<times> 's) res) \<Rightarrow> 's slab_allocator \<Rightarrow> (u32 \<times> 's slab_allocator) res" where
  "slab_allocate N pages a0 =
    kbind (if m_free_list a0 = None then new_slab N pages a0 else Inr a0) (\<lambda>a.
    case m_free_list a of
      None \<Rightarrow> Inl NullDeref
    | Some s \<Rightarrow>
        kbind (bitset_find_bit (m_bits (slabs a s))) (\<lambda>available_bit.
        kbind (bitset_clear_bit available_bit (m_bits (slabs a s))) (\<lambda>b.
        let a1 = a\<lparr>slabs := (slabs a)(s := (slabs a s)\<lparr>m_bits := b\<rparr>)\<rparr>
        in kbind (bitset_all_clear_until (of_nat (num_objects_in_page N)) b) (\<lambda>full.
           let a2 = (if full then a1\<lparr>m_free_list := m_next (slabs a1 s)\<rparr> else a1)
           in Inr (s + of_nat (get_metadata_size N (get_page_size N)) + of_nat N * available_bit, a2)))))"

definition slab_free :: "nat \<Rightarrow> u32 \<Rightarrow> 's slab_allocator \<Rightarrow> 's slab_allocator res" where
  "slab_free N ptr a =
    (let page_size = of_nat (get_page_size N);
         s = ptr div page_size * page_size;
         b = (ptr - s - of_nat (get_metadata_size N (get_page_size N))) div of_nat N
     in kbind (bitset_all_clear_until (of_nat (num_objects_in_page N)) (m_bits (slabs a s))) (\<lambda>full.
        let a1 = (if full
                  then a\<lparr>slabs := (slabs a)(s := (slabs a s)\<lparr>m_next := m_free_list a\<rparr>), m_free_list := Some s\<rparr>
                  else a)
        in kbind (bitset_set_bit b (m_bits (slabs a1 s))) (\<lambda>b'.
           Inr (a1\<lparr>slabs := (slabs a1)(s := (slabs a1 s)\<lparr>m_bits := b'\<rparr>)\<rparr>))))"

subsection \<open>The layout of a slab\<close>

text \<open>
  A size is fit for a slab when the header and the objects lie inside the pages and the bit set has a
  word past the last full one, which \<open>set_all_until\<close> and \<open>all_clear_until\<close> access.
\<close>

definition slab_fit :: "nat \<Rightarrow> bool" where
  "slab_fit N \<longleftrightarrow> 0 < N \<and> N < 4000 \<and> 0 < num_objects_in_page N \<and>
    num_objects_in_page N < 32 * int_count (get_page_size N div N)"

lemma get_page_size_cases: "get_page_size N \<in> {4096, 8192, 16384, 32768}"
  by (simp add: get_page_size_def Let_def)

lemma num_objects_fit:
  assumes "0 < num_objects_in_page N"
  shows "get_metadata_size N (get_page_size N) + num_objects_in_page N * N \<le> get_page_size N"
proof -
  let ?m = "get_metadata_size N (get_page_size N)"
  have "num_objects_in_page N * N \<le> get_page_size N - ?m"
    unfolding num_objects_in_page_def by (rule div_times_less_eq_dividend)
  moreover have "?m \<le> get_page_size N"
    using assms by (cases "?m \<le> get_page_size N") (simp_all add: num_objects_in_page_def)
  ultimately show ?thesis by linarith
qed

end
