(* ===== verification/Slab_Correct.thy ===== *)
theory Slab_Correct
  imports Slab
begin

section \<open>Correctness of the slab allocator\<close>

text \<open>
  The slab allocator is proved against what it needs of a page source (the locale \<open>page_source\<close>): a new
  block is one that is not held, lies at a multiple of its size, and does not wrap. The kernel page
  allocator is such a source for each of its four sizes, in two ways: in its full invariant, where it serves
  when it is ready, and in the weaker one of \<open>Kmem_Safe\<close>, which every history of calls keeps.
\<close>

subsection \<open>Interface: a source of pages\<close>

locale page_source =
  fixes pages :: "'s \<Rightarrow> (u32 \<times> 's) res"
    and psize :: nat
    and held :: "'s \<Rightarrow> u32 set"
    and valid :: "'s \<Rightarrow> bool"
    and ready :: "'s \<Rightarrow> bool"
  assumes pages_some: "valid s \<Longrightarrow> ready s \<Longrightarrow> \<exists>p s'. pages s = Inr (p, s')"
    and pages_new: "valid s \<Longrightarrow> ready s \<Longrightarrow> pages s = Inr (p, s') \<Longrightarrow>
      valid s' \<and> p \<notin> held s \<and> p \<in> held s' \<and> held s \<subseteq> held s' \<and> psize dvd unat p \<and> unat p + psize \<le> 2 ^ 32"

subsection \<open>Chains of slabs\<close>

fun next_chain :: "(u32 \<Rightarrow> u32 option) \<Rightarrow> u32 option \<Rightarrow> u32 list \<Rightarrow> bool" where
  "next_chain f q [] \<longleftrightarrow> q = None"
| "next_chain f q (x # xs) \<longleftrightarrow> q = Some x \<and> next_chain f (f x) xs"

lemma next_chain_cong: "(\<And>x. x \<in> set xs \<Longrightarrow> f x = g x) \<Longrightarrow> next_chain f q xs = next_chain g q xs"
  by (induction xs arbitrary: q) auto

text \<open>The free objects of a slab, and the address of an object.\<close>

definition slab_elems :: "'s slab_allocator \<Rightarrow> u32 \<Rightarrow> nat set" where
  "slab_elems a p = bitset_elems (m_bits (slabs a p))"

definition obj_addr :: "nat \<Rightarrow> u32 \<Rightarrow> nat \<Rightarrow> u32" where
  "obj_addr N p b = p + of_nat (get_metadata_size N (get_page_size N)) + of_nat N * of_nat b"

definition page_fit :: "nat \<Rightarrow> u32 \<Rightarrow> bool" where
  "page_fit N p \<longleftrightarrow> get_page_size N dvd unat p \<and> unat p + get_page_size N \<le> 2 ^ 32"

lemma unat_obj_addr:
  assumes "page_fit N p" and "b < num_objects_in_page N"
  shows "unat (obj_addr N p b) = unat p + get_metadata_size N (get_page_size N) + N * b"
    and "get_metadata_size N (get_page_size N) + N * b + N \<le> get_page_size N"
proof -
  let ?m = "get_metadata_size N (get_page_size N)"
  have "N * b + N \<le> num_objects_in_page N * N"
    using assms(2) mult_le_mono1 [of "Suc b" "num_objects_in_page N" N] by (simp add: mult.commute)
  then show le: "?m + N * b + N \<le> get_page_size N"
    using num_objects_fit [of N] assms(2) by linarith
  show "unat (obj_addr N p b) = unat p + ?m + N * b"
  proof (cases "N = 0")
    case True
    then have "obj_addr N p b = p + of_nat ?m" "?m < get_page_size N"
      using assms(2) by (auto simp: obj_addr_def num_objects_in_page_def)
    then show ?thesis
      using unat_add_of_nat [of p ?m] assms(1) True by (simp add: page_fit_def)
  next
    case False
    then have "unat p + (?m + N * b) < 4294967296"
      using le assms(1) by (simp add: page_fit_def)
    then show ?thesis
      using unat_add_of_nat [of p "?m + N * b"] by (simp add: obj_addr_def add.assoc)
  qed
qed

lemma obj_addr_decode:
  assumes fit: "page_fit N p" and b: "b < num_objects_in_page N" and N: "0 < N" "N < 4000"
  shows "obj_addr N p b div of_nat (get_page_size N) * of_nat (get_page_size N) = p" (is "?s = p")
    and "(obj_addr N p b - p - of_nat (get_metadata_size N (get_page_size N))) div of_nat N = of_nat b"
proof -
  let ?m = "get_metadata_size N (get_page_size N)" and ?z = "get_page_size N"
  note u = unat_obj_addr [OF fit b]
  have z: "unat (of_nat ?z :: u32) = ?z" "0 < ?z"
    using get_page_size_cases [of N] by (auto simp: unat_of_nat_32)
  obtain k where k: "unat p = ?z * k"
    using fit by (auto simp: page_fit_def)
  have "(?z * k + (?m + N * b)) div ?z = k"
    using u(2) z(2) N by (simp add: div_mult_self2 )
  then have "unat (obj_addr N p b) div ?z = k"
    using u(1) k by (simp add: add.assoc)
  then have q: "unat (obj_addr N p b div of_nat ?z) = k"
    by (simp add: unat_div_distrib z)
  have "unat ?s = k * ?z"
    using q z k unat_less_32 [of p] by (simp add: unat_word_ariths take_bit_eq_mod mult.commute)
  then show "?s = p"
    using k by (simp add: word_unat_eq_iff mult.commute)
  have "unat (of_nat N :: u32) = N"
    using N by (simp add: unat_of_nat_32)
  moreover have "N * b < 4294967296"
    using u(2) get_page_size_cases [of N] by auto
  moreover from this have bnd: "b < 4294967296"
    using N(1) by (intro le_less_trans [of b "N * b"]) simp_all
  ultimately have "unat ((of_nat N * of_nat b :: u32) div of_nat N) = b"
    using N(1) unat_of_nat_32 [of "N * b"] by (simp add: unat_div_distrib)
  then have "(of_nat N * of_nat b :: u32) div of_nat N = of_nat b"
    using bnd by (simp add: word_unat_eq_iff unat_of_nat_32)
  then show "(obj_addr N p b - p - of_nat ?m) div of_nat N = of_nat b"
    by (simp add: obj_addr_def)
qed

lemma obj_addr_inject:
  assumes "page_fit N p" and "page_fit N q" and "b < num_objects_in_page N" and "c < num_objects_in_page N"
    and "0 < N" and "N < 4000" and "obj_addr N p b = obj_addr N q c"
  shows "p = q \<and> b = c"
proof -
  have "p = q"
    using obj_addr_decode(1) [OF assms(1,3,5,6)] obj_addr_decode(1) [OF assms(2,4,5,6)] assms(7) by metis
  moreover have "N * b = N * c"
    using unat_obj_addr(1) [OF assms(1,3)] unat_obj_addr(1) [OF assms(2,4)] assms(7) \<open>p = q\<close> by (metis add_left_cancel)
  ultimately show ?thesis
    using assms(5) by (metis mult_left_cancel not_gr0)
qed

subsection \<open>The invariant\<close>

text \<open>
  \<open>slab_pages_ok\<close>: the slabs \<open>P\<close> are well formed and the free list is a chain of exactly those with a
  free object. \<open>live_objs\<close>: the addresses of the objects that are not free.
\<close>

definition slab_ok :: "nat \<Rightarrow> 's slab_allocator \<Rightarrow> u32 \<Rightarrow> bool" where
  "slab_ok N a p \<longleftrightarrow> page_fit N p \<and> slab_elems a p \<subseteq> {..<num_objects_in_page N} \<and>
    bitset_cap (m_bits (slabs a p)) = 32 * int_count (get_page_size N div N)"

definition slab_pages_ok :: "nat \<Rightarrow> u32 set \<Rightarrow> 's slab_allocator \<Rightarrow> bool" where
  "slab_pages_ok N P a \<longleftrightarrow> (\<forall>p \<in> P. slab_ok N a p) \<and>
    (\<exists>xs. next_chain (\<lambda>p. m_next (slabs a p)) (m_free_list a) xs \<and> distinct xs \<and>
       set xs = {p \<in> P. slab_elems a p \<noteq> {}})"

definition live_objs :: "nat \<Rightarrow> u32 set \<Rightarrow> 's slab_allocator \<Rightarrow> u32 set" where
  "live_objs N P a = {obj_addr N p b |p b. p \<in> P \<and> b < num_objects_in_page N \<and> b \<notin> slab_elems a p}"

lemma num_objects_32: "unat (of_nat (num_objects_in_page N) :: u32) = num_objects_in_page N"
proof -
  have "num_objects_in_page N \<le> get_page_size N"
    by (simp add: num_objects_in_page_def) (metis diff_le_self div_le_dividend le_trans)
  then show ?thesis
    using get_page_size_cases [of N] by (intro unat_of_nat_32) auto
qed

lemma slab_cap_bound: "slab_ok N a p \<Longrightarrow> bitset_cap (m_bits (slabs a p)) < 4294967296"
proof -
  have "get_page_size N \<le> 32768"
    using get_page_size_cases [of N] by auto
  then have "get_page_size N div N \<le> 32768"
    by (rule le_trans [OF div_le_dividend])
  then have "32 * int_count (get_page_size N div N) \<le> 32768 + 31"
    using times_div_less_eq_dividend [of 32 "get_page_size N div N + 31"] by (simp add: int_count_def)
  then show "slab_ok N a p \<Longrightarrow> ?thesis"
    by (simp add: slab_ok_def)
qed

text \<open>The test \<open>all_clear_until(num_objects_in_page)\<close> is the test for a full slab.\<close>

lemma full_test:
  assumes "slab_fit N" and "bitset_cap b = 32 * int_count (get_page_size N div N)"
    and "bitset_elems b \<subseteq> {..<num_objects_in_page N}"
  shows "bitset_all_clear_until (of_nat (num_objects_in_page N)) b = Inr (bitset_elems b = {})"
proof -
  have "unat (of_nat (num_objects_in_page N) :: u32) < bitset_cap b"
    using assms(1,2) by (simp add: num_objects_32 slab_fit_def)
  moreover have "bitset_elems b \<inter> {..<num_objects_in_page N} = bitset_elems b"
    using assms(3) by blast
  ultimately show ?thesis
    by (simp add: bitset_all_clear_until_spec num_objects_32)
qed

lemma allocate_from_list:
  assumes fit: "slab_fit N" and ok: "slab_pages_ok N P a" and head: "m_free_list a = Some s"
  shows "\<exists>b a'. slab_allocate N pages a = Inr (obj_addr N s b, a') \<and> s \<in> P \<and> b < num_objects_in_page N \<and>
    obj_addr N s b \<notin> live_objs N P a \<and> slab_pages_ok N P a' \<and>
    live_objs N P a' = insert (obj_addr N s b) (live_objs N P a) \<and> page_state a' = page_state a"
proof -
  obtain xs where xs: "next_chain (\<lambda>p. m_next (slabs a p)) (m_free_list a) xs" "distinct xs"
      "set xs = {p \<in> P. slab_elems a p \<noteq> {}}"
    using ok by (auto simp: slab_pages_ok_def)
  then obtain ys where ys: "xs = s # ys" "next_chain (\<lambda>p. m_next (slabs a p)) (m_next (slabs a s)) ys"
    using head by (cases xs) auto
  have s: "s \<in> P" "slab_elems a s \<noteq> {}" "slab_ok N a s"
    using xs(3) ys(1) ok by (auto simp: slab_pages_ok_def)
  obtain i b where b: "bitset_find_bit (m_bits (slabs a s)) = Inr i" "bitset_clear_bit i (m_bits (slabs a s)) = Inr b"
      "unat i \<in> slab_elems a s" "bitset_elems b = slab_elems a s - {unat i}"
      "bitset_cap b = bitset_cap (m_bits (slabs a s))"
    using bits.take_lowest [of "m_bits (slabs a s)"] s slab_cap_bound [OF s(3)] unfolding slab_elems_def by blast
  have i: "unat i < num_objects_in_page N"
    using b(3) s(3) by (auto simp: slab_ok_def)
  define a1 where "a1 = a\<lparr>slabs := (slabs a)(s := (slabs a s)\<lparr>m_bits := b\<rparr>)\<rparr>"
  define a' where "a' = (if bitset_elems b = {} then a1\<lparr>m_free_list := m_next (slabs a1 s)\<rparr> else a1)"
  have "bitset_all_clear_until (of_nat (num_objects_in_page N)) b = Inr (bitset_elems b = {})"
    using fit s(3) b(4,5) by (intro full_test) (auto simp: slab_ok_def)
  then have run: "slab_allocate N pages a = Inr (obj_addr N s (unat i), a')"
    using head b(1,2) by (simp add: slab_allocate_def obj_addr_def Let_def a1_def [symmetric] a'_def)
  have el: "slab_elems a' p = (if p = s then slab_elems a s - {unat i} else slab_elems a p)" for p
    using b(4) by (simp add: slab_elems_def a'_def a1_def)
  have nx: "m_next (slabs a' p) = m_next (slabs a p)" "bitset_cap (m_bits (slabs a' p)) = bitset_cap (m_bits (slabs a p))" for p
    using b(5) by (simp_all add: a'_def a1_def)
  have fr: "m_free_list a' = (if slab_elems a s - {unat i} = {} then m_next (slabs a s) else Some s)"
    using head b(4) by (simp add: a'_def a1_def)
  have "slab_pages_ok N P a'"
    unfolding slab_pages_ok_def
  proof (intro conjI ballI)
    fix p assume "p \<in> P"
    then show "slab_ok N a' p"
      using ok by (auto simp: slab_pages_ok_def slab_ok_def el nx)
  next
    let ?zs = "if slab_elems a s - {unat i} = {} then ys else xs"
    have "next_chain (\<lambda>p. m_next (slabs a' p)) (m_free_list a') ?zs"
      using ys xs(1) head by (simp add: nx fr)
    moreover have "set ?zs = {p \<in> P. slab_elems a' p \<noteq> {}}"
      using xs(2,3) ys(1) s by (auto simp: el)
    ultimately show "\<exists>xs. next_chain (\<lambda>p. m_next (slabs a' p)) (m_free_list a') xs \<and> distinct xs \<and>
        set xs = {p \<in> P. slab_elems a' p \<noteq> {}}"
      using xs(2) ys(1) by (intro exI [of _ ?zs]) auto
  qed
  moreover have "obj_addr N s (unat i) \<notin> live_objs N P a"
  proof
    assume "obj_addr N s (unat i) \<in> live_objs N P a"
    then obtain q c where q: "q \<in> P" "c < num_objects_in_page N" "c \<notin> slab_elems a q" "obj_addr N s (unat i) = obj_addr N q c"
      by (auto simp: live_objs_def)
    moreover have "page_fit N s" "page_fit N q"
      using q(1) s(3) ok by (auto simp: slab_pages_ok_def slab_ok_def)
    ultimately show False
      using obj_addr_inject [of N s q "unat i" c] i b(3) fit by (auto simp: slab_fit_def)
  qed
  moreover have "live_objs N P a' = insert (obj_addr N s (unat i)) (live_objs N P a)"
    using s(1) i by (auto simp: live_objs_def el)
  moreover have "page_state a' = page_state a"
    by (simp add: a'_def a1_def)
  ultimately show ?thesis
    using run s(1) i by blast
qed

text \<open>Giving an object back.\<close>

lemma slab_free_spec:
  assumes fit: "slab_fit N" and ok: "slab_pages_ok N P a" and p: "p \<in> P" "b < num_objects_in_page N" "b \<notin> slab_elems a p"
  shows "\<exists>a'. slab_free N (obj_addr N p b) a = Inr a' \<and> slab_pages_ok N P a' \<and>
    live_objs N P a' = live_objs N P a - {obj_addr N p b} \<and> page_state a' = page_state a"
proof -
  have okp: "slab_ok N a p" and N: "0 < N" "N < 4000"
    using ok p fit by (auto simp: slab_pages_ok_def slab_fit_def)
  then have pf: "page_fit N p"
    by (simp add: slab_ok_def)
  obtain xs where xs: "next_chain (\<lambda>p. m_next (slabs a p)) (m_free_list a) xs" "distinct xs"
      "set xs = {p \<in> P. slab_elems a p \<noteq> {}}"
    using ok by (auto simp: slab_pages_ok_def)
  have "num_objects_in_page N < 4294967296"
    using unat_less_32 [of "of_nat (num_objects_in_page N)"] by (simp only: num_objects_32)
  then have b': "unat (of_nat b :: u32) = b"
    using p(2) by (intro unat_of_nat_32) simp
  define full where "full \<longleftrightarrow> slab_elems a p = {}"
  define a1 where "a1 = (if full then a\<lparr>slabs := (slabs a)(p := (slabs a p)\<lparr>m_next := m_free_list a\<rparr>), m_free_list := Some p\<rparr> else a)"
  have bits1: "m_bits (slabs a1 q) = m_bits (slabs a q)" for q
    by (simp add: a1_def)
  have "b < bitset_cap (m_bits (slabs a p))"
    using okp p(2) fit by (simp add: slab_ok_def slab_fit_def)
  then obtain c where c: "bitset_set_bit (of_nat b) (m_bits (slabs a p)) = Inr c"
      "bitset_elems c = insert b (slab_elems a p)" "bitset_cap c = bitset_cap (m_bits (slabs a p))"
    using bitset_set_bit_spec [of "of_nat b" "m_bits (slabs a p)"] b' by (auto simp: slab_elems_def)
  define a' where "a' = a1\<lparr>slabs := (slabs a1)(p := (slabs a1 p)\<lparr>m_bits := c\<rparr>)\<rparr>"
  have "bitset_all_clear_until (of_nat (num_objects_in_page N)) (m_bits (slabs a p)) = Inr full"
    using full_test [OF fit, of "m_bits (slabs a p)"] okp by (simp add: slab_ok_def slab_elems_def full_def)
  then have run: "slab_free N (obj_addr N p b) a = Inr a'"
    using obj_addr_decode [OF pf p(2) N] c(1)
    by (simp add: slab_free_def Let_def a1_def a'_def)
  have el: "slab_elems a' q = (if q = p then insert b (slab_elems a p) else slab_elems a q)"
      and cap: "bitset_cap (m_bits (slabs a' q)) = bitset_cap (m_bits (slabs a q))" for q
    using c(2,3) bits1 by (simp_all add: slab_elems_def a'_def)
  have nx: "m_next (slabs a' q) = (if full \<and> q = p then m_free_list a else m_next (slabs a q))" for q
    by (simp add: a'_def a1_def)
  have fr: "m_free_list a' = (if full then Some p else m_free_list a)"
    by (simp add: a'_def a1_def)
  have "slab_pages_ok N P a'"
    unfolding slab_pages_ok_def
  proof (intro conjI ballI)
    fix q assume "q \<in> P"
    then show "slab_ok N a' q"
      using ok p(2) by (auto simp: slab_pages_ok_def slab_ok_def el cap)
  next
    let ?ys = "if full then p # xs else xs"
    have notin: "p \<notin> set xs" if full
      using that xs(3) by (simp add: full_def)
    then have "next_chain (\<lambda>q. m_next (slabs a' q)) (m_free_list a) xs = next_chain (\<lambda>q. m_next (slabs a q)) (m_free_list a) xs"
      by (intro next_chain_cong) (auto simp: nx)
    then have "next_chain (\<lambda>q. m_next (slabs a' q)) (m_free_list a') ?ys"
      using xs(1) by (cases full) (simp_all add: fr nx)
    moreover have "distinct ?ys" "set ?ys = {q \<in> P. slab_elems a' q \<noteq> {}}"
      using xs(2,3) notin p(1) by (auto simp: el full_def)
    ultimately show "\<exists>xs. next_chain (\<lambda>q. m_next (slabs a' q)) (m_free_list a') xs \<and> distinct xs \<and>
        set xs = {q \<in> P. slab_elems a' q \<noteq> {}}"
      by blast
  qed
  moreover have "live_objs N P a' = live_objs N P a - {obj_addr N p b}"
  proof -
    let ?f = "\<lambda>(q, c). obj_addr N q c" and ?L = "{(q, c). q \<in> P \<and> c < num_objects_in_page N \<and> c \<notin> slab_elems a q}"
    have "obj_addr N q c \<noteq> obj_addr N p b" if "q \<in> P" "c < num_objects_in_page N" "(q, c) \<noteq> (p, b)" for q c
      using obj_addr_inject [of N q p c b] that pf p(2) N ok by (auto simp: slab_pages_ok_def slab_ok_def)
    then have "?f ` (?L - {(p, b)}) = ?f ` ?L - {?f (p, b)}"
      by auto
    moreover have "live_objs N P a = ?f ` ?L"
      by (auto simp: live_objs_def)
    moreover have "live_objs N P a' = ?f ` {(q, c). q \<in> P \<and> c < num_objects_in_page N \<and> c \<notin> slab_elems a' q}"
      by (auto simp: live_objs_def)
    moreover have "{(q, c). q \<in> P \<and> c < num_objects_in_page N \<and> c \<notin> slab_elems a' q} = ?L - {(p, b)}"
      by (auto simp: el split: if_splits)
    ultimately show ?thesis
      by simp
  qed
  moreover have "page_state a' = page_state a"
    by (simp add: a'_def a1_def)
  ultimately show ?thesis
    using run by blast
qed

text \<open>
  Two live objects do not overlap, and each lies behind the header of its slab and inside its pages.
\<close>

lemma live_objs_disjoint:
  assumes ok: "slab_pages_ok N P a" and x: "x \<in> live_objs N P a" "y \<in> live_objs N P a" "x \<noteq> y"
  shows "{unat x ..< unat x + N} \<inter> {unat y ..< unat y + N} = {}"
proof -
  let ?m = "get_metadata_size N (get_page_size N)" and ?z = "get_page_size N"
  obtain p b where p: "x = obj_addr N p b" "b < num_objects_in_page N" "page_fit N p"
    using x(1) ok by (auto simp: live_objs_def slab_pages_ok_def slab_ok_def)
  obtain q c where q: "y = obj_addr N q c" "c < num_objects_in_page N" "page_fit N q"
    using x(2) ok by (auto simp: live_objs_def slab_pages_ok_def slab_ok_def)
  note u = unat_obj_addr [OF p(3,2)] unat_obj_addr [OF q(3,2)]
  obtain i j where ij: "unat p = ?z * i" "unat q = ?z * j"
    using p(3) q(3) by (auto simp: page_fit_def elim!: dvdE)
  show ?thesis
  proof (cases "p = q")
    case True
    then have "b \<noteq> c"
      using p(1) q(1) x(3) by auto
    then have "N * Suc b \<le> N * c \<or> N * Suc c \<le> N * b"
      by (metis Suc_leI linorder_neq_iff mult_le_mono2)
    with True u p(1) q(1) show ?thesis by auto
  next
    case False
    then have "i \<noteq> j"
      using ij by (auto simp: word_unat_eq_iff)
    then have "?z * Suc i \<le> ?z * j \<or> ?z * Suc j \<le> ?z * i"
      by (metis Suc_leI linorder_neq_iff mult_le_mono2)
    with u p(1) q(1) ij show ?thesis by auto
  qed
qed

lemma slab_pages_ok_frame:
  assumes "m_free_list a' = m_free_list a" and "slabs a' = slabs a"
  shows "slab_pages_ok N P a' = slab_pages_ok N P a" and "live_objs N P a' = live_objs N P a"
  using assms by (simp_all add: slab_pages_ok_def slab_ok_def slab_elems_def live_objs_def)

subsection \<open>The allocator over a page source\<close>

text \<open>
  The invariant with the set \<open>live\<close> of objects handed out: the slabs are pages that are held from the
  source, and the live objects are exactly the ones whose bit is 0.
\<close>

definition slab_inv :: "('s \<Rightarrow> u32 set) \<Rightarrow> ('s \<Rightarrow> bool) \<Rightarrow> nat \<Rightarrow> u32 set \<Rightarrow> 's slab_allocator \<Rightarrow> bool" where
  "slab_inv held valid N live a \<longleftrightarrow> valid (page_state a) \<and>
    (\<exists>P. P \<subseteq> held (page_state a) \<and> slab_pages_ok N P a \<and> live = live_objs N P a)"

context page_source
begin

lemma new_slab_spec:
  assumes fit: "slab_fit N" "psize = get_page_size N" and a: "valid (page_state a)" "ready (page_state a)"
    and P: "P \<subseteq> held (page_state a)" "slab_pages_ok N P a" "m_free_list a = None"
  shows "\<exists>s a'. new_slab N pages a = Inr a' \<and> m_free_list a' = Some s \<and> valid (page_state a') \<and>
    insert s P \<subseteq> held (page_state a') \<and> slab_pages_ok N (insert s P) a' \<and> live_objs N (insert s P) a' = live_objs N P a"
proof -
  obtain s ps where s: "pages (page_state a) = Inr (s, ps)"
    using pages_some [OF a] by blast
  note new = pages_new [OF a s]
  have "bitset_cap (fresh_bits N) = 32 * int_count (get_page_size N div N)"
    by (simp add: fresh_bits_def bitset_cap_def)
  then obtain b1 where b1: "bitset_clear_all (fresh_bits N) = Inr b1" "bitset_elems b1 = {}"
      "bitset_cap b1 = 32 * int_count (get_page_size N div N)"
    using bitset_clear_all_spec [of "fresh_bits N"] by auto
  then obtain b2 where b2: "bitset_set_all_until (of_nat (num_objects_in_page N)) b1 = Inr b2"
      "bitset_elems b2 = {..<num_objects_in_page N}" "bitset_cap b2 = 32 * int_count (get_page_size N div N)"
    using bitset_set_all_until_spec [of "of_nat (num_objects_in_page N)" b1] fit(1)
    by (auto simp: num_objects_32 slab_fit_def)
  define a' where "a' = a\<lparr>m_free_list := Some s, slabs := (slabs a)(s := \<lparr>m_bits = b2, m_next = None\<rparr>), page_state := ps\<rparr>"
  have run: "new_slab N pages a = Inr a'"
    using s b1(1) b2(1) by (simp add: new_slab_def a'_def)
  have "s \<notin> P"
    using new P(1) by auto
  have el: "slab_elems a' p = (if p = s then {..<num_objects_in_page N} else slab_elems a p)" for p
    using b2(2) by (simp add: slab_elems_def a'_def)
  have none: "slab_elems a p = {}" if p: "p \<in> P" for p
  proof -
    obtain xs where xs: "next_chain (\<lambda>p. m_next (slabs a p)) None xs" "set xs = {p \<in> P. slab_elems a p \<noteq> {}}"
      using P(2,3) by (auto simp: slab_pages_ok_def)
    then have "xs = []" by (cases xs) auto
    with xs(2) p show ?thesis by auto
  qed
  have ok: "slab_ok N a' p" if "p \<in> insert s P" for p
    using that P(2) new fit(2) b2(3) by (auto simp: slab_pages_ok_def slab_ok_def el page_fit_def) (auto simp: a'_def)
  have "next_chain (\<lambda>p. m_next (slabs a' p)) (m_free_list a') [s]"
    by (simp add: a'_def)
  moreover have "{..<num_objects_in_page N} \<noteq> {}"
    using fit(1) by (simp add: slab_fit_def lessThan_empty_iff)
  then have "set [s] = {p \<in> insert s P. slab_elems a' p \<noteq> {}}"
    using none \<open>s \<notin> P\<close> by (auto simp: el)
  ultimately have "slab_pages_ok N (insert s P) a'"
    using ok unfolding slab_pages_ok_def by (metis distinct_singleton)
  moreover have "live_objs N (insert s P) a' = live_objs N P a"
    using \<open>s \<notin> P\<close> by (auto simp: live_objs_def el split: if_splits)
  moreover have "valid (page_state a')" "insert s P \<subseteq> held (page_state a')" "m_free_list a' = Some s"
    using new P(1) by (auto simp: a'_def)
  ultimately show ?thesis
    using run by blast
qed

lemma slab_allocate_correct:
  assumes fit: "slab_fit N" "psize = get_page_size N" and inv: "slab_inv held valid N live a"
    and ready: "m_free_list a = None \<Longrightarrow> ready (page_state a)"
  shows "\<exists>ptr a'. slab_allocate N pages a = Inr (ptr, a') \<and> ptr \<notin> live \<and> slab_inv held valid N (insert ptr live) a'"
proof -
  obtain P where P: "P \<subseteq> held (page_state a)" "slab_pages_ok N P a" "live = live_objs N P a" "valid (page_state a)"
    using inv by (auto simp: slab_inv_def)
  obtain Q a1 s where a1: "kbind (if m_free_list a = None then new_slab N pages a else Inr a) f = f a1"
      "m_free_list a1 = Some s" "Q \<subseteq> held (page_state a1)" "slab_pages_ok N Q a1" "live = live_objs N Q a1"
      "valid (page_state a1)" for f :: "'s slab_allocator \<Rightarrow> (u32 \<times> 's slab_allocator) res"
  proof (cases "m_free_list a")
    case None
    then obtain s a' where "new_slab N pages a = Inr a'" "m_free_list a' = Some s" "valid (page_state a')"
        "insert s P \<subseteq> held (page_state a')" "slab_pages_ok N (insert s P) a'" "live_objs N (insert s P) a' = live_objs N P a"
      using new_slab_spec [OF fit P(4) ready [OF None] P(1,2) None] by blast
    with None P(3) show thesis
      by (intro that [of a' s "insert s P"]) auto
  next
    case (Some s)
    with P show thesis
      by (intro that [of a s P]) auto
  qed
  have eq: "slab_allocate N pages a = slab_allocate N pages a1"
    unfolding slab_allocate_def [of N pages a] a1(1) unfolding slab_allocate_def [of N pages a1] using a1(2) by simp
  obtain b a' where "slab_allocate N pages a1 = Inr (obj_addr N s b, a')" "obj_addr N s b \<notin> live_objs N Q a1"
      "slab_pages_ok N Q a'" "live_objs N Q a' = insert (obj_addr N s b) (live_objs N Q a1)" "page_state a' = page_state a1"
    using allocate_from_list [OF fit(1) a1(4,2)] by blast
  with eq a1(3,5,6) show ?thesis
    unfolding slab_inv_def by metis
qed

lemma slab_free_correct:
  assumes fit: "slab_fit N" and inv: "slab_inv held valid N live a" and ptr: "ptr \<in> live"
  shows "\<exists>a'. slab_free N ptr a = Inr a' \<and> slab_inv held valid N (live - {ptr}) a'"
proof -
  obtain P where P: "P \<subseteq> held (page_state a)" "slab_pages_ok N P a" "live = live_objs N P a" "valid (page_state a)"
    using inv by (auto simp: slab_inv_def)
  then obtain p b where "ptr = obj_addr N p b" "p \<in> P" "b < num_objects_in_page N" "b \<notin> slab_elems a p"
    using ptr by (auto simp: live_objs_def)
  with slab_free_spec [OF fit P(2)] obtain a' where "slab_free N ptr a = Inr a'" "slab_pages_ok N P a'"
      "live_objs N P a' = live_objs N P a - {ptr}" "page_state a' = page_state a"
    by metis
  with P show ?thesis
    unfolding slab_inv_def by metis
qed

lemma slab_live_disjoint:
  "slab_inv held valid N live a \<Longrightarrow> x \<in> live \<Longrightarrow> y \<in> live \<Longrightarrow> x \<noteq> y \<Longrightarrow>
    {unat x ..< unat x + N} \<inter> {unat y ..< unat y + N} = {}"
  unfolding slab_inv_def using live_objs_disjoint by blast

lemma slab_inv_empty: "valid (page_state a) \<Longrightarrow> m_free_list a = None \<Longrightarrow> slab_inv held valid N {} a"
  unfolding slab_inv_def slab_pages_ok_def live_objs_def
  by (intro conjI exI [of _ "{}"]) (auto intro: exI [of _ "[]"])

end

subsection \<open>The kernel page allocator as a page source\<close>

definition kmem_valid :: "kstate \<Rightarrow> bool" where
  "kmem_valid st \<longleftrightarrow> kmem_inv (unat (buddy_array_pos st)) st"

definition kmem_ready :: "level \<Rightarrow> kstate \<Rightarrow> bool" where
  "kmem_ready l st \<longleftrightarrow> (\<exists>j < unat (buddy_array_pos st). blocks (buds st (Bud j)) l \<noteq> {}) \<or>
    free_pages (unat (buddy_array_pos st)) (buds st) = {} \<and> can_grow (unat (buddy_array_pos st)) st"

definition kmem_held :: "level \<Rightarrow> kstate \<Rightarrow> u32 set" where
  "kmem_held l st = {p. is_block (unat (buddy_array_pos st)) st (l, p) \<and>
     block_set st (l, p) \<inter> free_pages (unat (buddy_array_pos st)) (buds st) = {}}"

lemma block_addr_size_dvd:
  assumes "layout n st" and "j < n" and "i < nblocks l"
  shows "2 ^ block_shift l dvd unat (block_addr st j l i)" and "unat (block_addr st j l i) + 2 ^ block_shift l \<le> 2 ^ 32"
proof -
  have u: "unat (block_addr st j l i) = unat (buddy_array st) + unat (buddy_array_size st) + block_offset j l i"
    using unat_block_addr_layout assms by blast
  have "(2 :: nat) ^ block_shift l dvd 2 ^ 15" "(2 :: nat) ^ block_shift l dvd block_offset j l i"
    unfolding block_offset_def
    by (cases l; simp add: block_shift_def le_imp_power_dvd; intro dvd_add dvd_mult; simp)+
  moreover have "2 ^ 15 dvd unat (buddy_array st) + unat (buddy_array_size st)"
    using assms(1) by (simp add: layout_def)
  ultimately show "2 ^ block_shift l dvd unat (block_addr st j l i)"
    unfolding u by (metis dvd_add dvd_trans)
  have "j * 2 ^ 19 + 2 ^ 19 \<le> n * 2 ^ 19"
    using assms(2) mult_le_mono1 [of "Suc j" n "2 ^ 19"] by simp
  then have "block_offset j l i + 2 ^ block_shift l \<le> n * 2 ^ 19"
    using block_shift_bound [OF assms(3)] unfolding block_offset_def by linarith
  then show "unat (block_addr st j l i) + 2 ^ block_shift l \<le> 2 ^ 32"
    using assms(1) unfolding u layout_def by linarith
qed

lemma layout_pos: "layout n st \<Longrightarrow> unat (buddy_array_pos st) = n"
  by (simp add: layout_def)

lemma held_grows:
  assumes lay: "layout n st" "layout m st'" "n \<le> m"
    and ji: "j < m" "i < nblocks l" and addr: "block_addr st' = block_addr st" "pages_start st' = pages_start st"
    and new: "{j} \<times> pages_of l i \<subseteq> free_pages n (buds st) \<union> {n ..< m} \<times> {..<128}"
    and free: "free_pages m (buds st') \<subseteq> free_pages n (buds st) \<union> {n ..< m} \<times> {..<128} - {j} \<times> pages_of l i"
  shows "block_addr st j l i \<notin> kmem_held l st" and "block_addr st j l i \<in> kmem_held l st'"
    and "kmem_held l st \<subseteq> kmem_held l st'"
proof -
  let ?p = "block_addr st j l i"
  note pos = layout_pos [OF lay(1)] layout_pos [OF lay(2)]
  have same: "block_set st' = block_set st"
    by (intro ext) (simp add: block_set_def locate_def addr(2))
  have b: "block_set st (l, ?p) = {j} \<times> pages_of l i"
    using layout_bound [OF lay(2) ji(1)] ji(2) by (simp add: block_set_block_addr)
  have old: "is_block n st (l, q)" "block_set st (l, q) \<inter> free_pages n (buds st) = {}" "block_set st (l, q) \<subseteq> {..<n} \<times> UNIV"
    if "q \<in> kmem_held l st" for q
    using that is_block_layout [OF lay(1), of "(l, q)"] by (auto simp: kmem_held_def pos)
  show "?p \<notin> kmem_held l st"
  proof
    assume p: "?p \<in> kmem_held l st"
    have "{j} \<times> pages_of l i \<inter> (free_pages n (buds st) \<union> {n ..< m} \<times> {..<128}) = {}"
      using old(2,3) [OF p] unfolding b by fastforce
    then show False
      using new pages_of_nonempty [of l i] by blast
  qed
  show "?p \<in> kmem_held l st'"
    using b ji free unfolding kmem_held_def pos same is_block_def addr by auto
  show "kmem_held l st \<subseteq> kmem_held l st'"
  proof
    fix q assume q: "q \<in> kmem_held l st"
    then have "is_block m st' (l, q)"
      using old(1) [OF q] lay(3) addr(1) by (auto simp: is_block_def intro: less_le_trans)
    moreover have "block_set st (l, q) \<inter> free_pages m (buds st') = {}"
      using old(2,3) [OF q] free by fastforce
    ultimately show "q \<in> kmem_held l st'"
      by (simp add: kmem_held_def pos same)
  qed
qed

lemma hands_out_held:
  assumes inv: "kmem_valid st" and out: "hands_out l (unat (buddy_array_pos st)) st p m j i st'"
  shows "p \<notin> kmem_held l st" and "p \<in> kmem_held l st'" and "kmem_held l st \<subseteq> kmem_held l st'"
proof -
  let ?n = "unat (buddy_array_pos st)"
  note o = hands_outD [OF out]
  have lay: "layout ?n st" "layout m st'" "?n \<le> m"
    using inv o(4,5) kmem_inv_layout by (auto simp: kmem_valid_def)
  note held = held_grows [OF lay o(2,3,11,10) hands_out_pages [OF out]]
  show "p \<notin> kmem_held l st" and "p \<in> kmem_held l st'" and "kmem_held l st \<subseteq> kmem_held l st'"
    using held o(6) unfolding o(1) by simp_all
qed

interpretation kpages: page_source "kmem_alloc_pages l" "2 ^ block_shift l" "kmem_held l" kmem_valid "kmem_ready l" for l
proof
  fix s :: kstate
  assume s: "kmem_valid s" "kmem_ready l s"
  obtain p m j i s' where r: "kmem_alloc_pages l s = Inr (p, s')" "hands_out l (unat (buddy_array_pos s)) s p m j i s'"
    using kmem_alloc_pages_spec [OF s [unfolded kmem_valid_def kmem_ready_def]] .
  then show "\<exists>p s'. kmem_alloc_pages l s = Inr (p, s')"
    by blast
  fix q t
  assume "kmem_alloc_pages l s = Inr (q, t)"
  then have qt: "q = p" "t = s'"
    using r(1) by simp_all
  note o = hands_outD [OF r(2)]
  have "kmem_valid s'"
    using o(4) by (simp add: kmem_valid_def kmem_inv_def)
  moreover have "p = block_addr s' j l i"
    using o(1,11) by simp
  ultimately show "kmem_valid t \<and> q \<notin> kmem_held l s \<and> q \<in> kmem_held l t \<and> kmem_held l s \<subseteq> kmem_held l t \<and>
      2 ^ block_shift l dvd unat q \<and> unat q + 2 ^ block_shift l \<le> 2 ^ 32"
    unfolding qt using hands_out_held [OF s(1) r(2)] block_addr_size_dvd [OF kmem_inv_layout [OF o(4)] o(2,3)] by simp
qed




subsection \<open>Properties\<close>

lemma slab_level_size: "2 ^ block_shift (slab_level N) = get_page_size N"
  using get_page_size_cases [of N] by (auto simp: slab_level_def block_shift_def)

abbreviation kslab_inv :: "nat \<Rightarrow> u32 set \<Rightarrow> kstate slab_allocator \<Rightarrow> bool" where
  "kslab_inv N \<equiv> slab_inv (kmem_held (slab_level N)) kmem_valid N"

text \<open>
  C7: The slab allocator over the kernel's page allocator. In its invariant, \<open>allocate\<close> returns an object
  that is not live and overlaps no live object, taking a new slab when no slab has a free object;
  freeing the object again succeeds and leads back to the same live objects.
\<close>

theorem slab_allocate_free:
  assumes "slab_fit N" and "slab_inv (kmem_held (slab_level N)) kmem_valid N live a"
    and "m_free_list a = None \<Longrightarrow> kmem_ready (slab_level N) (page_state a)"
  shows "\<exists>ptr a' a''. slab_allocate N (kmem_alloc_pages (slab_level N)) a = Inr (ptr, a') \<and> ptr \<notin> live \<and>
    slab_inv (kmem_held (slab_level N)) kmem_valid N (insert ptr live) a' \<and>
    (\<forall>q \<in> live. {unat ptr ..< unat ptr + N} \<inter> {unat q ..< unat q + N} = {}) \<and>
    slab_free N ptr a' = Inr a'' \<and> slab_inv (kmem_held (slab_level N)) kmem_valid N live a''"
proof -
  obtain ptr a' where p: "slab_allocate N (kmem_alloc_pages (slab_level N)) a = Inr (ptr, a')" "ptr \<notin> live"
      "kslab_inv N (insert ptr live) a'"
    using kpages.slab_allocate_correct [OF assms(1) slab_level_size assms(2)] assms(3) by blast
  moreover have "\<forall>q \<in> live. {unat ptr ..< unat ptr + N} \<inter> {unat q ..< unat q + N} = {}"
    using kpages.slab_live_disjoint [OF p(3)] p(2) by auto
  moreover obtain a'' where "slab_free N ptr a' = Inr a''" "kslab_inv N live a''"
    using kpages.slab_free_correct [OF assms(1) p(3), of ptr] p(2) by auto
  ultimately show ?thesis by blast
qed


lemma slab_fit_16: "slab_fit 16" "slab_level 16 = K4" "num_objects_in_page 16 = 253"
proof -
  have "get_page_size 16 = 4096"
    by (simp add: get_page_size_def waste_pct_def get_metadata_size_def Let_def)
  then show "slab_fit 16" "slab_level 16 = K4" "num_objects_in_page 16 = 253"
    by (simp_all add: slab_fit_def slab_level_def num_objects_in_page_def get_metadata_size_def int_count_def)
qed

definition empty_allocator :: "kstate slab_allocator" where
  "empty_allocator = \<lparr>m_free_list = None, slabs = (\<lambda>p. \<lparr>m_bits = \<lparr>m_set = []\<rparr>, m_next = None\<rparr>), page_state = boot_state\<rparr>"

lemma boot_valid: "kmem_valid boot_state" "kmem_ready l boot_state"
proof -
  have n: "unat (buddy_array_pos boot_state) = 1"
    by (simp add: boot_state_def)
  show "kmem_valid boot_state"
    unfolding kmem_valid_def n by (rule boot_inv)
  have "blocks (buds boot_state (Bud 0)) l \<noteq> {}"
    by (cases l) (simp_all add: boot_blocks nblocks_def lessThan_empty_iff)
  then show "kmem_ready l boot_state"
    unfolding kmem_ready_def n by blast
qed

lemma empty_allocator_inv: "kslab_inv N {} empty_allocator"
  by (rule kpages.slab_inv_empty) (simp_all add: empty_allocator_def boot_valid)

theorem slab_allocate_free_witness:
  "\<exists>ptr a' a''. slab_allocate 16 (kmem_alloc_pages (slab_level 16)) empty_allocator = Inr (ptr, a') \<and>
    slab_free 16 ptr a' = Inr a'' \<and> slab_inv (kmem_held (slab_level 16)) kmem_valid 16 {} a''"
proof -
  have "kmem_ready (slab_level 16) (page_state empty_allocator)"
    by (simp add: empty_allocator_def boot_valid)
  with slab_allocate_free [OF slab_fit_16(1) empty_allocator_inv] show ?thesis by blast
qed












end
