(* ===== verification/Hashtable.thy ===== *)
theory Hashtable
  imports Linked_List Slab_Correct
begin

section \<open>Hash tables\<close>

text \<open>
  \<^verbatim>\<open>kernel/util/ds/hashtable.hpp\<close>: \<open>hashtable<N>\<close>, an array of \<open>N\<close> links, each the first node of a ring of
  links (\<open>__ht_link\<close>) with the same hash. A link holds a key and an object pointer (\<open>None\<close> is null); an
  array link with a null object is unused. Further links come from a slab allocator, which is the
  pair of operations \<open>link_alloc\<close> and \<open>link_free\<close>. The preemption and interrupt locks that the
  operations take and release have no effect on the table.
\<close>

subsection \<open>Data and operations\<close>

datatype hptr = ArrLink nat | HeapLink u32

record 's hashtable =
  ht_links :: "hptr node_links"
  ht_key :: "hptr \<Rightarrow> u32"
  ht_obj :: "hptr \<Rightarrow> u32 option"
  ht_alloc :: 's

text \<open>The constructor \<open>__ht_link\<close> on a node, and the table with all its array links constructed.\<close>

definition ht_link_new :: "hptr \<Rightarrow> 's hashtable \<Rightarrow> 's hashtable" where
  "ht_link_new p t = t\<lparr>ht_links := node_new p (ht_links t), ht_key := (ht_key t)(p := 0),
     ht_obj := (ht_obj t)(p := None)\<rparr>"

definition hashtable_new :: "nat \<Rightarrow> 's hashtable \<Rightarrow> 's hashtable" where
  "hashtable_new N t = fold (\<lambda>h. ht_link_new (ArrLink h)) [0..<N] t"

definition hash :: "nat \<Rightarrow> u32 \<Rightarrow> nat" where
  "hash N val = unat (val * 0x61C88647 AND (of_nat N - 1))"

definition lookup_internal :: "u32 \<Rightarrow> nat \<Rightarrow> 's hashtable \<Rightarrow> hptr option res" where
  "lookup_internal key h t =
    (case ring_find (ht_links t) (\<lambda>p. ht_key t p = key) (ArrLink h) of
       None \<Rightarrow> Inl OutOfFuel | Some r \<Rightarrow> Inr r)"

definition ht_insert :: "nat \<Rightarrow> ('s \<Rightarrow> (u32 \<times> 's) res) \<Rightarrow> u32 \<Rightarrow> u32 option \<Rightarrow> 's hashtable \<Rightarrow> 's hashtable res" where
  "ht_insert N link_alloc key val t =
    kbind (kassert (val \<noteq> None)) (\<lambda>_.
    let h = hash N key
    in if ht_obj t (ArrLink h) = None
       then Inr (t\<lparr>ht_key := (ht_key t)(ArrLink h := key), ht_obj := (ht_obj t)(ArrLink h := val)\<rparr>)
       else
         kbind (link_alloc (ht_alloc t)) (\<lambda>(q, s).
         let p = HeapLink q;
             t1 = ht_link_new p (t\<lparr>ht_alloc := s\<rparr>);
             t2 = t1\<lparr>ht_key := (ht_key t1)(p := key), ht_obj := (ht_obj t1)(p := val)\<rparr>
         in Inr (t2\<lparr>ht_links := add_after_self (ArrLink h) p (ht_links t2)\<rparr>)))"

text \<open>Freeing a link; an array link is not slab memory.\<close>

definition free_link :: "(u32 \<Rightarrow> 's \<Rightarrow> 's res) \<Rightarrow> hptr \<Rightarrow> 's hashtable \<Rightarrow> 's hashtable res" where
  "free_link link_free p t =
    (case p of ArrLink h \<Rightarrow> Inl Undefined
     | HeapLink q \<Rightarrow> kbind (link_free q (ht_alloc t)) (\<lambda>s. Inr (t\<lparr>ht_alloc := s\<rparr>)))"

definition ht_remove :: "nat \<Rightarrow> (u32 \<Rightarrow> 's \<Rightarrow> 's res) \<Rightarrow> u32 \<Rightarrow> 's hashtable \<Rightarrow> (bool \<times> 's hashtable) res" where
  "ht_remove N link_free key t =
    (let h = hash N key
     in kbind (lookup_internal key h t) (\<lambda>r.
        case r of
          None \<Rightarrow> Inr (False, t)
        | Some link \<Rightarrow>
            if link = ArrLink h then
              (if get_next (ht_links t) link = link
               then Inr (True, t\<lparr>ht_obj := (ht_obj t)(link := None)\<rparr>)
               else
                 let nxt = get_next (ht_links t) link;
                     t1 = t\<lparr>ht_key := (ht_key t)(link := ht_key t nxt), ht_obj := (ht_obj t)(link := ht_obj t nxt),
                            ht_links := unlink nxt (ht_links t)\<rparr>
                 in kbind (free_link link_free nxt t1) (\<lambda>t2. Inr (True, t2)))
            else
              kbind (free_link link_free link (t\<lparr>ht_links := unlink link (ht_links t)\<rparr>)) (\<lambda>t1. Inr (True, t1))))"

definition ht_lookup :: "nat \<Rightarrow> u32 \<Rightarrow> 's hashtable \<Rightarrow> u32 option res" where
  "ht_lookup N key t =
    kbind (lookup_internal key (hash N key) t) (\<lambda>r.
    case r of None \<Rightarrow> Inr None | Some link \<Rightarrow> Inr (ht_obj t link))"

subsection \<open>Invariant and abstraction\<close>

definition bucket :: "'s hashtable \<Rightarrow> nat \<Rightarrow> u32 list \<Rightarrow> bool" where
  "bucket t h qs \<longleftrightarrow> ring (ht_links t) (ArrLink h) (map HeapLink qs) \<and>
    (ht_obj t (ArrLink h) = None \<longrightarrow> qs = []) \<and> (\<forall>q \<in> set qs. ht_obj t (HeapLink q) \<noteq> None)"

text \<open>The entries of a bucket, as an association list in ring order.\<close>

definition entries :: "'s hashtable \<Rightarrow> nat \<Rightarrow> u32 list \<Rightarrow> (u32 \<times> u32) list" where
  "entries t h qs =
    (if ht_obj t (ArrLink h) = None then []
     else map (\<lambda>p. (ht_key t p, the (ht_obj t p))) (ArrLink h # map HeapLink qs))"

definition ht_inv :: "nat \<Rightarrow> u32 set \<Rightarrow> (nat \<Rightarrow> u32 list) \<Rightarrow> 's hashtable \<Rightarrow> bool" where
  "ht_inv N L Q t \<longleftrightarrow>
    (\<forall>h < N. bucket t h (Q h) \<and> distinct (map fst (entries t h (Q h))) \<and>
       (\<forall>(k, v) \<in> set (entries t h (Q h)). hash N k = h)) \<and>
    (\<forall>h < N. \<forall>g < N. h \<noteq> g \<longrightarrow> set (Q h) \<inter> set (Q g) = {}) \<and>
    (\<forall>h < N. set (Q h) \<subseteq> L)"

definition table :: "nat \<Rightarrow> (nat \<Rightarrow> u32 list) \<Rightarrow> 's hashtable \<Rightarrow> u32 \<Rightarrow> u32 option" where
  "table N Q t k = map_of (entries t (hash N k) (Q (hash N k))) k"

lemma hash_less:
  assumes "N = 2 ^ e" and "e < 32"
  shows "hash N k < N"
proof -
  have "(of_nat N - 1 :: u32) = mask e"
    using assms(1) by (simp add: mask_eq_exp_minus_1)
  then show ?thesis
    unfolding hash_def assms(1) by (simp add: unat_and_mask)
qed

lemma bucket_nodes: "ring L (ArrLink h) (map HeapLink qs) \<Longrightarrow> distinct qs"
  by (auto simp: ring_def distinct_map)

lemma find_map: "find P (map f xs) = map_option f (find (P \<circ> f) xs)"
  by (induction xs) auto

lemma lookup_internal_bucket:
  assumes "bucket t h qs"
  shows "lookup_internal k h t = Inr (find (\<lambda>p. ht_key t p = k) (ArrLink h # map HeapLink qs))"
proof -
  have "ring (ht_links t) (ArrLink h) (map HeapLink qs)"
    using assms by (simp add: bucket_def)
  from ring_find_eq [OF this] show ?thesis
    by (simp add: lookup_internal_def del: find.simps)
qed

lemma map_of_find:
  "map_of (map (\<lambda>p. (f p, g p)) xs) k = map_option g (find (\<lambda>p. f p = k) xs)"
  by (induction xs) auto

subsection \<open>Interface: a source of objects\<close>

text \<open>What the table needs of the allocator of its links.\<close>

locale object_source =
  fixes obj_alloc :: "'s \<Rightarrow> (u32 \<times> 's) res"
    and obj_free :: "u32 \<Rightarrow> 's \<Rightarrow> 's res"
    and owns :: "'s \<Rightarrow> u32 set \<Rightarrow> bool"
    and ready :: "'s \<Rightarrow> bool"
  assumes alloc_law: "owns s L \<Longrightarrow> ready s \<Longrightarrow> \<exists>q s'. obj_alloc s = Inr (q, s') \<and> q \<notin> L \<and> owns s' (insert q L)"
    and free_law: "owns s L \<Longrightarrow> q \<in> L \<Longrightarrow> \<exists>s'. obj_free q s = Inr s' \<and> owns s' (L - {q})"

definition bucket_ptrs :: "nat \<Rightarrow> u32 list \<Rightarrow> hptr list" where
  "bucket_ptrs h qs = ArrLink h # map HeapLink qs"

lemma bucket_frame:
  assumes "\<And>p. p \<in> set (bucket_ptrs h qs) \<Longrightarrow> l_next (ht_links t') p = l_next (ht_links t) p \<and>
      l_prev (ht_links t') p = l_prev (ht_links t) p \<and> ht_key t' p = ht_key t p \<and> ht_obj t' p = ht_obj t p"
  shows "bucket t h qs \<Longrightarrow> bucket t' h qs" and "entries t' h qs = entries t h qs"
proof -
  have same: "ht_key t' (ArrLink h) = ht_key t (ArrLink h)" "ht_obj t' (ArrLink h) = ht_obj t (ArrLink h)"
      "q \<in> set qs \<Longrightarrow> ht_key t' (HeapLink q) = ht_key t (HeapLink q) \<and> ht_obj t' (HeapLink q) = ht_obj t (HeapLink q)" for q
    using assms by (auto simp: bucket_ptrs_def)
  show "bucket t h qs \<Longrightarrow> bucket t' h qs"
    using ring_frame [of "ht_links t" "ArrLink h" "map HeapLink qs" "ht_links t'"] assms same
    by (auto simp: bucket_def bucket_ptrs_def)
  show "entries t' h qs = entries t h qs"
    using same by (auto simp: entries_def)
qed

text \<open>
  Changing one bucket: the invariant and the map after an operation on bucket \<open>h\<close> that touches no node of
  another bucket.
\<close>

lemma ht_inv_update:
  assumes inv: "ht_inv N L Q t" and h: "h < N"
    and b: "bucket t' h qs" "distinct (map fst (entries t' h qs))" "\<forall>(k, v) \<in> set (entries t' h qs). hash N k = h"
    and frame: "\<And>g p. g < N \<Longrightarrow> g \<noteq> h \<Longrightarrow> p \<in> set (bucket_ptrs g (Q g)) \<Longrightarrow> l_next (ht_links t') p = l_next (ht_links t) p \<and>
      l_prev (ht_links t') p = l_prev (ht_links t) p \<and> ht_key t' p = ht_key t p \<and> ht_obj t' p = ht_obj t p"
    and qs: "\<And>g. g < N \<Longrightarrow> g \<noteq> h \<Longrightarrow> set qs \<inter> set (Q g) = {}"
    and live: "set qs \<subseteq> L'" "\<And>g. g < N \<Longrightarrow> g \<noteq> h \<Longrightarrow> set (Q g) \<subseteq> L'"
  shows "ht_inv N L' (Q(h := qs)) t'"
    and "hash N k < N \<Longrightarrow> table N (Q(h := qs)) t' k = (if hash N k = h then map_of (entries t' h qs) k else table N Q t k)"
proof -
  have other: "bucket t' g (Q g)" "entries t' g (Q g) = entries t g (Q g)" if "g < N" "g \<noteq> h" for g
    using bucket_frame [of g "Q g" t' t] frame [OF that] inv that by (auto simp: ht_inv_def)
  show "ht_inv N L' (Q(h := qs)) t'"
    unfolding ht_inv_def
  proof (intro conjI allI impI)
    fix g assume g: "g < N"
    show "bucket t' g ((Q(h := qs)) g)" "distinct (map fst (entries t' g ((Q(h := qs)) g)))"
      "\<forall>(k, v) \<in> set (entries t' g ((Q(h := qs)) g)). hash N k = g" "set ((Q(h := qs)) g) \<subseteq> L'"
      using g b other live inv by (auto simp: ht_inv_def)
    fix g' assume "g' < N" "g \<noteq> g'"
    then show "set ((Q(h := qs)) g) \<inter> set ((Q(h := qs)) g') = {}"
      using g qs inv by (auto simp: ht_inv_def)
  qed
  show "hash N k < N \<Longrightarrow> table N (Q(h := qs)) t' k = (if hash N k = h then map_of (entries t' h qs) k else table N Q t k)"
    using other by (simp add: table_def)
qed

lemma table_bucket: "hash N k = h \<Longrightarrow> table N Q t k = map_of (entries t h (Q h)) k"
  by (simp add: table_def)

lemma ht_inv_nodes:
  assumes "ht_inv N L Q t"
  shows "g < N \<Longrightarrow> h < N \<Longrightarrow> g \<noteq> h \<Longrightarrow> set (Q g) \<inter> set (Q h) = {}"
    and "g < N \<Longrightarrow> set (Q g) \<subseteq> L"
  using assms unfolding ht_inv_def by blast+

lemma filter_key_remove:
  assumes "distinct (map fst (xs @ (k, v) # ys))"
  shows "filter (\<lambda>(k', v). k' \<noteq> k) (xs @ (k, v) # ys) = xs @ ys"
proof -
  have "filter (\<lambda>(k', v). k' \<noteq> k) zs = zs" if "k \<notin> fst ` set zs" for zs :: "('a \<times> 'b) list"
    using that by (induction zs) (auto simp: image_iff)
  then show ?thesis
    using assms by simp
qed

context object_source
begin

lemma insert_head:
  assumes inv: "ht_inv N L Q t" and h: "hash N k < N" and none: "ht_obj t (ArrLink (hash N k)) = None"
  shows "\<exists>t'. ht_insert N obj_alloc k (Some v) t = Inr t' \<and> ht_inv N L Q t' \<and> ht_alloc t' = ht_alloc t \<and>
    (\<forall>k'. hash N k' < N \<longrightarrow> table N Q t' k' = (if k' = k then Some v else table N Q t k'))"
proof -
  let ?h = "hash N k"
  define t' where "t' = t\<lparr>ht_key := (ht_key t)(ArrLink ?h := k), ht_obj := (ht_obj t)(ArrLink ?h := Some v)\<rparr>"
  have b: "bucket t ?h (Q ?h)" and empty: "Q ?h = []"
    using inv h none by (auto simp: ht_inv_def bucket_def)
  have b': "bucket t' ?h []" and e': "entries t' ?h [] = [(k, v)]"
    using b empty by (simp_all add: t'_def bucket_def entries_def)
  note upd = ht_inv_update [OF inv h b', unfolded e']
  have run: "ht_insert N obj_alloc k (Some v) t = Inr t'"
    using none by (simp add: ht_insert_def Let_def t'_def)
  have "ht_inv N L (Q(?h := [])) t'"
    by (rule upd(1)) (use inv in \<open>auto simp: t'_def bucket_ptrs_def ht_inv_def\<close>)
  moreover have "hash N k' < N \<Longrightarrow> table N (Q(?h := [])) t' k' = (if hash N k' = ?h then map_of [(k, v)] k' else table N Q t k')" for k'
    by (rule upd(2)) (use inv in \<open>auto simp: t'_def bucket_ptrs_def ht_inv_def\<close>)
  moreover have "Q(?h := []) = Q"
    using empty by auto
  moreover have "table N Q t k' = None" if "hash N k' = ?h" for k'
    using that none by (simp add: table_def entries_def)
  ultimately show ?thesis
    using run by (auto simp: t'_def)
qed

lemma insert_link:
  assumes inv: "ht_inv N L Q t" and h: "hash N k < N" and head: "ht_obj t (ArrLink (hash N k)) \<noteq> None"
    and new: "table N Q t k = None" and src: "owns (ht_alloc t) L" "ready (ht_alloc t)"
  shows "\<exists>q t'. ht_insert N obj_alloc k (Some v) t = Inr t' \<and> ht_inv N (insert q L) (Q(hash N k := q # Q (hash N k))) t' \<and>
    owns (ht_alloc t') (insert q L) \<and>
    (\<forall>k'. hash N k' < N \<longrightarrow> table N (Q(hash N k := q # Q (hash N k))) t' k' = (if k' = k then Some v else table N Q t k'))"
proof -
  let ?h = "hash N k" and ?qs = "Q (hash N k)"
  obtain q s where q: "obj_alloc (ht_alloc t) = Inr (q, s)" "q \<notin> L" "owns s (insert q L)"
    using alloc_law [OF src] by blast
  have fresh: "q \<notin> set (Q g)" if "g < N" for g
    using inv that q(2) by (auto simp: ht_inv_def)
  have b: "bucket t ?h ?qs" "distinct (map fst (entries t ?h ?qs))" "\<forall>(k, v) \<in> set (entries t ?h ?qs). hash N k = ?h"
    using inv h by (auto simp: ht_inv_def)
  define K where "K = node_new (HeapLink q) (ht_links t)"
  define t' where "t' = t\<lparr>ht_alloc := s, ht_key := (ht_key t)(HeapLink q := k), ht_obj := (ht_obj t)(HeapLink q := Some v),
    ht_links := add_after_self (ArrLink ?h) (HeapLink q) K\<rparr>"
  have run: "ht_insert N obj_alloc k (Some v) t = Inr t'"
    using head q(1) by (auto simp: ht_insert_def Let_def t'_def ht_link_new_def K_def)
  have new_node: "l_next K p = l_next (ht_links t) p" "l_prev K p = l_prev (ht_links t) p" if "p \<noteq> HeapLink q" for p
    using that by (simp_all add: K_def node_new_def)
  have notin: "HeapLink q \<notin> set (ArrLink ?h # map HeapLink ?qs)"
    using fresh [OF h] by auto
  have "ring K (ArrLink ?h) (map HeapLink ?qs)"
  proof (rule ring_frame)
    show "ring (ht_links t) (ArrLink ?h) (map HeapLink ?qs)"
      using b(1) by (simp add: bucket_def)
    show "l_next K p = l_next (ht_links t) p \<and> l_prev K p = l_prev (ht_links t) p"
      if "p \<in> set (ArrLink ?h # map HeapLink ?qs)" for p
      using new_node [of p] that notin by auto
  qed
  note ring = this notin
  note add = add_after_self_ring [OF ring]
  have b': "bucket t' ?h (q # ?qs)"
    using add(1) b(1) head fresh [OF h] by (auto simp: bucket_def t'_def)
  have e: "entries t ?h ?qs = (ht_key t (ArrLink ?h), the (ht_obj t (ArrLink ?h))) # map (\<lambda>p. (ht_key t p, the (ht_obj t p))) (map HeapLink ?qs)"
    using head by (simp add: entries_def)
  have e': "entries t' ?h (q # ?qs) = (ht_key t (ArrLink ?h), the (ht_obj t (ArrLink ?h))) # (k, v) # map (\<lambda>p. (ht_key t p, the (ht_obj t p))) (map HeapLink ?qs)"
    using head fresh [OF h] by (auto simp: entries_def t'_def)
  have notk: "k \<notin> fst ` set (entries t ?h ?qs)"
    using new by (simp add: table_def map_of_eq_None_iff)
  have frame: "l_next (ht_links t') p = l_next (ht_links t) p \<and> l_prev (ht_links t') p = l_prev (ht_links t) p \<and>
      ht_key t' p = ht_key t p \<and> ht_obj t' p = ht_obj t p" if g: "g < N" "g \<noteq> ?h" "p \<in> set (bucket_ptrs g (Q g))" for g p
  proof -
    have "set (Q g) \<inter> set ?qs = {}"
      using inv g(1,2) h unfolding ht_inv_def by blast
    then have p: "p \<noteq> HeapLink q" "p \<notin> set (HeapLink q # ArrLink ?h # map HeapLink ?qs)"
      using g fresh [OF g(1)] by (auto simp: bucket_ptrs_def)
    show ?thesis
      using add(2) [OF p(2)] new_node [OF p(1)] p(1) by (simp add: t'_def)
  qed
  have d': "distinct (map fst (entries t' ?h (q # ?qs)))" "\<forall>(k, v) \<in> set (entries t' ?h (q # ?qs)). hash N k = ?h"
  proof -
    show "distinct (map fst (entries t' ?h (q # ?qs)))"
      using b(2) notk unfolding e e' by (simp add: image_iff) metis
    show "\<forall>(k, v) \<in> set (entries t' ?h (q # ?qs)). hash N k = ?h"
      using b(3) unfolding e e' by simp
  qed
  note q' = ht_inv_nodes [OF inv]
  have l': "set (q # ?qs) \<inter> set (Q g) = {}" "set (Q g) \<subseteq> insert q L" if "g < N" "g \<noteq> ?h" for g
    using q'(1) [OF that(1) h that(2)] q'(2) [OF that(1)] fresh [OF that(1)] by (auto simp: t'_def)
  have sub: "set (q # ?qs) \<subseteq> insert q L"
    using q'(2) [OF h] by (auto simp: t'_def)
  have "ht_inv N (insert q L) (Q(?h := q # ?qs)) t'"
    by (rule ht_inv_update(1) [OF inv h b' d']) (fact frame l' sub)+
  moreover have "table N (Q(?h := q # ?qs)) t' k' = (if k' = k then Some v else table N Q t k')" if k': "hash N k' < N" for k'
  proof -
    have "table N (Q(?h := q # ?qs)) t' k' = (if hash N k' = ?h then map_of (entries t' ?h (q # ?qs)) k' else table N Q t k')"
      by (rule ht_inv_update(2) [OF inv h b' d']) (fact frame l' sub k')+
    moreover have "map_of (entries t' ?h (q # ?qs)) k' = (if k' = k then Some v else map_of (entries t ?h ?qs) k')"
      using notk unfolding e e' by auto
    ultimately show ?thesis
      by (auto simp: table_def)
  qed
  ultimately show ?thesis
    using run q(3) by (intro exI [of _ q] exI [of _ t']) (auto simp: t'_def)
qed

text \<open>
  Removing the node \<open>z\<close> of a bucket: the common part of the two removals that free a link. The entry of
  \<open>z\<close> disappears from the bucket; when the array link is removed, the data of the next link moves into it
  first, so that \<open>z\<close> is that link.
\<close>

lemma remove_link:
  assumes inv: "ht_inv N L Q t" and h: "h < N" and qs: "Q h = us @ q # vs"
    and src: "owns (ht_alloc t) L"
    and data: "\<And>p. p \<noteq> ArrLink h \<Longrightarrow> key' p = ht_key t p \<and> obj' p = ht_obj t p"
    and head: "obj' (ArrLink h) \<noteq> None"
    and ent: "map (\<lambda>p. (key' p, the (obj' p))) (ArrLink h # map HeapLink (us @ vs)) = filter (\<lambda>(k', v). k' \<noteq> k) (entries t h (Q h))"
  shows "\<exists>t'. free_link obj_free (HeapLink q) (t\<lparr>ht_key := key', ht_obj := obj', ht_links := unlink (HeapLink q) (ht_links t)\<rparr>) = Inr t' \<and>
    obj_free q (ht_alloc t) = Inr (ht_alloc t') \<and> ht_inv N (L - {q}) (Q(h := us @ vs)) t' \<and> owns (ht_alloc t') (L - {q}) \<and>
    (\<forall>k'. hash N k' < N \<longrightarrow> table N (Q(h := us @ vs)) t' k' = (if hash N k' = h \<and> k' = k then None else table N Q t k'))"
proof -
  have b: "bucket t h (Q h)" "distinct (map fst (entries t h (Q h)))" "\<forall>(k, v) \<in> set (entries t h (Q h)). hash N k = h"
      "set (Q h) \<subseteq> L"
    using inv h by (auto simp: ht_inv_def)
  have ring: "ring (ht_links t) (ArrLink h) (map HeapLink us @ HeapLink q # map HeapLink vs)"
    using b(1) qs by (simp add: bucket_def)
  note un = unlink_ring_mid [OF ring]
  have "q \<in> L"
    using b(4) qs by auto
  then obtain s where s: "obj_free q (ht_alloc t) = Inr s" "owns s (L - {q})"
    using free_law [OF src] by blast
  define t' where "t' = t\<lparr>ht_key := key', ht_obj := obj', ht_links := unlink (HeapLink q) (ht_links t), ht_alloc := s\<rparr>"
  have run: "free_link obj_free (HeapLink q) (t\<lparr>ht_key := key', ht_obj := obj', ht_links := unlink (HeapLink q) (ht_links t)\<rparr>) = Inr t'"
    using s(1) by (simp add: free_link_def t'_def)
  have dist: "distinct (us @ q # vs)"
    using bucket_nodes [of "ht_links t" h "us @ q # vs"] ring by simp
  have b': "bucket t' h (us @ vs)"
    using un(1) head data b(1) qs by (auto simp: bucket_def t'_def)
  have e': "entries t' h (us @ vs) = filter (\<lambda>(k', v). k' \<noteq> k) (entries t h (Q h))"
    unfolding ent [symmetric] using head by (auto simp: entries_def t'_def)
  have frame: "l_next (ht_links t') p = l_next (ht_links t) p \<and> l_prev (ht_links t') p = l_prev (ht_links t) p \<and>
      ht_key t' p = ht_key t p \<and> ht_obj t' p = ht_obj t p" if g: "g < N" "g \<noteq> h" "p \<in> set (bucket_ptrs g (Q g))" for g p
  proof -
    have "set (Q g) \<inter> set (Q h) = {}"
      using inv g(1,2) h unfolding ht_inv_def by blast
    then have p: "p \<noteq> ArrLink h" "p \<notin> set (ArrLink h # map HeapLink us @ HeapLink q # map HeapLink vs)"
      using g qs by (auto simp: bucket_ptrs_def)
    show ?thesis
      using un(3) [OF p(2)] data [OF p(1)] by (simp add: t'_def)
  qed
  have d': "distinct (map fst (entries t' h (us @ vs)))" "\<forall>(k, v) \<in> set (entries t' h (us @ vs)). hash N k = h"
  proof -
    show "distinct (map fst (entries t' h (us @ vs)))"
      unfolding e' by (rule distinct_map_filter [OF b(2)])
    show "\<forall>(k, v) \<in> set (entries t' h (us @ vs)). hash N k = h"
      unfolding e' using b(3) by simp
  qed
  have l': "set (us @ vs) \<inter> set (Q g) = {}" "set (Q g) \<subseteq> L - {q}" if "g < N" "g \<noteq> h" for g
  proof -
    have dj: "set (Q g) \<inter> set (Q h) = {}" and sub: "set (Q g) \<subseteq> L"
      using ht_inv_nodes(1) [OF inv that(1) h that(2)] ht_inv_nodes(2) [OF inv that(1)] by auto
    then have "q \<notin> set (Q g)"
      using qs by auto
    with dj sub show "set (us @ vs) \<inter> set (Q g) = {}" "set (Q g) \<subseteq> L - {q}"
      using qs by (auto simp: t'_def)
  qed
  have sub: "set (us @ vs) \<subseteq> L - {q}"
    using b(4) qs dist by (auto simp: t'_def)
  have "ht_inv N (L - {q}) (Q(h := us @ vs)) t'"
    by (rule ht_inv_update(1) [OF inv h b' d']) (fact frame l' sub)+
  moreover have "table N (Q(h := us @ vs)) t' k' = (if hash N k' = h \<and> k' = k then None else table N Q t k')" if k': "hash N k' < N" for k'
  proof -
    have "table N (Q(h := us @ vs)) t' k' = (if hash N k' = h then map_of (entries t' h (us @ vs)) k' else table N Q t k')"
      by (rule ht_inv_update(2) [OF inv h b' d']) (fact frame l' sub k')+
    moreover have "map_of (filter (\<lambda>(k', v). k' \<noteq> k) al) k' = (if k' = k then None else map_of al k')" for al :: "(u32 \<times> u32) list"
      by (induction al) auto
    ultimately show ?thesis
      by (auto simp: table_def e')
  qed
  ultimately show ?thesis
    using run s by (intro exI [of _ t']) (auto simp: t'_def)
qed

text \<open>The two ways of inserting, together.\<close>

lemma insert_map:
  assumes inv: "ht_inv N L Q t" and h: "\<And>k. hash N k < N" and new: "table N Q t k = None"
    and src: "owns (ht_alloc t) L" "ht_obj t (ArrLink (hash N k)) \<noteq> None \<Longrightarrow> ready (ht_alloc t)"
  shows "\<exists>L' Q' t'. ht_insert N obj_alloc k (Some v) t = Inr t' \<and> ht_inv N L' Q' t' \<and> owns (ht_alloc t') L' \<and>
    table N Q' t' = (table N Q t)(k \<mapsto> v)"
proof (cases "ht_obj t (ArrLink (hash N k)) = None")
  case True
  from insert_head [OF inv h True, of v] obtain t'
    where "ht_insert N obj_alloc k (Some v) t = Inr t'" "ht_inv N L Q t'" "ht_alloc t' = ht_alloc t"
      "\<forall>k'. table N Q t' k' = (if k' = k then Some v else table N Q t k')"
    using h by blast
  then show ?thesis
    using src(1) by (intro exI [of _ L] exI [of _ Q] exI [of _ t']) auto
next
  case False
  from insert_link [OF inv h False new src(1) src(2) [OF False], of v] obtain q t'
    where "ht_insert N obj_alloc k (Some v) t = Inr t'" "ht_inv N (insert q L) (Q(hash N k := q # Q (hash N k))) t'"
      "owns (ht_alloc t') (insert q L)"
      "\<forall>k'. table N (Q(hash N k := q # Q (hash N k))) t' k' = (if k' = k then Some v else table N Q t k')"
    using h by blast
  then show ?thesis
    by (intro exI [of _ "insert q L"] exI [of _ "Q(hash N k := q # Q (hash N k))"] exI [of _ t']) auto
qed

text \<open>Removing the only entry of a bucket.\<close>

lemma remove_last:
  assumes inv: "ht_inv N L Q t" and h: "hash N k < N" and key: "ht_key t (ArrLink (hash N k)) = k"
    and one: "Q (hash N k) = []"
  shows "\<exists>t'. ht_remove N obj_free k t = Inr (True, t') \<and> ht_inv N L Q t' \<and> ht_alloc t' = ht_alloc t \<and>
    (\<forall>k'. hash N k' < N \<longrightarrow> table N Q t' k' = (if k' = k then None else table N Q t k'))"
proof -
  let ?h = "hash N k"
  define t' where "t' = t\<lparr>ht_obj := (ht_obj t)(ArrLink ?h := None)\<rparr>"
  have b: "bucket t ?h []"
    using inv h one unfolding ht_inv_def by metis
  then have ring: "ring (ht_links t) (ArrLink ?h) []"
    by (simp add: bucket_def)
  have run: "ht_remove N obj_free k t = Inr (True, t')"
    using lookup_internal_bucket [OF b, of k] ring_ends(1) [OF ring] key
    by (simp add: ht_remove_def t'_def get_next_def)
  have b': "bucket t' ?h []" and e': "entries t' ?h [] = []"
    using b by (simp_all add: t'_def bucket_def entries_def)
  note upd = ht_inv_update [OF inv h b', unfolded e']
  have "ht_inv N L (Q(?h := [])) t'"
    by (rule upd(1)) (use inv in \<open>auto simp: t'_def bucket_ptrs_def ht_inv_def\<close>)
  moreover have "hash N k' < N \<Longrightarrow> table N (Q(?h := [])) t' k' = (if hash N k' = ?h then map_of [] k' else table N Q t k')" for k'
    by (rule upd(2)) (use inv in \<open>auto simp: t'_def bucket_ptrs_def ht_inv_def\<close>)
  moreover have "Q(?h := []) = Q"
    using one by auto
  moreover have "table N Q t k' = None" if "hash N k' = ?h" "k' \<noteq> k" for k'
    using that one key by (simp add: table_def entries_def)
  ultimately show ?thesis
    using run by (auto simp: t'_def)
qed

lemma remove_map:
  assumes inv: "ht_inv N L Q t" and h: "\<And>k. hash N k < N" and old: "table N Q t k = Some v"
    and src: "owns (ht_alloc t) L"
  shows "\<exists>L' Q' t'. ht_remove N obj_free k t = Inr (True, t') \<and> ht_inv N L' Q' t' \<and> owns (ht_alloc t') L' \<and>
    table N Q' t' = (table N Q t)(k := None) \<and>
    (if Q (hash N k) = [] then L' = L \<and> ht_alloc t' = ht_alloc t
     else \<exists>q \<in> set (Q (hash N k)). L' = L - {q} \<and> obj_free q (ht_alloc t) = Inr (ht_alloc t'))"
proof -
  let ?h = "hash N k"
  have b: "bucket t ?h (Q ?h)" and dist: "distinct (map fst (entries t ?h (Q ?h)))"
    using inv h by (auto simp: ht_inv_def)
  have head: "ht_obj t (ArrLink ?h) \<noteq> None"
    using old by (auto simp: table_def entries_def split: if_splits)
  have e: "entries t ?h (Q ?h) = map (\<lambda>p. (ht_key t p, the (ht_obj t p))) (ArrLink ?h # map HeapLink (Q ?h))"
    using head by (simp add: entries_def)
  note look = lookup_internal_bucket [OF b, of k]
  have ring: "ring (ht_links t) (ArrLink ?h) (map HeapLink (Q ?h))"
    using b by (simp add: bucket_def)
  have fin: ?thesis if prem: "ht_remove N obj_free k t = kbind (free_link obj_free (HeapLink q) (t\<lparr>ht_key := key', ht_obj := obj',
        ht_links := unlink (HeapLink q) (ht_links t)\<rparr>)) (\<lambda>t2. Inr (True, t2))"
      "Q ?h = us @ q # vs" "\<And>p. p \<noteq> ArrLink ?h \<Longrightarrow> key' p = ht_key t p \<and> obj' p = ht_obj t p" "obj' (ArrLink ?h) \<noteq> None"
      "map (\<lambda>p. (key' p, the (obj' p))) (ArrLink ?h # map HeapLink (us @ vs)) = filter (\<lambda>(k', v). k' \<noteq> k) (entries t ?h (Q ?h))"
    for q key' obj' us vs
  proof -
    obtain t' where t': "free_link obj_free (HeapLink q) (t\<lparr>ht_key := key', ht_obj := obj', ht_links := unlink (HeapLink q) (ht_links t)\<rparr>) = Inr t'"
        "obj_free q (ht_alloc t) = Inr (ht_alloc t')" "ht_inv N (L - {q}) (Q(?h := us @ vs)) t'" "owns (ht_alloc t') (L - {q})"
        "\<forall>k'. table N (Q(?h := us @ vs)) t' k' = (if hash N k' = ?h \<and> k' = k then None else table N Q t k')"
      using remove_link [OF inv h prem(2) src prem(3-5)] h by blast
    have "table N (Q(?h := us @ vs)) t' = (table N Q t)(k := None)"
      using t'(5) by auto
    moreover have "ht_remove N obj_free k t = Inr (True, t')"
      using prem(1) t'(1) by simp
    moreover have "Q ?h \<noteq> []" "q \<in> set (Q ?h)"
      using prem(2) by simp_all
    ultimately show ?thesis
      using t'(2-4) by (intro exI [of _ "L - {q}"] exI [of _ "Q(?h := us @ vs)"] exI [of _ t']) auto
  qed
  show ?thesis
  proof (cases "ht_key t (ArrLink ?h) = k")
    case True
    show ?thesis
    proof (cases "Q ?h")
      case Nil
      from remove_last [OF inv h True Nil] obtain t' where "ht_remove N obj_free k t = Inr (True, t')" "ht_inv N L Q t'"
          "ht_alloc t' = ht_alloc t" "\<forall>k'. table N Q t' k' = (if k' = k then None else table N Q t k')"
        using h by blast
      then show ?thesis
        using src Nil by (intro exI [of _ L] exI [of _ Q] exI [of _ t']) auto
    next
      case (Cons q vs)
      have nxt: "get_next (ht_links t) (ArrLink ?h) = HeapLink q"
        using ring_ends(1) [OF ring] Cons by (simp add: get_next_def)
      show ?thesis
      proof (rule fin [where q = q and us = "[]" and vs = vs and
          key' = "(ht_key t)(ArrLink ?h := ht_key t (HeapLink q))" and obj' = "(ht_obj t)(ArrLink ?h := ht_obj t (HeapLink q))"])
        show "ht_remove N obj_free k t = kbind (free_link obj_free (HeapLink q) (t\<lparr>ht_key := (ht_key t)(ArrLink ?h := ht_key t (HeapLink q)),
            ht_obj := (ht_obj t)(ArrLink ?h := ht_obj t (HeapLink q)), ht_links := unlink (HeapLink q) (ht_links t)\<rparr>)) (\<lambda>t2. Inr (True, t2))"
          using look True nxt by (simp add: ht_remove_def Let_def)
        show "((ht_obj t)(ArrLink ?h := ht_obj t (HeapLink q))) (ArrLink ?h) \<noteq> None"
          using b Cons by (simp add: bucket_def)
        show "map (\<lambda>p. (((ht_key t)(ArrLink ?h := ht_key t (HeapLink q))) p, the (((ht_obj t)(ArrLink ?h := ht_obj t (HeapLink q))) p)))
            (ArrLink ?h # map HeapLink ([] @ vs)) = filter (\<lambda>(k', v). k' \<noteq> k) (entries t ?h (Q ?h))"
          using filter_key_remove [of "[]" k "the (ht_obj t (ArrLink ?h))" "map (\<lambda>p. (ht_key t p, the (ht_obj t p))) (map HeapLink (Q ?h))"]
            dist True unfolding e unfolding Cons by (simp add: comp_def)
      qed (simp_all add: Cons)
    qed
  next
    case False
    have "k \<in> ht_key t ` set (ArrLink ?h # map HeapLink (Q ?h))"
      using old weak_map_of_SomeI map_of_SomeD [of "entries t ?h (Q ?h)" k v] unfolding table_def e by force
    then obtain r where "find (\<lambda>p. ht_key t p = k) (map HeapLink (Q ?h)) = Some r"
      using False find_None_iff [of "\<lambda>p. ht_key t p = k" "map HeapLink (Q ?h)"] by (cases "find (\<lambda>p. ht_key t p = k) (map HeapLink (Q ?h))") auto
    then obtain q where q: "find (\<lambda>p. ht_key t p = k) (map HeapLink (Q ?h)) = Some (HeapLink q)" "q \<in> set (Q ?h)" "ht_key t (HeapLink q) = k"
      by (auto simp: find_Some_iff)
    obtain us vs where us: "Q ?h = us @ q # vs"
      using split_list [OF q(2)] by blast
    show ?thesis
    proof (rule fin [where q = q and us = us and vs = vs and key' = "ht_key t" and obj' = "ht_obj t"])
      show "ht_remove N obj_free k t = kbind (free_link obj_free (HeapLink q) (t\<lparr>ht_key := ht_key t, ht_obj := ht_obj t,
          ht_links := unlink (HeapLink q) (ht_links t)\<rparr>)) (\<lambda>t2. Inr (True, t2))"
        using look False q(1) by (simp add: ht_remove_def Let_def)
      show "map (\<lambda>p. (ht_key t p, the (ht_obj t p))) (ArrLink ?h # map HeapLink (us @ vs)) = filter (\<lambda>(k', v). k' \<noteq> k) (entries t ?h (Q ?h))"
        using filter_key_remove [of "map (\<lambda>p. (ht_key t p, the (ht_obj t p))) (ArrLink ?h # map HeapLink us)" k "the (ht_obj t (HeapLink q))"
            "map (\<lambda>p. (ht_key t p, the (ht_obj t p))) (map HeapLink vs)"] dist q(3) unfolding e unfolding us by simp
    qed (use us head in simp_all)
  qed
qed

end

subsection \<open>The slab allocator of links\<close>

text \<open>
  \<open>__hashtable_link_alloc\<close> is a slab allocator of objects of \<open>sizeof(__ht_link) = 16\<close> bytes. It is an object
  source: the objects owned are the live objects of the slab allocator's invariant.
\<close>

abbreviation link_alloc :: "kstate slab_allocator \<Rightarrow> (u32 \<times> kstate slab_allocator) res" where
  "link_alloc \<equiv> slab_allocate 16 (kmem_alloc_pages (slab_level 16))"

definition link_owns :: "kstate slab_allocator \<Rightarrow> u32 set \<Rightarrow> bool" where
  "link_owns a L \<longleftrightarrow> slab_inv (kmem_held (slab_level 16)) kmem_valid 16 L a"

definition link_ready :: "kstate slab_allocator \<Rightarrow> bool" where
  "link_ready a \<longleftrightarrow> (m_free_list a = None \<longrightarrow> kmem_ready (slab_level 16) (page_state a))"

interpretation links: object_source link_alloc "slab_free 16" link_owns link_ready
proof
  fix s L
  assume "link_owns s L" "link_ready s"
  then have inv: "kslab_inv 16 L s" and "m_free_list s = None \<Longrightarrow> kmem_ready (slab_level 16) (page_state s)"
    by (simp_all add: link_owns_def link_ready_def)
  from kpages.slab_allocate_correct [OF slab_fit_16(1) slab_level_size this]
  show "\<exists>q s'. link_alloc s = Inr (q, s') \<and> q \<notin> L \<and> link_owns s' (insert q L)"
    by (simp only: link_owns_def)
next
  fix s L q
  assume "link_owns s L" and q: "q \<in> L"
  then have "kslab_inv 16 L s"
    by (simp add: link_owns_def)
  from kpages.slab_free_correct [OF slab_fit_16(1) this q]
  show "\<exists>s'. slab_free 16 q s = Inr s' \<and> link_owns s' (L - {q})"
    by (simp only: link_owns_def)
qed

text \<open>A new table is empty.\<close>

lemma hashtable_new_links:
  "h < N \<Longrightarrow> ring (ht_links (hashtable_new N t)) (ArrLink h) [] \<and> ht_obj (hashtable_new N t) (ArrLink h) = None"
proof (induction N)
  case (Suc N)
  have step: "hashtable_new (Suc N) t = ht_link_new (ArrLink N) (hashtable_new N t)"
    by (simp add: hashtable_new_def)
  show ?case
  proof (cases "h = N")
    case True
    then show ?thesis
      unfolding step by (simp add: ht_link_new_def ring_new)
  next
    case False
    then show ?thesis
      using Suc unfolding step by (simp add: ht_link_new_def ring_def node_new_def)
  qed
qed simp

lemma hashtable_new_inv:
  "ht_inv N L (\<lambda>h. []) (hashtable_new N t)"
  using hashtable_new_links [of _ N t] by (auto simp: ht_inv_def bucket_def entries_def)

lemma hashtable_new_alloc: "ht_alloc (hashtable_new N t) = ht_alloc t"
proof (induction N)
  case (Suc N)
  then show ?case
    by (simp add: hashtable_new_def ht_link_new_def)
qed (simp add: hashtable_new_def)

subsection \<open>Properties\<close>

lemma ht_lookup_spec:
  assumes "ht_inv N L Q t" and "hash N k < N"
  shows "ht_lookup N k t = Inr (table N Q t k)"
proof -
  let ?h = "hash N k" and ?qs = "Q (hash N k)"
  have b: "bucket t ?h ?qs"
    using assms by (simp add: ht_inv_def)
  show ?thesis
  proof (cases "ht_obj t (ArrLink ?h)")
    case None
    then have "?qs = []"
      using b by (simp add: bucket_def)
    with None show ?thesis
      using lookup_internal_bucket [OF b, of k] by (simp add: ht_lookup_def table_def entries_def)
  next
    case (Some v)
    let ?ps = "ArrLink ?h # map HeapLink ?qs"
    have "ht_obj t p \<noteq> None" if "p \<in> set ?ps" for p
      using that b Some by (auto simp: bucket_def)
    moreover have "p \<in> set ?ps" if "find (\<lambda>p. ht_key t p = k) ?ps = Some p" for p
      using that unfolding find_Some_iff by (metis nth_mem)
    moreover have "entries t ?h ?qs = map (\<lambda>p. (ht_key t p, the (ht_obj t p))) ?ps"
      using Some by (simp add: entries_def)
    then have "table N Q t k = map_option (\<lambda>p. the (ht_obj t p)) (find (\<lambda>p. ht_key t p = k) ?ps)"
      by (simp only: table_def map_of_find)
    ultimately show ?thesis
      using lookup_internal_bucket [OF b, of k] unfolding ht_lookup_def
      by (cases "find (\<lambda>p. ht_key t p = k) ?ps") auto
  qed
qed

text \<open>
  C10: \<open>lookup\<close> terminates and returns what the table, as a map from keys to objects, holds for the key,
  null when it holds nothing.
\<close>

theorem ht_lookup_correct:
  assumes "ht_inv N L Q t" and "hash N k < N"
  shows "ht_lookup N k t = Inr (table N Q t k)"
  using assms by (rule ht_lookup_spec)

text \<open>
  C8: \<open>insert\<close> of a key that the table does not hold succeeds, keeps the table well formed, and updates the
  map from keys to objects at that key only, provided the slab allocator of links can serve a request
  when the bucket is in use.
\<close>

theorem ht_insert_correct:
  assumes "N = 2 ^ e" and "e < 32" and "ht_inv N L Q t" and "link_owns (ht_alloc t) L" and "table N Q t k = None"
    and "ht_obj t (ArrLink (hash N k)) \<noteq> None \<Longrightarrow> link_ready (ht_alloc t)"
  shows "\<exists>L' Q' t'. ht_insert N link_alloc k (Some v) t = Inr t' \<and> ht_inv N L' Q' t' \<and> link_owns (ht_alloc t') L' \<and>
    table N Q' t' = (table N Q t)(k \<mapsto> v)"
  using links.insert_map [OF assms(3) hash_less [OF assms(1,2)] assms(5,4,6)] .

text \<open>
  C9: \<open>remove\<close> of a key that the table holds returns true, keeps the table well formed, and removes exactly that
  key from the map. When the bucket has links of the slab allocator, exactly one of them is given back: it is
  freed, and the objects that the allocator holds are the ones before without it; when the bucket is the array link
  alone, the allocator is not touched.
\<close>

theorem ht_remove_correct:
  assumes "N = 2 ^ e" and "e < 32" and "ht_inv N L Q t" and "link_owns (ht_alloc t) L" and "table N Q t k = Some v"
  shows "\<exists>L' Q' t'. ht_remove N (slab_free 16) k t = Inr (True, t') \<and> ht_inv N L' Q' t' \<and> link_owns (ht_alloc t') L' \<and>
    table N Q' t' = (table N Q t)(k := None) \<and>
    (if Q (hash N k) = [] then L' = L \<and> ht_alloc t' = ht_alloc t
     else \<exists>q \<in> set (Q (hash N k)). L' = L - {q} \<and> slab_free 16 q (ht_alloc t) = Inr (ht_alloc t'))"
  using links.remove_map [OF assms(3) hash_less [OF assms(1,2)] assms(5,4)] .

text \<open>The table with four buckets of a freshly booted kernel, and the table after one insertion.\<close>

definition boot_table :: "kstate slab_allocator hashtable" where
  "boot_table = hashtable_new 4 \<lparr>ht_links = \<lparr>l_prev = id, l_next = id\<rparr>, ht_key = (\<lambda>p. 0), ht_obj = (\<lambda>p. None),
     ht_alloc = empty_allocator\<rparr>"

lemma boot_table_links: "h < 4 \<Longrightarrow> ring (ht_links boot_table) (ArrLink h) [] \<and> ht_obj boot_table (ArrLink h) = None"
  unfolding boot_table_def by (rule hashtable_new_links)

lemma boot_table_ok:
  "ht_inv 4 {} (\<lambda>h. []) boot_table" "link_owns (ht_alloc boot_table) {}" "table 4 (\<lambda>h. []) boot_table k = None"
  "link_ready (ht_alloc boot_table)"
proof -
  show "ht_inv 4 {} (\<lambda>h. []) boot_table" "link_owns (ht_alloc boot_table) {}"
    using empty_allocator_inv by (simp_all add: boot_table_def hashtable_new_inv hashtable_new_alloc link_owns_def)
  show "table 4 (\<lambda>h. []) boot_table k = None"
    using boot_table_links [OF hash_less [of 4 2 k]] by (simp add: table_def entries_def)
  show "link_ready (ht_alloc boot_table)"
    by (simp add: boot_table_def hashtable_new_alloc link_ready_def empty_allocator_def boot_valid)
qed

theorem ht_lookup_correct_witness: "ht_lookup 4 7 boot_table = Inr None"
  using ht_lookup_correct [OF boot_table_ok(1), of 7] boot_table_ok(3) hash_less [of 4 2 7] by simp

theorem ht_insert_correct_witness:
  "\<exists>L' Q' t'. ht_insert 4 link_alloc 7 (Some 1) boot_table = Inr t' \<and> ht_inv 4 L' Q' t' \<and> table 4 Q' t' = [7 \<mapsto> 1]"
proof -
  have "table 4 (\<lambda>h. []) boot_table = Map.empty"
    using boot_table_ok(3) by blast
  then show ?thesis
    using ht_insert_correct [of 4 2, OF _ _ boot_table_ok(1-3) boot_table_ok(4), of 7 1] by auto
qed

lemma boot_table_one:
  obtains L Q t where "ht_insert 4 link_alloc 7 (Some 1) boot_table = Inr t" "ht_inv 4 L Q t" "link_owns (ht_alloc t) L"
    "table 4 Q t = [7 \<mapsto> 1]"
proof -
  have "table 4 (\<lambda>h. []) boot_table = Map.empty"
    using boot_table_ok(3) by blast
  then show ?thesis
    using that links.insert_map [OF boot_table_ok(1) hash_less [of 4 2] boot_table_ok(3,2), of 7 1] boot_table_ok(4) by auto
qed

theorem ht_remove_correct_witness:
  "\<exists>t t' L' Q'. ht_insert 4 link_alloc 7 (Some 1) boot_table = Inr t \<and> ht_remove 4 (slab_free 16) 7 t = Inr (True, t') \<and>
    ht_inv 4 L' Q' t' \<and> table 4 Q' t' = Map.empty"
proof -
  obtain L Q t where t: "ht_insert 4 link_alloc 7 (Some 1) boot_table = Inr t" "ht_inv 4 L Q t" "link_owns (ht_alloc t) L"
      "table 4 Q t = [7 \<mapsto> 1]"
    using boot_table_one .
  then show ?thesis
    using ht_remove_correct [of 4 2, OF _ _ t(2,3), of 7 1] by auto
qed

text \<open>
  \<open>remove\<close> does not look at whether the array link is in use: a key removed last from its bucket is
  found again, so that removing it a second time returns true instead of false.
\<close>

lemma ht_remove_twice:
  "\<exists>t1 t2 t3. ht_insert 4 link_alloc 7 (Some 1) boot_table = Inr t1 \<and> ht_remove 4 (slab_free 16) 7 t1 = Inr (True, t2) \<and>
    ht_lookup 4 7 t2 = Inr None \<and> ht_remove 4 (slab_free 16) 7 t2 = Inr (True, t3)"
proof -
  let ?h = "hash 4 7"
  have h: "?h < 4"
    using hash_less [of 4 2] by simp
  have none: "ht_obj boot_table (ArrLink ?h) = None" and ring: "ring (ht_links boot_table) (ArrLink ?h) []"
    using boot_table_links [OF h] by simp_all
  define t1 where "t1 = boot_table\<lparr>ht_key := (ht_key boot_table)(ArrLink ?h := 7), ht_obj := (ht_obj boot_table)(ArrLink ?h := Some 1)\<rparr>"
  define t2 where "t2 = t1\<lparr>ht_obj := (ht_obj t1)(ArrLink ?h := None)\<rparr>"
  have find: "lookup_internal 7 ?h t = Inr (Some (ArrLink ?h))"
    if "ht_links t = ht_links boot_table" "ht_key t (ArrLink ?h) = 7" for t :: "kstate slab_allocator hashtable"
    using ring_find_eq [OF ring, of "\<lambda>p. ht_key t p = 7"] that by (simp add: lookup_internal_def)
  have nxt: "get_next (ht_links boot_table) (ArrLink ?h) = ArrLink ?h"
    using ring_ends(1) [OF ring] by (simp add: get_next_def)
  have "ht_insert 4 link_alloc 7 (Some 1) boot_table = Inr t1"
    using none by (simp add: ht_insert_def Let_def t1_def)
  moreover have "ht_remove 4 (slab_free 16) 7 t1 = Inr (True, t2)"
    using find [of t1] nxt by (simp add: ht_remove_def Let_def t2_def t1_def)
  moreover have "ht_lookup 4 7 t2 = Inr None" "ht_remove 4 (slab_free 16) 7 t2 = Inr (True, t2\<lparr>ht_obj := (ht_obj t2)(ArrLink ?h := None)\<rparr>)"
    using find [of t2] nxt by (simp_all add: ht_lookup_def ht_remove_def Let_def t2_def t1_def)
  ultimately show ?thesis by blast
qed

end
