(* ===== verification/Refcount.thy ===== *)
theory Refcount
  imports Kernel_Prelude
begin

section \<open>Reference counts\<close>

text \<open>
  \<^verbatim>\<open>kernel/util/ds/refcount.hpp\<close> and \<^verbatim>\<open>refcount.cpp\<close>: \<open>intrusive_refcount\<close> with its counter \<open>rc\<close>, an
  \<^verbatim>\<open>int32_t\<close> kept here as an integer; the increment of the largest one is undefined.
\<close>

definition refcount_new :: int where
  "refcount_new = 1"

definition take_ref :: "int \<Rightarrow> int res" where
  "take_ref rc =
    kbind (kassert (0 < rc)) (\<lambda>_. if rc = 2 ^ 31 - 1 then Inl Undefined else Inr (rc + 1))"

definition release_ref :: "int \<Rightarrow> (bool \<times> int) res" where
  "release_ref rc =
    kbind (kassert (0 < rc)) (\<lambda>_. let rc' = rc - 1 in if rc' = 0 then Inr (True, rc') else Inr (False, rc'))"

text \<open>A history of references taken and released; the result lists what each release returned.\<close>

datatype ref_op = Take | Release

fun run_refs :: "ref_op list \<Rightarrow> int \<Rightarrow> (bool list \<times> int) res" where
  "run_refs [] rc = Inr ([], rc)"
| "run_refs (Take # ops) rc = kbind (take_ref rc) (run_refs ops)"
| "run_refs (Release # ops) rc =
    kbind (release_ref rc) (\<lambda>(last_ref, rc'). kbind (run_refs ops rc') (\<lambda>(rs, rc''). Inr (last_ref # rs, rc'')))"

fun holders :: "ref_op list \<Rightarrow> int \<Rightarrow> int" where
  "holders [] k = k"
| "holders (Take # ops) k = holders ops (k + 1)"
| "holders (Release # ops) k = holders ops (k - 1)"

text \<open>
  The counter counts the holders. In a history in which nobody takes or releases a reference once
  none is left, and never \<open>2 ^ 31 - 1\<close> or more are held, every call succeeds, the counter ends as the
  number of holders, and only a release that leaves no holder reports that it was the last one.
\<close>

lemma refcount_counts_holders:
  assumes "\<And>us op vs. ops = us @ op # vs \<Longrightarrow> 0 < holders us k \<and> holders us k < 2 ^ 31 - 1"
  shows "\<exists>rs. run_refs ops k = Inr (rs, holders ops k) \<and>
    rs = map (\<lambda>i. holders (take (Suc i) ops) k = 0) (filter (\<lambda>i. ops ! i = Release) [0..<length ops])"
  using assms
proof (induction ops arbitrary: k)
  case Nil
  then show ?case by simp
next
  case (Cons op ops)
  have k: "0 < k" "k < 2 ^ 31 - 1"
    using Cons.prems [of "[]" op ops] by simp_all
  let ?k = "case op of Take \<Rightarrow> k + 1 | Release \<Rightarrow> k - 1"
  have h: "holders (op # us) k = holders us ?k" for us
    by (cases op) simp_all
  have IH: "\<exists>rs. run_refs ops ?k = Inr (rs, holders ops ?k) \<and>
      rs = map (\<lambda>i. holders (take (Suc i) ops) ?k = 0) (filter (\<lambda>i. ops ! i = Release) [0..<length ops])"
  proof (rule Cons.IH)
    fix us op' vs
    assume "ops = us @ op' # vs"
    then show "0 < holders us ?k \<and> holders us ?k < 2 ^ 31 - 1"
      using Cons.prems [of "op # us" op' vs] h by simp
  qed
  have upt: "[0..<length (op # ops)] = 0 # map Suc [0..<length ops]"
    by (simp add: upt_conv_Cons map_Suc_upt del: upt_Suc)
  have rest: "map (\<lambda>i. holders (take (Suc i) (op # ops)) k = 0) (filter (\<lambda>i. (op # ops) ! i = Release) (map Suc [0..<length ops])) =
      map (\<lambda>i. holders (take (Suc i) ops) ?k = 0) (filter (\<lambda>i. ops ! i = Release) [0..<length ops])"
    by (simp add: filter_map comp_def h)
  show ?case
    using IH k rest unfolding upt
    by (cases op) (auto simp: take_ref_def release_ref_def Let_def)
qed

theorem refcount_counts_holders_witness:
  "run_refs [Take, Release, Release] refcount_new = Inr ([False, True], 0)"
proof -
  have "\<exists>rs. run_refs [Take, Release, Release] 1 = Inr (rs, holders [Take, Release, Release] 1) \<and>
    rs = map (\<lambda>i. holders (take (Suc i) [Take, Release, Release]) 1 = 0)
      (filter (\<lambda>i. [Take, Release, Release] ! i = Release) [0..<length [Take, Release, Release]])"
  proof (rule refcount_counts_holders)
    fix us op vs
    assume "[Take, Release, Release] = us @ op # vs"
    then have "us = [] \<or> us = [Take] \<or> us = [Take, Release]"
      by (auto simp: Cons_eq_append_conv)
    then show "0 < holders us 1 \<and> holders us 1 < 2 ^ 31 - 1"
      by auto
  qed
  then show ?thesis
    by (simp add: refcount_new_def upt_rec nth_Cons')
qed

end
