(* ===== verification/Scheduler.thy ===== *)
theory Scheduler
  imports Linked_List Refcount Slab_Correct
begin

section \<open>Tasks, the scheduler and mutexes\<close>

text \<open>
  \<^verbatim>\<open>kernel/scheduler/init.cpp\<close>, \<^verbatim>\<open>task.hpp\<close>, \<^verbatim>\<open>task_blocking.hpp\<close> and \<^verbatim>\<open>mutex.cpp\<close>. A task is named by its address. The
  subsystem \<open>scheduling\<close> of a task is a node of the ring of runnable tasks (\<open>sched_links\<close>), its subsystem
  \<open>blocking\<close> a node of a ring of waiting tasks (\<open>block_links\<close>), in which the list head \<open>m_list\<close> of a mutex is
  another node; \<^verbatim>\<open>task::from\<close>, a pointer subtraction, is the argument of \<open>TaskNode\<close>.
\<close>

subsection \<open>Saved registers\<close>

text \<open>
  \<^verbatim>\<open>interrupts::interrupt_args\<close>: the words that an interrupt handler and \<^verbatim>\<open>yield\<close> push on the stack and that
  \<^verbatim>\<open>asm_enter_task\<close> pops, in the order of their addresses.
\<close>

record interrupt_args =
  ia_cr3 :: u32
  ia_ebp :: u32
  ia_edi :: u32
  ia_esi :: u32
  ia_edx :: u32
  ia_ecx :: u32
  ia_ebx :: u32
  ia_eax :: u32
  ia_interrupt_number :: u32
  ia_error_code :: u32
  ia_eip :: u32
  ia_cs :: u32
  ia_eflags :: u32

definition sizeof_interrupt_args :: u32 where
  "sizeof_interrupt_args = 52"

text \<open>Pushing the words, the last one of the record first.\<close>

definition push_args :: "u32 \<Rightarrow> interrupt_args \<Rightarrow> mem \<Rightarrow> mem" where
  "push_args p a =
    store32 p (ia_cr3 a) \<circ> store32 (p + 4) (ia_ebp a) \<circ> store32 (p + 8) (ia_edi a) \<circ> store32 (p + 12) (ia_esi a) \<circ>
    store32 (p + 16) (ia_edx a) \<circ> store32 (p + 20) (ia_ecx a) \<circ> store32 (p + 24) (ia_ebx a) \<circ>
    store32 (p + 28) (ia_eax a) \<circ> store32 (p + 32) (ia_interrupt_number a) \<circ> store32 (p + 36) (ia_error_code a) \<circ>
    store32 (p + 40) (ia_eip a) \<circ> store32 (p + 44) (ia_cs a) \<circ> store32 (p + 48) (ia_eflags a)"

subsection \<open>State\<close>

datatype bnode = TaskNode u32 | MutexNode u32

record sched =
  kst :: kstate
  sched_links :: "u32 node_links"
  block_links :: "bnode node_links"
  task_rc :: "u32 \<Rightarrow> int"
  task_pid :: "u32 \<Rightarrow> u32"
  stack_pointer :: "u32 \<Rightarrow> u32"
  m_owner :: "u32 \<Rightarrow> u32 option"
  max_pid :: u32
  tss_esp0 :: u32
  tss_ss0 :: u32
  task_allocator :: "kstate slab_allocator"
  running_eip :: u32

definition set_current :: "u32 \<Rightarrow> sched \<Rightarrow> sched" where
  "set_current t s = s\<lparr>kst := (kst s)\<lparr>current_task := Some t\<rparr>\<rparr>"

definition with_current :: "(u32 \<Rightarrow> sched \<Rightarrow> 'a res) \<Rightarrow> sched \<Rightarrow> 'a res" where
  "with_current f s = (case current_task (kst s) of None \<Rightarrow> Inl NullDeref | Some t \<Rightarrow> f t s)"

definition on_kst :: "'a kop \<Rightarrow> sched \<Rightarrow> ('a \<times> sched) res" where
  "on_kst f s = kbind (f (kst s)) (\<lambda>(r, k). Inr (r, s\<lparr>kst := k\<rparr>))"

text \<open>
  \<^verbatim>\<open>enter_task\<close> and \<^verbatim>\<open>asm_enter_task\<close>: the frame at \<open>stack\<close> gives the page directory, the interrupt flag (bit 9 of
  EFLAGS) and the instruction at which the CPU goes on.
\<close>

definition enter_task :: "u32 \<Rightarrow> sched \<Rightarrow> sched" where
  "enter_task stack s =
    (let m = kmem (kst s)
     in s\<lparr>tss_esp0 := stack + sizeof_interrupt_args,
          kst := (kst s)\<lparr>cr3 := load32 m stack, if_flag := bit (load32 m (stack + 48)) 9\<rparr>,
          running_eip := load32 m (stack + 40)\<rparr>)"

subsection \<open>Blocking\<close>

definition is_blocked :: "sched \<Rightarrow> u32 \<Rightarrow> bool" where
  "is_blocked s t \<longleftrightarrow> \<not> lonely (block_links s) (TaskNode t)"

definition block_on :: "u32 \<Rightarrow> bnode \<Rightarrow> sched \<Rightarrow> sched" where
  "block_on t lst s =
    s\<lparr>block_links := add_after_self (get_prev (block_links s) lst) (TaskNode t) (block_links s)\<rparr>"

definition unblock :: "bnode \<Rightarrow> sched \<Rightarrow> sched res" where
  "unblock n s =
    kbind (kassert (\<not> lonely (block_links s) n)) (\<lambda>_. Inr (s\<lparr>block_links := unlink n (block_links s)\<rparr>))"

subsection \<open>Scheduling\<close>

definition link_task :: "u32 \<Rightarrow> sched \<Rightarrow> sched res" where
  "link_task t s =
    kbind (take_ref (task_rc s t)) (\<lambda>rc.
    with_current (\<lambda>cur s. Inr (s\<lparr>sched_links := add_after_self cur t (sched_links s)\<rparr>))
      (s\<lparr>task_rc := (task_rc s)(t := rc)\<rparr>))"

definition unlink_task :: "u32 \<Rightarrow> sched \<Rightarrow> sched res" where
  "unlink_task t s =
    (let s1 = s\<lparr>sched_links := unlink t (sched_links s)\<rparr>
     in kbind (release_ref (task_rc s1 t)) (\<lambda>(_, rc). Inr (s1\<lparr>task_rc := (task_rc s1)(t := rc)\<rparr>)))"

text \<open>The loop of \<^verbatim>\<open>pick_next_task\<close>; it has no result when it never ends.\<close>

partial_function (option) pick_loop :: "sched \<Rightarrow> u32 \<Rightarrow> u32 option" where
  "pick_loop s cur =
    (let n = get_next (sched_links s) cur
     in if is_blocked s n then pick_loop s n else Some n)"

definition pick_next_task :: "sched \<Rightarrow> sched res" where
  "pick_next_task = with_current (\<lambda>cur s.
    case pick_loop s cur of None \<Rightarrow> Inl OutOfFuel | Some n \<Rightarrow> Inr (set_current n s))"

definition do_yield :: "u32 \<Rightarrow> sched \<Rightarrow> sched res" where
  "do_yield stack_arg = with_current (\<lambda>cur s.
    kbind (pick_next_task (s\<lparr>stack_pointer := (stack_pointer s)(cur := stack_arg)\<rparr>)) (\<lambda>s1.
    with_current (\<lambda>nxt s1. Inr (enter_task (stack_pointer s1 nxt) s1)) s1))"

text \<open>
  \<^verbatim>\<open>timeslice_passed\<close>: it returns to the caller when there is no task yet, preemption is locked or the interrupt is
  nested; otherwise it switches and does not return.
\<close>

definition timeslice_held :: "sched \<Rightarrow> bool" where
  "timeslice_held s \<longleftrightarrow> current_task (kst s) = None \<or> preempt_counter (kst s) \<noteq> 0 \<or> 1 < get_interrupt_context_depth (kst s)"

definition timeslice_passed :: "u32 \<Rightarrow> sched \<Rightarrow> sched res" where
  "timeslice_passed resume_info s =
    kbind (kassert (is_interrupt_context (kst s))) (\<lambda>_.
    if timeslice_held s then Inr s
    else
      kbind (reduce_interrupt_depth ((kst s)\<lparr>if_flag := False\<rparr>)) (\<lambda>k.
      do_yield resume_info (s\<lparr>kst := k\<rparr>)))"

text \<open>
  \<^verbatim>\<open>yield\<close>: the frame goes to the address \<open>stack_arg\<close> on the stack of the caller, whose registers are \<open>regs\<close>. The flags
  are pushed after \<^verbatim>\<open>cli\<close>; \<open>resume\<close> is the address of the label after the call.
\<close>

definition pushed_flags :: "u32 \<Rightarrow> kstate \<Rightarrow> u32" where
  "pushed_flags fl k = (if if_flag k then fl OR 0x200 else fl AND NOT 0x200)"

definition yield_frame :: "interrupt_args \<Rightarrow> u32 \<Rightarrow> kstate \<Rightarrow> interrupt_args" where
  "yield_frame regs resume k =
    regs\<lparr>ia_eflags := pushed_flags (ia_eflags regs) k, ia_cs := 0x08, ia_eip := resume, ia_error_code := 0,
         ia_interrupt_number := 0, ia_cr3 := cr3 k\<rparr>"

definition yield :: "interrupt_args \<Rightarrow> u32 \<Rightarrow> u32 \<Rightarrow> sched \<Rightarrow> sched res" where
  "yield regs resume stack_arg s =
    kbind (kassert (\<not> is_interrupt_context (kst s))) (\<lambda>_.
    kbind (kassert (preempt_counter (kst s) = 0)) (\<lambda>_.
    let k = (kst s)\<lparr>if_flag := False\<rparr>
    in do_yield stack_arg (s\<lparr>kst := k\<lparr>kmem := push_args stack_arg (yield_frame regs resume k) (kmem k)\<rparr>\<rparr>)))"

subsection \<open>Creating tasks\<close>

text \<open>\<open>entry\<close> is the address of \<^verbatim>\<open>task_wrapper\<close>, \<open>main\<close> that of the function it calls.\<close>

definition create_kernel_stack :: "u32 \<Rightarrow> u32 \<Rightarrow> u32 \<Rightarrow> u32 kop" where
  "create_kernel_stack entry main dir st =
    kbind (kmem_alloc_pages K8 st) (\<lambda>(stack0, st1).
    let m1 = store32 stack0 0 (kmem st1);
        stack = stack0 + 8192 - sizeof_interrupt_args - 4 - 4;
        m2 = memset stack 0 sizeof_interrupt_args m1;
        m3 = store32 stack dir m2;
        m4 = store32 (stack + 40) entry m3;
        m5 = store32 (stack + sizeof_interrupt_args + 4) main m4;
        m6 = store32 (stack + 44) 0x08 m5
    in Inr (stack, st1\<lparr>kmem := m6\<rparr>))"

definition sizeof_task :: nat where
  "sizeof_task = 32"

text \<open>The constructor of a task on the memory at \<open>t\<close>: one reference, and both its nodes alone.\<close>

definition task_new :: "u32 \<Rightarrow> u32 \<Rightarrow> u32 \<Rightarrow> sched \<Rightarrow> sched" where
  "task_new t pid sp s =
    s\<lparr>task_rc := (task_rc s)(t := refcount_new), task_pid := (task_pid s)(t := pid),
      stack_pointer := (stack_pointer s)(t := sp), sched_links := node_new t (sched_links s),
      block_links := node_new (TaskNode t) (block_links s)\<rparr>"

text \<open>
  \<^verbatim>\<open>task_allocator.allocate(pid, create_kernel_stack(run, new_page_directory()))\<close>: the argument is evaluated
  before the slab allocator takes memory.
\<close>

definition make_task :: "u32 \<Rightarrow> u32 \<Rightarrow> u32 \<Rightarrow> sched \<Rightarrow> (u32 \<times> sched) res" where
  "make_task entry main pid s =
    kbind (on_kst new_page_directory s) (\<lambda>(dir, s1).
    kbind (on_kst (create_kernel_stack entry main dir) s1) (\<lambda>(sp, s2).
    kbind (slab_allocate sizeof_task (kmem_alloc_pages (slab_level sizeof_task)) ((task_allocator s2)\<lparr>page_state := kst s2\<rparr>)) (\<lambda>(t, a).
    Inr (t, task_new t pid sp (s2\<lparr>task_allocator := a, kst := page_state a\<rparr>)))))"

definition task_allocate :: "u32 \<Rightarrow> u32 \<Rightarrow> sched \<Rightarrow> (u32 \<times> sched) res" where
  "task_allocate entry run s0 =
    kbind (kassert (\<not> is_interrupt_context (kst s0))) (\<lambda>_.
    let s = s0\<lparr>kst := preempt_up (kst s0)\<rparr>;
        pid = max_pid s;
        s1 = s\<lparr>max_pid := pid + 1\<rparr>
    in kbind (kassert (pid < 16384)) (\<lambda>_.
       kbind (make_task entry run pid s1) (\<lambda>(t, s2).
       kbind (preempt_down (kst s2)) (\<lambda>k. Inr (t, s2\<lparr>kst := k\<rparr>)))))"

text \<open>
  Releasing a task. The last reference destroys it: \<^verbatim>\<open>slab_allocator::free\<close> calls the destructor of the task, which
  calls \<^verbatim>\<open>~virtual_memory\<close>, which panics, before the memory is given back.
\<close>

definition virtual_memory_destroy :: "unit res" where
  "virtual_memory_destroy = Inl KPanic"

definition virtual_memory_release :: "unit res" where
  "virtual_memory_release = Inl KPanic"

definition task_release :: "u32 \<Rightarrow> sched \<Rightarrow> sched res" where
  "task_release obj s =
    kbind (release_ref (task_rc s obj)) (\<lambda>(last_ref, rc).
    let s1 = s\<lparr>task_rc := (task_rc s)(obj := rc)\<rparr>
    in if last_ref
       then kbind virtual_memory_destroy (\<lambda>_.
            kbind (slab_free sizeof_task obj ((task_allocator s1)\<lparr>page_state := kst s1\<rparr>)) (\<lambda>a.
            Inr (s1\<lparr>task_allocator := a, kst := page_state a\<rparr>)))
       else Inr s1)"

definition scheduler_initialize :: "u32 \<Rightarrow> u32 \<Rightarrow> sched \<Rightarrow> sched res" where
  "scheduler_initialize entry idle_task s =
    (let s1 = s\<lparr>kst := (kst s)\<lparr>if_flag := False, preempt_counter := 1\<rparr>, max_pid := 1\<rparr>
     in kbind (make_task entry idle_task 0 s1) (\<lambda>(t, s2).
        Inr ((set_current t s2)\<lparr>tss_esp0 := 0, tss_ss0 := 0x10\<rparr>)))"

definition scheduler_start :: "sched \<Rightarrow> sched res" where
  "scheduler_start s =
    with_current (\<lambda>cur s. Inr (enter_task (stack_pointer s cur) s))
      (s\<lparr>kst := (kst s)\<lparr>if_flag := False, preempt_counter := 0\<rparr>\<rparr>)"

subsection \<open>The life of a task\<close>

text \<open>
  \<^verbatim>\<open>task_wrapper\<close> before and after the call of the task's function. Before: interrupts on, and a page table for the
  temporary mappings, entered in the last slot of the page directory. After: the next task of the ring
  becomes the current one, this one leaves the ring, its references are released, and its page table is freed.
  Then \<^verbatim>\<open>_sched_final_free\<close>, on another stack, frees the stack and enters the current task.
\<close>

definition task_begin :: "u32 kop" where
  "task_begin st =
    kbind (kmem_alloc_pages K4 (st\<lparr>if_flag := True\<rparr>)) (\<lambda>(tbl, st1).
    let m1 = memset tbl 0 4096 (kmem st1);
        pde = from_kmem tbl OR flag_value present OR flag_value writable_flag
    in Inr (tbl, st1\<lparr>kmem := store32 (to_virt (cr3 st1) + 0xFFC) pde m1\<rparr>))"

definition task_end :: "u32 \<Rightarrow> sched \<Rightarrow> sched res" where
  "task_end tbl s0 =
    (let s = s0\<lparr>kst := preempt_up (kst s0)\<rparr>
     in with_current (\<lambda>me s.
        kbind (unlink_task me (set_current (get_next (sched_links s) me) s)) (\<lambda>s1.
        kbind (task_release me s1) (\<lambda>s2.
        kbind (on_kst (kmem_free K4 tbl) s2) (\<lambda>(_, s3). Inr s3)))) s)"

definition sched_final_free :: "u32 \<Rightarrow> u32 \<Rightarrow> sched \<Rightarrow> sched res" where
  "sched_final_free free_stack switch_stack s =
    kbind (on_kst (kmem_free K4 free_stack) s) (\<lambda>(_, s1).
    kbind (preempt_down (kst s1)) (\<lambda>k.
    Inr (enter_task switch_stack (s1\<lparr>kst := k\<rparr>))))"

definition task_exit :: "u32 \<Rightarrow> u32 \<Rightarrow> sched \<Rightarrow> sched res" where
  "task_exit tbl my_stack s =
    kbind (task_end tbl s) (\<lambda>s1.
    with_current (\<lambda>cur s1. sched_final_free my_stack (stack_pointer s1 cur) s1) s1)"

subsection \<open>Mutexes\<close>

definition mutex_new :: "u32 \<Rightarrow> sched \<Rightarrow> sched" where
  "mutex_new m s = s\<lparr>m_owner := (m_owner s)(m := None), block_links := node_new (MutexNode m) (block_links s)\<rparr>"

text \<open>
  \<^verbatim>\<open>mutex::lock\<close> up to the point where the caller owns the mutex or another task has been entered (\<open>True\<close>: the
  caller goes on at once), and the assertion that a caller which had to wait evaluates when it runs again.
\<close>

definition mutex_lock :: "interrupt_args \<Rightarrow> u32 \<Rightarrow> u32 \<Rightarrow> u32 \<Rightarrow> sched \<Rightarrow> (bool \<times> sched) res" where
  "mutex_lock regs resume stack_arg m s0 =
    kbind (kassert (\<not> is_interrupt_context (kst s0))) (\<lambda>_.
    let s = s0\<lparr>kst := preempt_up (kst s0)\<rparr>
    in kbind (kassert (m_owner s m \<noteq> current_task (kst s))) (\<lambda>_.
       if m_owner s m = None
       then kbind (preempt_down (kst s)) (\<lambda>k.
            Inr (True, s\<lparr>m_owner := (m_owner s)(m := current_task (kst s)), kst := k\<rparr>))
       else with_current (\<lambda>cur s.
            let s1 = block_on cur (MutexNode m) s
            in kbind (preempt_down (kst s1)) (\<lambda>k.
               kbind (yield regs resume stack_arg (s1\<lparr>kst := k\<rparr>)) (\<lambda>s2. Inr (False, s2)))) s))"

definition mutex_lock_resumed :: "u32 \<Rightarrow> sched \<Rightarrow> unit res" where
  "mutex_lock_resumed m s = kassert (m_owner s m = current_task (kst s))"

fun task_from :: "bnode \<Rightarrow> u32 res" where
  "task_from (TaskNode t) = Inr t"
| "task_from (MutexNode m) = Inl Undefined"

definition mutex_unlock :: "u32 \<Rightarrow> sched \<Rightarrow> sched res" where
  "mutex_unlock m s0 =
    kbind (kassert (\<not> is_interrupt_context (kst s0))) (\<lambda>_.
    let s = s0\<lparr>kst := preempt_up (kst s0)\<rparr>
    in kbind (kassert (m_owner s m = current_task (kst s))) (\<lambda>_.
       kbind
         (if lonely (block_links s) (MutexNode m) then Inr (s\<lparr>m_owner := (m_owner s)(m := None)\<rparr>)
          else
            let waiter = get_next (block_links s) (MutexNode m)
            in kbind (unblock waiter s) (\<lambda>s1.
               kbind (task_from waiter) (\<lambda>t.
               Inr (s1\<lparr>m_owner := (m_owner s1)(m := Some t)\<rparr>))))
         (\<lambda>s2. kbind (preempt_down (kst s2)) (\<lambda>k. Inr (s2\<lparr>kst := k\<rparr>)))))"

definition mutex_destroy :: "u32 \<Rightarrow> sched \<Rightarrow> unit res" where
  "mutex_destroy m s = kassert (m_owner s m = None)"

end
