(* ===== verification/Mutex_Correct.thy ===== *)
theory Mutex_Correct
  imports Scheduler
begin

section \<open>Correctness of the scheduler and of mutexes\<close>

text \<open>
  The ring of tasks is walked in order and skips blocked tasks; a mutex is a queue of tasks whose first one owns it.
\<close>

subsection \<open>Picking the next task\<close>

lemma pick_loop_unfold:
  "pick_loop s cur = (if is_blocked s (l_next (sched_links s) cur) then pick_loop s (l_next (sched_links s) cur)
     else Some (l_next (sched_links s) cur))"
  by (subst pick_loop.simps) (simp add: get_next_def Let_def)

lemma pick_loop_linked:
  assumes "linked (sched_links s) c (us @ t # vs) d" and "\<forall>u \<in> set us. is_blocked s u" and "\<not> is_blocked s t"
  shows "pick_loop s c = Some t"
  using assms
proof (induction us arbitrary: c)
  case Nil
  then show ?case by (subst pick_loop_unfold) simp
next
  case (Cons u us)
  then show ?case by (subst pick_loop_unfold) simp
qed

text \<open>Along the ring, the first task that is not blocked; the current task comes last.\<close>

lemma pick_loop_ring:
  assumes ring: "ring (sched_links s) c xs" and some: "\<exists>t \<in> set (c # xs). \<not> is_blocked s t"
  shows "pick_loop s c = find (\<lambda>t. \<not> is_blocked s t) (xs @ [c])"
proof -
  obtain us t vs where split: "xs @ [c] = us @ t # vs" "\<not> is_blocked s t" "\<forall>u \<in> set us. is_blocked s u"
    using some split_list_first_prop [of "xs @ [c]" "\<lambda>t. \<not> is_blocked s t"] by auto
  have "linked (sched_links s) c (xs @ [c]) (l_next (sched_links s) c)"
    using ring ring_ends(1) [OF ring] linked_append [of "sched_links s" c xs c "[]"] by (cases xs) (auto simp: ring_def)
  then have "pick_loop s c = Some t"
    unfolding split(1) using split(2,3) by (intro pick_loop_linked)
  moreover have "find (\<lambda>t. \<not> is_blocked s t) (us @ t # vs) = Some t"
    using split(2,3) by (induction us) auto
  ultimately show ?thesis
    using split(1) by simp
qed

text \<open>A walk never ends outside the tasks that are not blocked.\<close>

lemma pick_loop_unblocked: "pick_loop s c = Some t \<Longrightarrow> \<not> is_blocked s t"
proof (rule pick_loop.raw_induct [of "\<lambda>s c t. \<not> is_blocked s t"])
  fix f s c t
  assume IH: "\<And>s c t. f s c = Some t \<Longrightarrow> \<not> is_blocked s t"
    and f: "(let n = get_next (sched_links s) c in if is_blocked s n then f s n else Some n) = Some t"
  then show "\<not> is_blocked s t"
    by (auto simp: Let_def split: if_splits)
qed

lemma pick_next_task_ring:
  assumes "ring (sched_links s) c xs" and "current_task (kst s) = Some c" and "\<exists>t \<in> set (c # xs). \<not> is_blocked s t"
  obtains t where "pick_next_task s = Inr (set_current t s)" "t \<in> set (c # xs)" "\<not> is_blocked s t"
    "find (\<lambda>t. \<not> is_blocked s t) (xs @ [c]) = Some t"
proof -
  obtain t where t: "find (\<lambda>t. \<not> is_blocked s t) (xs @ [c]) = Some t"
    using assms(3) find_None_iff [of "\<lambda>t. \<not> is_blocked s t" "xs @ [c]"] by (cases "find (\<lambda>t. \<not> is_blocked s t) (xs @ [c])") auto
  then obtain i where "i < length (xs @ [c])" "(xs @ [c]) ! i = t" "\<not> is_blocked s t"
    unfolding find_Some_iff by blast
  then have "t \<in> set (xs @ [c])" "\<not> is_blocked s t"
    by (metis nth_mem)+
  with t that show thesis
    using pick_loop_ring [OF assms(1,3)] assms(2) by (simp add: pick_next_task_def with_current_def)
qed

lemma set_current_simps [simp]:
  "sched_links (set_current t s) = sched_links s" "block_links (set_current t s) = block_links s"
  "m_owner (set_current t s) = m_owner s" "current_task (kst (set_current t s)) = Some t"
  "is_blocked (set_current t s) u = is_blocked s u" "stack_pointer (set_current t s) = stack_pointer s"
  by (simp_all add: set_current_def is_blocked_def)

text \<open>The ring read from another of its tasks.\<close>

lemma ring_shift:
  assumes "ring L c xs" and "xs @ [c] = us @ t # vs"
  obtains ys where "ring L t ys" "ys @ [t] = vs @ us @ [t]" "set (t # ys) = set (c # xs)"
proof (cases vs rule: rev_cases)
  case Nil
  then show thesis
    using assms that [of xs] by simp
next
  case (snoc ws d)
  then have eq: "d = c" "xs = us @ t # ws"
    using assms(2) by simp_all
  have "ring L t (ws @ c # us)"
    using assms(1) unfolding eq by (rule iffD1 [OF ring_rotate])
  then show thesis
    using that [of "ws @ c # us"] snoc eq by auto
qed

fun picks :: "nat \<Rightarrow> sched \<Rightarrow> sched res" where
  "picks 0 s = Inr s"
| "picks (Suc k) s = kbind (pick_next_task s) (picks k)"

lemma picks_reach:
  assumes "ring (sched_links s) c xs" and "current_task (kst s) = Some c" and "xs @ [c] = us @ y # vs"
    and "\<not> is_blocked s y"
  shows "\<exists>k s'. 0 < k \<and> k \<le> Suc (length us) \<and> picks k s = Inr s' \<and> current_task (kst s') = Some y"
  using assms
proof (induction "length us" arbitrary: us vs s c xs rule: less_induct)
  case less
  have y: "y \<in> set (c # xs)"
    using less.prems(3) by (metis in_set_conv_decomp rotate1.simps(2) set_rotate1)
  obtain t where t: "pick_next_task s = Inr (set_current t s)" "\<not> is_blocked s t"
      "find (\<lambda>t. \<not> is_blocked s t) (us @ y # vs) = Some t"
    using pick_next_task_ring [OF less.prems(1,2)] less.prems(3,4) y by metis
  show ?case
  proof (cases "t = y")
    case True
    then show ?thesis
      using t(1) by (intro exI [of _ 1] exI [of _ "set_current t s"]) simp
  next
    case False
    have "t \<in> set us"
    proof (rule ccontr)
      assume "t \<notin> set us"
      then have "\<forall>u \<in> set us. is_blocked s u"
        using t(3) by (induction us) (auto split: if_splits)
      then have "find (\<lambda>t. \<not> is_blocked s t) (us @ y # vs) = Some y"
        using less.prems(4) by (induction us) auto
      with t(3) False show False by simp
    qed
    then obtain us1 us2 where us: "us = us1 @ t # us2"
      by (meson split_list)
    obtain ys where ys: "ring (sched_links s) t ys" "ys @ [t] = (us2 @ y # vs) @ us1 @ [t]"
      using ring_shift [OF less.prems(1), of us1 t "us2 @ y # vs"] less.prems(3) us by auto
    have "\<exists>k s'. 0 < k \<and> k \<le> Suc (length us2) \<and> picks k (set_current t s) = Inr s' \<and> current_task (kst s') = Some y"
      using less.hyps [of us2 "set_current t s" t ys "vs @ us1 @ [t]"] ys less.prems(4) us by simp
    then obtain k s' where "k \<le> Suc (length us2)" "picks k (set_current t s) = Inr s'" "current_task (kst s') = Some y"
      by blast
    then show ?thesis
      using t(1) us by (intro exI [of _ "Suc k"] exI [of _ s']) simp
  qed
qed

subsection \<open>Waiting queues\<close>

text \<open>
  \<open>M\<close> are the mutexes, \<open>T\<close> the tasks, \<open>W m\<close> the tasks that wait for \<open>m\<close>, in the order in which they came.
\<close>

definition mutex_inv :: "u32 set \<Rightarrow> u32 set \<Rightarrow> (u32 \<Rightarrow> u32 list) \<Rightarrow> sched \<Rightarrow> bool" where
  "mutex_inv M T W s \<longleftrightarrow>
    (\<forall>m \<in> M. ring (block_links s) (MutexNode m) (map TaskNode (W m)) \<and> set (W m) \<subseteq> T \<and>
       (m_owner s m = None \<longrightarrow> W m = []) \<and> (\<forall>t \<in> set (W m). m_owner s m \<noteq> Some t)) \<and>
    (\<forall>m \<in> M. \<forall>n \<in> M. m \<noteq> n \<longrightarrow> set (W m) \<inter> set (W n) = {}) \<and>
    (\<forall>t \<in> T. (\<forall>m \<in> M. t \<notin> set (W m)) \<longrightarrow> ring (block_links s) (TaskNode t) [])"

text \<open>The abstract mutex: the queue of its owner and of the tasks that wait for it.\<close>

definition lock_queue :: "(u32 \<Rightarrow> u32 list) \<Rightarrow> sched \<Rightarrow> u32 \<Rightarrow> u32 list" where
  "lock_queue W s m = (case m_owner s m of None \<Rightarrow> [] | Some t \<Rightarrow> t # W m)"

lemma mutex_invD:
  assumes "mutex_inv M T W s" and "m \<in> M"
  shows "ring (block_links s) (MutexNode m) (map TaskNode (W m))" and "set (W m) \<subseteq> T"
    and "m_owner s m = None \<Longrightarrow> W m = []" and "t \<in> set (W m) \<Longrightarrow> m_owner s m \<noteq> Some t"
    and "n \<in> M \<Longrightarrow> m \<noteq> n \<Longrightarrow> set (W m) \<inter> set (W n) = {}"
  using assms unfolding mutex_inv_def by blast+

lemma mutex_inv_free:
  "mutex_inv M T W s \<Longrightarrow> t \<in> T \<Longrightarrow> (\<And>m. m \<in> M \<Longrightarrow> t \<notin> set (W m)) \<Longrightarrow> ring (block_links s) (TaskNode t) []"
  unfolding mutex_inv_def by blast

lemma is_blocked_iff:
  assumes inv: "mutex_inv M T W s" and t: "t \<in> T"
  shows "is_blocked s t \<longleftrightarrow> (\<exists>m \<in> M. t \<in> set (W m))"
proof (cases "\<exists>m \<in> M. t \<in> set (W m)")
  case True
  then obtain m us vs where m: "m \<in> M" "W m = us @ t # vs"
    by (meson split_list)
  then have "ring (block_links s) (MutexNode m) (map TaskNode us @ TaskNode t # map TaskNode vs)"
    using mutex_invD(1) [OF inv m(1)] by simp
  then have "ring (block_links s) (TaskNode t) (map TaskNode vs @ MutexNode m # map TaskNode us)"
    by (rule iffD1 [OF ring_rotate])
  from lonely_ring [OF this] True show ?thesis
    by (simp add: is_blocked_def)
next
  case False
  then have "ring (block_links s) (TaskNode t) []"
    using mutex_inv_free [OF inv t] by blast
  from lonely_ring [OF this] False show ?thesis
    by (simp add: is_blocked_def)
qed

text \<open>An operation on the queue of one mutex that touches the nodes of that queue and of one task only.\<close>

lemma mutex_inv_update:
  assumes inv: "mutex_inv M T W s" and m: "m \<in> M"
    and ring: "ring (block_links s') (MutexNode m) (map TaskNode ws)" "set ws \<subseteq> T"
    and own: "m_owner s' m = None \<Longrightarrow> ws = []" "\<And>t. t \<in> set ws \<Longrightarrow> m_owner s' m \<noteq> Some t"
      "\<And>n. n \<noteq> m \<Longrightarrow> m_owner s' n = m_owner s n"
    and frame: "\<And>p. p \<notin> set (MutexNode m # TaskNode c # map TaskNode (W m)) \<Longrightarrow>
      l_next (block_links s') p = l_next (block_links s) p \<and> l_prev (block_links s') p = l_prev (block_links s) p"
    and c: "\<And>n. n \<in> M \<Longrightarrow> n \<noteq> m \<Longrightarrow> c \<notin> set (W n)" "set (W m) \<subseteq> insert c (set ws)" "set ws \<subseteq> insert c (set (W m))"
    and free: "c \<notin> set ws \<Longrightarrow> ring (block_links s') (TaskNode c) []"
  shows "mutex_inv M T (W(m := ws)) s'"
  unfolding mutex_inv_def
proof (intro conjI ballI impI)
  note D = mutex_invD [OF inv]
  fix n assume n: "n \<in> M"
  have other: "set (W n) \<inter> insert c (set (W m)) = {}" if "n \<noteq> m"
    using D(5) [OF n m that] c(1) [OF n that] by auto
  show "ring (block_links s') (MutexNode n) (map TaskNode ((W(m := ws)) n))"
  proof (cases "n = m")
    case False
    have "l_next (block_links s') p = l_next (block_links s) p \<and> l_prev (block_links s') p = l_prev (block_links s) p"
      if p: "p \<in> set (MutexNode n # map TaskNode (W n))" for p
      by (rule frame) (use p other [OF False] False in auto)
    then show ?thesis
      using ring_frame [OF D(1) [OF n], of "block_links s'"] False by simp
  qed (use ring in simp)
  show "set ((W(m := ws)) n) \<subseteq> T"
    using D(2) [OF n] ring(2) by simp
  show "(W(m := ws)) n = []" if "m_owner s' n = None"
    using that D(3) [OF n] own(1,3) by (cases "n = m") auto
  show "m_owner s' n \<noteq> Some t" if "t \<in> set ((W(m := ws)) n)" for t
    using that D(4) [OF n] own(2,3) by (cases "n = m") auto
  show "set ((W(m := ws)) n) \<inter> set ((W(m := ws)) n') = {}" if "n' \<in> M" "n \<noteq> n'" for n'
    using that other D(5) [OF n that] D(5) [OF that(1) m] c(1) [OF that(1)] c(3) by (cases "n = m"; cases "n' = m") auto
next
  fix t assume t: "t \<in> T" "\<forall>n \<in> M. t \<notin> set ((W(m := ws)) n)"
  then have ws: "t \<notin> set ws"
    using m by auto
  show "ring (block_links s') (TaskNode t) []"
  proof (cases "t = c")
    case True
    then show ?thesis using free ws by simp
  next
    case False
    then have W: "t \<notin> set (W m)"
      using ws c(2) by auto
    then have "t \<notin> set (W n)" if "n \<in> M" for n
      using t(2) that by (cases "n = m") auto
    then have "ring (block_links s) (TaskNode t) []"
      using mutex_inv_free [OF inv t(1)] by blast
    then show ?thesis
      by (rule ring_frame) (use frame False W in auto)
  qed
qed

lemma block_on_inv:
  assumes inv: "mutex_inv M T W s" and m: "m \<in> M" and c: "c \<in> T" "\<And>n. n \<in> M \<Longrightarrow> c \<notin> set (W n)"
    and own: "m_owner s m = Some t" "t \<noteq> c"
  shows "mutex_inv M T (W(m := W m @ [c])) (block_on c (MutexNode m) s)"
proof -
  have notin: "TaskNode c \<notin> set (MutexNode m # map TaskNode (W m))"
    using c(2) [OF m] by auto
  note ring = mutex_invD(1) [OF inv m]
  note add = add_last_ring [OF ring notin]
  show ?thesis
  proof (rule mutex_inv_update [OF inv m, where c = c])
    show "ring (block_links (block_on c (MutexNode m) s)) (MutexNode m) (map TaskNode (W m @ [c]))"
      using add(1) by (simp add: block_on_def)
    show "set (W m @ [c]) \<subseteq> T"
      using mutex_invD(2) [OF inv m] c(1) by simp
    show "m_owner (block_on c (MutexNode m) s) m = None \<Longrightarrow> W m @ [c] = []"
      using own by (simp add: block_on_def)
    show "m_owner (block_on c (MutexNode m) s) m \<noteq> Some u" if "u \<in> set (W m @ [c])" for u
      using that own mutex_invD(4) [OF inv m, of u] by (auto simp: block_on_def)
    show "l_next (block_links (block_on c (MutexNode m) s)) p = l_next (block_links s) p \<and>
        l_prev (block_links (block_on c (MutexNode m) s)) p = l_prev (block_links s) p"
      if "p \<notin> set (MutexNode m # TaskNode c # map TaskNode (W m))" for p
      using add(2) [of p] that by (simp add: block_on_def)
  qed (use c(2) in \<open>auto simp: block_on_def\<close>)
qed

lemma mutex_inv_owner:
  assumes inv: "mutex_inv M T W s" and m: "m \<in> M" and "W m = []"
    and "block_links s' = block_links s" "m_owner s' = (m_owner s)(m := x)"
  shows "mutex_inv M T W s'"
  using assms unfolding mutex_inv_def by (auto split: if_splits)

lemma mutex_inv_cong:
  "mutex_inv M T W s \<Longrightarrow> block_links s' = block_links s \<Longrightarrow> m_owner s' = m_owner s \<Longrightarrow> mutex_inv M T W s'"
  by (simp add: mutex_inv_def)

text \<open>Passing the mutex on to the first task that waits for it.\<close>

lemma handoff_inv:
  assumes inv: "mutex_inv M T W s" and m: "m \<in> M" and W: "W m = w # ws"
  shows "\<exists>s1. unblock (TaskNode w) s = Inr s1 \<and> kst s1 = kst s \<and> m_owner s1 = m_owner s \<and> sched_links s1 = sched_links s \<and>
    stack_pointer s1 = stack_pointer s \<and>
    mutex_inv M T (W(m := ws)) (s1\<lparr>m_owner := (m_owner s1)(m := Some w)\<rparr>)"
proof -
  have ring: "ring (block_links s) (MutexNode m) ([] @ TaskNode w # map TaskNode ws)"
    using mutex_invD(1) [OF inv m] W by simp
  then have dist: "w \<notin> set ws"
    by (auto simp: ring_def)
  have "is_blocked s w"
    using is_blocked_iff [OF inv, of w] mutex_invD(2) [OF inv m] W m by (metis list.set_intros(1) subsetD)
  then have run: "unblock (TaskNode w) s = Inr (s\<lparr>block_links := unlink (TaskNode w) (block_links s)\<rparr>)"
    by (simp add: unblock_def is_blocked_def)
  define s2 where "s2 = s\<lparr>block_links := unlink (TaskNode w) (block_links s), m_owner := (m_owner s)(m := Some w)\<rparr>"
  note un = unlink_ring_mid [OF ring]
  have "mutex_inv M T (W(m := ws)) s2"
  proof (rule mutex_inv_update [OF inv m, where c = w])
    show "ring (block_links s2) (MutexNode m) (map TaskNode ws)"
      using un(1) by (simp add: s2_def)
    show "set ws \<subseteq> T"
      using mutex_invD(2) [OF inv m] W by simp
    show "m_owner s2 m \<noteq> Some u" if "u \<in> set ws" for u
      using that dist by (auto simp: s2_def)
    show "l_next (block_links s2) p = l_next (block_links s) p \<and> l_prev (block_links s2) p = l_prev (block_links s) p"
      if "p \<notin> set (MutexNode m # TaskNode w # map TaskNode (W m))" for p
      using un(3) [of p] that W by (simp add: s2_def)
    show "w \<notin> set (W n)" if "n \<in> M" "n \<noteq> m" for n
      using mutex_invD(5) [OF inv that(1) m that(2)] W by auto
  qed (use un(2) W in \<open>auto simp: s2_def\<close>)
  then show ?thesis
    using run by (intro exI [of _ "s\<lparr>block_links := unlink (TaskNode w) (block_links s)\<rparr>"]) (simp add: s2_def)
qed

subsection \<open>Switching tasks\<close>

text \<open>What every switch keeps, and what the next task is.\<close>

definition switched :: "u32 \<Rightarrow> u32 list \<Rightarrow> sched \<Rightarrow> sched \<Rightarrow> bool" where
  "switched c xs s s' \<longleftrightarrow> sched_links s' = sched_links s \<and> block_links s' = block_links s \<and> m_owner s' = m_owner s \<and>
    preempt_counter (kst s') = preempt_counter (kst s) \<and>
    interrupt_context_depth (kst s') = interrupt_context_depth (kst s) \<and>
    current_task (kst s') = find (\<lambda>t. \<not> is_blocked s t) (xs @ [c])"

lemma is_blocked_kst [simp]: "is_blocked (s\<lparr>kst := k\<rparr>) t = is_blocked s t"
  by (simp add: is_blocked_def)

lemma do_yield_switched:
  assumes "ring (sched_links s) c xs" and "current_task (kst s) = Some c" and "\<exists>t \<in> set (c # xs). \<not> is_blocked s t"
  shows "\<exists>s'. do_yield sp s = Inr s' \<and> switched c xs s s' \<and> kmem (kst s') = kmem (kst s)"
proof -
  let ?s = "s\<lparr>stack_pointer := (stack_pointer s)(c := sp)\<rparr>"
  have same: "is_blocked ?s = is_blocked s"
    by (simp add: fun_eq_iff is_blocked_def)
  obtain t where t: "pick_next_task ?s = Inr (set_current t ?s)" "find (\<lambda>t. \<not> is_blocked ?s t) (xs @ [c]) = Some t"
    using pick_next_task_ring [of ?s c xs] assms same by auto
  then show ?thesis
    using assms(2) unfolding do_yield_def with_current_def
    by (auto simp: switched_def enter_task_def Let_def same set_current_def)
qed

lemma yield_switched:
  assumes "ring (sched_links s) c xs" and "current_task (kst s) = Some c" and "\<exists>t \<in> set (c # xs). \<not> is_blocked s t"
    and "interrupt_context_depth (kst s) = 0" and "preempt_counter (kst s) = 0"
  shows "\<exists>s'. yield regs resume sp s = Inr s' \<and> switched c xs s s' \<and>
    kmem (kst s') = push_args sp (yield_frame regs resume ((kst s)\<lparr>if_flag := False\<rparr>)) (kmem (kst s))"
proof -
  let ?k = "(kst s)\<lparr>if_flag := False\<rparr>"
  let ?s = "s\<lparr>kst := ?k\<lparr>kmem := push_args sp (yield_frame regs resume ?k) (kmem ?k)\<rparr>\<rparr>"
  have "\<exists>s'. do_yield sp ?s = Inr s' \<and> switched c xs ?s s' \<and> kmem (kst s') = kmem (kst ?s)"
    by (rule do_yield_switched) (use assms in simp_all)
  then show ?thesis
    using assms(4,5) by (auto simp: yield_def is_interrupt_context_def Let_def switched_def)
qed

lemma timeslice_switched:
  assumes "ring (sched_links s) c xs" and "current_task (kst s) = Some c" and "\<exists>t \<in> set (c # xs). \<not> is_blocked s t"
    and "interrupt_context_depth (kst s) = 1" and "preempt_counter (kst s) = 0"
  shows "\<exists>s'. timeslice_passed sp s = Inr s' \<and>
    switched c xs (s\<lparr>kst := (kst s)\<lparr>interrupt_context_depth := 0\<rparr>\<rparr>) s'"
proof -
  let ?k = "(kst s)\<lparr>if_flag := False, interrupt_context_depth := 0\<rparr>"
  have red: "reduce_interrupt_depth ((kst s)\<lparr>if_flag := False\<rparr>) = Inr ?k"
    using assms(4) by (simp add: reduce_interrupt_depth_def)
  have "\<exists>s'. do_yield sp (s\<lparr>kst := ?k\<rparr>) = Inr s' \<and> switched c xs (s\<lparr>kst := ?k\<rparr>) s' \<and> kmem (kst s') = kmem (kst (s\<lparr>kst := ?k\<rparr>))"
    by (rule do_yield_switched) (use assms in simp_all)
  then obtain s' where "do_yield sp (s\<lparr>kst := ?k\<rparr>) = Inr s'" "switched c xs (s\<lparr>kst := ?k\<rparr>) s'"
    by blast
  then show ?thesis
    using assms(2,4,5) red
    by (intro exI [of _ s']) (simp add: timeslice_passed_def timeslice_held_def is_interrupt_context_def get_interrupt_context_depth_def
        switched_def)
qed

lemma find_some_in:
  assumes "find P xs = Some x"
  shows "x \<in> set xs" and "P x"
  using assms unfolding find_Some_iff by auto

lemma switchedD:
  assumes "switched c xs s s'" and "\<exists>t \<in> set (c # xs). \<not> is_blocked s t" and "ring (sched_links s) c xs"
  obtains t ys where "current_task (kst s') = Some t" "t \<in> set (c # xs)" "\<not> is_blocked s' t" "ring (sched_links s') t ys"
    "set (t # ys) = set (c # xs)"
proof -
  have "find (\<lambda>t. \<not> is_blocked s t) (xs @ [c]) \<noteq> None"
    using assms(2) find_None_iff [of "\<lambda>t. \<not> is_blocked s t" "xs @ [c]"] by auto
  then obtain t where t: "find (\<lambda>t. \<not> is_blocked s t) (xs @ [c]) = Some t"
    by blast
  note in_ring = find_some_in [OF t]
  obtain us vs where "xs @ [c] = us @ t # vs"
    using split_list [OF in_ring(1)] by blast
  from ring_shift [OF assms(3) this] obtain ys where ys: "ring (sched_links s) t ys" "set (t # ys) = set (c # xs)"
    by metis
  have "is_blocked s' t = is_blocked s t"
    using assms(1) by (simp add: switched_def is_blocked_def)
  with that t in_ring ys assms(1) show thesis
    by (auto simp: switched_def)
qed

end
