(* ===== verification/Sched_Props.thy ===== *)
theory Sched_Props
  imports Mutex_Correct
begin

section \<open>Properties of the scheduler and of mutexes\<close>

text \<open>
  The scheduler's invariant over the operations of tasks, mutexes as first-in first-out queues, fairness of the
  round robin, the frames that switches save and restore, and what happens when a task ends.
\<close>

subsection \<open>The invariant\<close>

text \<open>
  Task \<open>c\<close> runs, outside interrupt context and with preemption allowed; it is not blocked, and neither is the idle
  task, so that there is always a task to switch to.
\<close>

definition running :: "u32 \<Rightarrow> u32 set \<Rightarrow> u32 set \<Rightarrow> (u32 \<Rightarrow> u32 list) \<Rightarrow> u32 \<Rightarrow> sched \<Rightarrow> bool" where
  "running idle M T W c s \<longleftrightarrow> mutex_inv M T W s \<and> current_task (kst s) = Some c \<and>
    (\<exists>xs. ring (sched_links s) c xs \<and> set (c # xs) = T) \<and> \<not> is_blocked s c \<and> idle \<in> T \<and> \<not> is_blocked s idle \<and>
    interrupt_context_depth (kst s) = 0 \<and> preempt_counter (kst s) = 0"

lemma runningD:
  assumes "running idle M T W c s"
  shows "mutex_inv M T W s" "current_task (kst s) = Some c" "\<not> is_blocked s c" "idle \<in> T" "\<not> is_blocked s idle"
    "interrupt_context_depth (kst s) = 0" "preempt_counter (kst s) = 0" "c \<in> T"
  using assms unfolding running_def by auto

lemma running_waits: "running idle M T W c s \<Longrightarrow> n \<in> M \<Longrightarrow> c \<notin> set (W n) \<and> idle \<notin> set (W n)"
  using is_blocked_iff [of M T W s] runningD [of idle M T W c s] by blast

lemma running_switched:
  assumes inv: "mutex_inv M T W s" and ring: "ring (sched_links s) c xs" "set (c # xs) = T"
    and idle: "idle \<in> T" "\<not> is_blocked s idle" and sw: "switched c xs s s'"
    and "interrupt_context_depth (kst s) = 0" "preempt_counter (kst s) = 0"
  shows "\<exists>c'. running idle M T W c' s' \<and> lock_queue W s' = lock_queue W s"
proof -
  have "\<exists>t \<in> set (c # xs). \<not> is_blocked s t"
    using idle ring by blast
  from switchedD [OF sw this ring(1)] obtain t ys where "current_task (kst s') = Some t" "\<not> is_blocked s' t"
      "ring (sched_links s') t ys" "set (t # ys) = T"
    using ring(2) by metis
  moreover have "mutex_inv M T W s'"
    using inv by (rule mutex_inv_cong) (use sw in \<open>simp_all add: switched_def\<close>)
  moreover have "\<not> is_blocked s' idle" "lock_queue W s' = lock_queue W s"
    using idle(2) sw by (simp_all add: switched_def is_blocked_def lock_queue_def fun_eq_iff)
  ultimately show ?thesis
    using idle(1) sw assms(7,8) by (intro exI [of _ t]) (auto simp: running_def switched_def)
qed

lemma running_preempt:
  assumes "running idle M T W c s"
  shows "preempt_up (kst s) = (kst s)\<lparr>preempt_counter := 1\<rparr>"
    "preempt_down ((kst s)\<lparr>preempt_counter := 1\<rparr>) = Inr (kst s)"
  using runningD(7) [OF assms] by (simp_all add: preempt_up_def preempt_down_def)

lemma running_tick:
  assumes run: "running idle M T W c s"
  shows "\<exists>s' c'. timeslice_passed sp (s\<lparr>kst := (kst s)\<lparr>interrupt_context_depth := 1\<rparr>\<rparr>) = Inr s' \<and>
    running idle M T W c' s' \<and> lock_queue W s' = lock_queue W s"
proof -
  let ?s = "s\<lparr>kst := (kst s)\<lparr>interrupt_context_depth := 1\<rparr>\<rparr>"
  note D = runningD [OF run]
  obtain xs where xs: "ring (sched_links s) c xs" "set (c # xs) = T"
    using run unfolding running_def by blast
  have "\<exists>s'. timeslice_passed sp ?s = Inr s' \<and> switched c xs (?s\<lparr>kst := (kst ?s)\<lparr>interrupt_context_depth := 0\<rparr>\<rparr>) s'"
    by (rule timeslice_switched) (use D xs in auto)
  moreover have "?s\<lparr>kst := (kst ?s)\<lparr>interrupt_context_depth := 0\<rparr>\<rparr> = s"
    using D(6) by simp
  ultimately obtain s' where s': "timeslice_passed sp ?s = Inr s'" "switched c xs s s'"
    by auto
  then show ?thesis
    using running_switched [OF D(1) xs D(4,5) s'(2) D(6,7)] by blast
qed

lemma running_yield:
  assumes run: "running idle M T W c s"
  shows "\<exists>s' c'. yield regs resume sp s = Inr s' \<and> running idle M T W c' s' \<and> lock_queue W s' = lock_queue W s"
proof -
  note D = runningD [OF run]
  obtain xs where xs: "ring (sched_links s) c xs" "set (c # xs) = T"
    using run unfolding running_def by blast
  have "\<exists>s'. yield regs resume sp s = Inr s' \<and> switched c xs s s' \<and>
      kmem (kst s') = push_args sp (yield_frame regs resume ((kst s)\<lparr>if_flag := False\<rparr>)) (kmem (kst s))"
    by (rule yield_switched) (use D xs in auto)
  then show ?thesis
    using running_switched [OF D(1) xs D(4,5) _ D(6,7)] by blast
qed

lemma running_lock:
  assumes run: "running idle M T W c s" and m: "m \<in> M" "c \<noteq> idle" "m_owner s m \<noteq> Some c"
  shows "\<exists>b s' W' c'. mutex_lock regs resume sp m s = Inr (b, s') \<and> running idle M T W' c' s' \<and>
    lock_queue W' s' = (lock_queue W s)(m := lock_queue W s m @ [c]) \<and> b = (lock_queue W s m = []) \<and> (b \<longrightarrow> c' = c \<and> W' = W) \<and>
    (\<not> b \<longrightarrow> W' = W(m := W m @ [c]) \<and> m_owner s' = m_owner s)"
proof (cases "m_owner s m")
  case None
  note D = runningD [OF run]
  let ?s' = "s\<lparr>m_owner := (m_owner s)(m := Some c)\<rparr>"
  have W: "W m = []"
    using mutex_invD(3) [OF D(1) m(1)] None by simp
  have lock: "mutex_lock regs resume sp m s = Inr (True, ?s')"
    using None D(2,6) running_preempt [OF run] by (simp add: mutex_lock_def is_interrupt_context_def Let_def)
  have "mutex_inv M T W ?s'"
    by (rule mutex_inv_owner [OF D(1) m(1) W]) simp_all
  then have "running idle M T W c ?s'"
    using run by (simp add: running_def is_blocked_def)
  moreover have "lock_queue W ?s' = (lock_queue W s)(m := lock_queue W s m @ [c])" "lock_queue W s m = []"
    using None W by (auto simp: lock_queue_def fun_eq_iff)
  ultimately show ?thesis
    using lock by (intro exI [of _ True] exI [of _ ?s'] exI [of _ W] exI [of _ c]) simp
next
  case (Some t)
  note D = runningD [OF run]
  obtain xs where xs: "ring (sched_links s) c xs" "set (c # xs) = T"
    using run unfolding running_def by blast
  let ?s = "block_on c (MutexNode m) s" and ?W = "W(m := W m @ [c])"
  have inv: "mutex_inv M T ?W ?s"
    by (rule block_on_inv [OF D(1) m(1) D(8) _ Some]) (use running_waits [OF run] Some m(3) in auto)
  have same: "kst ?s = kst s" "sched_links ?s = sched_links s" "m_owner ?s = m_owner s"
    by (simp_all add: block_on_def)
  have idle: "\<not> is_blocked ?s idle"
    using is_blocked_iff [OF inv D(4)] running_waits [OF run] m(2) by auto
  have "\<exists>s'. yield regs resume sp ?s = Inr s' \<and> switched c xs ?s s' \<and>
      kmem (kst s') = push_args sp (yield_frame regs resume ((kst ?s)\<lparr>if_flag := False\<rparr>)) (kmem (kst ?s))"
    by (rule yield_switched) (use D xs same idle in auto)
  then obtain s' where s': "yield regs resume sp ?s = Inr s'" "switched c xs ?s s'"
    by blast
  obtain c' where c': "running idle M T ?W c' s'" "lock_queue ?W s' = lock_queue ?W ?s"
    using running_switched [OF inv _ xs(2) D(4) idle s'(2)] same D(6,7) xs(1) by auto
  have lock: "mutex_lock regs resume sp m s = Inr (False, s')"
  proof -
    let ?s1 = "s\<lparr>kst := (kst s)\<lparr>preempt_counter := 1\<rparr>\<rparr>"
    have "(block_on c (MutexNode m) ?s1)\<lparr>kst := kst s\<rparr> = ?s" "kst (block_on c (MutexNode m) ?s1) = (kst s)\<lparr>preempt_counter := 1\<rparr>"
      by (simp_all add: block_on_def)
    then show ?thesis
      using Some D(2,6) m(3) running_preempt [OF run] s'(1)
      by (simp add: mutex_lock_def is_interrupt_context_def Let_def with_current_def)
  qed
  have "lock_queue ?W ?s = (lock_queue W s)(m := lock_queue W s m @ [c])" "lock_queue W s m \<noteq> []"
    using Some same(3) by (auto simp: lock_queue_def fun_eq_iff split: option.split)
  moreover have "m_owner s' = m_owner s"
    using s'(2) same(3) by (simp add: switched_def)
  ultimately show ?thesis
    using lock c' by (intro exI [of _ False] exI [of _ s'] exI [of _ ?W] exI [of _ c']) simp
qed

lemma running_unlock:
  assumes run: "running idle M T W c s" and m: "m \<in> M" "m_owner s m = Some c"
  shows "\<exists>s' W'. mutex_unlock m s = Inr s' \<and> running idle M T W' c s' \<and>
    lock_queue W' s' = (lock_queue W s)(m := tl (lock_queue W s m)) \<and> W' = W(m := tl (W m)) \<and>
    m_owner s' = (m_owner s)(m := if W m = [] then None else Some (hd (W m)))"
proof (cases "W m")
  case Nil
  note D = runningD [OF run]
  let ?s' = "s\<lparr>m_owner := (m_owner s)(m := None)\<rparr>"
  have "lonely (block_links s) (MutexNode m)"
    using lonely_ring [OF mutex_invD(1) [OF D(1) m(1)]] Nil by simp
  then have unlock: "mutex_unlock m s = Inr ?s'"
    using m(2) D(2,6) running_preempt [OF run] by (simp add: mutex_unlock_def is_interrupt_context_def Let_def)
  have "mutex_inv M T W ?s'"
    by (rule mutex_inv_owner [OF D(1) m(1) Nil]) simp_all
  then have "running idle M T W c ?s'"
    using run by (simp add: running_def is_blocked_def)
  moreover have "lock_queue W ?s' = (lock_queue W s)(m := tl (lock_queue W s m))" "W = W(m := tl (W m))"
    using m(2) Nil by (auto simp: lock_queue_def fun_eq_iff)
  ultimately show ?thesis
    using unlock Nil by (intro exI [of _ ?s'] exI [of _ W]) simp
next
  case (Cons w ws)
  note D = runningD [OF run]
  let ?W = "W(m := ws)"
  define sp where "sp = s\<lparr>kst := (kst s)\<lparr>preempt_counter := 1\<rparr>\<rparr>"
  have invp: "mutex_inv M T W sp"
    using D(1) by (rule mutex_inv_cong) (simp_all add: sp_def)
  have ring: "ring (block_links s) (MutexNode m) (TaskNode w # map TaskNode ws)"
    using mutex_invD(1) [OF D(1) m(1)] Cons by simp
  obtain s1 where s1: "unblock (TaskNode w) sp = Inr s1" "kst s1 = kst sp" "m_owner s1 = m_owner sp"
      "sched_links s1 = sched_links sp" "mutex_inv M T ?W (s1\<lparr>m_owner := (m_owner s1)(m := Some w)\<rparr>)"
    using handoff_inv [OF invp m(1) Cons] by blast
  let ?s' = "s1\<lparr>m_owner := (m_owner s1)(m := Some w), kst := kst s\<rparr>"
  have "\<not> lonely (block_links s) (MutexNode m)" "get_next (block_links s) (MutexNode m) = TaskNode w"
    using lonely_ring [OF ring] ring_ends(1) [OF ring] by (simp_all add: get_next_def)
  then have unlock: "mutex_unlock m s = Inr ?s'"
    using m(2) D(2,6) running_preempt [OF run] s1(1,2)
    by (simp add: mutex_unlock_def is_interrupt_context_def Let_def sp_def)
  have inv: "mutex_inv M T ?W ?s'"
    using s1(5) by (rule mutex_inv_cong) simp_all
  have blk: "\<not> is_blocked ?s' c" "\<not> is_blocked ?s' idle"
    using is_blocked_iff [OF inv] D(4,8) running_waits [OF run] running_waits [OF run m(1)] Cons by (auto split: if_splits)
  have "running idle M T ?W c ?s'"
    using run inv blk s1(4) by (simp add: running_def sp_def)
  moreover have "lock_queue ?W ?s' = (lock_queue W s)(m := tl (lock_queue W s m))"
    using m(2) Cons s1(3) by (auto simp: lock_queue_def fun_eq_iff sp_def split: option.split)
  ultimately show ?thesis
    using unlock Cons s1(3) by (intro exI [of _ ?s'] exI [of _ ?W]) (simp add: sp_def)
qed

subsection \<open>Histories\<close>

text \<open>
  The steps of a system of tasks that lock and unlock mutexes, yield, and are preempted by the timer. \<open>wt t = Some m\<close>
  says that task \<open>t\<close> is inside \<open>lock\<close> of \<open>m\<close>, past its call of \<open>yield\<close>; the next thing it does when it runs is to
  evaluate the assertion. A timer interrupt calls \<open>timeslice_passed\<close> in a nested context.
\<close>

inductive sys_step :: "u32 \<Rightarrow> u32 set \<Rightarrow> sched \<times> (u32 \<Rightarrow> u32 option) \<Rightarrow> sched \<times> (u32 \<Rightarrow> u32 option) \<Rightarrow> bool" for idle M where
  lock_step: "current_task (kst s) = Some c \<Longrightarrow> c \<noteq> idle \<Longrightarrow> wt c = None \<Longrightarrow> m \<in> M \<Longrightarrow>
    mutex_lock regs resume sp m s = Inr (b, s') \<Longrightarrow> sys_step idle M (s, wt) (s', if b then wt else wt(c \<mapsto> m))"
| unlock_step: "current_task (kst s) = Some c \<Longrightarrow> wt c = None \<Longrightarrow> m \<in> M \<Longrightarrow> mutex_unlock m s = Inr s' \<Longrightarrow>
    sys_step idle M (s, wt) (s', wt)"
| resume_step: "current_task (kst s) = Some c \<Longrightarrow> wt c = Some m \<Longrightarrow> mutex_lock_resumed m s = Inr () \<Longrightarrow>
    sys_step idle M (s, wt) (s, wt(c := None))"
| yield_step: "current_task (kst s) = Some c \<Longrightarrow> wt c = None \<Longrightarrow> yield regs resume sp s = Inr s' \<Longrightarrow>
    sys_step idle M (s, wt) (s', wt)"
| tick_step: "timeslice_passed sp (s\<lparr>kst := (kst s)\<lparr>interrupt_context_depth := 1\<rparr>\<rparr>) = Inr s' \<Longrightarrow>
    sys_step idle M (s, wt) (s', wt)"

definition waits_ok :: "u32 set \<Rightarrow> (u32 \<Rightarrow> u32 list) \<Rightarrow> sched \<Rightarrow> (u32 \<Rightarrow> u32 option) \<Rightarrow> bool" where
  "waits_ok M W s wt \<longleftrightarrow> (\<forall>t m. wt t = Some m \<longrightarrow> m \<in> M \<and> t \<in> set (lock_queue W s m)) \<and>
    (\<forall>m \<in> M. \<forall>t \<in> set (tl (lock_queue W s m)). wt t = Some m)"

definition sys_inv :: "u32 \<Rightarrow> u32 set \<Rightarrow> sched \<times> (u32 \<Rightarrow> u32 option) \<Rightarrow> bool" where
  "sys_inv idle M x \<longleftrightarrow> (\<exists>T W c. running idle M T W c (fst x) \<and> waits_ok M W (fst x) (snd x))"

lemma lock_queue_tl: "running idle M T W c s \<Longrightarrow> m \<in> M \<Longrightarrow> tl (lock_queue W s m) = W m"
  using mutex_invD(3) [OF runningD(1), of idle M T W c s m] by (cases "m_owner s m") (simp_all add: lock_queue_def)

lemma lock_queue_owner: "m_owner s m = (case lock_queue W s m of [] \<Rightarrow> None | t # _ \<Rightarrow> Some t)"
  by (simp add: lock_queue_def split: option.split)

text \<open>A running task that was waiting owns what it was waiting for.\<close>

lemma resumed_owner:
  assumes "running idle M T W c s" and "waits_ok M W s wt" and "wt c = Some m"
  shows "m_owner s m = Some c"
proof -
  have m: "m \<in> M" "c \<in> set (lock_queue W s m)"
    using assms(2,3) unfolding waits_ok_def by blast+
  moreover have "c \<notin> set (tl (lock_queue W s m))"
    using running_waits [OF assms(1) m(1)] lock_queue_tl [OF assms(1) m(1)] by simp
  ultimately show ?thesis
    by (auto simp: lock_queue_def split: option.splits)
qed

lemma waits_okD:
  assumes "waits_ok M W s wt"
  shows "wt t = Some m \<Longrightarrow> m \<in> M" and "wt t = Some m \<Longrightarrow> t \<in> set (lock_queue W s m)"
    and "m \<in> M \<Longrightarrow> t \<in> set (tl (lock_queue W s m)) \<Longrightarrow> wt t = Some m"
  using assms unfolding waits_ok_def by blast+

lemma waits_okI:
  assumes "\<And>t m. wt t = Some m \<Longrightarrow> m \<in> M" and "\<And>t m. wt t = Some m \<Longrightarrow> t \<in> set (lock_queue W s m)"
    and "\<And>t m. m \<in> M \<Longrightarrow> t \<in> set (tl (lock_queue W s m)) \<Longrightarrow> wt t = Some m"
  shows "waits_ok M W s wt"
  using assms unfolding waits_ok_def by blast

lemma waits_ok_cong:
  assumes "waits_ok M W s wt" and "lock_queue W s' = lock_queue W s"
  shows "waits_ok M W s' wt"
  using assms(1) unfolding waits_ok_def assms(2) .

lemma waits_ok_lock:
  assumes ok: "waits_ok M W s wt" and c: "wt c = None" "m \<in> M"
    and q: "lock_queue W' s' = (lock_queue W s)(m := lock_queue W s m @ [c])"
  shows "waits_ok M W' s' (if lock_queue W s m = [] then wt else wt(c \<mapsto> m))"
proof (rule waits_okI)
  fix t n
  assume wt': "(if lock_queue W s m = [] then wt else wt(c \<mapsto> m)) t = Some n"
  then have "wt t = Some n \<or> t = c \<and> n = m"
    by (cases "lock_queue W s m = []"; cases "t = c"; simp)
  then consider "wt t = Some n" | "t = c" "n = m"
    by blast
  then have "n \<in> M \<and> t \<in> set (lock_queue W' s' n)"
  proof cases
    case 1
    show ?thesis
      using waits_okD(1,2) [OF ok 1] unfolding q by (cases "n = m") simp_all
  next
    case 2
    then show ?thesis
      using c(2) unfolding q by simp
  qed
  then show "n \<in> M" "t \<in> set (lock_queue W' s' n)"
    by blast+
next
  fix t n
  assume n: "n \<in> M" and "t \<in> set (tl (lock_queue W' s' n))"
  then consider "t \<in> set (tl (lock_queue W s n))" | "n = m" "t = c" "lock_queue W s m \<noteq> []"
    unfolding q by (cases "n = m"; cases "lock_queue W s m") auto
  then show "(if lock_queue W s m = [] then wt else wt(c \<mapsto> m)) t = Some n"
  proof cases
    case 1
    then have "wt t = Some n"
      by (rule waits_okD(3) [OF ok n])
    then show ?thesis
      using c(1) by (cases "t = c") simp_all
  qed simp
qed

lemma waits_ok_unlock:
  assumes ok: "waits_ok M W s wt" and c: "wt c = None" and own: "lock_queue W s m = c # ws"
    and q: "lock_queue W' s' = (lock_queue W s)(m := ws)"
  shows "waits_ok M W' s' wt"
proof (rule waits_okI)
  fix t n
  assume t: "wt t = Some n"
  then have "t \<noteq> c"
    using c by auto
  then show "n \<in> M" "t \<in> set (lock_queue W' s' n)"
    using waits_okD(1,2) [OF ok t] own unfolding q by (cases "n = m"; simp)+
next
  fix t n
  assume n: "n \<in> M" and t: "t \<in> set (tl (lock_queue W' s' n))"
  have "t \<in> set (tl (lock_queue W s n))"
    using t own unfolding q by (cases "n = m"; cases ws) simp_all
  then show "wt t = Some n"
    by (rule waits_okD(3) [OF ok n])
qed

lemma sys_step_inv:
  assumes "sys_step idle M x y" and "sys_inv idle M x"
  shows "sys_inv idle M y"
  using assms
proof (induction rule: sys_step.induct)
  case (lock_step s c wt m regs resume sp b s')
  then obtain T W where run: "running idle M T W c s" and wt: "waits_ok M W s wt"
    unfolding sys_inv_def using runningD(2) by fastforce
  have "m_owner s m \<noteq> Some c"
    using lock_step(1,5) by (auto simp: mutex_lock_def kbind_eq_Inr Let_def preempt_up_def)
  from running_lock [OF run lock_step(4,2) this, of regs resume sp] obtain W' c' where
      r: "running idle M T W' c' s'" and q: "lock_queue W' s' = (lock_queue W s)(m := lock_queue W s m @ [c])"
      and b: "b = (lock_queue W s m = [])"
    using lock_step(5) by auto
  moreover have "waits_ok M W' s' (if b then wt else wt(c \<mapsto> m))"
    unfolding b by (rule waits_ok_lock [OF wt lock_step(3,4) q])
  ultimately show ?case
    unfolding sys_inv_def fst_conv snd_conv by blast
next
  case (unlock_step s c wt m s')
  then obtain T W where run: "running idle M T W c s" and wt: "waits_ok M W s wt"
    unfolding sys_inv_def using runningD(2) by fastforce
  have own: "m_owner s m = Some c"
    using unlock_step(1,4) by (auto simp: mutex_unlock_def kbind_eq_Inr Let_def preempt_up_def)
  from running_unlock [OF run unlock_step(3) own] obtain W' where
      r: "running idle M T W' c s'" and q: "lock_queue W' s' = (lock_queue W s)(m := tl (lock_queue W s m))"
    using unlock_step(4) by auto
  have "lock_queue W s m = c # tl (lock_queue W s m)"
    using own by (simp add: lock_queue_def)
  then have "waits_ok M W' s' wt"
    by (rule waits_ok_unlock [OF wt unlock_step(2) _ q])
  with r show ?case
    unfolding sys_inv_def fst_conv snd_conv by blast
next
  case (resume_step s c wt m)
  then obtain T W where run: "running idle M T W c s" and wt: "waits_ok M W s wt"
    unfolding sys_inv_def using runningD(2) by fastforce
  have "c \<notin> set (tl (lock_queue W s n))" if "n \<in> M" for n
    using running_waits [OF run that] lock_queue_tl [OF run that] by simp
  note c = this
  have "waits_ok M W s (wt(c := None))"
  proof (rule waits_okI)
    fix t n
    assume "(wt(c := None)) t = Some n"
    then have "wt t = Some n"
      by (cases "t = c") simp_all
    then show "n \<in> M" "t \<in> set (lock_queue W s n)"
      by (rule waits_okD [OF wt])+
  next
    fix t n
    assume "n \<in> M" and t: "t \<in> set (tl (lock_queue W s n))"
    then show "(wt(c := None)) t = Some n"
      using waits_okD(3) [OF wt \<open>n \<in> M\<close> t] c [OF \<open>n \<in> M\<close>] by (cases "t = c") simp_all
  qed
  with run show ?case
    unfolding sys_inv_def fst_conv snd_conv by blast
next
  case (yield_step s c wt regs resume sp s')
  then obtain T W where run: "running idle M T W c s" and wt: "waits_ok M W s wt"
    unfolding sys_inv_def using runningD(2) by fastforce
  from running_yield [OF run, of regs resume sp] yield_step(3) obtain c'
    where "running idle M T W c' s'" "lock_queue W s' = lock_queue W s" by auto
  with wt show ?case
    unfolding sys_inv_def fst_conv snd_conv using waits_ok_cong by blast
next
  case (tick_step sp s s' wt)
  then obtain T W c where run: "running idle M T W c s" and wt: "waits_ok M W s wt"
    unfolding sys_inv_def by auto
  from running_tick [OF run, of sp] tick_step(1) obtain c'
    where "running idle M T W c' s'" "lock_queue W s' = lock_queue W s" by auto
  with wt show ?case
    unfolding sys_inv_def fst_conv snd_conv using waits_ok_cong by blast
qed

subsection \<open>Properties\<close>

text \<open>
  C27: No history of locking, unlocking, yielding and timer interrupts breaks a mutex: in every reachable state a task
  runs that is not blocked; when it was waiting for a mutex, it owns it now, so that the assertion after
  \<open>yield\<close> in \<open>lock\<close> holds; and the next timer interrupt finds a task to switch to, in spite of the
  loop without bound in \<open>pick_next_task\<close>.
\<close>

theorem mutex_system_safe:
  assumes "running idle M T W c s" and "\<And>m. m \<in> M \<Longrightarrow> m_owner s m = None"
    and "(sys_step idle M)\<^sup>*\<^sup>* (s, \<lambda>_. None) (s', wt)"
  shows "\<exists>c' s''. current_task (kst s') = Some c' \<and> \<not> is_blocked s' c' \<and>
    (\<forall>m. wt c' = Some m \<longrightarrow> mutex_lock_resumed m s' = Inr ()) \<and>
    timeslice_passed sp (s'\<lparr>kst := (kst s')\<lparr>interrupt_context_depth := 1\<rparr>\<rparr>) = Inr s''"
proof -
  have "waits_ok M W s (\<lambda>_. None)"
    using assms(2) by (intro waits_okI) (simp_all add: lock_queue_def)
  then have "sys_inv idle M (s, \<lambda>_. None)"
    using assms(1) unfolding sys_inv_def fst_conv snd_conv by blast
  with assms(3) have "sys_inv idle M (s', wt)"
    by (induction rule: rtranclp_induct) (blast intro: sys_step_inv)+
  then obtain T' W' c' where run: "running idle M T' W' c' s'" and wt: "waits_ok M W' s' wt"
    unfolding sys_inv_def fst_conv snd_conv by blast
  have "mutex_lock_resumed m s' = Inr ()" if "wt c' = Some m" for m
    using resumed_owner [OF run wt that] runningD(2) [OF run] by (simp add: mutex_lock_resumed_def)
  then show ?thesis
    using running_tick [OF run, of sp] runningD(2,3) [OF run] by blast
qed

text \<open>
  C28: \<open>mutex::lock\<close> implements entering a queue: the caller becomes the last of the tasks that own or wait for the
  mutex, no other queue changes, and it goes on at once exactly when the queue was empty; otherwise another task
  runs. The scheduler's invariant is kept.
\<close>

theorem mutex_lock_enqueues:
  assumes "running idle M T W c s" and "m \<in> M" and "c \<noteq> idle" and "c \<notin> set (lock_queue W s m)"
  shows "\<exists>b s' W' c'. mutex_lock regs resume sp m s = Inr (b, s') \<and> running idle M T W' c' s' \<and>
    lock_queue W' s' = (lock_queue W s)(m := lock_queue W s m @ [c]) \<and> (b \<longleftrightarrow> lock_queue W s m = []) \<and> (b \<longrightarrow> c' = c)"
proof -
  have "m_owner s m \<noteq> Some c"
    using assms(4) by (auto simp: lock_queue_def)
  from running_lock [OF assms(1-3) this] show ?thesis
    by blast
qed

text \<open>
  C29: \<open>mutex::unlock\<close> by the owner implements leaving the queue: the task that waited longest becomes the owner and
  is no longer blocked, or the mutex becomes free. The caller goes on running.
\<close>

theorem mutex_unlock_dequeues:
  assumes "running idle M T W c s" and "m \<in> M" and "lock_queue W s m = c # ws"
  shows "\<exists>s' W'. mutex_unlock m s = Inr s' \<and> running idle M T W' c s' \<and> lock_queue W' s' = (lock_queue W s)(m := ws) \<and>
    m_owner s' m = (case ws of [] \<Rightarrow> None | w # _ \<Rightarrow> Some w) \<and> (\<forall>w vs. ws = w # vs \<longrightarrow> \<not> is_blocked s' w)"
proof -
  have own: "m_owner s m = Some c"
    using lock_queue_owner [of s m W] assms(3) by simp
  obtain s' W' where s': "mutex_unlock m s = Inr s'" "running idle M T W' c s'"
      "lock_queue W' s' = (lock_queue W s)(m := tl (lock_queue W s m))"
    using running_unlock [OF assms(1,2) own] by blast
  then have q: "lock_queue W' s' = (lock_queue W s)(m := ws)"
    using assms(3) by simp
  have "\<not> is_blocked s' w" if ws: "ws = w # vs" for w vs
  proof -
    note D = mutex_invD [OF runningD(1) [OF s'(2)]]
    have "W m = w # vs"
      using assms(3) own ws by (simp add: lock_queue_def)
    then have w: "w \<in> set (W m)"
      by simp
    then have "w \<in> T"
      using mutex_invD(2) [OF runningD(1) [OF assms(1)] assms(2)] by blast
    moreover have "w \<notin> set (W' n)" if "n \<in> M" for n
    proof -
      have "w \<notin> set (W n)" if "n \<noteq> m" 
        using mutex_invD(5) [OF runningD(1) [OF assms(1)] assms(2) \<open>n \<in> M\<close>] w that by auto
      moreover have "W' n = W n" if "n \<noteq> m"
        using lock_queue_tl [OF s'(2) \<open>n \<in> M\<close>] lock_queue_tl [OF assms(1) \<open>n \<in> M\<close>] that unfolding q by simp
      moreover have "W' m = vs"
        using lock_queue_tl [OF s'(2) assms(2)] ws unfolding q by simp
      moreover have "w \<notin> set vs"
        using mutex_invD(1) [OF runningD(1) [OF assms(1)] assms(2)] \<open>W m = w # vs\<close> by (auto simp: ring_def)
      ultimately show ?thesis
        by (cases "n = m") simp_all
    qed
    ultimately show ?thesis
      using is_blocked_iff [OF runningD(1) [OF s'(2)]] by blast
  qed
  moreover have "m_owner s' m = (case ws of [] \<Rightarrow> None | w # _ \<Rightarrow> Some w)"
    using lock_queue_owner [of s' m W'] unfolding q by simp
  ultimately show ?thesis
    using s'(1,2) q by blast
qed

text \<open>
  C30: The scheduler is fair: while the tasks that are blocked stay the same, every task that is not blocked is picked
  after at most as many calls of \<open>pick_next_task\<close> as there are tasks, all of which end.
\<close>

theorem pick_next_fair:
  assumes "ring (sched_links s) c xs" and "current_task (kst s) = Some c" and "t \<in> set (c # xs)" and "\<not> is_blocked s t"
  shows "\<exists>k s'. 0 < k \<and> k \<le> length (c # xs) \<and> picks k s = Inr s' \<and> current_task (kst s') = Some t"
proof -
  obtain us vs where split: "xs @ [c] = us @ t # vs"
    using assms(3) split_list [of t "xs @ [c]"] by auto
  then have "length us \<le> length xs"
    by (metis diff_Suc_1 length_append length_append_singleton length_Cons le_add1 add_Suc_right)
  with picks_reach [OF assms(1,2) split assms(4)] show ?thesis
    by fastforce
qed

text \<open>An idle task 1 and a task 2 that runs, with one free mutex 7; and registers that are all 0.\<close>

definition zero_regs :: interrupt_args where
  "zero_regs = \<lparr>ia_cr3 = 0, ia_ebp = 0, ia_edi = 0, ia_esi = 0, ia_edx = 0, ia_ecx = 0, ia_ebx = 0, ia_eax = 0,
     ia_interrupt_number = 0, ia_error_code = 0, ia_eip = 0, ia_cs = 0, ia_eflags = 0\<rparr>"

definition two_tasks :: sched where
  "two_tasks = \<lparr>kst = boot_state\<lparr>current_task := Some 2\<rparr>,
     sched_links = add_after_self 2 1 (node_new 1 (node_new 2 \<lparr>l_prev = id, l_next = id\<rparr>)),
     block_links = \<lparr>l_prev = id, l_next = id\<rparr>, task_rc = (\<lambda>_. 2), task_pid = id, stack_pointer = (\<lambda>_. 0), m_owner = (\<lambda>_. None),
     max_pid = 2, tss_esp0 = 0, tss_ss0 = 0x10, task_allocator = empty_allocator, running_eip = 0\<rparr>"

lemma two_tasks_ring: "ring (sched_links two_tasks) 2 [1]"
  by (simp add: two_tasks_def ring_def add_after_self_def node_new_def)

lemma two_tasks_free: "m_owner two_tasks m = None"
  by (simp add: two_tasks_def)

lemma two_tasks_running: "running 1 {7} {1, 2} (\<lambda>_. []) 2 two_tasks"
proof -
  have "\<exists>xs. ring (sched_links two_tasks) 2 xs \<and> set (2 # xs) = {1, 2}"
    using two_tasks_ring by (intro exI [of _ "[1]"]) auto
  then show ?thesis
    by (simp add: running_def mutex_inv_def two_tasks_def is_blocked_def lonely_def ring_def boot_state_def)
qed

theorem mutex_lock_enqueues_witness:
  "\<exists>b s'. mutex_lock zero_regs 0x100 0x1000 7 two_tasks = Inr (b, s') \<and> b"
proof -
  have "lock_queue (\<lambda>_. []) two_tasks 7 = []"
    by (simp add: lock_queue_def two_tasks_def)
  then show ?thesis
    using mutex_lock_enqueues [OF two_tasks_running, of 7 zero_regs "0x100" "0x1000"] by auto
qed

lemma two_tasks_locked:
  obtains s W where "mutex_lock zero_regs 0x100 0x1000 7 two_tasks = Inr (True, s)" "running 1 {7} {1, 2} W 2 s" "lock_queue W s 7 = [2]"
proof -
  have "m_owner two_tasks 7 \<noteq> Some 2" "lock_queue (\<lambda>_. []) two_tasks 7 = []"
    by (simp_all add: two_tasks_def lock_queue_def)
  then show thesis
    using running_lock [OF two_tasks_running, of 7 zero_regs "0x100" "0x1000"] that by force
qed

theorem mutex_unlock_dequeues_witness:
  "\<exists>s s'. mutex_lock zero_regs 0x100 0x1000 7 two_tasks = Inr (True, s) \<and> mutex_unlock 7 s = Inr s' \<and> m_owner s' 7 = None"
proof -
  obtain s W where s: "mutex_lock zero_regs 0x100 0x1000 7 two_tasks = Inr (True, s)" "running 1 {7} {1, 2} W 2 s" "lock_queue W s 7 = [2]"
    using two_tasks_locked .
  then show ?thesis
    using mutex_unlock_dequeues [OF s(2) _ s(3)] by auto
qed

theorem mutex_system_safe_witness:
  "\<exists>s' wt c'. (sys_step 1 {7})\<^sup>*\<^sup>* (two_tasks, \<lambda>_. None) (s', wt) \<and> m_owner s' 7 = Some 2 \<and>
    current_task (kst s') = Some c' \<and> \<not> is_blocked s' c'"
proof -
  obtain s W where s: "mutex_lock zero_regs 0x100 0x1000 7 two_tasks = Inr (True, s)" "running 1 {7} {1, 2} W 2 s" "lock_queue W s 7 = [2]"
    using two_tasks_locked .
  have "current_task (kst two_tasks) = Some 2"
    by (simp add: two_tasks_def)
  from lock_step [OF this _ _ _ s(1), of 1 "\<lambda>_. None" "{7}"] have "sys_step 1 {7} (two_tasks, \<lambda>_. None) (s, \<lambda>_. None)"
    by simp
  then have reach: "(sys_step 1 {7})\<^sup>*\<^sup>* (two_tasks, \<lambda>_. None) (s, \<lambda>_. None)"
    by (rule r_into_rtranclp)
  have "m_owner s 7 = Some 2"
    using lock_queue_owner [of s 7 W] s(3) by simp
  then show ?thesis
    using mutex_system_safe [OF two_tasks_running two_tasks_free reach] reach by blast
qed

theorem pick_next_fair_witness:
  "\<exists>k s'. 0 < k \<and> k \<le> 2 \<and> picks k two_tasks = Inr s' \<and> current_task (kst s') = Some 1"
proof -
  have "\<not> is_blocked two_tasks 1" "current_task (kst two_tasks) = Some 2"
    by (simp_all add: two_tasks_def is_blocked_def lonely_def)
  from pick_next_fair [OF two_tasks_ring this(2) _ this(1)] show ?thesis
    by (simp add: numeral_2_eq_2)
qed

end
