(* ===== verification/Sched_Frames.thy ===== *)
theory Sched_Frames
  imports Sched_Props
begin

section \<open>Saved frames, and the end of a task\<close>

text \<open>
  What a switch finds in the frame that \<open>yield\<close> saved and in the first frame of a new task, and what
  \<open>task_wrapper\<close> does when its function returns.
\<close>

subsection \<open>Frames in memory\<close>

lemma aligned4_add: "aligned4 p \<Longrightarrow> 4 dvd unat c \<Longrightarrow> aligned4 (p + c)"
  unfolding aligned4_def by (simp add: unat_word_ariths dvd_mod)

lemma load_store_offset:
  assumes "aligned4 p" and "4 dvd unat c" and "4 dvd unat d" and "c \<noteq> d"
  shows "load32 (store32 (p + c) v m) (p + d) = load32 m (p + d)"
  using assms by (intro load32_store32_other aligned4_add) simp_all

lemma load_store_base:
  assumes "aligned4 p" and "4 dvd unat d" and "d \<noteq> 0"
  shows "load32 (store32 p v m) (p + d) = load32 m (p + d)" "load32 (store32 (p + d) v m) p = load32 m p"
  using load_store_offset [of p 0 d] load_store_offset [of p d 0] assms by simp_all

lemma load_push_args:
  assumes "aligned4 p"
  shows "load32 (push_args p a m) p = ia_cr3 a" "load32 (push_args p a m) (p + 40) = ia_eip a"
    "load32 (push_args p a m) (p + 48) = ia_eflags a"
  using assms by (simp_all add: push_args_def load_store_offset load_store_base)

subsection \<open>Properties\<close>

text \<open>
  C31: \<open>yield\<close> saves the flags after \<open>cli\<close>: the frame that it leaves in the stack pointer of the caller continues at
  the end of \<open>yield\<close> with interrupts disabled, also when they were enabled at the call.
\<close>

theorem yield_resumes_without_interrupts:
  assumes "ring (sched_links s) c xs" and "current_task (kst s) = Some c" and "\<exists>t \<in> set (c # xs). \<not> is_blocked s t"
    and "interrupt_context_depth (kst s) = 0" and "preempt_counter (kst s) = 0" and "aligned4 sp"
  shows "\<exists>s'. yield regs resume sp s = Inr s' \<and> stack_pointer s' c = sp \<and>
    running_eip (enter_task (stack_pointer s' c) s') = resume \<and> \<not> if_flag (kst (enter_task (stack_pointer s' c) s')) \<and>
    cr3 (kst (enter_task (stack_pointer s' c) s')) = cr3 (kst s)"
proof -
  obtain s' where s': "yield regs resume sp s = Inr s'"
      "kmem (kst s') = push_args sp (yield_frame regs resume ((kst s)\<lparr>if_flag := False\<rparr>)) (kmem (kst s))"
    using yield_switched [OF assms(1-5), of regs resume sp] by blast
  have "stack_pointer s' c = sp"
    using s'(1) assms(2)
    by (auto simp: yield_def do_yield_def pick_next_task_def with_current_def kbind_eq_Inr set_current_def
        enter_task_def Let_def split: option.splits)
  then show ?thesis
    using s' load_push_args [OF assms(6)]
    by (auto simp: enter_task_def Let_def yield_frame_def pushed_flags_def bit_simps)
qed

theorem yield_resumes_without_interrupts_witness:
  "\<exists>s'. if_flag (kst two_tasks) \<and> yield zero_regs 5 0x1000 two_tasks = Inr s' \<and> \<not> if_flag (kst (enter_task (stack_pointer s' 2) s'))"
proof -
  have "if_flag (kst two_tasks)" "current_task (kst two_tasks) = Some 2" "\<exists>t \<in> set [2, 1]. \<not> is_blocked two_tasks t"
    "interrupt_context_depth (kst two_tasks) = 0" "preempt_counter (kst two_tasks) = 0" "aligned4 0x1000"
    by (auto simp: two_tasks_def boot_state_def is_blocked_def lonely_def aligned4_def)
  with yield_resumes_without_interrupts [OF two_tasks_ring this(2-6), of zero_regs 5] show ?thesis
    by blast
qed

text \<open>
  \<open>create_kernel_stack\<close> takes a block of 8192 bytes, and entering the stack that it returns runs \<open>task_wrapper\<close>
  with interrupts disabled in the given page directory; the frame ends where the argument of
  \<open>task_wrapper\<close>, the function to run, is found above a return address.
\<close>

lemma create_kernel_stack_enters:
  assumes "kmem_valid st" and "kmem_ready K8 st"
  shows "\<exists>stack st' stack0. create_kernel_stack entry main dir st = Inr (stack, st') \<and> stack = stack0 + 8192 - 60 \<and>
    8192 dvd unat stack0 \<and> stack0 \<notin> kmem_held K8 st \<and> stack0 \<in> kmem_held K8 st' \<and>
    (\<forall>s. kst s = st' \<longrightarrow> running_eip (enter_task stack s) = entry \<and> cr3 (kst (enter_task stack s)) = dir \<and>
       \<not> if_flag (kst (enter_task stack s)) \<and> load32 (kmem st') (tss_esp0 (enter_task stack s) + 4) = main)"
proof -
  obtain stack0 st1 where p: "kmem_alloc_pages K8 st = Inr (stack0, st1)"
    using kpages.pages_some [OF assms] by blast
  have new: "stack0 \<notin> kmem_held K8 st" "stack0 \<in> kmem_held K8 st1" "8192 dvd unat stack0"
    using kpages.pages_new [OF assms p] by (simp_all add: block_shift_def)
  define q where "q = stack0 + 8192 - 60"
  define m where "m = store32 (q + 44) 0x08 (store32 (q + 56) main (store32 (q + 40) entry (store32 q dir
    (memset q 0 52 (store32 stack0 0 (kmem st1))))))"
  have q: "aligned4 q"
  proof -
    have "aligned4 stack0"
      using new(3) unfolding aligned4_def by (rule dvd_trans [rotated]) simp
    moreover have "q = stack0 + 8132"
      by (simp add: q_def)
    ultimately show ?thesis
      using aligned4_add [of stack0 8132] by simp
  qed
  have run: "create_kernel_stack entry main dir st = Inr (q, st1\<lparr>kmem := m\<rparr>)"
    using p by (simp add: create_kernel_stack_def sizeof_interrupt_args_def q_def m_def Let_def)
  have "in_range q (unat (52 :: u32)) (q + 48 + of_nat i)" if "i < 4" for i
    using in_range_offset [of "48 + i" "unat (52 :: u32)" q] that by (simp add: add.assoc)
  then have "load32 (memset q 0 52 m') (q + 48) = 0" for m'
    by (rule load32_memset_0)
  then have m: "load32 m q = dir" "load32 m (q + 40) = entry" "load32 m (q + 48) = 0" "load32 m (q + 56) = main"
    using q by (simp_all add: m_def load_store_offset load_store_base)
  have held: "kmem_held K8 (st1\<lparr>kmem := m\<rparr>) = kmem_held K8 st1"
    by (simp add: kmem_held_def is_block_def block_set_def block_addr_def my_first_page_def locate_def pages_start_def)
  show ?thesis
    using run new m held
    by (intro exI [of _ q] exI [of _ "st1\<lparr>kmem := m\<rparr>"] exI [of _ stack0])
      (auto simp: q_def enter_task_def Let_def sizeof_interrupt_args_def add.assoc)
qed

text \<open>
  A task that ends with the two references that it has after \<open>allocate\<close> and \<open>link_task\<close> stops the kernel: the
  last reference destroys its \<open>virtual_memory\<close>, whose destructor panics.
\<close>

lemma task_exit_panics:
  assumes "current_task (kst s) = Some me" and "task_rc s me = 2"
  shows "task_exit tbl my_stack s = Inl KPanic"
  using assms
  by (simp add: task_exit_def task_end_def with_current_def unlink_task_def task_release_def release_ref_def
      virtual_memory_destroy_def preempt_up_def Let_def set_current_def)

theorem task_exit_panics_witness: "task_exit 0 0 two_tasks = Inl KPanic"
  using task_exit_panics [of two_tasks 2] by (simp add: two_tasks_def)

theorem create_kernel_stack_enters_witness:
  "\<exists>stack st'. create_kernel_stack 0x1000 0x2000 0x3000 boot_state = Inr (stack, st') \<and>
    (\<forall>s. kst s = st' \<longrightarrow> running_eip (enter_task stack s) = 0x1000)"
  using create_kernel_stack_enters [OF boot_valid, of "0x1000" "0x2000" "0x3000"] by blast

end
