(* ===== verification/Rbtree.thy ===== *)
theory Rbtree
  imports Kernel_Prelude "HOL-Library.Tree"
begin

section \<open>Intrusive search trees\<close>

text \<open>
  \<^verbatim>\<open>kernel/util/ds/rbtree.hpp\<close>: an unbalanced binary search tree of nodes with a pointer to the parent and two to the
  children. The heap of nodes is a record of functions over node names; null is \<open>None\<close>. A node's method
  \<open>compare(key)\<close> is an argument of \<open>find\<close> and \<open>insert\<close>. A loop that never ends has no result.
\<close>

subsection \<open>Nodes\<close>

datatype dir = LEFT | RIGHT

fun other_dir :: "dir \<Rightarrow> dir" where
  "other_dir LEFT = RIGHT"
| "other_dir RIGHT = LEFT"

record 'p rbtree =
  m_root :: "'p option"
  m_parent :: "'p \<Rightarrow> 'p option"
  m_children :: "'p \<Rightarrow> dir \<Rightarrow> 'p option"

definition set_child :: "'p \<Rightarrow> dir \<Rightarrow> 'p option \<Rightarrow> 'p rbtree \<Rightarrow> 'p rbtree" where
  "set_child p d c H = H\<lparr>m_children := (m_children H)(p := (m_children H p)(d := c))\<rparr>"

definition set_parent :: "'p \<Rightarrow> 'p option \<Rightarrow> 'p rbtree \<Rightarrow> 'p rbtree" where
  "set_parent p q H = H\<lparr>m_parent := (m_parent H)(p := q)\<rparr>"

definition dir_of_child :: "'p \<Rightarrow> 'p \<Rightarrow> 'p rbtree \<Rightarrow> dir res" where
  "dir_of_child this child H =
    kbind (kassert (m_children H this LEFT = Some child \<or> m_children H this RIGHT = Some child)) (\<lambda>_.
    Inr (if m_children H this LEFT = Some child then LEFT else RIGHT))"

text \<open>Going from a node in one direction as far as there are nodes.\<close>

partial_function (option) descend :: "dir \<Rightarrow> 'p rbtree \<Rightarrow> 'p \<Rightarrow> 'p option" where
  "descend d H node = (case m_children H node d of None \<Rightarrow> Some node | Some c \<Rightarrow> descend d H c)"

partial_function (option) climb :: "dir \<Rightarrow> 'p rbtree \<Rightarrow> 'p \<Rightarrow> 'p option option" where
  "climb d H node =
    (case m_parent H node of
       None \<Rightarrow> Some None
     | Some q \<Rightarrow> if m_children H q d = Some node then climb d H q else Some (Some q))"

definition loop :: "'a option \<Rightarrow> 'a res" where
  "loop r = (case r of None \<Rightarrow> Inl OutOfFuel | Some x \<Rightarrow> Inr x)"

definition prev_or_next :: "dir \<Rightarrow> 'p \<Rightarrow> 'p rbtree \<Rightarrow> 'p option res" where
  "prev_or_next d this H =
    (case m_children H this d of
       Some c \<Rightarrow> kbind (loop (descend (other_dir d) H c)) (\<lambda>m. Inr (Some m))
     | None \<Rightarrow> loop (climb d H this))"

definition prev_node :: "'p \<Rightarrow> 'p rbtree \<Rightarrow> 'p option res" where
  "prev_node = prev_or_next LEFT"

definition next_node :: "'p \<Rightarrow> 'p rbtree \<Rightarrow> 'p option res" where
  "next_node = prev_or_next RIGHT"

subsection \<open>Trees\<close>

definition rbtree_new :: "'p rbtree \<Rightarrow> 'p rbtree" where
  "rbtree_new H = H\<lparr>m_root := None\<rparr>"

definition rb_reset :: "'p rbtree \<Rightarrow> 'p rbtree" where
  "rb_reset H = H\<lparr>m_root := None\<rparr>"

definition node_insert :: "'p \<Rightarrow> 'p option \<Rightarrow> dir \<Rightarrow> 'p rbtree \<Rightarrow> 'p rbtree" where
  "node_insert node parent d H =
    (let H1 = set_child node RIGHT None (set_child node LEFT None (set_parent node parent H))
     in case parent of None \<Rightarrow> H1\<lparr>m_root := Some node\<rparr> | Some q \<Rightarrow> set_child q d (Some node) H1)"

partial_function (option) find_loop :: "('p \<Rightarrow> 'k \<Rightarrow> int) \<Rightarrow> 'k \<Rightarrow> 'p rbtree \<Rightarrow> 'p option \<Rightarrow> 'p option option" where
  "find_loop compare k H node =
    (case node of
       None \<Rightarrow> Some None
     | Some p \<Rightarrow>
         if compare p k < 0 then find_loop compare k H (m_children H p LEFT)
         else if 0 < compare p k then find_loop compare k H (m_children H p RIGHT)
         else Some (Some p))"

definition rb_find :: "('p \<Rightarrow> 'k \<Rightarrow> int) \<Rightarrow> 'k \<Rightarrow> 'p rbtree \<Rightarrow> 'p option res" where
  "rb_find compare k H = loop (find_loop compare k H (m_root H))"

text \<open>The loop of \<open>insert\<close>: \<open>None\<close> when the key exists, else the parent and the direction of the new node.\<close>

partial_function (option) insert_loop ::
    "('p \<Rightarrow> 'k \<Rightarrow> int) \<Rightarrow> 'k \<Rightarrow> 'p rbtree \<Rightarrow> 'p option \<Rightarrow> dir \<Rightarrow> 'p option \<Rightarrow> ('p option \<times> dir) option option" where
  "insert_loop compare k H parent d node =
    (case node of
       None \<Rightarrow> Some (Some (parent, d))
     | Some p \<Rightarrow>
         if compare p k < 0 then insert_loop compare k H (Some p) LEFT (m_children H p LEFT)
         else if 0 < compare p k then insert_loop compare k H (Some p) RIGHT (m_children H p RIGHT)
         else Some None)"

definition rb_insert :: "('p \<Rightarrow> 'k \<Rightarrow> int) \<Rightarrow> 'k \<Rightarrow> 'p \<Rightarrow> 'p rbtree \<Rightarrow> (bool \<times> 'p rbtree) res" where
  "rb_insert compare k item H =
    kbind (loop (insert_loop compare k H None LEFT (m_root H))) (\<lambda>r.
    case r of None \<Rightarrow> Inr (False, H) | Some (parent, d) \<Rightarrow> Inr (True, node_insert item parent d H))"

definition rb_first :: "'p rbtree \<Rightarrow> 'p option res" where
  "rb_first H = (case m_root H of None \<Rightarrow> Inr None | Some n \<Rightarrow> kbind (loop (descend LEFT H n)) (\<lambda>m. Inr (Some m)))"

definition rb_last :: "'p rbtree \<Rightarrow> 'p option res" where
  "rb_last H = (case m_root H of None \<Rightarrow> Inr None | Some n \<Rightarrow> kbind (loop (descend RIGHT H n)) (\<lambda>m. Inr (Some m)))"

text \<open>Giving a child that exists a new parent, and replacing a child of a node.\<close>

definition adopt :: "'p option \<Rightarrow> 'p option \<Rightarrow> 'p rbtree \<Rightarrow> 'p rbtree" where
  "adopt c q H = (case c of None \<Rightarrow> H | Some p \<Rightarrow> set_parent p q H)"

definition replace_child :: "'p option \<Rightarrow> 'p \<Rightarrow> 'p option \<Rightarrow> 'p rbtree \<Rightarrow> 'p rbtree res" where
  "replace_child parent this c H =
    (case parent of
       None \<Rightarrow> Inl NullDeref
     | Some q \<Rightarrow> kbind (dir_of_child q this H) (\<lambda>d. Inr (set_child q d c H)))"

definition remove_me :: "'p \<Rightarrow> 'p rbtree \<Rightarrow> 'p rbtree res" where
  "remove_me this H =
    (let l = m_children H this LEFT; r = m_children H this RIGHT
     in if m_root H = Some this \<and> l = None \<and> r = None then Inr (H\<lparr>m_root := None\<rparr>)
        else if l = None \<and> r = None then replace_child (m_parent H this) this None H
        else
          let child_dir = (if l = None then RIGHT else LEFT)
          in case m_children H this child_dir of
               None \<Rightarrow> Inl KAssert
             | Some c \<Rightarrow>
                 kbind (loop (descend (other_dir child_dir) H c)) (\<lambda>rep.
                 kbind (kassert (m_parent H rep \<noteq> None)) (\<lambda>_.
                 let rep_child = (if m_children H rep LEFT \<noteq> None then m_children H rep LEFT else m_children H rep RIGHT);
                     rep_parent = m_parent H rep
                 in kbind (replace_child rep_parent rep rep_child H) (\<lambda>H1.
                    let H2 = adopt rep_child rep_parent H1;
                        H3 = set_parent rep (m_parent H2 this) H2;
                        H4 = set_child rep LEFT (m_children H3 this LEFT) H3;
                        H5 = adopt (m_children H4 this LEFT) (Some rep) H4;
                        H6 = set_child rep RIGHT (m_children H5 this RIGHT) H5;
                        H7 = adopt (m_children H6 this RIGHT) (Some rep) H6
                    in case m_parent H7 this of
                         None \<Rightarrow> Inr (H7\<lparr>m_root := Some rep\<rparr>)
                       | Some q \<Rightarrow> replace_child (Some q) this (Some rep) H7))))"

definition rb_remove :: "'p \<Rightarrow> 'p rbtree \<Rightarrow> 'p rbtree res" where
  "rb_remove item H = remove_me item H"

end
