(* ===== verification/Rbtree_Correct.thy ===== *)
theory Rbtree_Correct
  imports Rbtree
begin

section \<open>Correctness of the search trees\<close>

text \<open>
  \<open>tree_at H q n T\<close>: from the pointer \<open>n\<close>, below the parent \<open>q\<close>, the heap \<open>H\<close> holds the tree \<open>T\<close> of node names. The
  abstraction of a tree is the list of its nodes in order.
\<close>

subsection \<open>Trees in the heap\<close>

fun root_of :: "'p tree \<Rightarrow> 'p option" where
  "root_of Leaf = None"
| "root_of (Node l p r) = Some p"

fun tree_at :: "'p rbtree \<Rightarrow> 'p option \<Rightarrow> 'p tree \<Rightarrow> bool" where
  "tree_at H q Leaf \<longleftrightarrow> True"
| "tree_at H q (Node l p r) \<longleftrightarrow> m_parent H p = q \<and> m_children H p LEFT = root_of l \<and> m_children H p RIGHT = root_of r \<and>
    tree_at H (Some p) l \<and> tree_at H (Some p) r"

definition is_rbtree :: "'p rbtree \<Rightarrow> 'p tree \<Rightarrow> bool" where
  "is_rbtree H T \<longleftrightarrow> m_root H = root_of T \<and> tree_at H None T \<and> distinct (inorder T)"

lemma root_of_None [simp]: "root_of T = None \<longleftrightarrow> T = Leaf" "None = root_of T \<longleftrightarrow> T = Leaf"
  by (cases T; simp)+

lemma root_of_Some: "root_of T = Some p \<longleftrightarrow> (\<exists>l r. T = Node l p r)"
  by (cases T) auto

lemma root_of_mem: "root_of T = Some p \<Longrightarrow> p \<in> set_tree T"
  by (cases T) auto

lemma tree_at_frame:
  assumes "tree_at H q T" and "\<And>p. p \<in> set_tree T \<Longrightarrow> m_parent H' p = m_parent H p \<and> m_children H' p = m_children H p"
  shows "tree_at H' q T"
  using assms by (induction T arbitrary: q) auto

fun sub :: "dir \<Rightarrow> 'p tree \<Rightarrow> 'p tree" where
  "sub d Leaf = Leaf"
| "sub LEFT (Node l p r) = l"
| "sub RIGHT (Node l p r) = r"

lemma sub_Node: "sub d (Node l p r) = (case d of LEFT \<Rightarrow> l | RIGHT \<Rightarrow> r)"
  by (cases d) simp_all

lemma tree_at_child: "tree_at H q (Node l p r) \<Longrightarrow> m_children H p d = root_of (sub d (Node l p r)) \<and> tree_at H (Some p) (sub d (Node l p r))"
  by (cases d) simp_all

text \<open>The subtree at a node, and the tree with that subtree replaced.\<close>

fun subtree :: "'p \<Rightarrow> 'p tree \<Rightarrow> 'p tree" where
  "subtree x Leaf = Leaf"
| "subtree x (Node l p r) = (if x = p then Node l p r else if x \<in> set_tree l then subtree x l else subtree x r)"

fun replace :: "'p \<Rightarrow> 'p tree \<Rightarrow> 'p tree \<Rightarrow> 'p tree" where
  "replace x S Leaf = Leaf"
| "replace x S (Node l p r) =
    (if x = p then S else if x \<in> set_tree l then Node (replace x S l) p r else Node l p (replace x S r))"

lemma subtree_root: "x \<in> set_tree T \<Longrightarrow> \<exists>l r. subtree x T = Node l x r"
  by (induction T) auto

lemma set_inorder_Node: "distinct (inorder (Node l p r)) \<longleftrightarrow> distinct (inorder l) \<and> distinct (inorder r) \<and>
    p \<notin> set_tree l \<and> p \<notin> set_tree r \<and> set_tree l \<inter> set_tree r = {}"
  by auto

lemma inorder_replace:
  assumes "x \<in> set_tree T"
  obtains xs ys where "inorder T = xs @ inorder (subtree x T) @ ys" "\<And>S. inorder (replace x S T) = xs @ inorder S @ ys"
proof -
  have "\<exists>xs ys. inorder T = xs @ inorder (subtree x T) @ ys \<and> (\<forall>S. inorder (replace x S T) = xs @ inorder S @ ys)"
    using assms
  proof (induction T)
    case (Node l p r)
    consider "x = p" | "x \<noteq> p" "x \<in> set_tree l" | "x \<noteq> p" "x \<notin> set_tree l" "x \<in> set_tree r"
      using Node.prems by auto
    then show ?case
    proof cases
      case 1
      then show ?thesis
        by (intro exI [of _ "[]"]) simp
    next
      case 2
      then obtain xs ys where "inorder l = xs @ inorder (subtree x l) @ ys" "\<forall>S. inorder (replace x S l) = xs @ inorder S @ ys"
        using Node.IH(1) by blast
      with 2 show ?thesis
        by (intro exI [of _ xs] exI [of _ "ys @ p # inorder r"]) simp
    next
      case 3
      then obtain xs ys where "inorder r = xs @ inorder (subtree x r) @ ys" "\<forall>S. inorder (replace x S r) = xs @ inorder S @ ys"
        using Node.IH(2) by blast
      with 3 show ?thesis
        by (intro exI [of _ "inorder l @ p # xs"] exI [of _ ys]) simp
    qed
  qed simp
  then show thesis
    using that by blast
qed

lemma subtree_mem: "x \<in> set_tree T \<Longrightarrow> set_tree (subtree x T) \<subseteq> set_tree T"
  by (induction T) auto

lemma subtree_at: "tree_at H q T \<Longrightarrow> x \<in> set_tree T \<Longrightarrow> tree_at H (m_parent H x) (subtree x T)"
  by (induction T arbitrary: q) auto

text \<open>Children of nodes of a tree are nodes of the tree.\<close>

lemma child_mem: "tree_at H q T \<Longrightarrow> p \<in> set_tree T \<Longrightarrow> m_children H p d = Some c \<Longrightarrow> c \<in> set_tree T"
proof (induction T arbitrary: q)
  case (Node l u r)
  then show ?case
    using root_of_mem [of l c] root_of_mem [of r c] by (cases d) auto
qed simp

lemma parent_mem: "tree_at H q T \<Longrightarrow> p \<in> set_tree T \<Longrightarrow> m_parent H p = q \<and> root_of T = Some p \<or> (\<exists>u \<in> set_tree T. m_parent H p = Some u)"
proof (induction T arbitrary: q)
  case (Node l u r)
  consider "p = u" | "p \<in> set_tree l" | "p \<in> set_tree r"
    using Node.prems by auto
  then show ?case
    using Node.IH [of "Some u"] Node.prems by cases auto
qed simp

text \<open>
  Replacing a subtree in the heap: outside the subtree at \<open>x\<close>, the nodes of \<open>H'\<close> are those of \<open>H\<close>, except that the
  pointer to \<open>x\<close> is a pointer to the new subtree.
\<close>

lemma tree_at_replace:
  assumes "tree_at H q T" and "distinct (inorder T)" and "x \<in> set_tree T"
    and "tree_at H' (m_parent H x) S"
    and "\<And>p. p \<in> set_tree T \<Longrightarrow> p \<notin> set_tree (subtree x T) \<Longrightarrow> m_parent H' p = m_parent H p \<and>
      (\<forall>d. m_children H' p d = (if m_children H p d = Some x then root_of S else m_children H p d))"
  shows "tree_at H' q (replace x S T)"
  using assms
proof (induction T arbitrary: q)
  case (Node l u r)
  have dist: "distinct (inorder l)" "distinct (inorder r)" "u \<notin> set_tree l" "u \<notin> set_tree r" "set_tree l \<inter> set_tree r = {}"
    using Node.prems(2) unfolding set_inorder_Node by simp_all
  have H: "m_parent H u = q" "m_children H u LEFT = root_of l" "m_children H u RIGHT = root_of r" "tree_at H (Some u) l" "tree_at H (Some u) r"
    using Node.prems(1) by simp_all
  consider "x = u" | "x \<noteq> u" "x \<in> set_tree l" | "x \<noteq> u" "x \<notin> set_tree l" "x \<in> set_tree r"
    using Node.prems(3) by auto
  then show ?case
  proof cases
    case 1
    then show ?thesis
      using Node.prems(4) H(1) by simp
  next
    case 2
    have root: "root_of (replace x S l) = (if root_of l = Some x then root_of S else root_of l)"
      using 2(2) by (cases l) auto
    have nx: "root_of r \<noteq> Some x" "x \<notin> set_tree r"
      using 2 dist(5) root_of_mem [of r x] by auto
    have u: "m_parent H' u = q \<and> (\<forall>d. m_children H' u d = (if m_children H u d = Some x then root_of S else m_children H u d))"
    proof -
      have "u \<notin> set_tree (subtree x (Node l u r))"
        using 2 dist(3) subtree_mem [OF 2(2)] by auto
      then show ?thesis
        using Node.prems(5) [of u] H(1) by simp
    qed
    have l: "tree_at H' (Some u) (replace x S l)"
      using Node.IH(1) [OF H(4) dist(1) 2(2) Node.prems(4)] Node.prems(5) 2 dist by auto
    have r: "tree_at H' (Some u) r"
    proof (rule tree_at_frame [OF H(5)])
      fix p assume p: "p \<in> set_tree r"
      then have "p \<notin> set_tree (subtree x (Node l u r))"
        using 2 subtree_mem [OF 2(2)] dist(5) by auto
      moreover have "m_children H p d \<noteq> Some x" for d
        using child_mem [OF H(5) p] nx(2) by blast
      ultimately show "m_parent H' p = m_parent H p \<and> m_children H' p = m_children H p"
        using Node.prems(5) [of p] p by auto
    qed
    show ?thesis
      using 2 u l r root nx(1) H(2,3) by simp
  next
    case 3
    have root: "root_of (replace x S r) = (if root_of r = Some x then root_of S else root_of r)"
      using 3(3) by (cases r) auto
    have nx: "root_of l \<noteq> Some x"
      using 3 root_of_mem [of l x] by auto
    have u: "m_parent H' u = q \<and> (\<forall>d. m_children H' u d = (if m_children H u d = Some x then root_of S else m_children H u d))"
    proof -
      have "u \<notin> set_tree (subtree x (Node l u r))"
        using 3 dist(4) subtree_mem [OF 3(3)] by auto
      then show ?thesis
        using Node.prems(5) [of u] H(1) by simp
    qed
    have r: "tree_at H' (Some u) (replace x S r)"
      using Node.IH(2) [OF H(5) dist(2) 3(3) Node.prems(4)] Node.prems(5) 3 dist by auto
    have l: "tree_at H' (Some u) l"
    proof (rule tree_at_frame [OF H(4)])
      fix p assume p: "p \<in> set_tree l"
      then have "p \<notin> set_tree (subtree x (Node l u r))"
        using 3 subtree_mem [OF 3(3)] dist(5) by auto
      moreover have "m_children H p d \<noteq> Some x" for d
        using child_mem [OF H(4) p] 3(2) by blast
      ultimately show "m_parent H' p = m_parent H p \<and> m_children H' p = m_children H p"
        using Node.prems(5) [of p] p by auto
    qed
    show ?thesis
      using 3 u l r root nx H(2,3) by simp
  qed
qed simp

subsection \<open>Going to an end, and to a neighbour\<close>

definition extreme :: "dir \<Rightarrow> 'p tree \<Rightarrow> 'p" where
  "extreme d T = (case d of LEFT \<Rightarrow> hd (inorder T) | RIGHT \<Rightarrow> last (inorder T))"

lemma inorder_Nil [simp]: "inorder T = [] \<longleftrightarrow> T = Leaf"
  by (cases T) auto

lemma extreme_Node: "extreme d (Node l p r) = (if sub d (Node l p r) = Leaf then p else extreme d (sub d (Node l p r)))"
  by (cases d) (auto simp: extreme_def hd_append)

lemma extreme_mem: "T \<noteq> Leaf \<Longrightarrow> extreme d T \<in> set_tree T"
  by (cases d) (simp_all add: extreme_def flip: set_inorder)

lemma sub_mem: "set_tree (sub d T) \<subseteq> set_tree T"
  by (cases T; cases d) auto

lemma descend_tree:
  "tree_at H q T \<Longrightarrow> root_of T = Some n \<Longrightarrow> descend d H n = Some (extreme d T)"
proof (induction T arbitrary: q n)
  case (Node l p r)
  have n: "n = p"
    using Node.prems(2) by simp
  let ?S = "sub d (Node l p r)"
  have c: "m_children H p d = root_of ?S" "tree_at H (Some p) ?S"
    using tree_at_child [OF Node.prems(1), of d] by simp_all
  show ?case
  proof (cases ?S)
    case Leaf
    then show ?thesis
      using c n by (subst descend.simps) (simp add: extreme_Node)
  next
    case (Node l' p' r')
    have "descend d H p' = Some (extreme d ?S)"
      using Node.IH c(2) Node by (cases d) auto
    then show ?thesis
      using c(1) n Node by (subst descend.simps) (simp add: extreme_Node)
  qed
qed simp

text \<open>The neighbour of a node in a list, and in the tree: \<open>RIGHT\<close> the next, \<open>LEFT\<close> the previous one.\<close>

fun next_in :: "'a \<Rightarrow> 'a list \<Rightarrow> 'a option" where
  "next_in x [] = None"
| "next_in x [y] = None"
| "next_in x (y # z # zs) = (if x = y then Some z else next_in x (z # zs))"

definition neighbour :: "dir \<Rightarrow> 'a \<Rightarrow> 'a list \<Rightarrow> 'a option" where
  "neighbour d x xs = (case d of RIGHT \<Rightarrow> next_in x xs | LEFT \<Rightarrow> next_in x (rev xs))"

lemma next_in_append:
  "x \<in> set xs \<Longrightarrow> distinct (xs @ ys) \<Longrightarrow>
    next_in x (xs @ ys) = (if x = last xs then (if ys = [] then None else Some (hd ys)) else next_in x xs)"
proof (induction xs rule: induct_list012)
  case (2 y)
  then show ?case by (cases ys) auto
next
  case (3 y z zs)
  then show ?case by auto
qed simp

lemma next_in_notin: "x \<notin> set xs \<Longrightarrow> next_in x (xs @ ys) = next_in x ys"
proof (induction xs rule: induct_list012)
  case (2 y)
  then show ?case by (cases ys) auto
next
  case (3 y z zs)
  then show ?case by auto
qed simp

text \<open>The sequence of nodes as seen when going in a direction.\<close>

fun seq :: "dir \<Rightarrow> 'p tree \<Rightarrow> 'p list" where
  "seq RIGHT T = inorder T"
| "seq LEFT T = rev (inorder T)"

lemma seq_Node: "seq d (Node l p r) = seq d (sub (other_dir d) (Node l p r)) @ p # seq d (sub d (Node l p r))"
  by (cases d) simp_all

lemma neighbour_seq: "neighbour d x (inorder T) = next_in x (seq d T)"
  by (cases d) (simp_all add: neighbour_def)

lemma seq_simps [simp]: "set (seq d T) = set_tree T" "distinct (seq d T) = distinct (inorder T)" "seq d T = [] \<longleftrightarrow> T = Leaf"
  by (cases d; simp)+

lemma hd_seq: "T \<noteq> Leaf \<Longrightarrow> hd (seq d T) = extreme (other_dir d) T"
  by (cases d) (simp_all add: extreme_def hd_rev)

lemma last_seq: "T \<noteq> Leaf \<Longrightarrow> last (seq d T) = extreme d T"
  by (cases d) (simp_all add: extreme_def last_rev)

text \<open>Climbing from the last node of a subtree ends where climbing from the root of the subtree ends.\<close>

lemma climb_extreme:
  "tree_at H q T \<Longrightarrow> distinct (inorder T) \<Longrightarrow> root_of T = Some n \<Longrightarrow> climb d H (extreme d T) = climb d H n"
proof (induction T arbitrary: q n)
  case (Node l p r)
  have n: "n = p"
    using Node.prems(3) by simp
  let ?S = "sub d (Node l p r)"
  have c: "m_children H p d = root_of ?S" "tree_at H (Some p) ?S" "distinct (inorder ?S)"
    using tree_at_child [OF Node.prems(1), of d] Node.prems(2) by (cases d; simp)+
  show ?case
  proof (cases ?S)
    case Leaf
    then show ?thesis
      using n by (simp add: extreme_Node)
  next
    case (Node l' p' r')
    have "climb d H (extreme d ?S) = climb d H p'"
      using Node.IH c(2,3) Node by (cases d) auto
    also have "climb d H p' = climb d H p"
      using c(1,2) Node by (subst climb.simps) simp
    finally show ?thesis
      using n Node by (simp add: extreme_Node)
  qed
qed simp

lemma climb_node:
  assumes "tree_at H q T" and "distinct (inorder T)" and "x \<in> set_tree T" and "m_children H x d = None"
    and "root_of T = Some n"
  shows "climb d H x = (if x = last (seq d T) then climb d H n else Some (next_in x (seq d T)))"
  using assms
proof (induction T arbitrary: q n)
  case (Node l p r)
  let ?S = "sub d (Node l p r)" and ?O = "sub (other_dir d) (Node l p r)"
  have n: "n = p"
    using Node.prems(5) by simp
  have dist: "distinct (inorder ?S)" "distinct (inorder ?O)" "p \<notin> set_tree ?S" "p \<notin> set_tree ?O" "set_tree ?S \<inter> set_tree ?O = {}"
    using Node.prems(2) by (cases d; auto)+
  have S: "m_children H p d = root_of ?S" "tree_at H (Some p) ?S"
    using tree_at_child [OF Node.prems(1), of d] by simp_all
  have O: "m_children H p (other_dir d) = root_of ?O" "tree_at H (Some p) ?O"
    using tree_at_child [OF Node.prems(1), of "other_dir d"] by simp_all
  have seq: "seq d (Node l p r) = seq d ?O @ p # seq d ?S"
    by (rule seq_Node)
  have D: "distinct (seq d ?O @ p # seq d ?S)"
    using Node.prems(2) unfolding seq [symmetric] by simp
  have sub_cases: "x = p \<or> x \<in> set_tree ?S \<or> x \<in> set_tree ?O"
    using Node.prems(3) by (cases d) auto
  have IH_S: "climb d H x = (if x = last (seq d ?S) then climb d H m else Some (next_in x (seq d ?S)))"
    if "x \<in> set_tree ?S" "root_of ?S = Some m" for m
    using Node.IH S(2) dist(1) that Node.prems(4) by (cases d) auto
  have IH_O: "climb d H x = (if x = last (seq d ?O) then climb d H m else Some (next_in x (seq d ?O)))"
    if "x \<in> set_tree ?O" "root_of ?O = Some m" for m
    using Node.IH O(2) dist(2) that Node.prems(4) by (cases d) auto
  from sub_cases consider "x = p" | "x \<in> set_tree ?S" | "x \<in> set_tree ?O"
    by blast
  then show ?case
  proof cases
    case 1
    then have "?S = Leaf"
      using S(1) Node.prems(4) by simp
    then show ?thesis
      using 1 n by (simp add: seq)
  next
    case 2
    then obtain m where m: "root_of ?S = Some m"
      by (cases ?S) auto
    then have ne: "seq d ?S \<noteq> []"
      by auto
    have "climb d H m = climb d H p"
      using m S by (subst climb.simps) (auto simp: root_of_Some)
    moreover have "next_in x (seq d (Node l p r)) = next_in x (seq d ?S)"
      unfolding seq using 2 dist(3,5) next_in_notin [of x "seq d ?O @ [p]" "seq d ?S"] by auto
    ultimately show ?thesis
      using IH_S [OF 2 m] n ne by (simp add: seq)
  next
    case 3
    then obtain m where m: "root_of ?O = Some m"
      by (cases ?O) auto
    then have ne: "seq d ?O \<noteq> []"
      by auto
    have "m_children H p d \<noteq> Some m"
      using S(1) dist(5) root_of_mem [OF m] root_of_mem [of ?S m] by auto
    then have "climb d H m = Some (Some p)"
      using m O by (subst climb.simps) (auto simp: root_of_Some)
    moreover have "next_in x (seq d (Node l p r)) = (if x = last (seq d ?O) then Some p else next_in x (seq d ?O))"
      unfolding seq using 3 next_in_append [of x "seq d ?O" "p # seq d ?S"] D by simp
    moreover have "x \<noteq> last (seq d (Node l p r))"
      unfolding seq using 3 dist(4,5) last_in_set [of "seq d ?S"] by (cases "seq d ?S = []") auto
    ultimately show ?thesis
      using IH_O [OF 3 m] by simp
  qed
qed simp

lemma next_in_last: "distinct xs \<Longrightarrow> xs \<noteq> [] \<Longrightarrow> next_in (last xs) xs = None"
  by (induction xs rule: induct_list012) auto

lemma next_in_mid: "x \<notin> set us \<Longrightarrow> next_in x (us @ x # z # zs) = Some z"
  using next_in_notin [of x us "x # z # zs"] by simp

lemma seq_subtree:
  assumes "x \<in> set_tree T"
  obtains xs ys where "seq d T = xs @ seq d (subtree x T) @ ys"
proof -
  obtain xs ys where e: "inorder T = xs @ inorder (subtree x T) @ ys"
    using inorder_replace [OF assms] by blast
  show thesis
  proof (cases d)
    case LEFT
    then show thesis
      using that [of "rev ys" "rev xs"] e by simp
  next
    case RIGHT
    then show thesis
      using that [of xs ys] e by simp
  qed
qed

lemma prev_or_next_spec:
  assumes T: "is_rbtree H T" and x: "x \<in> set_tree T"
  shows "prev_or_next d x H = Inr (neighbour d x (inorder T))"
proof (cases "m_children H x d")
  case None
  obtain n where n: "root_of T = Some n"
    using x by (cases T) auto
  have t: "tree_at H None T" "distinct (inorder T)"
    using T by (simp_all add: is_rbtree_def)
  have "T \<noteq> Leaf"
    using x by auto
  have "climb d H n = Some None"
    using n t(1) by (subst climb.simps) (auto simp: root_of_Some)
  then show ?thesis
    using climb_node [OF t x None n] None next_in_last [of "seq d T"] t(2) \<open>T \<noteq> Leaf\<close>
    by (auto simp: prev_or_next_def loop_def neighbour_seq)
next
  case (Some c)
  obtain l r where s: "subtree x T = Node l x r"
    using subtree_root [OF x] by blast
  have t: "tree_at H (m_parent H x) (Node l x r)"
    using subtree_at [of H None T x] T x s by (simp add: is_rbtree_def)
  let ?S = "sub d (Node l x r)"
  have S: "root_of ?S = Some c" "tree_at H (Some x) ?S"
    using tree_at_child [OF t, of d] Some by simp_all
  then have "descend (other_dir d) H c = Some (hd (seq d ?S))"
    using descend_tree [OF S(2,1), of "other_dir d"] hd_seq [of ?S d] S(1) by (cases ?S) simp_all
  moreover obtain xs ys where e: "seq d T = xs @ seq d (Node l x r) @ ys"
    using seq_subtree [OF x] s by metis
  moreover have "distinct (seq d T)"
    using T by (simp add: is_rbtree_def)
  moreover obtain z zs where z: "seq d ?S = z # zs"
    using S(1) by (cases "seq d ?S") auto
  ultimately show ?thesis
    using next_in_mid [of x "xs @ seq d (sub (other_dir d) (Node l x r))" z "zs @ ys"] Some
    by (simp add: prev_or_next_def loop_def neighbour_seq seq_Node)
qed

subsection \<open>Interface: items in order\<close>

text \<open>What a tree needs of the items: \<open>compare\<close> tells on which side of an item a key belongs.\<close>

locale tree_items =
  fixes compare :: "'p \<Rightarrow> 'k :: linorder \<Rightarrow> int"
    and key :: "'p \<Rightarrow> 'k"
  assumes compare_law: "compare p k < 0 \<longleftrightarrow> k < key p" "0 < compare p k \<longleftrightarrow> key p < k"

definition ordered :: "('p \<Rightarrow> 'k :: linorder) \<Rightarrow> 'p tree \<Rightarrow> bool" where
  "ordered key T \<longleftrightarrow> sorted_wrt (<) (map key (inorder T))"

lemma ordered_Node:
  "ordered key (Node l p r) \<longleftrightarrow> ordered key l \<and> ordered key r \<and> (\<forall>x \<in> set_tree l. key x < key p) \<and> (\<forall>x \<in> set_tree r. key p < key x)"
  by (auto simp: ordered_def sorted_wrt_append) (meson less_trans)

context tree_items
begin

lemma find_spec:
  "tree_at H q T \<Longrightarrow> ordered key T \<Longrightarrow> find_loop compare k H (root_of T) = Some (find (\<lambda>p. key p = k) (inorder T))"
proof (induction T arbitrary: q)
  case Leaf
  then show ?case by (subst find_loop.simps) simp
next
  case (Node l p r)
  have H: "m_children H p LEFT = root_of l" "m_children H p RIGHT = root_of r"
    using Node.prems(1) by simp_all
  have o: "ordered key l" "ordered key r" "\<forall>x \<in> set_tree l. key x < key p" "\<forall>x \<in> set_tree r. key p < key x"
    using Node.prems(2) by (simp_all add: ordered_Node)
  have IH: "find_loop compare k H (root_of l) = Some (find (\<lambda>p. key p = k) (inorder l))"
      "find_loop compare k H (root_of r) = Some (find (\<lambda>p. key p = k) (inorder r))"
    using Node.IH Node.prems(1) o(1,2) by auto
  have app: "find P (xs @ ys) = (case find P xs of None \<Rightarrow> find P ys | Some y \<Rightarrow> Some y)" for P :: "'a \<Rightarrow> bool" and xs ys
    by (induction xs) auto
  have none: "find (\<lambda>p. key p = k) xs = None \<longleftrightarrow> (\<forall>x \<in> set xs. key x \<noteq> k)" for xs
    by (simp add: find_None_iff Ball_def)
  consider "k < key p" | "key p < k" | "k = key p"
    by force
  then show ?case
  proof cases
    case 1
    then have "find (\<lambda>p. key p = k) (inorder r) = None"
      using o(4) by (auto simp: none)
    then show ?thesis
      using 1 IH H compare_law [of p k] by (subst find_loop.simps) (auto simp: app split: option.split)
  next
    case 2
    then have "find (\<lambda>p. key p = k) (inorder l) = None"
      using o(3) by (auto simp: none)
    then show ?thesis
      using 2 IH H compare_law [of p k] by (subst find_loop.simps) (auto simp: app)
  next
    case 3
    then have "find (\<lambda>p. key p = k) (inorder l) = None"
      using o(3) unfolding none by auto
    then show ?thesis
      using 3 compare_law [of p k] by (subst find_loop.simps) (auto simp: app)
  qed
qed

text \<open>The tree after an insertion, where the search ends.\<close>

fun grow :: "'p \<Rightarrow> 'p tree \<Rightarrow> 'p tree" where
  "grow x Leaf = Node Leaf x Leaf"
| "grow x (Node l p r) = (if key x < key p then Node (grow x l) p r else Node l p (grow x r))"

lemma grow_inorder:
  assumes "ordered key T" and "\<forall>p \<in> set_tree T. key p \<noteq> key x"
  shows "ordered key (grow x T)" and "set_tree (grow x T) = insert x (set_tree T)"
    and "\<exists>us vs. inorder T = us @ vs \<and> inorder (grow x T) = us @ x # vs"
proof -
  show "\<exists>us vs. inorder T = us @ vs \<and> inorder (grow x T) = us @ x # vs"
  proof (induction T)
    case (Node l p r)
    then obtain us vs us' vs' where e: "inorder l = us @ vs" "inorder (grow x l) = us @ x # vs" "inorder r = us' @ vs'"
        "inorder (grow x r) = us' @ x # vs'"
      by blast
    show ?case
    proof (cases "key x < key p")
      case True
      with e show ?thesis
        by (intro exI [of _ us] exI [of _ "vs @ p # inorder r"]) simp
    next
      case False
      with e show ?thesis
        by (intro exI [of _ "inorder l @ p # us'"] exI [of _ vs']) simp
    qed
  qed simp
  have set: "set_tree (grow x T) = insert x (set_tree T)" for T
    by (induction T) auto
  then show "set_tree (grow x T) = insert x (set_tree T)" .
  show "ordered key (grow x T)"
    using assms
  proof (induction T)
    case Leaf
    then show ?case by (simp add: ordered_def)
  next
    case (Node l p r)
    have "key x \<noteq> key p"
      using Node.prems(2) by auto
    then show ?case
      using Node set by (auto simp: ordered_Node)
  qed
qed

lemma insert_exists:
  "tree_at H q T \<Longrightarrow> ordered key T \<Longrightarrow> \<exists>p \<in> set_tree T. key p = k \<Longrightarrow> insert_loop compare k H par d (root_of T) = Some None"
proof (induction T arbitrary: q par d)
  case (Node l p r)
  have H: "m_children H p LEFT = root_of l" "m_children H p RIGHT = root_of r"
    using Node.prems(1) by simp_all
  have o: "ordered key l" "ordered key r" "\<forall>x \<in> set_tree l. key x < key p" "\<forall>x \<in> set_tree r. key p < key x"
    using Node.prems(2) by (simp_all add: ordered_Node)
  consider "k < key p" | "key p < k" | "k = key p"
    by force
  then show ?case
  proof cases
    case 1
    then have "\<exists>p \<in> set_tree l. key p = k"
      using Node.prems(3) o(4) by auto
    then show ?thesis
      using 1 Node.IH(1) [of "Some p"] Node.prems(1) o(1) H compare_law [of p k] by (subst insert_loop.simps) auto
  next
    case 2
    then have "\<exists>p \<in> set_tree r. key p = k"
      using Node.prems(3) o(3) by auto
    then show ?thesis
      using 2 Node.IH(2) [of "Some p"] Node.prems(1) o(2) H compare_law [of p k] by (subst insert_loop.simps) auto
  next
    case 3
    then show ?thesis
      using compare_law [of p k] by (subst insert_loop.simps) auto
  qed
qed simp

lemma node_insert_fields:
  assumes "x \<noteq> u"
  shows "m_parent (node_insert x (Some u) d H) p = (if p = x then Some u else m_parent H p)"
    and "m_children (node_insert x (Some u) d H) p e =
      (if p = x then None else if p = u \<and> e = d then Some x else m_children H p e)"
  using assms by (cases e; simp add: node_insert_def set_child_def set_parent_def Let_def)+

lemma insert_new:
  assumes "tree_at H q T" and "T \<noteq> Leaf" and "ordered key T" and "\<forall>p \<in> set_tree T. key p \<noteq> key x" and "x \<notin> set_tree T"
    and "distinct (inorder T)"
  shows "\<exists>u e. insert_loop compare (key x) H par d (root_of T) = Some (Some (Some u, e)) \<and> u \<in> set_tree T \<and>
    tree_at (node_insert x (Some u) e H) q (grow x T)"
  using assms
proof (induction T arbitrary: q par d)
  case (Node l p r)
  have H: "m_parent H p = q" "m_children H p LEFT = root_of l" "m_children H p RIGHT = root_of r" "tree_at H (Some p) l" "tree_at H (Some p) r"
    using Node.prems(1) by simp_all
  have o: "ordered key l" "ordered key r"
    using Node.prems(3) by (simp_all add: ordered_Node)
  have dist: "p \<notin> set_tree l" "p \<notin> set_tree r" "set_tree l \<inter> set_tree r = {}" "distinct (inorder l)" "distinct (inorder r)"
    using Node.prems(6) unfolding set_inorder_Node by simp_all
  have px: "x \<noteq> p" "x \<notin> set_tree l" "x \<notin> set_tree r" "key p \<noteq> key x"
    using Node.prems(4,5) by auto
  let ?go = "\<lambda>S e. \<exists>u f. insert_loop compare (key x) H (Some p) e (root_of S) = Some (Some (Some u, f)) \<and>
      (u = p \<and> f = e \<and> S = Leaf \<or> u \<in> set_tree S) \<and> tree_at (node_insert x (Some u) f H) (Some p) (grow x S)"
  have go: "?go S e" if S: "S = l \<or> S = r" and "m_children H p e = root_of S" for S e
  proof (cases "S = Leaf")
    case True
    then show ?thesis
      using px by (intro exI [of _ p] exI [of _ e]) (simp add: insert_loop.simps [of _ _ _ _ _ None] node_insert_fields)
  next
    case False
    have keys: "\<forall>p \<in> set_tree l. key p \<noteq> key x" "\<forall>p \<in> set_tree r. key p \<noteq> key x"
      using Node.prems(4) by simp_all
    have "\<exists>u f. insert_loop compare (key x) H (Some p) e (root_of S) = Some (Some (Some u, f)) \<and> u \<in> set_tree S \<and>
        tree_at (node_insert x (Some u) f H) (Some p) (grow x S)"
      using S
    proof
      assume "S = l"
      with Node.IH(1) [OF H(4) _ o(1) keys(1) px(2) dist(4)] False show ?thesis by simp
    next
      assume "S = r"
      with Node.IH(2) [OF H(5) _ o(2) keys(2) px(3) dist(5)] False show ?thesis by simp
    qed
    then show ?thesis
      by blast
  qed
  have frame: "tree_at (node_insert x (Some u) f H) (Some p) S"
    if "tree_at H (Some p) S" "u \<notin> set_tree S" "x \<notin> set_tree S" "u \<noteq> x" for S u f
    using that by (intro tree_at_frame [OF that(1)]) (auto simp: node_insert_fields fun_eq_iff)
  show ?case
  proof (cases "key x < key p")
    case True
    obtain u f where u: "insert_loop compare (key x) H (Some p) LEFT (root_of l) = Some (Some (Some u, f))"
        "u = p \<and> f = LEFT \<and> l = Leaf \<or> u \<in> set_tree l" "tree_at (node_insert x (Some u) f H) (Some p) (grow x l)"
      using go [of l LEFT] H(2) by auto
    have ux: "u \<noteq> x" "u \<notin> set_tree r"
      using u(2) px dist by auto
    have root: "m_children (node_insert x (Some u) f H) p LEFT = root_of (grow x l)"
      using u(2) px ux H(2) dist(1) by (cases l) (auto simp: node_insert_fields)
    have "m_children (node_insert x (Some u) f H) p RIGHT = root_of r" "m_parent (node_insert x (Some u) f H) p = q"
      using u(2) px ux H(1,3) dist(1) by (auto simp: node_insert_fields)
    then have "tree_at (node_insert x (Some u) f H) q (grow x (Node l p r))"
      using True u(3) root frame [OF H(5) ux(2) px(3) ux(1)] by simp
    moreover have "insert_loop compare (key x) H par d (root_of (Node l p r)) = Some (Some (Some u, f))"
      using u(1) True H(2) compare_law [of p "key x"] by (subst insert_loop.simps) simp
    ultimately show ?thesis
      using u(2) by auto
  next
    case False
    obtain u f where u: "insert_loop compare (key x) H (Some p) RIGHT (root_of r) = Some (Some (Some u, f))"
        "u = p \<and> f = RIGHT \<and> r = Leaf \<or> u \<in> set_tree r" "tree_at (node_insert x (Some u) f H) (Some p) (grow x r)"
      using go [of r RIGHT] H(3) by auto
    have ux: "u \<noteq> x" "u \<notin> set_tree l"
      using u(2) px dist by auto
    have root: "m_children (node_insert x (Some u) f H) p RIGHT = root_of (grow x r)"
      using u(2) px ux H(3) dist(2) by (cases r) (auto simp: node_insert_fields)
    have "m_children (node_insert x (Some u) f H) p LEFT = root_of l" "m_parent (node_insert x (Some u) f H) p = q"
      using u(2) px ux H(1,2) dist(2) by (auto simp: node_insert_fields)
    then have "tree_at (node_insert x (Some u) f H) q (grow x (Node l p r))"
      using False u(3) root frame [OF H(4) ux(2) px(2) ux(1)] by simp
    moreover have "insert_loop compare (key x) H par d (root_of (Node l p r)) = Some (Some (Some u, f))"
      using u(1) False px(4) H(3) compare_law [of p "key x"] by (subst insert_loop.simps) simp
    ultimately show ?thesis
      using u(2) by auto
  qed
qed simp

end

subsection \<open>Removing a node\<close>

lemma heap_fields [simp]:
  "m_children (set_child p d c H) v e = (if v = p \<and> e = d then c else m_children H v e)"
  "m_parent (set_child p d c H) = m_parent H" "m_root (set_child p d c H) = m_root H"
  "m_parent (set_parent p q H) v = (if v = p then q else m_parent H v)"
  "m_children (set_parent p q H) = m_children H" "m_root (set_parent p q H) = m_root H"
  "m_parent (adopt c q H) v = (if c = Some v then q else m_parent H v)"
  "m_children (adopt c q H) = m_children H" "m_root (adopt c q H) = m_root H"
  by (auto simp: set_child_def set_parent_def adopt_def split: option.split)

lemma child_parent: "tree_at H q T \<Longrightarrow> v \<in> set_tree T \<Longrightarrow> m_children H v e = Some p \<Longrightarrow> m_parent H p = Some v"
proof (induction T arbitrary: q)
  case (Node l u r)
  consider "v = u" | "v \<in> set_tree l" | "v \<in> set_tree r"
    using Node.prems(2) by auto
  then show ?case
  proof cases
    case 1
    then show ?thesis
      using Node.prems by (cases e) (auto simp: root_of_Some)
  next
    case 2
    then show ?thesis
      using Node.IH(1) [of "Some u"] Node.prems by simp
  next
    case 3
    then show ?thesis
      using Node.IH(2) [of "Some u"] Node.prems by simp
  qed
qed simp

lemma parent_child: "tree_at H q T \<Longrightarrow> p \<in> set_tree T \<Longrightarrow>
    m_parent H p = q \<and> root_of T = Some p \<or> (\<exists>u \<in> set_tree T. \<exists>d. m_parent H p = Some u \<and> m_children H u d = Some p)"
proof (induction T arbitrary: q)
  case (Node l u r)
  consider "p = u" | "p \<in> set_tree l" | "p \<in> set_tree r"
    using Node.prems by auto
  then show ?case
  proof cases
    case 2
    then show ?thesis
      using Node.IH(1) [of "Some u"] Node.prems by auto
  next
    case 3
    then show ?thesis
      using Node.IH(2) [of "Some u"] Node.prems by auto
  qed (use Node.prems in auto)
qed simp

lemma children_differ: "tree_at H q T \<Longrightarrow> distinct (inorder T) \<Longrightarrow> u \<in> set_tree T \<Longrightarrow> m_children H u LEFT = Some p \<Longrightarrow>
    m_children H u RIGHT \<noteq> Some p"
proof (induction T arbitrary: q)
  case (Node l v r)
  have dist: "distinct (inorder l)" "distinct (inorder r)" "set_tree l \<inter> set_tree r = {}"
    using Node.prems(2) unfolding set_inorder_Node by simp_all
  consider "u = v" | "u \<in> set_tree l" | "u \<in> set_tree r"
    using Node.prems by auto
  then show ?case
  proof cases
    case 1
    then show ?thesis
      using Node.prems(1,4) dist(3) root_of_mem [of l p] root_of_mem [of r p] by auto
  qed (use Node dist in auto)
qed simp

text \<open>A node of the tree that is not its root can be replaced at its parent.\<close>

lemma replace_child_tree:
  assumes T: "tree_at H None T" "distinct (inorder T)" and p: "p \<in> set_tree T" "m_parent H p = Some u"
    and same: "\<And>v. v \<in> set_tree T \<Longrightarrow> m_children H' v = m_children H v"
  shows "\<exists>d. replace_child (Some u) p c H' = Inr (set_child u d c H') \<and> u \<in> set_tree T \<and>
    (\<forall>v \<in> set_tree T. \<forall>e. m_children (set_child u d c H') v e = (if m_children H v e = Some p then c else m_children H v e))"
proof -
  obtain d where u: "u \<in> set_tree T" "m_children H u d = Some p"
    using parent_child [OF T(1) p(1)] p(2) by auto
  have one: "m_children H u e = Some p \<longleftrightarrow> e = d" for e
    using children_differ [OF T u(1), of p] u(2) by (cases e; cases d) auto
  have "dir_of_child u p H' = Inr d"
    using one [of LEFT] one [of RIGHT] same [OF u(1)] u(2) by (cases d) (simp_all add: dir_of_child_def)
  moreover have "v = u \<and> e = d \<longleftrightarrow> m_children H v e = Some p" if "v \<in> set_tree T" for v e
    using child_parent [OF T(1) that, of e p] p(2) one by auto
  ultimately show ?thesis
    using u(1) same by (intro exI [of _ d]) (auto simp: replace_child_def)
qed

lemma tree_at_adopt:
  assumes "tree_at H q C" and "distinct (inorder C)"
    and "\<And>v. v \<in> set_tree C \<Longrightarrow> m_children H' v = m_children H v \<and> m_parent H' v = (if root_of C = Some v then q' else m_parent H v)"
  shows "tree_at H' q' C"
proof (cases C)
  case (Node l p r)
  have "tree_at H' (Some p) l" "tree_at H' (Some p) r"
    using assms unfolding Node by (auto intro!: tree_at_frame [of H "Some p"])
  then show ?thesis
    using assms unfolding Node by simp
qed simp

lemma root_replace: "x \<in> set_tree T \<Longrightarrow> root_of (replace x S T) = (if root_of T = Some x then root_of S else root_of T)"
  by (cases T) auto

lemma subtree_parent_out:
  assumes "tree_at H None T" and "distinct (inorder T)" and "p \<in> set_tree T" and "m_parent H p = Some u"
  shows "u \<notin> set_tree (subtree p T)"
proof
  assume u: "u \<in> set_tree (subtree p T)"
  obtain l r where s: "subtree p T = Node l p r"
    using subtree_root [OF assms(3)] by blast
  have t: "tree_at H (Some u) (Node l p r)"
    using subtree_at [OF assms(1,3)] assms(4) s by simp
  have "distinct (inorder (Node l p r))"
    using inorder_replace [OF assms(3)] assms(2) s by (metis distinct_append)
  then have dist: "p \<notin> set_tree l" "p \<notin> set_tree r"
    unfolding set_inorder_Node by simp_all
  obtain d where "m_children H u d = Some p"
    using parent_child [OF assms(1,3)] assms(4) by auto
  moreover have "m_children H v d \<noteq> Some p" if vin: "v \<in> set_tree (Node l p r)" for v
  proof -
    consider "v = p" | "v \<in> set_tree l" | "v \<in> set_tree r"
      using vin by auto
    then show ?thesis
    proof cases
      case 1
      then show ?thesis
        using t dist root_of_mem [of l p] root_of_mem [of r p] by (cases d) auto
    next
      case 2
      then show ?thesis
        using child_mem [of H "Some p" l v d p] t dist by auto
    next
      case 3
      then show ?thesis
        using child_mem [of H "Some p" r v d p] t dist by auto
    qed
  qed
  ultimately show False
    using u s by auto
qed

text \<open>
  Splicing out a node \<open>m\<close> with at most one child: the child \<open>C\<close> takes its place.
\<close>

lemma splice:
  assumes T: "is_rbtree H T" and m: "m \<in> set_tree T" "m_parent H m = Some u"
    and sub: "subtree m T = Node L m R" "C = L \<and> R = Leaf \<or> C = R \<and> L = Leaf"
  shows "\<exists>H1. replace_child (m_parent H m) m (root_of C) H = Inr H1 \<and> is_rbtree (adopt (root_of C) (m_parent H m) H1) (replace m C T)"
proof -
  have t: "tree_at H None T" "distinct (inorder T)" "m_root H = root_of T"
    using T by (simp_all add: is_rbtree_def)
  obtain H1 where d: "replace_child (Some u) m (root_of C) H = Inr H1" "u \<in> set_tree T" "m_parent H1 = m_parent H" "m_root H1 = m_root H"
      "\<And>v e. v \<in> set_tree T \<Longrightarrow> m_children H1 v e = (if m_children H v e = Some m then root_of C else m_children H v e)"
    using replace_child_tree [OF t(1,2) m, of H "root_of C"] by (metis heap_fields(2,3))
  let ?H2 = "adopt (root_of C) (Some u) H1"
  obtain xs ys where io: "inorder T = xs @ inorder (Node L m R) @ ys" "\<And>S. inorder (replace m S T) = xs @ inorder S @ ys"
    using inorder_replace [OF m(1)] sub(1) by metis
  have C: "set_tree C \<subseteq> set_tree (Node L m R)" "distinct (inorder C)" "m \<notin> set_tree C" "tree_at H (Some m) C"
    using sub(2) io(1) t(2) subtree_at [OF t(1) m(1)] sub(1) by auto
  have inC: "root_of C = Some v \<Longrightarrow> v \<in> set_tree (Node L m R)" for v
    using C(1) root_of_mem by fastforce
  have CT: "set_tree C \<subseteq> set_tree T"
    using C(1) subtree_mem [OF m(1)] sub(1) by auto
  have keep: "m_children H v e \<noteq> Some m" if "v \<in> set_tree C" for v e
    using child_mem [OF C(4) that] C(3) by blast
  have "tree_at ?H2 (Some u) C"
    by (rule tree_at_adopt [OF C(4,2)]) (use CT keep d in \<open>auto simp: fun_eq_iff\<close>)
  moreover have "m_parent ?H2 p = m_parent H p \<and>
      (\<forall>e. m_children ?H2 p e = (if m_children H p e = Some m then root_of C else m_children H p e))"
    if "p \<in> set_tree T" "p \<notin> set_tree (subtree m T)" for p
    using that d inC sub(1) by auto
  ultimately have "tree_at ?H2 None (replace m C T)"
    using tree_at_replace [OF t(1,2) m(1), of ?H2 C] m(2) by simp
  moreover have "distinct (inorder (replace m C T))"
    using t(2) sub(2) unfolding io by auto
  moreover have "root_of T \<noteq> Some m"
    using t(1) m(2) by (auto simp: root_of_Some)
  then have "m_root ?H2 = root_of (replace m C T)"
    using root_replace [OF m(1)] t(3) d(4) by simp
  ultimately show ?thesis
    using d(1) m(2) by (simp add: is_rbtree_def)
qed

text \<open>Replacing the name of a node, below the same parent and with the same children.\<close>

lemma rename_node:
  assumes T: "is_rbtree H T" and x: "x \<in> set_tree T" "subtree x T = Node l x r" and m: "m \<notin> set_tree T"
    and fields: "\<And>v. v \<noteq> m \<Longrightarrow> m_children H' v = m_children H v"
      "\<And>v. m_parent H' v = (if Some v = root_of l \<or> Some v = root_of r then Some m else if v = m then m_parent H x else m_parent H v)"
      "\<And>d. m_children H' m d = m_children H x d" "m_root H' = m_root H"
  shows "\<exists>H''. (case m_parent H' x of None \<Rightarrow> Inr (H'\<lparr>m_root := Some m\<rparr>) | Some q \<Rightarrow> replace_child (Some q) x (Some m) H') = Inr H'' \<and>
    is_rbtree H'' (replace x (Node l m r) T)"
proof -
  have t: "tree_at H None T" "distinct (inorder T)" "m_root H = root_of T"
    using T by (simp_all add: is_rbtree_def)
  have tx: "tree_at H (m_parent H x) (Node l x r)"
    using subtree_at [OF t(1) x(1)] x(2) by simp
  obtain xs ys where io: "inorder T = xs @ inorder (Node l x r) @ ys" "\<And>S. inorder (replace x S T) = xs @ inorder S @ ys"
    using inorder_replace [OF x(1)] x(2) by metis
  have mem: "set_tree l \<subseteq> set_tree T" "set_tree r \<subseteq> set_tree T"
    using subtree_mem [OF x(1)] x(2) by auto
  have dist: "distinct (inorder (Node l x r))"
    using io(1) t(2) by auto
  then have dlr: "distinct (inorder l)" "distinct (inorder r)" "x \<notin> set_tree l" "x \<notin> set_tree r" "set_tree l \<inter> set_tree r = {}"
    unfolding set_inorder_Node by simp_all
  have roots: "root_of l \<noteq> Some v" "root_of r \<noteq> Some v" if "v \<notin> set_tree l \<union> set_tree r" for v
    using that root_of_mem by fastforce+
  have xm: "x \<noteq> m" "m \<notin> set_tree l" "m \<notin> set_tree r"
    using x(1) m mem by auto
  have other: "v \<in> set_tree l \<Longrightarrow> Some v \<noteq> root_of r" "v \<in> set_tree r \<Longrightarrow> Some v \<noteq> root_of l" for v
    using dlr(5) root_of_mem [of l v] root_of_mem [of r v] by auto
  have l': "tree_at H' (Some m) l"
    by (rule tree_at_adopt [of H "Some x"])
      (use tx dlr xm other in \<open>auto simp: fields\<close>)
  have r': "tree_at H' (Some m) r"
    by (rule tree_at_adopt [of H "Some x"])
      (use tx dlr xm other in \<open>auto simp: fields\<close>)
  have m': "m_parent H' m = m_parent H x" "m_children H' m LEFT = root_of l" "m_children H' m RIGHT = root_of r"
    using roots [of m] xm tx by (auto simp: fields)
  have px: "m_parent H' x = m_parent H x"
    using roots [of x] dlr xm by (auto simp: fields)
  have dist': "distinct (inorder (replace x (Node l m r) T))"
    using t(2) m unfolding io by (auto simp flip: set_inorder simp: io(1))
  show ?thesis
  proof (cases "m_parent H x")
    case None
    then have "root_of T = Some x"
      using parent_mem [OF t(1) x(1)] by auto
    then have "T = Node l x r"
      using x(2) by (cases T) auto
    then have rp: "replace x (Node l m r) T = Node l m r"
      by simp
    have "tree_at (H'\<lparr>m_root := Some m\<rparr>) None (Node l m r)"
      using tree_at_frame [OF l', of "H'\<lparr>m_root := Some m\<rparr>"] tree_at_frame [OF r', of "H'\<lparr>m_root := Some m\<rparr>"] m' None by simp
    then show ?thesis
      using None px dist' unfolding rp by (simp add: is_rbtree_def)
  next
    case (Some q)
    obtain H'' where d: "replace_child (Some q) x (Some m) H' = Inr H''" "q \<in> set_tree T" "m_parent H'' = m_parent H'" "m_root H'' = m_root H'"
        "\<And>v e. v \<in> set_tree T \<Longrightarrow> m_children H'' v e = (if m_children H v e = Some x then Some m else m_children H v e)"
        "\<And>v. v \<noteq> q \<Longrightarrow> m_children H'' v = m_children H' v"
    proof -
      have same: "m_children H' v = m_children H v" if "v \<in> set_tree T" for v
        using that m fields(1) [of v] by auto
      obtain e where e: "replace_child (Some q) x (Some m) H' = Inr (set_child q e (Some m) H')" "q \<in> set_tree T"
          "\<forall>v \<in> set_tree T. \<forall>e'. m_children (set_child q e (Some m) H') v e' = (if m_children H v e' = Some x then Some m else m_children H v e')"
        using replace_child_tree [OF t(1,2) x(1) Some same, of "Some m"] by blast
      show thesis
        by (rule that [OF e(1,2)]) (use e(3) in \<open>auto simp: fun_eq_iff\<close>)
    qed
    have qm: "q \<noteq> m" "q \<notin> set_tree (Node l x r)"
      using d(2) m subtree_parent_out [OF t(1,2) x(1) Some] x(2) by auto
    have same: "m_parent H'' p = m_parent H' p \<and> m_children H'' p = m_children H' p" if "p \<in> set_tree (Node l x r)" for p
      using that qm(2) d(3) d(6) [of p] by metis
    have "tree_at H'' (Some m) l"
      by (rule tree_at_frame [OF l']) (use same in simp)
    moreover have "tree_at H'' (Some m) r"
      by (rule tree_at_frame [OF r']) (use same in simp)
    ultimately have "tree_at H'' (m_parent H x) (Node l m r)"
      using m' d(3) d(6) [of m] qm(1) by simp
    moreover have "m_parent H'' p = m_parent H p \<and>
        (\<forall>e. m_children H'' p e = (if m_children H p e = Some x then root_of (Node l m r) else m_children H p e))"
      if "p \<in> set_tree T" "p \<notin> set_tree (subtree x T)" for p
      using that d(3) d(5) [OF that(1)] m roots [of p] x(2) by (auto simp: fields)
    ultimately have "tree_at H'' None (replace x (Node l m r) T)"
      by (rule tree_at_replace [OF t(1,2) x(1)])
    moreover have "root_of T \<noteq> Some x"
      using t(1) Some by (auto simp: root_of_Some)
    then have "m_root H'' = root_of (replace x (Node l m r) T)"
      using root_replace [OF x(1)] t(3) d(4) fields(4) by simp
    ultimately show ?thesis
      using d(1) px Some dist' by (simp add: is_rbtree_def)
  qed
qed

text \<open>The node that takes the place of the removed one: an end of one of its subtrees.\<close>

lemma subtree_sub:
  assumes "distinct (inorder (Node l p r))" and "x \<in> set_tree (sub d (Node l p r))"
  shows "subtree x (Node l p r) = subtree x (sub d (Node l p r))"
  using assms by (cases d) auto

lemma subtree_subtree:
  "distinct (inorder T) \<Longrightarrow> x \<in> set_tree T \<Longrightarrow> y \<in> set_tree (subtree x T) \<Longrightarrow> subtree y T = subtree y (subtree x T)"
proof (induction T)
  case (Node l p r)
  have d: "distinct (inorder l)" "distinct (inorder r)" "p \<notin> set_tree l" "p \<notin> set_tree r" "set_tree l \<inter> set_tree r = {}"
    using Node.prems(1) unfolding set_inorder_Node by simp_all
  consider "x = p" | "x \<noteq> p" "x \<in> set_tree l" | "x \<noteq> p" "x \<notin> set_tree l" "x \<in> set_tree r"
    using Node.prems(2) by auto
  then show ?case
  proof cases
    case 2
    then have "y \<in> set_tree l"
      using Node.prems(3) subtree_mem [of x l] by auto
    then show ?thesis
      using 2 d Node.IH(1) Node.prems(3) by auto
  next
    case 3
    then have "y \<in> set_tree r"
      using Node.prems(3) subtree_mem [of x r] by auto
    then show ?thesis
      using 3 d Node.IH(2) Node.prems(3) by auto
  qed simp
qed simp

lemma extreme_subtree:
  "distinct (inorder T) \<Longrightarrow> T \<noteq> Leaf \<Longrightarrow> sub d (subtree (extreme d T) T) = Leaf"
proof (induction T)
  case (Node l p r)
  let ?S = "sub d (Node l p r)"
  show ?case
  proof (cases "?S = Leaf")
    case True
    then show ?thesis
      by (simp add: extreme_Node)
  next
    case False
    have e: "extreme d ?S \<in> set_tree ?S"
      by (rule extreme_mem [OF False])
    have "sub d (subtree (extreme d ?S) ?S) = Leaf"
      using Node.IH Node.prems(1) False by (cases d) auto
    then show ?thesis
      using False subtree_sub [OF Node.prems(1) e] by (simp add: extreme_Node)
  qed
qed simp

lemma inorder_splice:
  assumes "distinct (inorder T)" and "m \<in> set_tree T" and "subtree m T = Node L m R" and "C = L \<and> R = Leaf \<or> C = R \<and> L = Leaf"
  shows "inorder (replace m C T) = filter (\<lambda>y. y \<noteq> m) (inorder T)"
proof -
  obtain xs ys where io: "inorder T = xs @ inorder (Node L m R) @ ys" "inorder (replace m C T) = xs @ inorder C @ ys"
    using inorder_replace [OF assms(2)] assms(3) by metis
  have "filter (\<lambda>y. y \<noteq> m) zs = zs" if "m \<notin> set zs" for zs
    using that by (auto simp: filter_id_conv)
  then show ?thesis
    using assms(1,4) unfolding io by auto
qed

lemma inorder_rename:
  assumes "distinct (inorder T)" and "x \<in> set_tree T" and "subtree x T = Node l x r"
  shows "inorder (replace x (Node l m r) T) = map (\<lambda>y. if y = x then m else y) (inorder T)"
proof -
  obtain xs ys where io: "inorder T = xs @ inorder (Node l x r) @ ys" "inorder (replace x (Node l m r) T) = xs @ inorder (Node l m r) @ ys"
    using inorder_replace [OF assms(2)] assms(3) by metis
  have "map (\<lambda>y. if y = x then m else y) zs = zs" if "x \<notin> set zs" for zs
    using that by (induction zs) auto
  then show ?thesis
    using assms(1) unfolding io by auto
qed

text \<open>Putting a neighbour of \<open>x\<close> in its place removes \<open>x\<close>.\<close>

lemma replace_by_neighbour:
  assumes "distinct (us @ [a, b] @ vs)" and "(m = a \<and> x = b) \<or> (x = a \<and> m = b)"
  shows "map (\<lambda>y. if y = x then m else y) (filter (\<lambda>y. y \<noteq> m) (us @ [a, b] @ vs)) = filter (\<lambda>y. y \<noteq> x) (us @ [a, b] @ vs)"
proof -
  have f: "filter (\<lambda>y. y \<noteq> v) zs = zs" if "v \<notin> set zs" for v zs
    using that by (auto simp: filter_id_conv)
  have "map (\<lambda>y. if y = x then m else y) zs = zs" if "x \<notin> set zs" for zs
    using that by (induction zs) auto
  then show ?thesis
    using assms by (auto simp: f)
qed

lemma adopt_None [simp]: "adopt None q H = H"
  by (simp add: adopt_def)

lemma remove_me_spec:
  assumes T: "is_rbtree H T" and x: "x \<in> set_tree T"
  shows "\<exists>H' T'. remove_me x H = Inr H' \<and> is_rbtree H' T' \<and> inorder T' = filter (\<lambda>y. y \<noteq> x) (inorder T)"
proof -
  have t: "tree_at H None T" "distinct (inorder T)" "m_root H = root_of T"
    using T by (simp_all add: is_rbtree_def)
  obtain l r where s: "subtree x T = Node l x r"
    using subtree_root [OF x] by blast
  have tx: "tree_at H (m_parent H x) (Node l x r)"
    using subtree_at [OF t(1) x] s by simp
  obtain us vs where io: "inorder T = us @ inorder (Node l x r) @ vs"
    using inorder_replace [OF x] s by metis
  have dist: "distinct (inorder (Node l x r))"
    using io t(2) by auto
  consider "l = Leaf" "r = Leaf" "m_root H = Some x" | "l = Leaf" "r = Leaf" "m_root H \<noteq> Some x" | "l \<noteq> Leaf \<or> r \<noteq> Leaf"
    by blast
  then show ?thesis
  proof cases
    case 1
    then have "T = Node Leaf x Leaf"
      using s t(3) by (cases T) auto
    then show ?thesis
      using 1 tx by (intro exI [of _ "H\<lparr>m_root := None\<rparr>"] exI [of _ Leaf]) (simp add: remove_me_def is_rbtree_def)
  next
    case 2
    obtain u where u: "m_parent H x = Some u"
      using parent_mem [OF t(1) x] t(3) 2(3) by auto
    have leaf: "Leaf = l \<and> r = Leaf \<or> Leaf = r \<and> l = Leaf"
      using 2 by simp
    obtain H1 where "replace_child (m_parent H x) x None H = Inr H1" "is_rbtree H1 (replace x Leaf T)"
      using splice [OF T x u s leaf] by auto
    then show ?thesis
      using 2 tx inorder_splice [OF t(2) x s leaf] by (intro exI [of _ H1] exI [of _ "replace x Leaf T"]) (simp add: remove_me_def)
  next
    case 3
    define cd where "cd = (if l = Leaf then RIGHT else LEFT)"
    let ?S = "sub cd (Node l x r)"
    have S: "?S \<noteq> Leaf" "tree_at H (Some x) ?S" "m_children H x cd = root_of ?S"
      using 3 tree_at_child [OF tx, of cd] by (auto simp: cd_def)
    have Sdist: "distinct (inorder ?S)" "x \<notin> set_tree ?S"
      using dist by (cases cd; simp)+
    obtain c where c: "root_of ?S = Some c"
      using S(1) by (cases ?S) auto
    define m where "m = extreme (other_dir cd) ?S"
    have desc: "descend (other_dir cd) H c = Some m"
      using descend_tree [OF S(2) c] by (simp add: m_def)
    have mS: "m \<in> set_tree ?S"
      unfolding m_def by (rule extreme_mem [OF S(1)])
    then have mx: "m \<in> set_tree (Node l x r)" "m \<noteq> x" "m \<in> set_tree T"
      using sub_mem [of cd "Node l x r"] Sdist(2) subtree_mem [OF x] s by auto
    obtain u where u: "m_parent H m = Some u"
      using parent_mem [OF S(2) mS] by auto
    obtain L R where ms: "subtree m T = Node L m R"
      using subtree_root [OF mx(3)] by blast
    have "sub (other_dir cd) (Node L m R) = Leaf"
      using extreme_subtree [OF Sdist(1) S(1), of "other_dir cd"] subtree_subtree [OF t(2) x] mx(1) s ms
        subtree_sub [OF dist mS] by (simp add: m_def)
    then have end_m: "L = Leaf \<or> R = Leaf"
      by (cases cd) auto
    define C where "C = (if L = Leaf then R else L)"
    have C: "C = L \<and> R = Leaf \<or> C = R \<and> L = Leaf"
      using end_m by (auto simp: C_def)
    have tm: "tree_at H (Some u) (Node L m R)"
      using subtree_at [OF t(1) mx(3)] ms u by simp
    have rep_child: "(if m_children H m LEFT \<noteq> None then m_children H m LEFT else m_children H m RIGHT) = root_of C"
      using tm by (auto simp: C_def)
    obtain H1 where H1: "replace_child (Some u) m (root_of C) H = Inr H1"
        and T1: "is_rbtree (adopt (root_of C) (Some u) H1) (replace m C T)"
      using splice [OF T mx(3) u ms C] u by auto
    define H2 where "H2 = adopt (root_of C) (Some u) H1"
    let ?T1 = "replace m C T"
    have io1: "inorder ?T1 = filter (\<lambda>y. y \<noteq> m) (inorder T)"
      by (rule inorder_splice [OF t(2) mx(3) ms C])
    have "set_tree ?T1 = set_tree T - {m}"
      using io1 by (auto simp flip: set_inorder)
    then have x1: "x \<in> set_tree ?T1" "m \<notin> set_tree ?T1"
      using x mx(2) by auto
    obtain l1 r1 where s1: "subtree x ?T1 = Node l1 x r1"
      using subtree_root [OF x1(1)] by blast
    have T2: "is_rbtree H2 ?T1"
      using T1 by (simp add: H2_def)
    have tx1: "tree_at H2 (m_parent H2 x) (Node l1 x r1)"
      using subtree_at [of H2 None ?T1 x] T2 x1(1) s1 by (simp add: is_rbtree_def)
    define H3 where "H3 = set_parent m (m_parent H2 x) H2"
    define H4 where "H4 = set_child m LEFT (m_children H3 x LEFT) H3"
    define H5 where "H5 = adopt (m_children H4 x LEFT) (Some m) H4"
    define H6 where "H6 = set_child m RIGHT (m_children H5 x RIGHT) H5"
    define H7 where "H7 = adopt (m_children H6 x RIGHT) (Some m) H6"
    have fin: "remove_me x H = (case m_parent H7 x of None \<Rightarrow> Inr (H7\<lparr>m_root := Some m\<rparr>) | Some q \<Rightarrow> replace_child (Some q) x (Some m) H7)"
    proof -
      have cd': "(if m_children H x LEFT = None then RIGHT else LEFT) = cd"
        using tx by (simp add: cd_def)
      have nonleaf: "\<not> (m_root H = Some x \<and> m_children H x LEFT = None \<and> m_children H x RIGHT = None)"
          "\<not> (m_children H x LEFT = None \<and> m_children H x RIGHT = None)" "\<not> (m_root H = Some x \<and> False)"
        using 3 tx by auto
      have down: "loop (descend (other_dir cd) H c) = Inr m" "kassert (Some u \<noteq> None) = Inr ()"
        using desc u by (simp_all add: loop_def)
      show ?thesis
        by (simp only: remove_me_def Let_def nonleaf if_False cd' S(3) c option.case down kbind_Inr rep_child H1 u
          H2_def H3_def H4_def H5_def H6_def H7_def)
    qed
    obtain H8 where H8: "remove_me x H = Inr H8" "is_rbtree H8 (replace x (Node l1 m r1) ?T1)"
    proof -
      have kids: "m_children H2 x LEFT = root_of l1" "m_children H2 x RIGHT = root_of r1"
        using tx1 by simp_all
      have "\<exists>H''. (case m_parent H7 x of None \<Rightarrow> Inr (H7\<lparr>m_root := Some m\<rparr>) | Some q \<Rightarrow> replace_child (Some q) x (Some m) H7) = Inr H'' \<and>
          is_rbtree H'' (replace x (Node l1 m r1) ?T1)"
      proof (rule rename_node [OF T2 x1(1) s1 x1(2)])
        fix d
        show "m_children H7 m d = m_children H2 x d"
          using mx(2) by (cases d) (simp_all add: H3_def H4_def H5_def H6_def H7_def)
      qed (use mx(2) kids in \<open>auto simp: H3_def H4_def H5_def H6_def H7_def fun_eq_iff\<close>)
      then show thesis
        using that fin by auto
    qed
    have io2: "inorder (replace x (Node l1 m r1) ?T1) = map (\<lambda>y. if y = x then m else y) (filter (\<lambda>y. y \<noteq> m) (inorder T))"
      using inorder_rename [OF _ x1(1) s1, of m] io1 t(2) by simp
    have "\<exists>P Q a b. inorder T = P @ [a, b] @ Q \<and> ((m = a \<and> x = b) \<or> (x = a \<and> m = b))"
    proof (cases cd)
      case LEFT
      then have "inorder l = butlast (inorder l) @ [m]"
        using S(1) by (simp add: m_def extreme_def)
      then have "inorder T = (us @ butlast (inorder l)) @ [m, x] @ (inorder r @ vs)"
        using io by (metis append.assoc append_Cons append_Nil inorder.simps(2))
      then show ?thesis by blast
    next
      case RIGHT
      then have "inorder r = m # tl (inorder r)"
        using S(1) by (simp add: m_def extreme_def)
      then have "inorder T = (us @ inorder l) @ [x, m] @ (tl (inorder r) @ vs)"
        using io by (metis append.assoc append_Cons append_Nil inorder.simps(2))
      then show ?thesis by blast
    qed
    then obtain P Q a b where e: "inorder T = P @ [a, b] @ Q" "(m = a \<and> x = b) \<or> (x = a \<and> m = b)"
      by blast
    have "inorder (replace x (Node l1 m r1) ?T1) = filter (\<lambda>y. y \<noteq> x) (inorder T)"
      using io2 replace_by_neighbour [OF t(2) [unfolded e(1)] e(2)] unfolding e(1) by simp
    with H8 show ?thesis by blast
  qed
qed

end
