(* ===== verification/Rbtree_Props.thy ===== *)
theory Rbtree_Props
  imports Rbtree_Correct
begin

section \<open>Properties of the search trees\<close>

text \<open>
  The operations as seen by their callers: the nodes of a tree in the order of their keys. The items of the tests of the
  kernel (\<^verbatim>\<open>my_node\<close>) provide the interface of the items.
\<close>

subsection \<open>Items\<close>

text \<open>\<open>my_node::compare\<close>; \<open>x\<close> is the field of the nodes. The subtraction is that of
  integers: in C it is only defined when it fits an \<^verbatim>\<open>int\<close>.\<close>

definition my_node_compare :: "('p \<Rightarrow> int) \<Rightarrow> 'p \<Rightarrow> int \<Rightarrow> int" where
  "my_node_compare x p y = y - x p"

interpretation my_items: tree_items "my_node_compare x" x for x
  by unfold_locales (auto simp: my_node_compare_def)

text \<open>A tree of three nodes, used by the examples: the node 1 above the nodes 0 and 2.\<close>

definition three_nodes :: "nat rbtree" where
  "three_nodes = \<lparr>m_root = Some 1, m_parent = (\<lambda>p. if p = 1 then None else Some 1),
    m_children = (\<lambda>p d. if p = 1 then (case d of LEFT \<Rightarrow> Some 0 | RIGHT \<Rightarrow> Some 2) else None)\<rparr>"

abbreviation three_tree :: "nat tree" where
  "three_tree \<equiv> Node (Node Leaf 0 Leaf) 1 (Node Leaf 2 Leaf)"

lemma three_nodes_tree: "is_rbtree three_nodes three_tree" "ordered int three_tree"
  by (simp_all add: is_rbtree_def three_nodes_def ordered_def)

subsection \<open>Searching and inserting\<close>

text \<open>Searching a tree whose nodes are in the order of their keys returns the node with the key, or null when no node has
  it; the search always ends.\<close>

lemma rb_find_correct:
  assumes "tree_items compare key" and "is_rbtree H T" and "ordered key T"
  shows "rb_find compare k H = Inr (find (\<lambda>p. key p = k) (inorder T))"
proof -
  have "tree_at H None T" "m_root H = root_of T"
    using assms(2) by (simp_all add: is_rbtree_def)
  then show ?thesis
    using tree_items.find_spec [OF assms(1) _ assms(3), of H None] by (simp add: rb_find_def loop_def)
qed

theorem rb_find_correct_witness: "rb_find (my_node_compare int) 2 three_nodes = Inr (Some 2)"
  using rb_find_correct [OF my_items.tree_items_axioms three_nodes_tree] by simp

lemma node_insert_root: "node_insert x None d H = H\<lparr>m_root := Some x, m_parent := (m_parent H)(x := None), m_children := (m_children H)(x := (\<lambda>_. None))\<rparr>"
proof -
  have "f(LEFT := None, RIGHT := None) = (\<lambda>_. None)" for f :: "dir \<Rightarrow> 'a option"
  proof
    fix d show "(f(LEFT := None, RIGHT := None)) d = None"
      by (cases d) simp_all
  qed
  then show ?thesis
    by (simp add: node_insert_def set_child_def set_parent_def Let_def)
qed

lemma node_insert_root_field: "m_root (node_insert x (Some u) d H) = m_root H"
  by (simp add: node_insert_def Let_def)

lemma rb_insert_exists:
  assumes "tree_items compare key" and "is_rbtree H T" and "ordered key T" and "\<exists>p \<in> set_tree T. key p = k"
  shows "rb_insert compare k item H = Inr (False, H)"
  using tree_items.insert_exists [OF assms(1) _ assms(3,4), of H None None LEFT] assms(2)
  by (simp add: rb_insert_def is_rbtree_def loop_def)

lemma rb_insert_new:
  assumes items: "tree_items compare key" and T: "is_rbtree H T" "ordered key T" and item: "item \<notin> set_tree T"
    and new: "\<forall>p \<in> set_tree T. key p \<noteq> key item"
  shows "\<exists>H' T' us vs. rb_insert compare (key item) item H = Inr (True, H') \<and> is_rbtree H' T' \<and> ordered key T' \<and>
    inorder T = us @ vs \<and> inorder T' = us @ item # vs"
proof -
  have t: "tree_at H None T" "distinct (inorder T)" "m_root H = root_of T"
    using T(1) by (simp_all add: is_rbtree_def)
  let ?T' = "tree_items.grow key item T"
  have "set_tree ?T' = insert item (set_tree T)" and o: "ordered key ?T'"
    and io: "\<exists>us vs. inorder T = us @ vs \<and> inorder ?T' = us @ item # vs"
    using tree_items.grow_inorder [OF items T(2) new] by simp_all
  have d: "distinct (inorder ?T')"
    using io t(2) item by (auto simp flip: set_inorder)
  have "\<exists>H'. rb_insert compare (key item) item H = Inr (True, H') \<and> is_rbtree H' ?T'"
  proof (cases "T = Leaf")
    case True
    have "insert_loop compare (key item) H None LEFT None = Some (Some (None, LEFT))"
      by (subst insert_loop.simps) simp
    with True t d show ?thesis
      by (simp add: rb_insert_def loop_def is_rbtree_def node_insert_root tree_items.grow.simps [OF items])
  next
    case False
    obtain u e where u: "insert_loop compare (key item) H None LEFT (root_of T) = Some (Some (Some u, e))"
        "tree_at (node_insert item (Some u) e H) None ?T'"
      using tree_items.insert_new [OF items t(1) False T(2) new item t(2), of None LEFT] by blast
    have "root_of ?T' = root_of T"
      using False by (cases T) (simp_all add: tree_items.grow.simps [OF items])
    with u t d show ?thesis
      by (simp add: rb_insert_def loop_def is_rbtree_def node_insert_root_field)
  qed
  with o io show ?thesis
    by auto
qed

text \<open>C37: Inserting an item into a tree returns false and leaves the tree when a node with its key exists; otherwise it
  returns true, and the item stands at its place between the nodes, which are otherwise the same and still in order.\<close>

theorem rb_insert_correct:
  assumes "tree_items compare key" and "is_rbtree H T" and "ordered key T" and "item \<notin> set_tree T"
  shows "if \<exists>p \<in> set_tree T. key p = key item then rb_insert compare (key item) item H = Inr (False, H)
    else \<exists>H' T' us vs. rb_insert compare (key item) item H = Inr (True, H') \<and> is_rbtree H' T' \<and> ordered key T' \<and>
      inorder T = us @ vs \<and> inorder T' = us @ item # vs"
  using rb_insert_exists [OF assms(1-3)] rb_insert_new [OF assms] by simp

theorem rb_insert_correct_witness:
  "\<exists>H' T'. rb_insert (my_node_compare int) 7 7 three_nodes = Inr (True, H') \<and> is_rbtree H' T' \<and> inorder T' = [0, 1, 2, 7]"
proof -
  obtain H' T' us vs where e: "rb_insert (my_node_compare int) 7 7 three_nodes = Inr (True, H')" "is_rbtree H' T'" "ordered int T'"
      "[0, 1, 2] = us @ vs" "inorder T' = us @ 7 # vs"
    using rb_insert_correct [OF my_items.tree_items_axioms three_nodes_tree, of 7] by auto
  have "vs = []"
    using e(3,4,5) by (cases vs rule: rev_cases) (auto simp: ordered_def sorted_wrt_append append_eq_append_conv2)
  with e show ?thesis by auto
qed

subsection \<open>Removing\<close>

text \<open>C38: Removing a node of a tree always ends; afterwards the tree has the other nodes in the same order, and the memory
  is again a tree with consistent pointers to parents and children.\<close>

theorem rb_remove_correct:
  assumes "is_rbtree H T" and "x \<in> set_tree T"
  shows "\<exists>H' T'. rb_remove x H = Inr H' \<and> is_rbtree H' T' \<and> inorder T' = filter (\<lambda>y. y \<noteq> x) (inorder T)"
  unfolding rb_remove_def by (rule remove_me_spec [OF assms])

theorem rb_remove_correct_witness: "\<exists>H' T'. rb_remove 1 three_nodes = Inr H' \<and> is_rbtree H' T' \<and> inorder T' = [0, 2]"
  using rb_remove_correct [OF three_nodes_tree(1), of 1] by simp

subsection \<open>Going through a tree\<close>

lemma rb_ends:
  assumes "is_rbtree H T"
  shows "rb_first H = Inr (if T = Leaf then None else Some (hd (inorder T)))"
    and "rb_last H = Inr (if T = Leaf then None else Some (last (inorder T)))"
proof -
  have t: "tree_at H None T" "m_root H = root_of T"
    using assms by (simp_all add: is_rbtree_def)
  have "descend d H n = Some (extreme d T)" if "root_of T = Some n" for d n
    by (rule descend_tree [OF t(1) that])
  then show "rb_first H = Inr (if T = Leaf then None else Some (hd (inorder T)))"
      "rb_last H = Inr (if T = Leaf then None else Some (last (inorder T)))"
    using t(2) by (cases T; simp add: rb_first_def rb_last_def loop_def extreme_def)+
qed

text \<open>C39: The nodes next to a node are its neighbours in the order of the nodes, and the ends of a tree are the first and the
  last node; null at the ends and for an empty tree. So going from the first node with \<open>next\<close> visits every node once, in order.\<close>

theorem rb_iteration:
  assumes "is_rbtree H T"
  shows "(\<forall>x \<in> set_tree T. next_node x H = Inr (neighbour RIGHT x (inorder T)) \<and> prev_node x H = Inr (neighbour LEFT x (inorder T))) \<and>
    rb_first H = Inr (if T = Leaf then None else Some (hd (inorder T))) \<and>
    rb_last H = Inr (if T = Leaf then None else Some (last (inorder T)))"
proof (intro conjI ballI)
  fix x assume "x \<in> set_tree T"
  then show "next_node x H = Inr (neighbour RIGHT x (inorder T))" "prev_node x H = Inr (neighbour LEFT x (inorder T))"
    using prev_or_next_spec [OF assms] by (simp_all add: next_node_def prev_node_def)
next
  show "rb_first H = Inr (if T = Leaf then None else Some (hd (inorder T)))"
      "rb_last H = Inr (if T = Leaf then None else Some (last (inorder T)))"
    using rb_ends [OF assms] .
qed

theorem rb_iteration_witness: "rb_first three_nodes = Inr (Some 0) \<and> next_node 0 three_nodes = Inr (Some 1) \<and> next_node 2 three_nodes = Inr None"
  using rb_iteration [OF three_nodes_tree(1)] by (simp add: neighbour_def)

end
