(* ===== verification/Tar.thy ===== *)
theory Tar
  imports Cstr
begin

section \<open>The tar file system of the initial ramdisk: archives\<close>

text \<open>
  \<^verbatim>\<open>kernel/fs/tar.cpp\<close>: searching an archive in memory by file name and by inode number, the name that an inode looks
  up, and reading a file. The reference parameters of a search are a record of their values before and after; a
  search that never ends has no result. The literal \<^verbatim>\<open>"ustar"\<close> is compared by its characters.
\<close>

subsection \<open>Error codes\<close>

datatype errno =
  E_ok | E_not_permitted | E_no_entry | E_no_process | E_interrupted | E_io_error | E_no_memory | E_no_access | E_exists
  | E_not_dir | E_is_dir | E_invalid | E_path_too_long

fun errno_value :: "errno \<Rightarrow> int" where
  "errno_value E_ok = 0" | "errno_value E_not_permitted = - 1" | "errno_value E_no_entry = - 2"
| "errno_value E_no_process = - 3" | "errno_value E_interrupted = - 4" | "errno_value E_io_error = - 5"
| "errno_value E_no_memory = - 12" | "errno_value E_no_access = - 13" | "errno_value E_exists = - 17"
| "errno_value E_not_dir = - 20" | "errno_value E_is_dir = - 21" | "errno_value E_invalid = - 22"
| "errno_value E_path_too_long = - 1337"

subsection \<open>Headers\<close>

fun parse_oct_loop :: "nat \<Rightarrow> u32 \<Rightarrow> u32 \<Rightarrow> mem \<Rightarrow> u32" where
  "parse_oct_loop 0 str n m = n"
| "parse_oct_loop (Suc k) str n m = parse_oct_loop k (str + 1) (push_bit 3 n + (ucast (m str) - 48)) m"

definition parse_oct :: "u32 \<Rightarrow> u32 \<Rightarrow> mem \<Rightarrow> u32" where
  "parse_oct str sz m = parse_oct_loop (unat sz) str 0 m"

definition slash_char :: u8 where
  "slash_char = 47"

definition is_ustar :: "u32 \<Rightarrow> mem \<Rightarrow> bool" where
  "is_ustar ptr m \<longleftrightarrow> map (\<lambda>i. m (ptr + 257 + of_nat i)) [0..<5] = [117, 115, 116, 97, 114]"

text \<open>The position of the header after the one of a file, and the numbers of the directories in a file name.\<close>

definition next_header :: "u32 \<Rightarrow> u32 \<Rightarrow> u32" where
  "next_header ptr filesize = ptr + ((filesize + 511) div 512 + 1) * 512"

partial_function (option) name_slashes :: "mem \<Rightarrow> u32 \<Rightarrow> u32 \<Rightarrow> u32 option" where
  "name_slashes m slash_ptr inode =
    (if m slash_ptr = 0 then Some inode
     else name_slashes m (slash_ptr + 1) (if m slash_ptr = slash_char then inode + 1 else inode))"

fun buf_slashes :: "nat \<Rightarrow> u32 \<Rightarrow> mem \<Rightarrow> u32 \<Rightarrow> u32" where
  "buf_slashes 0 p m inode = inode"
| "buf_slashes (Suc k) p m inode = buf_slashes k (p + 1) m (if m p = slash_char then inode + 1 else inode)"

subsection \<open>Searching by name\<close>

record lookup_out =
  out_inode :: u32
  out_content :: u32
  out_file_len :: u32

partial_function (option) tar_lookup_loop :: "mem \<Rightarrow> string_buf \<Rightarrow> u32 \<Rightarrow> lookup_out \<Rightarrow> (errno \<times> lookup_out) option" where
  "tar_lookup_loop m filename ptr out =
    (if \<not> is_ustar ptr m then Some (E_no_entry, out)
     else
       let filesize = parse_oct (ptr + 0x7c) 11 m;
           last_char = m (ptr + length_field filename)
       in if memcmp ptr (data filename) (length_field filename) m = 0 \<and> (last_char = 0 \<or> last_char = slash_char)
          then Some (E_ok,
            \<lparr>out_inode = buf_slashes (unat (length_field filename)) (data filename) m (out_inode out), out_content = ptr + 512,
             out_file_len = (if last_char = 0 then filesize else 0)\<rparr>)
          else (case name_slashes m ptr (out_inode out) of
              None \<Rightarrow> None
            | Some inode \<Rightarrow> tar_lookup_loop m filename (next_header ptr filesize) (out\<lparr>out_inode := inode + 1\<rparr>)))"

definition tar_lookup :: "u32 \<Rightarrow> string_buf \<Rightarrow> lookup_out \<Rightarrow> mem \<Rightarrow> (errno \<times> lookup_out) option" where
  "tar_lookup archive filename out m =
    (if 99 < length_field filename then Some (E_path_too_long, out)
     else tar_lookup_loop m filename archive (out\<lparr>out_inode := 3\<rparr>))"

subsection \<open>Searching by inode number\<close>

record index_out =
  io_filename_length :: u32
  io_content :: u32
  io_file_len :: u32

partial_function (option) until_slash :: "mem \<Rightarrow> u32 \<Rightarrow> u32 option" where
  "until_slash m slash_ptr =
    (if m slash_ptr \<noteq> 0 \<and> m slash_ptr \<noteq> slash_char then until_slash m (slash_ptr + 1) else Some slash_ptr)"

text \<open>The loop over the name of a file: \<open>Inl\<close> the end of the part of the name that has the number, or \<open>Inr\<close> the number after it.\<close>

partial_function (option) name_index :: "mem \<Rightarrow> u32 \<Rightarrow> u32 \<Rightarrow> u32 \<Rightarrow> (u32 + u32) option" where
  "name_index m inode slash_ptr cur =
    (if m slash_ptr = 0 then Some (Inr cur)
     else if cur = inode then (case until_slash m slash_ptr of None \<Rightarrow> None | Some e \<Rightarrow> Some (Inl e))
     else name_index m inode (slash_ptr + 1) (if m slash_ptr = slash_char then cur + 1 else cur))"

partial_function (option) tar_index_loop :: "mem \<Rightarrow> u32 \<Rightarrow> u32 \<Rightarrow> u32 \<Rightarrow> index_out \<Rightarrow> (errno \<times> index_out) option" where
  "tar_index_loop m inode ptr cur out =
    (if \<not> is_ustar ptr m then Some (E_no_entry, out)
     else
       let filesize = parse_oct (ptr + 0x7c) 11 m
       in case name_index m inode ptr cur of
            None \<Rightarrow> None
          | Some (Inl e) \<Rightarrow> Some (E_ok, \<lparr>io_filename_length = e - ptr, io_content = ptr + 512, io_file_len = filesize\<rparr>)
          | Some (Inr cur') \<Rightarrow> tar_index_loop m inode (next_header ptr filesize) (cur' + 1) out)"

definition tar_lookup_by_index :: "u32 \<Rightarrow> u32 \<Rightarrow> index_out \<Rightarrow> mem \<Rightarrow> (errno \<times> index_out) option" where
  "tar_lookup_by_index archive inode out m =
    (if inode < 3 then Some (E_no_entry, out) else tar_index_loop m inode archive 3 out)"

subsection \<open>Inodes\<close>

text \<open>
  The fields of \<^verbatim>\<open>inode\<close> that the code uses (its mutex \<^verbatim>\<open>i_lock\<close> is named by the address of the inode), and those that
  \<^verbatim>\<open>inode_tar\<close> adds.
\<close>

record inode =
  i_rc :: int
  owner_fs :: u32
  i_parent_ref :: "u32 option"
  i_num :: u32

record inode_tar = inode +
  m_contents :: u32
  m_contents_length :: u32
  m_filename_length :: u32

definition path_name_max :: u32 where
  "path_name_max = 400"

text \<open>The file name of an inode without slashes at its ends.\<close>

fun cut_trailing :: "nat \<Rightarrow> u32 \<Rightarrow> mem \<Rightarrow> nat" where
  "cut_trailing 0 p m = 0"
| "cut_trailing (Suc n) p m = (if m (p + of_nat n) = slash_char then cut_trailing n p m else Suc n)"

fun cut_leading :: "nat \<Rightarrow> u32 \<Rightarrow> mem \<Rightarrow> string_buf" where
  "cut_leading 0 p m = \<lparr>data = p, length_field = 0\<rparr>"
| "cut_leading (Suc n) p m =
    (if m p = slash_char then cut_leading n (p + 1) m else \<lparr>data = p, length_field = of_nat (Suc n)\<rparr>)"

definition my_file_name :: "inode_tar \<Rightarrow> mem \<Rightarrow> string_buf res" where
  "my_file_name node m =
    (if i_num node \<noteq> 2
     then kbind (kassert (m_contents node \<noteq> 0)) (\<lambda>_.
       let my_header = m_contents node - 512
       in Inr (cut_leading (cut_trailing (unat (m_filename_length node)) my_header m) my_header m))
     else Inr \<lparr>data = 0, length_field = 0\<rparr>)"

text \<open>
  \<^verbatim>\<open>inode_tar::lookup\<close> in the archive of its file system; \<open>buf\<close> is the address of the buffer on the stack, \<open>out\<close> the values
  of the reference parameters before.
\<close>

definition inode_tar_lookup :: "u32 \<Rightarrow> u32 \<Rightarrow> inode_tar \<Rightarrow> string_buf \<Rightarrow> lookup_out \<Rightarrow> mem \<Rightarrow> (errno \<times> lookup_out \<times> mem) res" where
  "inode_tar_lookup archive buf node name_arg out m =
    kbind (my_file_name node m) (\<lambda>my.
    let concat_len0 = length_field my + 1 + length_field name_arg;
        concat_len = (if length_field my = 0 then concat_len0 - 1 else concat_len0)
    in if path_name_max < concat_len + 1 then Inr (E_path_too_long, out, m)
       else
         let m1 = memcpy buf (data my) (length_field my) m;
             pos1 = buf + length_field my;
             (m2, pos2) = (if length_field my \<noteq> 0 then (m1(pos1 := slash_char), pos1 + 1) else (m1, pos1));
             m3 = memcpy pos2 (data name_arg) (length_field name_arg) m2;
             m4 = m3(pos2 + length_field name_arg := 0)
         in case tar_lookup archive \<lparr>data = buf, length_field = concat_len\<rparr> out m4 of
              None \<Rightarrow> Inl OutOfFuel
            | Some (e, out') \<Rightarrow> Inr (e, out', m4))"

text \<open>\<^verbatim>\<open>read_inode_disk\<close>, which ignores the error code of the search.\<close>

definition read_inode_disk :: "u32 \<Rightarrow> inode_tar \<Rightarrow> mem \<Rightarrow> inode_tar res" where
  "read_inode_disk archive node m =
    (case tar_lookup_by_index archive (i_num node)
        \<lparr>io_filename_length = m_filename_length node, io_content = m_contents node, io_file_len = m_contents_length node\<rparr> m of
       None \<Rightarrow> Inl OutOfFuel
     | Some (e, out) \<Rightarrow> Inr (node\<lparr>m_filename_length := io_filename_length out, m_contents := io_content out,
         m_contents_length := io_file_len out\<rparr>))"

subsection \<open>Reading and writing\<close>

text \<open>The result is a signed 32-bit number; the position is an unsigned 64-bit one.\<close>

definition tar_read :: "inode_tar \<Rightarrow> u32 \<Rightarrow> u32 \<Rightarrow> u64 \<Rightarrow> mem \<Rightarrow> int \<times> mem" where
  "tar_read i buf count pos m =
    (if ucast (m_contents_length i) \<le> pos then (0, m)
     else
       let count' = (if ucast (m_contents_length i) < pos + ucast count then ucast (ucast (m_contents_length i) - pos) else count)
       in (sint count', memcpy buf (m_contents i + ucast pos) count' m))"

definition tar_write :: "u32 \<Rightarrow> u32 \<Rightarrow> u64 \<Rightarrow> mem \<Rightarrow> int \<times> mem" where
  "tar_write buf count pos m = (errno_value E_not_permitted, m)"

end
