(* ===== verification/Vfs.thy ===== *)
theory Vfs
  imports Tar Hashtable Scheduler
begin

section \<open>The virtual file system\<close>

text \<open>
  \<^verbatim>\<open>kernel/fs/vfs.cpp\<close>, \<^verbatim>\<open>vfs.hpp\<close> and the methods of \<^verbatim>\<open>tar.cpp\<close> that they call: mount points, inodes with their
  references, open files. Objects are named by their addresses. The virtual methods of a file system are those of
  \<^verbatim>\<open>vfs_tar\<close>, its only implementation. The five kinds of objects come from allocators (\<open>obj_new\<close>, \<open>obj_del\<close>), which
  are arguments of the operations; their state is \<open>fs_objs\<close>. Freeing or allocating an object does not change the
  memory in it, so the fields that a constructor leaves out keep what they were.
\<close>

subsection \<open>State\<close>

datatype okind = InodeObj | LinkObj | MountObj | FileObj | TableObj

record 's obj_ops =
  obj_new :: "okind \<Rightarrow> 's \<Rightarrow> (u32 \<times> 's) res"
  obj_del :: "okind \<Rightarrow> u32 \<Rightarrow> 's \<Rightarrow> 's res"

record mount_point =
  m_path :: "u8 list"
  m_path_length :: u32
  m_fs :: u32

datatype file_methods = DefaultMethods | TarMethods

record file_desc =
  f_rc :: int
  owner_inode :: u32
  f_pos :: u64
  f_methods :: file_methods

record 's vfs =
  vfs_table :: "'s hashtable"
  root_inode :: u32
  m_archive :: u32

text \<open>
  \<open>path_buf\<close> is the address of the buffer of \<^verbatim>\<open>inode_tar::lookup\<close> on the stack, \<open>fs_caller\<close> the registers, the return
  address and the stack of the caller, which only a contended mutex uses.
\<close>

record 's fs_state =
  fs_sched :: sched
  fs_mem :: mem
  fs_objs :: 's
  inodes :: "u32 \<Rightarrow> inode_tar"
  files :: "u32 \<Rightarrow> file_desc"
  vfss :: "u32 \<Rightarrow> 's vfs"
  first_mount_point :: "u32 option"
  mount_links :: "u32 node_links"
  mounts :: "u32 \<Rightarrow> mount_point"
  path_buf :: u32
  fs_caller :: "interrupt_args \<times> u32 \<times> u32"

type_synonym ('a, 's) fop = "'s fs_state \<Rightarrow> ('a \<times> 's fs_state) res"

definition set_inode :: "u32 \<Rightarrow> (inode_tar \<Rightarrow> inode_tar) \<Rightarrow> 's fs_state \<Rightarrow> 's fs_state" where
  "set_inode q f s = s\<lparr>inodes := (inodes s)(q := f (inodes s q))\<rparr>"

definition with_table :: "u32 \<Rightarrow> ('s hashtable \<Rightarrow> ('a \<times> 's hashtable) res) \<Rightarrow> ('a, 's) fop" where
  "with_table v f s =
    kbind (f ((vfs_table (vfss s v))\<lparr>ht_alloc := fs_objs s\<rparr>)) (\<lambda>(r, t).
    Inr (r, s\<lparr>vfss := (vfss s)(v := (vfss s v)\<lparr>vfs_table := t\<rparr>), fs_objs := ht_alloc t\<rparr>))"

subsection \<open>References\<close>

text \<open>
  \<^verbatim>\<open>scoped_mutex\<close>: a lock that has to wait switches to another task, which is outside of this model (\<open>Blocked\<close>);
  with preemption locked the switch is an assertion that fails.
\<close>

definition scoped_mutex :: "u32 \<Rightarrow> ('a, 's) fop \<Rightarrow> ('a, 's) fop" where
  "scoped_mutex m body s =
    (case fs_caller s of (regs, resume, sp) \<Rightarrow>
      kbind (mutex_lock regs resume sp m (fs_sched s)) (\<lambda>(got, sc).
      if \<not> got then Inl Blocked
      else
        kbind (body (s\<lparr>fs_sched := sc\<rparr>)) (\<lambda>(r, s1).
        kbind (mutex_unlock m (fs_sched s1)) (\<lambda>sc1. Inr (r, s1\<lparr>fs_sched := sc1\<rparr>)))))"

definition take_ref_locked :: "u32 \<Rightarrow> (unit, 's) fop" where
  "take_ref_locked q = scoped_mutex q (\<lambda>s.
    kbind (kassert (0 < i_rc (inodes s q))) (\<lambda>_.
    if i_rc (inodes s q) = 2 ^ 31 - 1 then Inl Undefined
    else Inr ((), set_inode q (\<lambda>i. i\<lparr>i_rc := i_rc i + 1\<rparr>) s)))"

definition release_ref_locked :: "u32 \<Rightarrow> (bool, 's) fop" where
  "release_ref_locked q = scoped_mutex q (\<lambda>s.
    kbind (kassert (0 < i_rc (inodes s q))) (\<lambda>_.
    let s1 = set_inode q (\<lambda>i. i\<lparr>i_rc := i_rc i - 1\<rparr>) s
    in Inr (i_rc (inodes s1 q) = 0, s1)))"

definition take_parent_struct :: "u32 \<Rightarrow> (unit, 's) fop" where
  "take_parent_struct q s = (case i_parent_ref (inodes s q) of None \<Rightarrow> Inr ((), s) | Some p \<Rightarrow> take_ref_locked p s)"

subsection \<open>Inodes\<close>

definition inode_tar_new :: "u32 \<Rightarrow> u32 \<Rightarrow> u32 option \<Rightarrow> (unit, 's) fop" where
  "inode_tar_new q owner parent s =
    take_parent_struct q (set_inode q (\<lambda>i. i\<lparr>owner_fs := owner, i_parent_ref := parent, m_contents := 0\<rparr>)
      (s\<lparr>fs_sched := mutex_new q (fs_sched s)\<rparr>))"

definition alloc_inode_struct :: "'s obj_ops \<Rightarrow> u32 \<Rightarrow> u32 \<Rightarrow> u32 option \<Rightarrow> (u32, 's) fop" where
  "alloc_inode_struct ops v num parent s =
    kbind (obj_new ops InodeObj (fs_objs s)) (\<lambda>(q, os).
    kbind (inode_tar_new q v parent (s\<lparr>fs_objs := os\<rparr>)) (\<lambda>(_, s1).
    Inr (q, set_inode q (\<lambda>i. i\<lparr>i_num := num\<rparr>) s1)))"

definition alloc_root_inode_struct :: "'s obj_ops \<Rightarrow> u32 \<Rightarrow> (u32, 's) fop" where
  "alloc_root_inode_struct ops v s = alloc_inode_struct ops v (root_inode (vfss s v)) None s"

text \<open>The end of the destructor of an inode, after its parent has been released, and the freeing of its memory.\<close>

definition free_inode_struct :: "'s obj_ops \<Rightarrow> u32 \<Rightarrow> 's fs_state \<Rightarrow> 's fs_state res" where
  "free_inode_struct ops q s =
    kbind (mutex_destroy q (fs_sched s)) (\<lambda>_.
    kbind (obj_del ops InodeObj q (fs_objs s)) (\<lambda>os. Inr (s\<lparr>fs_objs := os\<rparr>)))"

text \<open>
  \<^verbatim>\<open>inode::release\<close>; freeing an inode calls its destructor, which releases the parent. A chain of parents without end
  has no result.
\<close>

partial_function (option) release_chain :: "'s obj_ops \<Rightarrow> u32 \<Rightarrow> 's fs_state \<Rightarrow> 's fs_state res option" where
  "release_chain ops q s =
    (case release_ref_locked q s of
       Inl e \<Rightarrow> Some (Inl e)
     | Inr (last_ref, s1) \<Rightarrow>
         if \<not> last_ref then Some (Inr s1)
         else
           (case with_table (owner_fs (inodes s1 q)) (ht_remove 256 (obj_del ops LinkObj) (i_num (inodes s1 q))) s1 of
              Inl e \<Rightarrow> Some (Inl e)
            | Inr (_, s2) \<Rightarrow>
                (case i_parent_ref (inodes s2 q) of
                   None \<Rightarrow> Some (free_inode_struct ops q s2)
                 | Some p \<Rightarrow> Option.bind (release_chain ops p s2) (\<lambda>r. Some (kbind r (free_inode_struct ops q))))))"

definition inode_release :: "'s obj_ops \<Rightarrow> u32 \<Rightarrow> 's fs_state \<Rightarrow> 's fs_state res" where
  "inode_release ops q s = (case release_chain ops q s of None \<Rightarrow> Inl OutOfFuel | Some r \<Rightarrow> r)"

text \<open>The virtual methods \<open>lookup\<close> and \<open>read_inode_disk\<close>.\<close>

definition inode_lookup :: "u32 \<Rightarrow> string_buf \<Rightarrow> (errno \<times> u32, 's) fop" where
  "inode_lookup q name s =
    kbind (inode_tar_lookup (m_archive (vfss s (owner_fs (inodes s q)))) (path_buf s) (inodes s q) name
      \<lparr>out_inode = 0, out_content = 0, out_file_len = 0\<rparr> (fs_mem s)) (\<lambda>(e, out, m).
    Inr ((e, out_inode out), s\<lparr>fs_mem := m\<rparr>))"

definition read_inode :: "u32 \<Rightarrow> u32 \<Rightarrow> 's fs_state \<Rightarrow> 's fs_state res" where
  "read_inode v q s =
    kbind (read_inode_disk (m_archive (vfss s v)) (inodes s q) (fs_mem s)) (\<lambda>i. Inr (set_inode q (\<lambda>_. i) s))"

definition get_inode_struct :: "'s obj_ops \<Rightarrow> u32 \<Rightarrow> u32 \<Rightarrow> u32 \<Rightarrow> (u32, 's) fop" where
  "get_inode_struct ops v num parent s =
    kbind (ht_lookup 256 num (vfs_table (vfss s v))) (\<lambda>r.
    case r of
      Some q \<Rightarrow>
        kbind (kassert (num = i_num (inodes s q))) (\<lambda>_.
        kbind (take_ref_locked q s) (\<lambda>(_, s1). Inr (q, s1)))
    | None \<Rightarrow>
        kbind (alloc_inode_struct ops v num (Some parent) s) (\<lambda>(q, s1).
        kbind (read_inode v q s1) (\<lambda>s2.
        kbind (with_table v (\<lambda>t. kbind (ht_insert 256 (obj_new ops LinkObj) num (Some q) t) (\<lambda>t'. Inr ((), t'))) s2) (\<lambda>(_, s3).
        Inr (q, s3)))))"

subsection \<open>Mounting\<close>

definition mount_point_new :: "string_buf \<Rightarrow> u32 \<Rightarrow> mem \<Rightarrow> mount_point res" where
  "mount_point_new path v m =
    kbind (kassert (length_field path < path_name_max)) (\<lambda>_.
    kbind (kassert (length_field path \<noteq> 0)) (\<lambda>_.
    kbind (kassert (length_field path = 1 \<or> m (data path + (length_field path - 1)) \<noteq> slash_char)) (\<lambda>_.
    Inr \<lparr>m_path = map (\<lambda>i. m (data path + of_nat i)) [0..<unat (length_field path)] @ [0],
         m_path_length = length_field path, m_fs = v\<rparr>)))"

definition mount :: "'s obj_ops \<Rightarrow> string_buf \<Rightarrow> u32 \<Rightarrow> 's fs_state \<Rightarrow> 's fs_state res" where
  "mount ops canonical_path v s =
    kbind (obj_new ops TableObj (fs_objs s)) (\<lambda>(_, os).
    let s1 = s\<lparr>fs_objs := os, vfss := (vfss s)(v := (vfss s v)\<lparr>vfs_table := hashtable_new 256 (vfs_table (vfss s v))\<rparr>)\<rparr>
    in kbind (alloc_root_inode_struct ops v s1) (\<lambda>(root, s2).
       kbind (with_table v (\<lambda>t. kbind (ht_insert 256 (obj_new ops LinkObj) (root_inode (vfss s2 v)) (Some root) t) (\<lambda>t'. Inr ((), t'))) s2) (\<lambda>(_, s3).
       kbind (obj_new ops MountObj (fs_objs s3)) (\<lambda>(q, os3).
       kbind (mount_point_new canonical_path v (fs_mem s3)) (\<lambda>mp.
       let s4 = s3\<lparr>fs_objs := os3, mounts := (mounts s3)(q := mp), mount_links := node_new q (mount_links s3)\<rparr>
       in Inr (case first_mount_point s4 of
            None \<Rightarrow> s4\<lparr>first_mount_point := Some q\<rparr>
          | Some f \<Rightarrow> s4\<lparr>mount_links := add_after_self f q (mount_links s4)\<rparr>))))))"

text \<open>\<^verbatim>\<open>register_initrd\<close>, with the address of the archive and that of the static memory of the file system.\<close>

definition register_initrd :: "'s obj_ops \<Rightarrow> u32 \<Rightarrow> u32 \<Rightarrow> string_buf \<Rightarrow> 's fs_state \<Rightarrow> 's fs_state res" where
  "register_initrd ops initrd v path s =
    mount ops path v (s\<lparr>vfss := (vfss s)(v := (vfss s v)\<lparr>root_inode := 2, m_archive := initrd\<rparr>)\<rparr>)"

subsection \<open>Resolving a path\<close>

text \<open>The tests on a mount point in the search for the longest one, which updates the best one so far.\<close>

definition mount_matches :: "mem \<Rightarrow> string_buf \<Rightarrow> mount_point \<Rightarrow> bool" where
  "mount_matches m path mnt \<longleftrightarrow>
    list_all (\<lambda>i. m_path mnt ! i = m (data path + of_nat i)) [0..<unat (m_path_length mnt)]"

definition better_mount :: "mem \<Rightarrow> string_buf \<Rightarrow> mount_point \<Rightarrow> u32 \<Rightarrow> bool" where
  "better_mount m path mnt best_mnt_path_length \<longleftrightarrow>
    \<not> (m_path_length mnt \<le> best_mnt_path_length \<or> length_field path < m_path_length mnt) \<and>
    (m_path_length mnt = 1 \<or> length_field path = m_path_length mnt \<or> m (data path + m_path_length mnt) = slash_char) \<and>
    mount_matches m path mnt"

definition best_mount :: "string_buf \<Rightarrow> u32 \<Rightarrow> 's fs_state \<Rightarrow> (u32 option \<times> u32) option" where
  "best_mount path first_mp s =
    ring_fold (mount_links s) (\<lambda>q (best, len).
      if better_mount (fs_mem s) path (mounts s q) len then (Some q, m_path_length (mounts s q)) else (best, len))
      first_mp (None, 0)"

fun text_until_slash :: "nat \<Rightarrow> u32 \<Rightarrow> mem \<Rightarrow> nat" where
  "text_until_slash 0 p m = 0"
| "text_until_slash (Suc n) p m = (if m p \<noteq> slash_char then Suc (text_until_slash n (p + 1) m) else 0)"

text \<open>Releasing an inode unless it is the root.\<close>

definition release_unless_root :: "'s obj_ops \<Rightarrow> u32 \<Rightarrow> u32 \<Rightarrow> 's fs_state \<Rightarrow> 's fs_state res" where
  "release_unless_root ops root_inode_num q s = (if i_num (inodes s q) \<noteq> root_inode_num then inode_release ops q s else Inr s)"

text \<open>The loop over the path: \<open>n\<close> bytes at \<open>p\<close> are left, \<open>cur\<close> is the current inode.\<close>

function walk_path :: "'s obj_ops \<Rightarrow> u32 \<Rightarrow> u32 \<Rightarrow> nat \<Rightarrow> u32 \<Rightarrow> u32 \<Rightarrow> (errno \<times> u32 option, 's) fop" where
  "walk_path ops v root_inode_num n p cur s =
    (if n = 0 then Inr ((E_ok, Some cur), s)
     else if fs_mem s p = slash_char then walk_path ops v root_inode_num (n - 1) (p + 1) cur s
     else
       let k = text_until_slash n p (fs_mem s)
       in kbind (inode_lookup cur \<lparr>data = p, length_field = of_nat k\<rparr> s) (\<lambda>((e, found_i), s1).
          if e \<noteq> E_ok then kbind (release_unless_root ops root_inode_num cur s1) (\<lambda>s2. Inr ((e, None), s2))
          else
            kbind (get_inode_struct ops v found_i cur s1) (\<lambda>(nxt, s2).
            kbind (release_unless_root ops root_inode_num cur s2) (\<lambda>s3.
            walk_path ops v root_inode_num (n - k) (p + of_nat k) nxt s3))))"
  by pat_completeness auto
termination
proof (relation "measure (\<lambda>(_, _, _, n, _). n)", goal_cases)
  case (3 ops v root n p cur s)
  then show ?case by (cases n) auto
qed simp_all

declare walk_path.simps [simp del]

definition traverse_locked :: "'s obj_ops \<Rightarrow> string_buf \<Rightarrow> (errno \<times> u32 option, 's) fop" where
  "traverse_locked ops path s =
    (if length_field path = 0 then Inr ((E_no_entry, None), s)
     else case first_mount_point s of
       None \<Rightarrow> Inr ((E_no_entry, None), s)
     | Some first_mp \<Rightarrow>
         (case best_mount path first_mp s of
            None \<Rightarrow> Inl OutOfFuel
          | Some (None, _) \<Rightarrow> Inr ((E_no_entry, None), s)
          | Some (Some q, len) \<Rightarrow>
              let v = m_fs (mounts s q); root_inode_num = root_inode (vfss s v)
              in kbind (ht_lookup 256 root_inode_num (vfs_table (vfss s v))) (\<lambda>r.
                 case r of
                   None \<Rightarrow> Inl KAssert
                 | Some root \<Rightarrow> walk_path ops v root_inode_num (unat (length_field path - len)) (data path + len) root s)))"

definition traverse :: "'s obj_ops \<Rightarrow> string_buf \<Rightarrow> (errno \<times> u32 option, 's) fop" where
  "traverse ops path s =
    kbind (traverse_locked ops path (s\<lparr>fs_sched := (fs_sched s)\<lparr>kst := preempt_up (kst (fs_sched s))\<rparr>\<rparr>)) (\<lambda>(r, s1).
    kbind (preempt_down (kst (fs_sched s1))) (\<lambda>k. Inr (r, s1\<lparr>fs_sched := (fs_sched s1)\<lparr>kst := k\<rparr>\<rparr>)))"

subsection \<open>Open files\<close>

definition inode_open :: "'s obj_ops \<Rightarrow> u32 \<Rightarrow> (errno \<times> u32, 's) fop" where
  "inode_open ops q s =
    kbind (obj_new ops FileObj (fs_objs s)) (\<lambda>(f, os).
    let fd = \<lparr>f_rc = refcount_new, owner_inode = q, f_pos = 0, f_methods = DefaultMethods\<rparr>
    in kbind (take_ref_locked q (s\<lparr>fs_objs := os, files := (files s)(f := fd)\<rparr>)) (\<lambda>(_, s1).
       Inr ((E_ok, f), s1\<lparr>files := (files s1)(f := (files s1 f)\<lparr>f_methods := TarMethods\<rparr>)\<rparr>)))"

definition file_pread :: "u32 \<Rightarrow> u32 \<Rightarrow> u32 \<Rightarrow> u64 \<Rightarrow> (int, 's) fop" where
  "file_pread f buf count pos s =
    (case f_methods (files s f) of
       DefaultMethods \<Rightarrow> Inl KPanic
     | TarMethods \<Rightarrow>
         (case tar_read (inodes s (owner_inode (files s f))) buf count pos (fs_mem s) of (r, m) \<Rightarrow> Inr (r, s\<lparr>fs_mem := m\<rparr>)))"

definition file_read :: "u32 \<Rightarrow> u32 \<Rightarrow> u32 \<Rightarrow> (int, 's) fop" where
  "file_read f buf count s =
    kbind (file_pread f buf count (f_pos (files s f)) s) (\<lambda>(r, s1).
    Inr (r, if 0 \<le> r then s1\<lparr>files := (files s1)(f := (files s1 f)\<lparr>f_pos := f_pos (files s1 f) + word_of_int r\<rparr>)\<rparr> else s1))"

definition file_pwrite :: "u32 \<Rightarrow> u32 \<Rightarrow> u32 \<Rightarrow> u64 \<Rightarrow> (int, 's) fop" where
  "file_pwrite f buf count pos s =
    (case f_methods (files s f) of
       DefaultMethods \<Rightarrow> Inl KPanic
     | TarMethods \<Rightarrow> (case tar_write buf count pos (fs_mem s) of (r, m) \<Rightarrow> Inr (r, s\<lparr>fs_mem := m\<rparr>)))"

definition file_write :: "u32 \<Rightarrow> u32 \<Rightarrow> u32 \<Rightarrow> (int, 's) fop" where
  "file_write f buf count s = file_pwrite f buf count (f_pos (files s f)) s"

definition file_release :: "'s obj_ops \<Rightarrow> u32 \<Rightarrow> 's fs_state \<Rightarrow> 's fs_state res" where
  "file_release ops f s =
    kbind (release_ref (f_rc (files s f))) (\<lambda>(last_ref, rc).
    let s1 = s\<lparr>files := (files s)(f := (files s f)\<lparr>f_rc := rc\<rparr>)\<rparr>
    in if last_ref
       then kbind (inode_release ops (owner_inode (files s1 f)) s1) (\<lambda>s2.
            kbind (obj_del ops FileObj f (fs_objs s2)) (\<lambda>os. Inr (s2\<lparr>fs_objs := os\<rparr>)))
       else Inr s1)"

end
