(* ===== verification/Tar_Correct.thy ===== *)
theory Tar_Correct
  imports Tar
begin

section \<open>Correctness of the searches in an archive\<close>

text \<open>
  \<open>archive_at m p es\<close>: from the address \<open>p\<close> the memory \<open>m\<close> holds the headers and contents of the files \<open>es\<close>, and then
  no header. A file name is a prefix of a header that ends with a zero byte; a prefix of it that ends before a slash
  names a directory.
\<close>

subsection \<open>Bytes in memory\<close>

definition bytes_at :: "mem \<Rightarrow> u32 \<Rightarrow> u8 list \<Rightarrow> bool" where
  "bytes_at m p xs \<longleftrightarrow> (\<forall>i < length xs. m (p + of_nat i) = xs ! i)"

lemma bytes_at_Nil [simp]: "bytes_at m p []"
  by (simp add: bytes_at_def)

lemma bytes_at_Cons [simp]: "bytes_at m p (x # xs) \<longleftrightarrow> m p = x \<and> bytes_at m (p + 1) xs"
proof -
  have "(\<forall>i < Suc (length xs). m (p + of_nat i) = (x # xs) ! i) \<longleftrightarrow> m p = x \<and> (\<forall>i < length xs. m (p + 1 + of_nat i) = xs ! i)"
    by (subst All_less_Suc2) (simp add: add.assoc)
  then show ?thesis
    by (simp add: bytes_at_def)
qed

lemma bytes_at_append [simp]: "bytes_at m p (xs @ ys) \<longleftrightarrow> bytes_at m p xs \<and> bytes_at m (p + of_nat (length xs)) ys"
  by (induction xs arbitrary: p) (simp_all add: add.assoc)

definition slashes :: "u8 list \<Rightarrow> nat" where
  "slashes xs = length (filter (\<lambda>c. c = slash_char) xs)"

lemma slashes_simps [simp]: "slashes [] = 0" "slashes (x # xs) = (if x = slash_char then Suc (slashes xs) else slashes xs)"
    "slashes (xs @ ys) = slashes xs + slashes ys"
  by (simp_all add: slashes_def)

lemma slashes_le: "slashes xs \<le> length xs"
  by (simp add: slashes_def)

lemma name_slashes_eq:
  "bytes_at m p (xs @ [0]) \<Longrightarrow> 0 \<notin> set xs \<Longrightarrow> name_slashes m p i = Some (i + of_nat (slashes xs))"
proof (induction xs arbitrary: p i)
  case Nil
  then show ?case by (subst name_slashes.simps) simp
next
  case (Cons x xs)
  then show ?case by (subst name_slashes.simps) (auto simp: algebra_simps)
qed

lemma buf_slashes_eq: "bytes_at m p xs \<Longrightarrow> buf_slashes (length xs) p m i = i + of_nat (slashes xs)"
  by (induction xs arbitrary: p i) (auto simp: algebra_simps)

subsection \<open>Archives\<close>

record entry =
  e_name :: "u8 list"
  e_contents :: "u8 list"

text \<open>The number of bytes of a header and the contents, in whole blocks.\<close>

definition entry_size :: "nat \<Rightarrow> nat" where
  "entry_size n = ((n + 511) div 512 + 1) * 512"

definition header_at :: "mem \<Rightarrow> u32 \<Rightarrow> entry \<Rightarrow> bool" where
  "header_at m p e \<longleftrightarrow> is_ustar p m \<and> length (e_name e) \<le> 99 \<and> 0 \<notin> set (e_name e) \<and> bytes_at m p (e_name e @ [0]) \<and>
    parse_oct (p + 0x7c) 11 m = of_nat (length (e_contents e)) \<and> bytes_at m (p + 512) (e_contents e) \<and>
    unat p + entry_size (length (e_contents e)) < 2 ^ 32"

fun archive_at :: "mem \<Rightarrow> u32 \<Rightarrow> entry list \<Rightarrow> bool" where
  "archive_at m p [] \<longleftrightarrow> \<not> is_ustar p m"
| "archive_at m p (e # es) \<longleftrightarrow> header_at m p e \<and> archive_at m (p + of_nat (entry_size (length (e_contents e)))) es"

definition matches :: "u8 list \<Rightarrow> u8 list \<Rightarrow> bool" where
  "matches name file \<longleftrightarrow> length name \<le> length file \<and> take (length name) file = name \<and>
    (length name = length file \<or> file ! length name = slash_char)"

text \<open>The first file that a name matches: the address of its header, the number of the name, and the file.\<close>

fun find_entry :: "u32 \<Rightarrow> nat \<Rightarrow> u8 list \<Rightarrow> entry list \<Rightarrow> (u32 \<times> nat \<times> entry) option" where
  "find_entry p n name [] = None"
| "find_entry p n name (e # es) =
    (if matches name (e_name e) then Some (p, n + slashes name, e)
     else find_entry (p + of_nat (entry_size (length (e_contents e)))) (n + slashes (e_name e) + 1) name es)"

text \<open>The number after those of all files.\<close>

definition count_inodes :: "nat \<Rightarrow> entry list \<Rightarrow> nat" where
  "count_inodes n es = n + sum_list (map (\<lambda>e. slashes (e_name e) + 1) es)"

lemma word_div_512: "x div 512 = of_nat (unat x div 512)" for x :: u32
proof -
  have "unat (x div 512) = unat x div 512"
    by (simp add: unat_div_distrib)
  then show ?thesis
    by (metis of_nat_unat ucast_id)
qed

lemma next_header_eq:
  assumes "entry_size n < 2 ^ 32"
  shows "next_header p (of_nat n) = p + of_nat (entry_size n)"
proof -
  have "n + 511 < 4294967296"
    using assms by (simp add: entry_size_def)
  then have "unat (of_nat n + 511 :: u32) = n + 511"
    by (metis of_nat_add of_nat_numeral unat_of_nat_32)
  then have "(of_nat n + 511 :: u32) div 512 = of_nat ((n + 511) div 512)"
    by (simp add: word_div_512)
  then show ?thesis
    by (simp add: next_header_def entry_size_def)
qed

lemma header_size:
  assumes "header_at m p e"
  shows "next_header p (parse_oct (p + 0x7c) 11 m) = p + of_nat (entry_size (length (e_contents e)))"
    and "unat (p + of_nat (entry_size (length (e_contents e)))) = unat p + entry_size (length (e_contents e))"
  using assms next_header_eq [of "length (e_contents e)" p] by (simp_all add: header_at_def unat_add_of_nat)

subsection \<open>Comparing names\<close>

lemma match_iff:
  assumes "bytes_at m p (file @ [0])" and "bytes_at m q name" and "0 \<notin> set name" and "0 \<notin> set file" and "length name \<le> 99"
  shows "memcmp p q (of_nat (length name)) m = 0 \<and> (m (p + of_nat (length name)) = 0 \<or> m (p + of_nat (length name)) = slash_char) \<longleftrightarrow>
    matches name file \<and> m (p + of_nat (length name)) = (if length name = length file then 0 else slash_char)"
proof -
  have len: "unat (of_nat (length name) :: u32) = length name"
    using assms(5) by (simp add: unat_of_nat_32)
  have char_at: "m (p + of_nat j) = (file @ [0]) ! j" if "j \<le> length file" for j
    using assms(1) that unfolding bytes_at_def by (metis le_imp_less_Suc length_append_singleton)
  have name_at: "m (q + of_nat j) = name ! j" if "j < length name" for j
    using assms(2) that by (simp add: bytes_at_def)
  have "memcmp p q (of_nat (length name)) m = 0 \<longleftrightarrow> (\<forall>j < length name. m (p + of_nat j) = name ! j)"
    using name_at by (simp add: memcmp_eq_0 len)
  also have "\<dots> \<longleftrightarrow> length name \<le> length file \<and> take (length name) file = name"
  proof
    assume eq: "\<forall>j < length name. m (p + of_nat j) = name ! j"
    have le: "length name \<le> length file"
    proof (rule ccontr)
      assume "\<not> length name \<le> length file"
      then have "name ! length file = 0" "length file < length name"
        using eq char_at [of "length file"] by auto
      then show False
        using assms(3) nth_mem by metis
    qed
    then show "length name \<le> length file \<and> take (length name) file = name"
      using eq char_at by (auto simp: list_eq_iff_nth_eq nth_append)
  next
    assume pre: "length name \<le> length file \<and> take (length name) file = name"
    show "\<forall>j < length name. m (p + of_nat j) = name ! j"
    proof (intro allI impI)
      fix j assume j: "j < length name"
      then have "m (p + of_nat j) = file ! j"
        using char_at [of j] pre by (simp add: nth_append)
      also have "file ! j = take (length name) file ! j"
        using j by simp
      finally show "m (p + of_nat j) = name ! j"
        using pre by simp
    qed
  qed
  finally have "memcmp p q (of_nat (length name)) m = 0 \<longleftrightarrow> length name \<le> length file \<and> take (length name) file = name" .
  moreover have "m (p + of_nat (length name)) = (if length name = length file then 0 else file ! length name) \<and>
      (length name < length file \<longrightarrow> file ! length name \<noteq> 0)"
    if "length name \<le> length file"
  proof -
    have "length name < length file \<Longrightarrow> file ! length name \<noteq> 0"
      using assms(4) nth_mem by metis
    then show ?thesis
      using char_at [OF that] that by (auto simp: nth_append)
  qed
  ultimately show ?thesis
    unfolding matches_def by (auto simp: slash_char_def)
qed

subsection \<open>Searching by name\<close>

lemma header_slashes: "header_at m p e \<Longrightarrow> name_slashes m p i = Some (i + of_nat (slashes (e_name e)))"
  using name_slashes_eq by (simp add: header_at_def)

lemma tar_lookup_loop_spec:
  assumes "bytes_at m (data f) name" and "length_field f = of_nat (length name)" and "0 \<notin> set name" and "length name \<le> 99"
  shows "archive_at m p es \<Longrightarrow> out_inode out = of_nat n \<Longrightarrow>
    tar_lookup_loop m f p out = Some (case find_entry p n name es of
      None \<Rightarrow> (E_no_entry, out\<lparr>out_inode := of_nat (count_inodes n es)\<rparr>)
    | Some (q, i, e) \<Rightarrow> (E_ok, \<lparr>out_inode = of_nat i, out_content = q + 512,
        out_file_len = (if length name = length (e_name e) then of_nat (length (e_contents e)) else 0)\<rparr>))"
proof (induction es arbitrary: p n out)
  case Nil
  then show ?case
    by (subst tar_lookup_loop.simps) (simp add: count_inodes_def)
next
  case (Cons e es)
  have h: "header_at m p e" and rest: "archive_at m (p + of_nat (entry_size (length (e_contents e)))) es"
    using Cons.prems(1) by simp_all
  have len: "unat (length_field f) = length name"
    using assms(2,4) by (simp add: unat_of_nat_32)
  have m: "memcmp p (data f) (length_field f) m = 0 \<and> (m (p + length_field f) = 0 \<or> m (p + length_field f) = slash_char) \<longleftrightarrow>
      matches name (e_name e) \<and> m (p + length_field f) = (if length name = length (e_name e) then 0 else slash_char)"
    using match_iff [of m p "e_name e" "data f" name] h assms unfolding assms(2) by (simp add: header_at_def)
  have size_eq: "parse_oct (p + 0x7c) 11 m = of_nat (length (e_contents e))" "is_ustar p m"
    using h by (simp_all add: header_at_def)
  show ?case
  proof (cases "matches name (e_name e)")
    case True
    then have "m (p + length_field f) = (if length name = length (e_name e) then 0 else slash_char)"
      using h unfolding assms(2) header_at_def matches_def bytes_at_def
      by (metis (no_types, lifting) le_neq_implies_less le_imp_less_Suc length_append_singleton nth_append nth_append_length)
    then show ?thesis
      using True m size_eq buf_slashes_eq [OF assms(1)] Cons.prems(2)
      by (subst tar_lookup_loop.simps) (auto simp: len Let_def slash_char_def)
  next
    case False
    have n: "out_inode (out\<lparr>out_inode := out_inode out + of_nat (slashes (e_name e)) + 1\<rparr>) = of_nat (n + slashes (e_name e) + 1)"
      using Cons.prems(2) by simp
    show ?thesis
      using False m size_eq(2) header_slashes [OF h] Cons.IH [OF rest n] header_size(1) [OF h]
      by (subst tar_lookup_loop.simps) (auto simp: Let_def count_inodes_def algebra_simps split: option.split)
  qed
qed

subsection \<open>Searching by number\<close>

lemma until_slash_eq:
  "bytes_at m p (xs @ [c]) \<Longrightarrow> 0 \<notin> set xs \<Longrightarrow> slash_char \<notin> set xs \<Longrightarrow> c = 0 \<or> c = slash_char \<Longrightarrow>
    until_slash m p = Some (p + of_nat (length xs))"
proof (induction xs arbitrary: p)
  case Nil
  then show ?case by (subst until_slash.simps) auto
next
  case (Cons x xs)
  then show ?case by (subst until_slash.simps) (auto simp: algebra_simps)
qed

lemma power_32: "(2 :: nat) ^ 32 = 4294967296"
  by simp

lemma of_nat_32_eq: "i < 2 ^ 32 \<Longrightarrow> n < 2 ^ 32 \<Longrightarrow> (of_nat i :: u32) = of_nat n \<longleftrightarrow> i = n"
  by (metis unat_of_nat_32 power_32)

lemma name_index_found:
  assumes "i < 2 ^ 32"
  shows "bytes_at m p (name @ c # cs) \<Longrightarrow> 0 \<notin> set name \<Longrightarrow> name \<noteq> [] \<Longrightarrow> last name \<noteq> slash_char \<Longrightarrow> c = 0 \<or> c = slash_char \<Longrightarrow>
    n + slashes name = i \<Longrightarrow> name_index m (of_nat i) p (of_nat n) = Some (Inl (p + of_nat (length name)))"
proof (induction name arbitrary: p n)
  case (Cons x name)
  have eq: "(of_nat n :: u32) = of_nat i \<longleftrightarrow> n = i"
    using of_nat_32_eq [of n i] assms Cons.prems(6) by simp
  show ?case
  proof (cases "n = i")
    case True
    then have "slashes (x # name) = 0"
      using Cons.prems(6) by simp
    then have none: "slash_char \<notin> set (x # name)"
      unfolding slashes_def length_0_conv filter_empty_conv by blast
    have "until_slash m p = Some (p + of_nat (length (x # name)))"
      by (rule until_slash_eq [of _ _ _ c]) (use Cons.prems none in auto)
    then show ?thesis
      using True Cons.prems(1,2) by (subst name_index.simps) auto
  next
    case False
    then have "name \<noteq> []"
      using Cons.prems(4,6) by auto
    then have "name_index m (of_nat i) (p + 1) (of_nat (if x = slash_char then n + 1 else n)) = Some (Inl (p + 1 + of_nat (length name)))"
      using Cons.prems by (intro Cons.IH) auto
    then show ?thesis
      using False eq Cons.prems(1,2) by (subst name_index.simps) (auto simp: algebra_simps)
  qed
qed simp

lemma name_index_before:
  assumes "i < 2 ^ 32"
  shows "bytes_at m p (name @ [0]) \<Longrightarrow> 0 \<notin> set name \<Longrightarrow> n + slashes name < i \<Longrightarrow>
    name_index m (of_nat i) p (of_nat n) = Some (Inr (of_nat (n + slashes name)))"
proof (induction name arbitrary: p n)
  case Nil
  then show ?case by (subst name_index.simps) simp
next
  case (Cons x name)
  have "(of_nat n :: u32) \<noteq> of_nat i"
    using of_nat_32_eq [of n i] assms Cons.prems(3) by simp
  moreover have "name_index m (of_nat i) (p + 1) (of_nat (if x = slash_char then n + 1 else n)) =
      Some (Inr (of_nat ((if x = slash_char then n + 1 else n) + slashes name)))"
    using Cons.prems by (intro Cons.IH) auto
  ultimately show ?case
    using Cons.prems(1,2) by (subst name_index.simps) (auto simp: algebra_simps)
qed

text \<open>The numbers of an archive stay below the addresses of its headers, so they do not wrap around.\<close>

lemma find_entry_bounds:
  "find_entry p n name es = Some (q, i, e) \<Longrightarrow> archive_at m p es \<Longrightarrow> n \<le> unat p + 3 \<Longrightarrow>
    n + slashes name \<le> i \<and> i < 2 ^ 32 \<and> header_at m q e \<and> matches name (e_name e)"
proof (induction es arbitrary: p n)
  case (Cons f es)
  have h: "header_at m p f" and rest: "archive_at m (p + of_nat (entry_size (length (e_contents f)))) es"
    using Cons.prems(2) by simp_all
  have b: "unat p + entry_size (length (e_contents f)) < 2 ^ 32" "length (e_name f) \<le> 99" "slashes (e_name f) \<le> length (e_name f)"
    using h slashes_le by (simp_all add: header_at_def)
  show ?case
  proof (cases "matches name (e_name f)")
    case True
    then have "length name \<le> 99" "slashes name \<le> length name"
      using b slashes_le by (auto simp: matches_def)
    moreover have "512 \<le> entry_size (length (e_contents f))"
      by (simp add: entry_size_def)
    ultimately show ?thesis
      using True Cons.prems(1,3) h b(1) by auto
  next
    case False
    have "512 \<le> entry_size (length (e_contents f))"
      by (simp add: entry_size_def)
    then have "n + slashes (e_name f) + 1 \<le> unat (p + of_nat (entry_size (length (e_contents f)))) + 3"
      using b Cons.prems(3) header_size(2) [OF h] by simp
    then show ?thesis
      using Cons.IH [OF _ rest] Cons.prems(1) False by fastforce
  qed
qed simp

lemma tar_index_loop_spec:
  assumes "name \<noteq> []" and "last name \<noteq> slash_char"
  shows "find_entry p n name es = Some (q, i, e) \<Longrightarrow> archive_at m p es \<Longrightarrow> n \<le> unat p + 3 \<Longrightarrow>
    tar_index_loop m (of_nat i) p (of_nat n) out =
      Some (E_ok, \<lparr>io_filename_length = of_nat (length name), io_content = q + 512, io_file_len = of_nat (length (e_contents e))\<rparr>)"
proof (induction es arbitrary: p n)
  case (Cons f es)
  have h: "header_at m p f" and rest: "archive_at m (p + of_nat (entry_size (length (e_contents f)))) es"
    using Cons.prems(2) by simp_all
  have i: "i < 2 ^ 32"
    using find_entry_bounds [OF Cons.prems] by simp
  have hd: "is_ustar p m" "parse_oct (p + 0x7c) 11 m = of_nat (length (e_contents f))" "bytes_at m p (e_name f @ [0])" "0 \<notin> set (e_name f)"
    using h by (simp_all add: header_at_def)
  show ?case
  proof (cases "matches name (e_name f)")
    case True
    then have q: "q = p" "i = n + slashes name" "e = f"
      using Cons.prems(1) by auto
    obtain c cs where c: "e_name f @ [0] = name @ c # cs" "c = 0 \<or> c = slash_char"
    proof (cases "length name = length (e_name f)")
      case True
      then have "e_name f = name"
        using \<open>matches name (e_name f)\<close> by (auto simp: matches_def)
      then show thesis
        using that [of 0 "[]"] by simp
    next
      case False
      then have "length name < length (e_name f)" "take (length name) (e_name f) = name" "e_name f ! length name = slash_char"
        using \<open>matches name (e_name f)\<close> by (auto simp: matches_def)
      then have "e_name f = name @ slash_char # drop (Suc (length name)) (e_name f)"
        by (metis id_take_nth_drop)
      then show thesis
        using that [of slash_char "drop (Suc (length name)) (e_name f) @ [0]"] by (metis append.assoc append_Cons)
    qed
    have "0 \<notin> set name"
      using hd(4) True by (metis in_set_takeD matches_def)
    then have "name_index m (of_nat i) p (of_nat n) = Some (Inl (p + of_nat (length name)))"
      using name_index_found [OF i, of m p name c cs n] hd(3) c q(2) assms by simp
    then show ?thesis
      using hd(1,2) q(1,3) by (subst tar_index_loop.simps) simp
  next
    case False
    then have f: "find_entry (p + of_nat (entry_size (length (e_contents f)))) (n + slashes (e_name f) + 1) name es = Some (q, i, e)"
      using Cons.prems(1) by simp
    have "slashes (e_name f) \<le> 99" "512 \<le> entry_size (length (e_contents f))"
      using h slashes_le [of "e_name f"] by (simp_all add: header_at_def entry_size_def)
    then have le: "n + slashes (e_name f) + 1 \<le> unat (p + of_nat (entry_size (length (e_contents f)))) + 3"
      using Cons.prems(3) header_size(2) [OF h] by simp
    have "n + slashes (e_name f) < i"
      using find_entry_bounds [OF f rest le] by simp
    then have "name_index m (of_nat i) p (of_nat n) = Some (Inr (of_nat (n + slashes (e_name f))))"
      using name_index_before [OF i hd(3,4)] by simp
    then show ?thesis
      using Cons.IH [OF f rest le] hd(1) header_size(1) [OF h] by (subst tar_index_loop.simps) (simp add: algebra_simps)
  qed
qed simp

subsection \<open>Frames\<close>

lemma bytes_at_frame: "bytes_at m p xs \<Longrightarrow> (\<And>a. in_range p (length xs) a \<Longrightarrow> m' a = m a) \<Longrightarrow> length xs \<le> 4294967296 \<Longrightarrow> bytes_at m' p xs"
  by (simp add: bytes_at_def in_range_offset)

lemma in_range_sub: "in_range (p + of_nat k) n a \<Longrightarrow> k + n \<le> l \<Longrightarrow> l \<le> 4294967296 \<Longrightarrow> in_range p l a"
proof -
  assume r: "in_range (p + of_nat k) n a" "k + n \<le> l" "l \<le> 4294967296"
  define j where "j = unat (a - (p + of_nat k))"
  have j: "j < n"
    using r(1) by (simp add: in_range_def j_def)
  have "a = p + of_nat (k + j)"
    unfolding j_def by simp
  then show "in_range p l a"
    using j r(2,3) in_range_offset [of "k + j" l p] by simp
qed

lemma ranges_apart: "in_range p n a \<Longrightarrow> in_range q k a \<Longrightarrow> unat p + n \<le> unat q \<Longrightarrow> unat q + k \<le> 2 ^ 32 \<Longrightarrow> False"
  using unat_add_of_nat [of p "unat (a - p)"] unat_add_of_nat [of q "unat (a - q)"] by (simp add: in_range_def)

lemma bytes_at_memcpy:
  assumes "bytes_at m src xs" and "length xs < 4294967296" and "disjoint_ranges dst src (length xs)"
  shows "bytes_at (memcpy dst src (of_nat (length xs)) m) dst xs"
    and "\<And>a. \<not> in_range dst (length xs) a \<Longrightarrow> memcpy dst src (of_nat (length xs)) m a = m a"
proof -
  have len: "unat (of_nat (length xs) :: u32) = length xs"
    using assms(2) by (simp add: unat_of_nat_32)
  note eq = memcpy_eq [of dst src "of_nat (length xs)" m, unfolded len, OF assms(3)]
  show "bytes_at (memcpy dst src (of_nat (length xs)) m) dst xs"
    using assms(1,2) in_range_offset [of _ "length xs" dst] unfolding bytes_at_def eq by simp
  show "memcpy dst src (of_nat (length xs)) m a = m a" if "\<not> in_range dst (length xs) a" for a
    using that unfolding eq by simp
qed

lemma parse_oct_loop_frame:
  "(\<And>j. j < k \<Longrightarrow> m' (p + of_nat j) = m (p + of_nat j)) \<Longrightarrow> parse_oct_loop k p n m' = parse_oct_loop k p n m"
proof (induction k arbitrary: p n)
  case (Suc k)
  have "m' p = m p"
    using Suc.prems [of 0] by simp
  moreover have "m' (p + 1 + of_nat j) = m (p + 1 + of_nat j)" if "j < k" for j
    using Suc.prems [of "Suc j"] that by (simp add: algebra_simps)
  ultimately show ?case
    using Suc.IH by simp
qed simp

lemma is_ustar_frame:
  assumes "\<And>i. i < 5 \<Longrightarrow> m' (p + 257 + of_nat i) = m (p + 257 + of_nat i)"
  shows "is_ustar p m' = is_ustar p m"
proof -
  have "map (\<lambda>i. m' (p + 257 + of_nat i)) [0..<5] = map (\<lambda>i. m (p + 257 + of_nat i)) [0..<5]"
    by (rule map_cong [OF refl], rule assms) simp
  then show ?thesis
    unfolding is_ustar_def by (rule arg_cong)
qed

text \<open>The addresses that a search reads.\<close>

fun archive_bytes :: "u32 \<Rightarrow> entry list \<Rightarrow> u32 set" where
  "archive_bytes p [] = Collect (in_range p 512)"
| "archive_bytes p (e # es) =
    Collect (in_range p (entry_size (length (e_contents e)))) \<union> archive_bytes (p + of_nat (entry_size (length (e_contents e)))) es"

lemma header_frame:
  assumes "header_at m p e" and "\<And>a. in_range p (entry_size (length (e_contents e))) a \<Longrightarrow> m' a = m a"
  shows "header_at m' p e"
proof -
  let ?n = "entry_size (length (e_contents e))"
  have n: "512 + length (e_contents e) \<le> ?n" "?n < 4294967296"
    using assms(1) by (simp_all add: header_at_def entry_size_def)
  have same: "m' (p + of_nat k) = m (p + of_nat k)" if "k < 512" for k
    using that n in_range_offset [of k ?n p] assms(2) by simp
  have "is_ustar p m' = is_ustar p m"
  proof -
    have "m' (p + 257 + of_nat i) = m (p + 257 + of_nat i)" if "i < 5" for i
      using same [of "257 + i"] that by (simp add: add.assoc)
    then show ?thesis
      by (rule is_ustar_frame)
  qed
  moreover have "parse_oct (p + 0x7c) 11 m' = parse_oct (p + 0x7c) 11 m"
  proof -
    have "m' (p + 0x7c + of_nat j) = m (p + 0x7c + of_nat j)" if "j < 11" for j
      using same [of "0x7c + j"] that by (simp add: add.assoc)
    then show ?thesis
      using parse_oct_loop_frame [of 11 m' "p + 0x7c" m 0] by (simp add: parse_oct_def)
  qed
  moreover have "bytes_at m' p (e_name e @ [0])"
  proof (rule bytes_at_frame [of m])
    show "bytes_at m p (e_name e @ [0])" "length (e_name e @ [0]) \<le> 4294967296"
      using assms(1) by (simp_all add: header_at_def)
    fix a assume "in_range p (length (e_name e @ [0])) a"
    then show "m' a = m a"
      using assms(1) n by (intro assms(2)) (simp add: header_at_def in_range_def)
  qed
  moreover have "bytes_at m' (p + 512) (e_contents e)"
  proof (rule bytes_at_frame [of m])
    show "bytes_at m (p + 512) (e_contents e)" "length (e_contents e) \<le> 4294967296"
      using assms(1) n by (simp_all add: header_at_def)
    fix a assume "in_range (p + 512) (length (e_contents e)) a"
    then show "m' a = m a"
      using n in_range_sub [of p 512 "length (e_contents e)" a ?n] by (intro assms(2)) simp
  qed
  ultimately show ?thesis
    using assms(1) by (simp add: header_at_def)
qed

lemma archive_frame: "archive_at m p es \<Longrightarrow> (\<And>a. a \<in> archive_bytes p es \<Longrightarrow> m' a = m a) \<Longrightarrow> archive_at m' p es"
proof (induction es arbitrary: p)
  case Nil
  have "m' (p + 257 + of_nat i) = m (p + 257 + of_nat i)" if "i < 5" for i
    using Nil.prems(2) in_range_offset [of "257 + i" 512 p] that by (simp add: add.assoc)
  then have "is_ustar p m' = is_ustar p m"
    by (rule is_ustar_frame)
  then show ?case
    using Nil.prems(1) by simp
next
  case (Cons e es)
  then show ?case
    using header_frame [of m p e m'] by simp
qed

text \<open>The contents of an entry that the search finds lie behind its header, inside the archive.\<close>

lemma find_entry_contents:
  "find_entry p n name es = Some (q, i, e) \<Longrightarrow> archive_at m p es \<Longrightarrow>
    bytes_at m (q + 512) (e_contents e) \<and> (\<forall>a. in_range (q + 512) (length (e_contents e)) a \<longrightarrow> a \<in> archive_bytes p es)"
proof (induction es arbitrary: p n)
  case (Cons f es)
  show ?case
  proof (cases "find_entry (p + of_nat (entry_size (length (e_contents f)))) (n + slashes (e_name f) + 1) name es = Some (q, i, e)")
    case True
    then show ?thesis
      using Cons.IH [OF True] Cons.prems(2) by auto
  next
    case False
    then have h: "q = p" "e = f" "header_at m p f"
      using Cons.prems by (auto split: if_splits)
    then have n: "512 + length (e_contents f) \<le> entry_size (length (e_contents f))" "entry_size (length (e_contents f)) < 4294967296"
      by (simp_all add: header_at_def entry_size_def)
    then have "in_range p (entry_size (length (e_contents f))) a" if "in_range (p + 512) (length (e_contents f)) a" for a
      using in_range_sub [of p 512 "length (e_contents f)" a] that by simp
    then show ?thesis
      using h by (simp add: header_at_def)
  qed
qed simp

subsection \<open>The name of an inode\<close>

lemma cut_trailing_none: "bytes_at m p (xs @ [c]) \<Longrightarrow> c \<noteq> slash_char \<Longrightarrow> cut_trailing (Suc (length xs)) p m = Suc (length xs)"
  by simp

lemma cut_none:
  assumes "bytes_at m p xs" and "xs = [] \<or> hd xs \<noteq> slash_char \<and> last xs \<noteq> slash_char"
  shows "cut_leading (cut_trailing (length xs) p m) p m = \<lparr>data = p, length_field = of_nat (length xs)\<rparr>"
proof (cases xs rule: rev_cases)
  case (snoc ys y)
  have "cut_trailing (length xs) p m = length xs"
    using cut_trailing_none [of m p ys y] assms snoc by simp
  moreover have "m p \<noteq> slash_char"
    using assms snoc by (cases ys) auto
  ultimately show ?thesis
    using snoc by simp
qed simp

subsection \<open>The buffer of a path name\<close>

lemma not_in_later_range:
  assumes "i < k" and "k + n \<le> 2 ^ 32"
  shows "\<not> in_range (p + of_nat k) n (p + of_nat i)"
proof
  assume r: "in_range (p + of_nat k) n (p + of_nat i)"
  define j where "j = unat (p + of_nat i - (p + of_nat k))"
  have j: "j < n"
    using r by (simp add: in_range_def j_def)
  have "p + of_nat i = p + of_nat (k + j)"
    unfolding j_def by simp
  then have "(of_nat i :: u32) = of_nat (k + j)"
    by simp
  then have "i = k + j"
    using of_nat_32_eq [of i "k + j"] assms j by simp
  then show False
    using assms(1) by simp
qed

lemma append_name:
  assumes "bytes_at m buf pre" and "bytes_at m src name" and "length pre + length name < l" and "l \<le> 1000"
    and "\<And>a. in_range buf l a \<Longrightarrow> \<not> in_range src (length name) a"
    and m': "m' = (memcpy (buf + of_nat (length pre)) src (of_nat (length name)) m)(buf + of_nat (length pre + length name) := 0)"
  shows "bytes_at m' buf (pre @ name)" and "\<And>a. \<not> in_range buf l a \<Longrightarrow> m' a = m a"
proof -
  let ?dst = "buf + of_nat (length pre)"
  let ?m3 = "memcpy ?dst src (of_nat (length name)) m"
  have sub: "in_range buf l a" if "in_range ?dst (length name) a" for a
    using in_range_sub [OF that, of l] assms(3,4) by simp
  then have "disjoint_ranges ?dst src (length name)"
    using assms(5) by (auto simp: disjoint_ranges_def)
  then have copy: "bytes_at ?m3 ?dst name" "\<And>a. \<not> in_range ?dst (length name) a \<Longrightarrow> ?m3 a = m a"
    using bytes_at_memcpy [OF assms(2), of ?dst] assms(3,4) by auto
  have zero: "buf + of_nat i \<noteq> buf + of_nat (length pre + length name)" if "i < length pre + length name" for i
    using of_nat_32_eq [of i "length pre + length name"] that assms(3,4) by simp
  have "m' (buf + of_nat i) = pre ! i" if "i < length pre" for i
  proof -
    have "m' (buf + of_nat i) = ?m3 (buf + of_nat i)"
      using zero [of i] that unfolding m' by simp
    also have "\<dots> = m (buf + of_nat i)"
      by (rule copy(2), rule not_in_later_range) (use that assms(3,4) in simp_all)
    finally show ?thesis
      using assms(1) that by (simp add: bytes_at_def)
  qed
  moreover have "m' (?dst + of_nat i) = name ! i" if "i < length name" for i
  proof -
    have "m' (?dst + of_nat i) = ?m3 (?dst + of_nat i)"
      using zero [of "length pre + i"] that unfolding m' by (simp add: add.assoc)
    then show ?thesis
      using copy(1) that by (simp add: bytes_at_def)
  qed
  ultimately show "bytes_at m' buf (pre @ name)"
    unfolding bytes_at_append by (simp add: bytes_at_def)
  show "m' a = m a" if "\<not> in_range buf l a" for a
  proof -
    have "in_range buf l (buf + of_nat (length pre + length name))"
      using assms(3,4) by (intro in_range_offset) simp_all
    then have "a \<noteq> buf + of_nat (length pre + length name)"
      using that by blast
    then show ?thesis
      using copy(2) [of a] sub that unfolding m' by auto
  qed
qed

end
