(* ===== verification/Tar_Props.thy ===== *)
theory Tar_Props
  imports Tar_Correct
begin

section \<open>Properties of the tar file system\<close>

text \<open>
  What callers of the archive get: the search by name, its agreement with the search by number, an archive on which the
  search never ends, the names that an inode looks up, and the contents that are read.
\<close>

subsection \<open>Searches\<close>

lemma tar_lookup_spec:
  assumes "archive_at m A es" and "bytes_at m (data f) name" and "length_field f = of_nat (length name)" and "0 \<notin> set name"
    and "length name < 2 ^ 32"
  shows "tar_lookup A f out m = Some (
    if 99 < length name then (E_path_too_long, out)
    else case find_entry A 3 name es of
      None \<Rightarrow> (E_no_entry, out\<lparr>out_inode := of_nat (count_inodes 3 es)\<rparr>)
    | Some (q, i, e) \<Rightarrow> (E_ok, \<lparr>out_inode = of_nat i, out_content = q + 512,
        out_file_len = (if length name = length (e_name e) then of_nat (length (e_contents e)) else 0)\<rparr>))"
proof -
  have len: "unat (length_field f) = length name"
    using assms(3,5) by (simp add: unat_of_nat_32)
  show ?thesis
  proof (cases "99 < length name")
    case True
    then show ?thesis
      using len by (simp add: tar_lookup_def word_less_nat_alt)
  next
    case False
    have "tar_lookup_loop m f A (out\<lparr>out_inode := 3\<rparr>) = Some (case find_entry A 3 name es of
      None \<Rightarrow> (E_no_entry, out\<lparr>out_inode := 3, out_inode := of_nat (count_inodes 3 es)\<rparr>)
    | Some (q, i, e) \<Rightarrow> (E_ok, \<lparr>out_inode = of_nat i, out_content = q + 512,
        out_file_len = (if length name = length (e_name e) then of_nat (length (e_contents e)) else 0)\<rparr>))"
      by (rule tar_lookup_loop_spec) (use assms False in simp_all)
    moreover have "\<not> 99 < length_field f"
      using False len by (simp add: word_less_nat_alt)
    ultimately show ?thesis
      using False by (auto simp: tar_lookup_def split: option.split)
  qed
qed

text \<open>C11: A search by name ends. It finds the first file of the archive whose name is the one searched for, or has it as a
  directory, gives its number, the place of its contents and its size (0 for a directory), or reports
  that there is no entry; a name of more than 99 characters is refused.\<close>

theorem tar_lookup_correct:
  assumes "archive_at m A es" and "bytes_at m (data f) name" and "length_field f = of_nat (length name)" and "0 \<notin> set name"
    and "length name < 2 ^ 32"
  shows "tar_lookup A f out m = Some (
    if 99 < length name then (E_path_too_long, out)
    else case find_entry A 3 name es of
      None \<Rightarrow> (E_no_entry, out\<lparr>out_inode := of_nat (count_inodes 3 es)\<rparr>)
    | Some (q, i, e) \<Rightarrow> (E_ok, \<lparr>out_inode = of_nat i, out_content = q + 512,
        out_file_len = (if length name = length (e_name e) then of_nat (length (e_contents e)) else 0)\<rparr>))"
  by (rule tar_lookup_spec [OF assms])

text \<open>C18: The two searches agree on names that are not empty and do not end in a slash: for the number that the search by name
  gives for such a name, the search by number finds the same file, and the searched name as the part of the file name that
  the number stands for. (For a name with a slash at its end, as an entry of a directory has, it finds the name without it.)\<close>

theorem tar_number_roundtrip:
  assumes "archive_at m A es" and "find_entry A 3 name es = Some (q, i, e)" and "name \<noteq> []" and "last name \<noteq> slash_char"
  shows "tar_lookup_by_index A (of_nat i) out m =
    Some (E_ok, \<lparr>io_filename_length = of_nat (length name), io_content = q + 512, io_file_len = of_nat (length (e_contents e))\<rparr>)"
proof -
  have b: "3 \<le> i" "i < 2 ^ 32"
    using find_entry_bounds [OF assms(2,1)] by simp_all
  then have "\<not> (of_nat i :: u32) < 3"
    by (simp add: word_less_nat_alt unat_of_nat_32)
  then show ?thesis
    using tar_index_loop_spec [OF assms(3,4,2,1), of out] by (simp add: tar_lookup_by_index_def)
qed

text \<open>The arithmetic on the size wraps around: when the size field of a header reads \<open>0xFFFFFE00\<close>, the next header is the
  header itself, and the search for any other name never ends.\<close>

lemma tar_lookup_never_ends:
  assumes "is_ustar A m" and "parse_oct (A + 0x7c) 11 m = 0xFFFFFE00"
    and "memcmp A (data f) (length_field f) m \<noteq> 0" and "length_field f \<le> 99"
  shows "tar_lookup A f out m = None"
proof -
  have step: "next_header A 0xFFFFFE00 = A"
    by (simp add: next_header_def)
  have ends: "m' = m \<longrightarrow> f' = f \<longrightarrow> p = A \<longrightarrow> False" if found: "tar_lookup_loop m' f' p o' = Some r" for m' f' p o' r
  proof (rule tar_lookup_loop.raw_induct [of "\<lambda>m' f' p o' r. m' = m \<longrightarrow> f' = f \<longrightarrow> p = A \<longrightarrow> False", OF _ found], intro impI)
    fix loop m' f' p o' r
    assume IH: "\<And>m' f' p o' r. loop m' f' p o' = Some r \<Longrightarrow> m' = m \<longrightarrow> f' = f \<longrightarrow> p = A \<longrightarrow> False"
      and body: "(if \<not> is_ustar p m' then Some (E_no_entry, o')
         else
           let filesize = parse_oct (p + 0x7c) 11 m';
               last_char = m' (p + length_field f')
           in if memcmp p (data f') (length_field f') m' = 0 \<and> (last_char = 0 \<or> last_char = slash_char)
              then Some (E_ok,
                \<lparr>out_inode = buf_slashes (unat (length_field f')) (data f') m' (out_inode o'), out_content = p + 512,
                 out_file_len = (if last_char = 0 then filesize else 0)\<rparr>)
              else (case name_slashes m' p (out_inode o') of
                  None \<Rightarrow> None
                | Some inode \<Rightarrow> loop m' f' (next_header p filesize) (o'\<lparr>out_inode := inode + 1\<rparr>))) = Some r"
      and eq: "m' = m" "f' = f" "p = A"
    obtain inode where "loop m f A (o'\<lparr>out_inode := inode + 1\<rparr>) = Some r"
      using body assms(1-3) step unfolding eq by (cases "name_slashes m A (out_inode o')") auto
    then show False
      using IH by blast
  qed
  have "tar_lookup_loop m f A (out\<lparr>out_inode := 3\<rparr>) = None"
    using ends by (cases "tar_lookup_loop m f A (out\<lparr>out_inode := 3\<rparr>)") blast+
  moreover have "\<not> 99 < length_field f"
    using assms(4) by simp
  ultimately show ?thesis
    by (simp add: tar_lookup_def)
qed

subsection \<open>Reading\<close>

lemma tar_read_spec:
  assumes "bytes_at m (m_contents i) cs" and "m_contents_length i = of_nat (length cs)" and "length cs < 2 ^ 31"
    and "\<And>a. in_range buf (unat count) a \<Longrightarrow> \<not> in_range (m_contents i) (length cs) a"
  shows "\<exists>m'. tar_read i buf count pos m = (int (length (take (unat count) (drop (unat pos) cs))), m') \<and>
    bytes_at m' buf (take (unat count) (drop (unat pos) cs)) \<and>
    (\<forall>a. \<not> in_range buf (length (take (unat count) (drop (unat pos) cs))) a \<longrightarrow> m' a = m a)"
proof -
  let ?r = "take (unat count) (drop (unat pos) cs)"
  have len: "unat (ucast (m_contents_length i) :: u64) = length cs" "unat (m_contents_length i) = length cs"
    using assms(2,3) by (simp_all add: unat_of_nat_32 unsigned_ucast_eq take_bit_eq_mod)
  show ?thesis
  proof (cases "length cs \<le> unat pos")
    case True
    then have "ucast (m_contents_length i) \<le> pos"
      using len by (simp add: word_le_nat_alt)
    with True show ?thesis
      by (intro exI [of _ m]) (simp add: tar_read_def)
  next
    case False
    then have pos: "\<not> ucast (m_contents_length i) \<le> pos"
      using len by (simp add: word_le_nat_alt)
    have sum: "unat (pos + ucast count) = unat pos + unat count"
    proof -
      have "unat count < 4294967296" "length cs < 2147483648"
        using assms(3) by simp_all
      then have "unat pos + unat count < 18446744073709551616"
        using False by linarith
      then show ?thesis
        by (simp add: unat_word_ariths unsigned_ucast_eq take_bit_eq_mod)
    qed
    have left: "unat (ucast (m_contents_length i) - pos) = length cs - unat pos"
      using False len by (simp add: unat_sub word_le_nat_alt)
    define c where "c = (if ucast (m_contents_length i) < pos + ucast count then ucast (ucast (m_contents_length i) - pos) else count)"
    have c: "unat c = length ?r"
    proof (cases "length cs < unat pos + unat count")
      case True
      then have "c = ucast (ucast (m_contents_length i) - pos)"
        using sum len by (simp add: c_def word_less_nat_alt)
      then have "unat c = (length cs - unat pos) mod 2 ^ 32"
        using left by (simp add: unsigned_ucast_eq take_bit_eq_mod)
      then show ?thesis
        using True False assms(3) by simp
    next
      case False
      then have "c = count"
        using sum len by (simp add: c_def word_less_nat_alt)
      then show ?thesis
        using False \<open>\<not> length cs \<le> unat pos\<close> by simp
    qed
    have cw: "c = of_nat (length ?r)"
      unfolding c [symmetric] by simp
    have "bytes_at m (m_contents i + ucast pos) ?r"
    proof -
      have "(ucast pos :: u32) = of_nat (unat pos)"
        by (simp only: of_nat_unat)
      moreover have "m (m_contents i + of_nat (unat pos) + of_nat j) = ?r ! j" if "j < length ?r" for j
      proof -
        have "m (m_contents i + of_nat (unat pos + j)) = cs ! (unat pos + j)"
          using assms(1) that by (auto simp: bytes_at_def simp del: of_nat_unat of_nat_add)
        then show ?thesis
          using that False by (simp add: add.assoc nth_drop less_imp_le not_le)
      qed
      ultimately show ?thesis
        by (simp add: bytes_at_def)
    qed
    moreover have "disjoint_ranges buf (m_contents i + ucast pos) (length ?r)"
      unfolding disjoint_ranges_def
    proof (intro allI notI)
      fix a assume a: "in_range buf (length ?r) a \<and> in_range (m_contents i + ucast pos) (length ?r) a"
      have "(ucast pos :: u32) = of_nat (unat pos)"
        by (simp only: of_nat_unat)
      then have "in_range (m_contents i) (length cs) a"
        using in_range_sub [of "m_contents i" "unat pos" "length ?r" a "length cs"] a assms(3) False by simp
      moreover have "in_range buf (unat count) a"
        using a by (simp add: in_range_def)
      ultimately show False
        using assms(4) by blast
    qed
    moreover have "length ?r < 4294967296"
      using assms(3) by simp
    ultimately have copy: "bytes_at (memcpy buf (m_contents i + ucast pos) c m) buf ?r"
        "\<And>a. \<not> in_range buf (length ?r) a \<Longrightarrow> memcpy buf (m_contents i + ucast pos) c m a = m a"
      unfolding cw using bytes_at_memcpy by blast+
    have "sint c = int (length ?r)"
    proof -
      have "uint c = int (length ?r)"
        unfolding c [symmetric] by simp
      then show ?thesis
        unfolding sint_uint using assms(3) by (simp add: signed_take_bit_int_eq_self)
    qed
    then show ?thesis
      using copy pos by (intro exI [of _ "memcpy buf (m_contents i + ucast pos) c m"]) (simp add: tar_read_def Let_def c_def)
  qed
qed

text \<open>C12: Reading a file copies the bytes of its contents from the position on, as many as are asked for or are left, to
  the buffer, changes no other byte, and returns their number; at or after the end it returns 0. No position and
  count make it read outside the contents.\<close>

theorem tar_read_correct:
  assumes "bytes_at m (m_contents i) cs" and "m_contents_length i = of_nat (length cs)" and "length cs < 2 ^ 31"
    and "\<And>a. in_range buf (unat count) a \<Longrightarrow> \<not> in_range (m_contents i) (length cs) a"
  shows "\<exists>m'. tar_read i buf count pos m = (int (length (take (unat count) (drop (unat pos) cs))), m') \<and>
    bytes_at m' buf (take (unat count) (drop (unat pos) cs)) \<and>
    (\<forall>a. \<not> in_range buf (length (take (unat count) (drop (unat pos) cs))) a \<longrightarrow> m' a = m a)"
  by (rule tar_read_spec [OF assms])

subsection \<open>Looking up in an inode\<close>

text \<open>The inode of a directory: the root, or an entry of the archive whose name is \<open>dir\<close>.\<close>

definition dir_inode :: "mem \<Rightarrow> inode_tar \<Rightarrow> u8 list \<Rightarrow> bool" where
  "dir_inode m node dir \<longleftrightarrow> (if dir = [] then i_num node = 2
    else i_num node \<noteq> 2 \<and> m_contents node \<noteq> 0 \<and> bytes_at m (m_contents node - 512) dir \<and>
      m_filename_length node = of_nat (length dir) \<and> length dir \<le> 99 \<and> 0 \<notin> set dir \<and> hd dir \<noteq> slash_char \<and> last dir \<noteq> slash_char)"

definition full_path :: "u8 list \<Rightarrow> u8 list \<Rightarrow> u8 list" where
  "full_path dir name = (if dir = [] then name else dir @ slash_char # name)"

lemma my_file_name_dir:
  assumes "dir_inode m node dir"
  shows "\<exists>p. my_file_name node m = Inr \<lparr>data = p, length_field = of_nat (length dir)\<rparr> \<and> bytes_at m p dir \<and> (dir \<noteq> [] \<longrightarrow> p = m_contents node - 512)"
proof (cases "dir = []")
  case True
  then show ?thesis
    using assms by (simp add: dir_inode_def my_file_name_def)
next
  case False
  then have "unat (m_filename_length node) = length dir"
    using assms by (simp add: dir_inode_def unat_of_nat_32)
  then show ?thesis
    using False assms cut_none [of m "m_contents node - 512" dir] by (simp add: dir_inode_def my_file_name_def)
qed

lemma inode_lookup_spec:
  assumes "archive_at m A es" and dir: "dir_inode m node dir"
    and arg: "bytes_at m (data arg) name" "length_field arg = of_nat (length name)" "0 \<notin> set name" "length name < 2 ^ 31"
    and buf: "\<And>a. in_range buf 400 a \<Longrightarrow>
      a \<notin> archive_bytes A es \<and> \<not> in_range (data arg) (length name) a \<and> \<not> in_range (m_contents node - 512) (length dir) a"
  shows "\<exists>o' m'. inode_tar_lookup A buf node arg out m =
      Inr (if 99 < length (full_path dir name) then E_path_too_long
        else if find_entry A 3 (full_path dir name) es = None then E_no_entry else E_ok, o', m') \<and>
    (\<forall>q i e. length (full_path dir name) \<le> 99 \<and> find_entry A 3 (full_path dir name) es = Some (q, i, e) \<longrightarrow> out_inode o' = of_nat i) \<and>
    (\<forall>a. \<not> in_range buf 400 a \<longrightarrow> m' a = m a)"
proof -
  obtain p where my: "my_file_name node m = Inr \<lparr>data = p, length_field = of_nat (length dir)\<rparr>" "bytes_at m p dir"
      "dir \<noteq> [] \<longrightarrow> p = m_contents node - 512"
    using my_file_name_dir [OF dir] by blast
  have ldir: "length dir \<le> 99" "0 \<notin> set dir"
    using dir by (auto simp: dir_inode_def split: if_splits)
  have zdir: "(of_nat (length dir) :: u32) = 0 \<longleftrightarrow> dir = []"
    using of_nat_32_eq [of "length dir" 0] ldir by simp
  let ?path = "full_path dir name"
  let ?len = "if (of_nat (length dir) :: u32) = 0 then of_nat (length dir) + 1 + of_nat (length name) - 1 else of_nat (length dir) + 1 + of_nat (length name) :: u32"
  have len: "?len = of_nat (length ?path)" "length ?path < 2 ^ 31 + 100"
    using zdir ldir arg(4) by (auto simp: full_path_def)
  then have long: "path_name_max < ?len + 1 \<longleftrightarrow> 399 < length ?path"
  proof -
    have "unat (?len + 1) = length ?path + 1"
      unfolding len(1) using len(2) unat_of_nat_32 [of "length ?path + 1"] by (simp add: algebra_simps)
    then show ?thesis
      by (auto simp: path_name_max_def word_less_nat_alt)
  qed
  show ?thesis
  proof (cases "399 < length ?path")
    case True
    then show ?thesis
      using long my(1) arg(2) by (intro exI [of _ out] exI [of _ m]) (simp add: inode_tar_lookup_def)
  next
    case False
    define pre where "pre = (if dir = [] then [] else dir @ [slash_char])"
    define m1 where "m1 = memcpy buf p (of_nat (length dir)) m"
    define m2 where "m2 = (if dir = [] then m1 else m1(buf + of_nat (length dir) := slash_char))"
    define m4 where "m4 = (memcpy (buf + of_nat (length pre)) (data arg) (of_nat (length name)) m2)(buf + of_nat (length pre + length name) := 0)"
    have path: "?path = pre @ name"
      by (simp add: pre_def full_path_def)
    then have lpre: "length pre + length name < 400"
      using False by simp
    have inbuf: "in_range buf 400 a" if "in_range buf (length dir) a" for a
      using that ldir(1) by (simp add: in_range_def)
    have "disjoint_ranges buf p (length dir)"
      using buf inbuf my(3) by (cases "dir = []") (auto simp: disjoint_ranges_def in_range_def)
    then have m1: "bytes_at m1 buf dir" "\<And>a. \<not> in_range buf (length dir) a \<Longrightarrow> m1 a = m a"
      unfolding m1_def using bytes_at_memcpy [OF my(2), of buf] ldir(1) by auto
    have m2: "bytes_at m2 buf pre" "\<And>a. \<not> in_range buf 400 a \<Longrightarrow> m2 a = m a"
    proof -
      have "buf + of_nat i \<noteq> buf + of_nat (length dir)" if "i < length dir" for i
        using of_nat_32_eq [of i "length dir"] that ldir(1) by simp
      then have "bytes_at (m1(buf + of_nat (length dir) := slash_char)) buf dir"
        using m1(1) by (simp add: bytes_at_def)
      then show "bytes_at m2 buf pre"
        using m1(1) by (simp add: m2_def pre_def)
      have "in_range buf 400 (buf + of_nat (length dir))"
        using ldir(1) by (intro in_range_offset) simp_all
      then show "m2 a = m a" if "\<not> in_range buf 400 a" for a
        using that inbuf [of a] m1(2) [of a] by (auto simp: m2_def)
    qed
    have "bytes_at m2 (data arg) name"
      using m2(2) buf arg(4) by (intro bytes_at_frame [OF arg(1)]) auto
    from append_name [OF m2(1) this lpre _ _ m4_def] buf
    have m4: "bytes_at m4 buf ?path" "\<And>a. \<not> in_range buf 400 a \<Longrightarrow> m4 a = m2 a"
      unfolding path by auto
    have "archive_at m4 A es"
      using buf m4(2) m2(2) by (intro archive_frame [OF assms(1)]) metis
    moreover have "0 \<notin> set ?path"
      using arg(3) ldir(2) by (auto simp: full_path_def slash_char_def)
    ultimately have look: "tar_lookup A \<lparr>data = buf, length_field = of_nat (length ?path)\<rparr> out m4 = Some (
      if 99 < length ?path then (E_path_too_long, out)
      else case find_entry A 3 ?path es of
        None \<Rightarrow> (E_no_entry, out\<lparr>out_inode := of_nat (count_inodes 3 es)\<rparr>)
      | Some (q, i, e) \<Rightarrow> (E_ok, \<lparr>out_inode = of_nat i, out_content = q + 512,
          out_file_len = (if length ?path = length (e_name e) then of_nat (length (e_contents e)) else 0)\<rparr>))"
      using m4(1) False by (intro tar_lookup_spec) simp_all
    have "inode_tar_lookup A buf node arg out m =
      (case tar_lookup A \<lparr>data = buf, length_field = of_nat (length ?path)\<rparr> out m4 of
         None \<Rightarrow> Inl OutOfFuel | Some (e, o') \<Rightarrow> Inr (e, o', m4))"
    proof -
      have slash: "(if of_nat (length dir) \<noteq> (0 :: u32) then (m1(buf + of_nat (length dir) := slash_char), buf + of_nat (length dir) + 1)
          else (m1, buf + of_nat (length dir))) = (m2, buf + of_nat (length pre))"
        using zdir by (auto simp: m2_def pre_def)
      have stop: "buf + of_nat (length pre) + of_nat (length name) = buf + of_nat (length pre + length name)"
        by simp
      have short: "(path_name_max < of_nat (length ?path) + 1) = False"
        using long False unfolding len(1) by simp
      show ?thesis
        by (simp only: inode_tar_lookup_def my(1) kbind_Inr Let_def string_buf.simps arg(2) len(1) short if_False slash prod.case
          stop m1_def [symmetric] m4_def [symmetric])
    qed
    with look m4(2) m2(2) show ?thesis
      by (auto split: option.splits)
  qed
qed

text \<open>C17: An inode of the archive finds a name exactly when the archive has the path that joins its own name and the name,
  or has it as a directory; it gives the number of that path. Paths that are too long are
  refused. The lookup ends, and writes only into its buffer of 400 bytes, whatever the length of the name.\<close>

theorem inode_lookup_correct:
  assumes "archive_at m A es" and dir: "dir_inode m node dir"
    and arg: "bytes_at m (data arg) name" "length_field arg = of_nat (length name)" "0 \<notin> set name" "length name < 2 ^ 31"
    and buf: "\<And>a. in_range buf 400 a \<Longrightarrow>
      a \<notin> archive_bytes A es \<and> \<not> in_range (data arg) (length name) a \<and> \<not> in_range (m_contents node - 512) (length dir) a"
  shows "\<exists>o' m'. inode_tar_lookup A buf node arg out m =
      Inr (if 99 < length (full_path dir name) then E_path_too_long
        else if find_entry A 3 (full_path dir name) es = None then E_no_entry else E_ok, o', m') \<and>
    (\<forall>q i e. length (full_path dir name) \<le> 99 \<and> find_entry A 3 (full_path dir name) es = Some (q, i, e) \<longrightarrow> out_inode o' = of_nat i) \<and>
    (\<forall>a. \<not> in_range buf 400 a \<longrightarrow> m' a = m a)"
  by (rule inode_lookup_spec [OF assms])

subsection \<open>An example\<close>

text \<open>An archive at \<open>0x1000\<close> with the file \<^verbatim>\<open>a/b\<close> of two bytes; the path \<^verbatim>\<open>/a/b\<close> at \<open>0x4FFF\<close>. With \<open>last_digits\<close> of the
  size field that are not \<open>002\<close> the size is another one.\<close>

definition demo_mem :: "u8 \<Rightarrow> u8 list \<Rightarrow> mem" where
  "demo_mem first digits a =
    (if a = 0x1000 then first else if a = 0x1001 then 47 else if a = 0x1002 then 98
     else if 0x107c \<le> a \<and> a < 0x1087 then digits ! unat (a - 0x107c)
     else if a = 0x1101 then 117 else if a = 0x1102 then 115 else if a = 0x1103 then 116 else if a = 0x1104 then 97
     else if a = 0x1105 then 114 else if a = 0x1200 then 104 else if a = 0x1201 then 105
     else if a = 0x4FFF then 47 else if a = 0x5000 then 97 else if a = 0x5001 then 47 else if a = 0x5002 then 98 else 0)"

abbreviation demo :: mem where
  "demo \<equiv> demo_mem 97 [48, 48, 48, 48, 48, 48, 48, 48, 48, 48, 50]"

abbreviation demo_files :: "entry list" where
  "demo_files \<equiv> [\<lparr>e_name = [97, 47, 98], e_contents = [104, 105]\<rparr>]"

lemma demo_ustar: "is_ustar 0x1000 (demo_mem c ds)" "\<not> is_ustar 0x1400 (demo_mem c ds)"
  by (simp_all add: is_ustar_def demo_mem_def upt_rec)

lemma parse_oct_11: "parse_oct p 11 m = parse_oct_loop (Suc (Suc (Suc (Suc (Suc (Suc (Suc (Suc (Suc (Suc (Suc 0))))))))))) p 0 m"
proof -
  have "unat (11 :: u32) = Suc (Suc (Suc (Suc (Suc (Suc (Suc (Suc (Suc (Suc (Suc 0))))))))))"
    by simp
  then show ?thesis
    by (simp only: parse_oct_def)
qed

lemma demo_size: "parse_oct 0x107c 11 demo = 2"
  by (simp add: parse_oct_11 demo_mem_def)

lemma demo_archive: "archive_at demo 0x1000 demo_files"
  using demo_ustar [of 97 "[48, 48, 48, 48, 48, 48, 48, 48, 48, 48, 50]"] demo_size
  by (simp add: header_at_def entry_size_def) (simp add: demo_mem_def)

lemma demo_find: "find_entry 0x1000 3 [97, 47, 98] demo_files = Some (0x1000, 4, \<lparr>e_name = [97, 47, 98], e_contents = [104, 105]\<rparr>)"
    "find_entry 0x1000 3 [97] demo_files = Some (0x1000, 3, \<lparr>e_name = [97, 47, 98], e_contents = [104, 105]\<rparr>)"
  by (simp_all add: matches_def slash_char_def)

theorem tar_lookup_correct_witness:
  "tar_lookup 0x1000 \<lparr>data = 0x5000, length_field = 3\<rparr> \<lparr>out_inode = 0, out_content = 0, out_file_len = 0\<rparr> demo =
    Some (E_ok, \<lparr>out_inode = 4, out_content = 0x1200, out_file_len = 2\<rparr>)"
  using tar_lookup_correct [OF demo_archive, where f = "\<lparr>data = 0x5000, length_field = 3\<rparr>" and name = "[97, 47, 98]"] demo_find(1)
  by (simp add: demo_mem_def)

theorem tar_number_roundtrip_witness:
  "tar_lookup_by_index 0x1000 3 \<lparr>io_filename_length = 0, io_content = 0, io_file_len = 0\<rparr> demo =
    Some (E_ok, \<lparr>io_filename_length = 1, io_content = 0x1200, io_file_len = 2\<rparr>)"
  using tar_number_roundtrip [OF demo_archive demo_find(2)] by (simp add: slash_char_def)

theorem tar_lookup_never_ends_witness:
  "tar_lookup 0x1000 \<lparr>data = 0x5000, length_field = 1\<rparr> \<lparr>out_inode = 0, out_content = 0, out_file_len = 0\<rparr>
    (demo_mem 120 [51, 55, 55, 55, 55, 55, 55, 55, 48, 48, 48]) = None"
proof -
  let ?m = "demo_mem 120 [51, 55, 55, 55, 55, 55, 55, 55, 48, 48, 48]"
  have "parse_oct 0x107c 11 ?m = 0xFFFFFE00"
    by (simp add: parse_oct_11 demo_mem_def)
  moreover have "memcmp 0x1000 0x5000 1 ?m \<noteq> 0"
    by (simp add: memcmp_eq_0 demo_mem_def)
  ultimately show ?thesis
    using tar_lookup_never_ends [where A = "0x1000" and m = ?m and f = "\<lparr>data = 0x5000, length_field = 1\<rparr>"] demo_ustar(1) by simp
qed

theorem tar_read_correct_witness:
  "\<exists>m'. tar_read \<lparr>i_rc = 1, owner_fs = 0, i_parent_ref = None, i_num = 4, m_contents = 0x1200, m_contents_length = 2, m_filename_length = 3\<rparr> 0x6000 9 1 demo = (1, m') \<and> m' 0x6000 = 105"
proof -
  have "in_range 0x6000 9 a \<Longrightarrow> \<not> in_range 0x1200 (Suc (Suc 0)) a" for a
    using ranges_apart [of "0x1200" "Suc (Suc 0)" a "0x6000" 9] by auto
  then show ?thesis
    using tar_read_correct [where m = demo and i = "\<lparr>i_rc = 1, owner_fs = 0, i_parent_ref = None, i_num = 4, m_contents = 0x1200, m_contents_length = 2, m_filename_length = 3\<rparr>"
      and cs = "[104, 105]" and buf = "0x6000" and count = 9 and pos = 1]
    by (auto simp: demo_mem_def)
qed

theorem inode_lookup_correct_witness:
  "\<exists>o' m'. inode_tar_lookup 0x1000 0x7000 \<lparr>i_rc = 1, owner_fs = 0, i_parent_ref = None, i_num = 3, m_contents = 0x1200, m_contents_length = 2, m_filename_length = 1\<rparr>
      \<lparr>data = 0x5002, length_field = 1\<rparr> \<lparr>out_inode = 0, out_content = 0, out_file_len = 0\<rparr> demo = Inr (E_ok, o', m') \<and> out_inode o' = 4"
proof -
  have far: "in_range 0x7000 400 a \<Longrightarrow> unat p + n \<le> 0x7000 \<Longrightarrow> \<not> in_range p n a" for p a n
    using ranges_apart [of p n a "0x7000" 400] by auto
  have path: "full_path [97] [98] = [97, 47, 98]"
    by (simp add: full_path_def slash_char_def)
  have dir: "dir_inode demo \<lparr>i_rc = 1, owner_fs = 0, i_parent_ref = None, i_num = 3, m_contents = 0x1200, m_contents_length = 2, m_filename_length = 1\<rparr> [97]"
    by (simp add: dir_inode_def demo_mem_def slash_char_def)
  have arg: "bytes_at demo (data \<lparr>data = 0x5002, length_field = 1\<rparr>) [98]"
    by (simp add: demo_mem_def)
  have "in_range 0x7000 400 a \<Longrightarrow> a \<notin> archive_bytes 0x1000 demo_files" for a
    using far by (simp add: entry_size_def)
  then show ?thesis
    using inode_lookup_correct [OF demo_archive dir arg, where buf = "0x7000" and out = "\<lparr>out_inode = 0, out_content = 0, out_file_len = 0\<rparr>"]
      demo_find(1) far unfolding path by auto
qed

end
