(* ===== verification/Vfs_Props.thy ===== *)
theory Vfs_Props
  imports Vfs Tar_Props Sched_Props
begin

section \<open>Mount points and open files\<close>

text \<open>
  The choice of the mount point of a path, and reading an open file piece by piece.
\<close>

subsection \<open>Mount points\<close>

text \<open>A mount point for the name \<open>name\<close>, and the names that a path may be mounted below.\<close>

definition mount_named :: "mount_point \<Rightarrow> u8 list \<Rightarrow> bool" where
  "mount_named mnt name \<longleftrightarrow> m_path mnt = name @ [0] \<and> m_path_length mnt = of_nat (length name) \<and> 0 < length name \<and> length name < 400"

definition covers :: "u8 list \<Rightarrow> u8 list \<Rightarrow> bool" where
  "covers name path \<longleftrightarrow> length name \<le> length path \<and> take (length name) path = name \<and>
    (length name = 1 \<or> length path = length name \<or> path ! length name = slash_char)"

lemma better_mount_iff:
  assumes mnt: "mount_named mnt name" and path: "bytes_at m (data p) path" "length_field p = of_nat (length path)" "length path < 2 ^ 32"
    and len: "n < 400"
  shows "better_mount m p mnt (of_nat n) \<longleftrightarrow> n < length name \<and> covers name path"
proof -
  have u: "unat (m_path_length mnt) = length name" "unat (length_field p) = length path" "unat (of_nat n :: u32) = n"
    using assms by (simp_all add: mount_named_def unat_of_nat_32)
  have one: "m_path_length mnt = 1 \<longleftrightarrow> length name = 1"
    using u(1) by (simp add: word_unat_eq_iff)
  have whole: "length_field p = m_path_length mnt \<longleftrightarrow> length path = length name"
    using u(1,2) by (simp add: word_unat_eq_iff)
  have ch_at: "m (data p + of_nat i) = path ! i" if "i < length path" for i
    using path(1) that by (simp add: bytes_at_def)
  have chars: "mount_matches m p mnt \<longleftrightarrow> take (length name) path = name" if "length name \<le> length path"
  proof -
    have "mount_matches m p mnt \<longleftrightarrow> (\<forall>i < length name. name ! i = path ! i)"
      using that mnt ch_at u(1) by (simp add: mount_matches_def list_all_iff mount_named_def nth_append Ball_def)
    also have "\<dots> \<longleftrightarrow> take (length name) path = name"
      using that by (auto simp: list_eq_iff_nth_eq)
    finally show ?thesis .
  qed
  show ?thesis
  proof (cases "length name \<le> length path")
    case True
    have after: "m (data p + m_path_length mnt) = path ! length name" if "length name \<noteq> length path"
      using ch_at [of "length name"] True that mnt by (simp add: mount_named_def)
    have le: "m_path_length mnt \<le> of_nat n \<longleftrightarrow> \<not> n < length name" "\<not> length_field p < m_path_length mnt"
      using True u by (auto simp: word_le_nat_alt word_less_nat_alt)
    have "better_mount m p mnt (of_nat n) \<longleftrightarrow> n < length name \<and> (length name = 1 \<or> length path = length name \<or>
        m (data p + m_path_length mnt) = slash_char) \<and> take (length name) path = name"
      unfolding better_mount_def le chars [OF True] one whole using le(2) by blast
    then show ?thesis
      using True after by (cases "length name = length path") (simp_all add: covers_def conj_ac)
  next
    case False
    then show ?thesis
      using u by (simp add: better_mount_def covers_def word_less_nat_alt)
  qed
qed

lemma fold_longest:
  assumes "\<And>q. q \<in> set qs \<Longrightarrow> mount_named (mounts s q) (name q)"
    and path: "bytes_at (fs_mem s) (data p) path" "length_field p = of_nat (length path)" "length path < 2 ^ 32"
  shows "n < 400 \<Longrightarrow> \<exists>r k. fold (\<lambda>q (best, len). if better_mount (fs_mem s) p (mounts s q) len then (Some q, m_path_length (mounts s q)) else (best, len))
      qs (b, of_nat n) = (r, of_nat k) \<and> n \<le> k \<and> k < 400 \<and> (\<forall>q \<in> set qs. covers (name q) path \<longrightarrow> length (name q) \<le> k) \<and>
      (r = b \<and> k = n \<or> (\<exists>q \<in> set qs. r = Some q \<and> covers (name q) path \<and> k = length (name q)))"
  using assms(1)
proof (induction qs arbitrary: b n)
  case (Cons q qs)
  have q: "mount_named (mounts s q) (name q)"
    using Cons.prems(2) by simp
  have rest: "\<And>x. x \<in> set qs \<Longrightarrow> mount_named (mounts s x) (name x)"
    using Cons.prems(2) by simp
  note iff = better_mount_iff [OF q path Cons.prems(1)]
  show ?case
  proof (cases "n < length (name q) \<and> covers (name q) path")
    case True
    have "m_path_length (mounts s q) = of_nat (length (name q))" "length (name q) < 400"
      using q by (simp_all add: mount_named_def)
    with True iff Cons.IH [OF _ rest, of "length (name q)" "Some q"] show ?thesis
      by fastforce
  next
    case False
    obtain r k where "fold (\<lambda>q (best, len). if better_mount (fs_mem s) p (mounts s q) len then (Some q, m_path_length (mounts s q)) else (best, len))
      qs (b, of_nat n) = (r, of_nat k)" "n \<le> k" "k < 400" "\<forall>q \<in> set qs. covers (name q) path \<longrightarrow> length (name q) \<le> k"
      "r = b \<and> k = n \<or> (\<exists>q \<in> set qs. r = Some q \<and> covers (name q) path \<and> k = length (name q))"
      using Cons.IH [OF Cons.prems(1) rest, of b] by blast
    with False iff show ?thesis
      by (intro exI [of _ r] exI [of _ k]) auto
  qed
qed auto

lemma best_mount_spec:
  assumes "ring (mount_links s) f qs" and "\<And>q. q \<in> set (f # qs) \<Longrightarrow> mount_named (mounts s q) (name q)"
    and "bytes_at (fs_mem s) (data p) path" and "length_field p = of_nat (length path)" and "length path < 2 ^ 32"
  shows "\<exists>r k. best_mount p f s = Some (r, of_nat k) \<and>
    (case r of
       None \<Rightarrow> \<forall>q \<in> set (f # qs). \<not> covers (name q) path
     | Some q \<Rightarrow> q \<in> set (f # qs) \<and> covers (name q) path \<and> k = length (name q) \<and>
         (\<forall>q' \<in> set (f # qs). covers (name q') path \<longrightarrow> length (name q') \<le> length (name q)))"
proof -
  obtain r k where r: "fold (\<lambda>q (best, len). if better_mount (fs_mem s) p (mounts s q) len then (Some q, m_path_length (mounts s q)) else (best, len))
      (f # qs) (None, of_nat 0) = (r, of_nat k)" "\<forall>q \<in> set (f # qs). covers (name q) path \<longrightarrow> length (name q) \<le> k"
      "r = None \<and> k = 0 \<or> (\<exists>q \<in> set (f # qs). r = Some q \<and> covers (name q) path \<and> k = length (name q))"
    using fold_longest [OF assms(2,3,4,5), where n = 0 and b = None and qs = "f # qs"] by auto
  have pos: "0 < length (name q)" if "q \<in> set (f # qs)" for q
    using assms(2) [OF that] by (simp add: mount_named_def)
  have zero: "(of_nat 0 :: u32) = 0"
    by simp
  have "best_mount p f s = Some (r, of_nat k)"
    unfolding best_mount_def ring_fold_eq [OF assms(1)] r(1) [unfolded zero] ..
  moreover have "\<forall>q \<in> set (f # qs). \<not> covers (name q) path" if "r = None"
    using r(2,3) pos that by fastforce
  ultimately show ?thesis
    using r(2,3) by (intro exI [of _ r] exI [of _ k]) (auto split: option.split)
qed

text \<open>C19: The search over the ring of mount points ends and finds the longest mount point that the path lies below, with its
  length: a mount point whose name is a prefix of the path that ends at a slash or at the end of the path, or has only one
  character. It finds none only when there is none.\<close>

theorem best_mount_longest:
  assumes "ring (mount_links s) f qs" and "\<And>q. q \<in> set (f # qs) \<Longrightarrow> mount_named (mounts s q) (name q)"
    and "bytes_at (fs_mem s) (data p) path" and "length_field p = of_nat (length path)" and "length path < 2 ^ 32"
  shows "\<exists>r k. best_mount p f s = Some (r, of_nat k) \<and>
    (case r of
       None \<Rightarrow> \<forall>q \<in> set (f # qs). \<not> covers (name q) path
     | Some q \<Rightarrow> q \<in> set (f # qs) \<and> covers (name q) path \<and> k = length (name q) \<and>
         (\<forall>q' \<in> set (f # qs). covers (name q') path \<longrightarrow> length (name q') \<le> length (name q)))"
  using assms by (rule best_mount_spec)

subsection \<open>Reading a file\<close>

text \<open>Reading an open file with the sizes \<open>ns\<close> one after the other; the result is what each read left in the buffer.\<close>

fun read_pieces :: "u32 \<Rightarrow> u32 \<Rightarrow> u32 list \<Rightarrow> (u8 list, 's) fop" where
  "read_pieces f buf [] s = Inr ([], s)"
| "read_pieces f buf (n # ns) s =
    kbind (file_read f buf n s) (\<lambda>(r, s1).
    kbind (read_pieces f buf ns s1) (\<lambda>(bs, s2).
    Inr (map (\<lambda>i. fs_mem s1 (buf + of_nat i)) [0..<nat r] @ bs, s2)))"

text \<open>An open file whose inode has the contents \<open>cs\<close>, outside a buffer of \<open>l\<close> bytes.\<close>

definition open_file :: "'s fs_state \<Rightarrow> u32 \<Rightarrow> u32 \<Rightarrow> nat \<Rightarrow> u8 list \<Rightarrow> bool" where
  "open_file s f buf l cs \<longleftrightarrow> (let i = inodes s (owner_inode (files s f)) in
    f_methods (files s f) = TarMethods \<and> bytes_at (fs_mem s) (m_contents i) cs \<and> m_contents_length i = of_nat (length cs) \<and>
    length cs < 2 ^ 31 \<and> (\<forall>a. in_range buf l a \<longrightarrow> \<not> in_range (m_contents i) (length cs) a) \<and> unat (f_pos (files s f)) \<le> length cs)"

lemma file_read_spec:
  assumes "open_file s f buf l cs" and "unat n \<le> l"
  shows "\<exists>s'. file_read f buf n s = Inr (int (length (take (unat n) (drop (unat (f_pos (files s f))) cs))), s') \<and>
    open_file s' f buf l cs \<and> bytes_at (fs_mem s') buf (take (unat n) (drop (unat (f_pos (files s f))) cs)) \<and>
    unat (f_pos (files s' f)) = unat (f_pos (files s f)) + length (take (unat n) (drop (unat (f_pos (files s f))) cs)) \<and>
    (\<exists>m pos. s' = s\<lparr>fs_mem := m, files := (files s)(f := (files s f)\<lparr>f_pos := pos\<rparr>)\<rparr>)"
proof -
  let ?i = "inodes s (owner_inode (files s f))" and ?pos = "f_pos (files s f)"
  let ?r = "take (unat n) (drop (unat ?pos) cs)"
  have o: "f_methods (files s f) = TarMethods" "bytes_at (fs_mem s) (m_contents ?i) cs" "m_contents_length ?i = of_nat (length cs)"
      "length cs < 2 ^ 31" "\<And>a. in_range buf l a \<Longrightarrow> \<not> in_range (m_contents ?i) (length cs) a" "unat ?pos \<le> length cs"
    using assms(1) by (auto simp: open_file_def Let_def)
  have sub: "in_range buf l a" if "in_range buf (unat n) a" for a
    using that assms(2) by (simp add: in_range_def)
  obtain m' where m': "tar_read ?i buf n ?pos (fs_mem s) = (int (length ?r), m')" "bytes_at m' buf ?r"
      "\<forall>a. \<not> in_range buf (length ?r) a \<longrightarrow> m' a = fs_mem s a"
    using tar_read_spec [OF o(2-4), of buf n ?pos] o(5) sub by blast
  have "m' a = fs_mem s a" if "in_range (m_contents ?i) (length cs) a" for a
  proof -
    have "\<not> in_range buf (length ?r) a"
      using that o(5) sub by (auto simp: in_range_def)
    then show ?thesis
      using m'(3) by blast
  qed
  then have same: "bytes_at m' (m_contents ?i) cs"
    using bytes_at_frame [OF o(2)] o(4) by simp
  let ?s' = "s\<lparr>fs_mem := m', files := (files s)(f := (files s f)\<lparr>f_pos := ?pos + word_of_int (int (length ?r))\<rparr>)\<rparr>"
  have pos: "unat (?pos + word_of_int (int (length ?r))) = unat ?pos + length ?r"
  proof -
    have "unat ?pos + length ?r \<le> length cs"
      using o(6) by simp
    then have "unat ?pos + length ?r < 2 ^ 64"
      using o(4) by simp
    then show ?thesis
      by (simp add: unat_word_ariths unat_of_nat take_bit_eq_mod)
  qed
  have "file_read f buf n s = Inr (int (length ?r), ?s')"
    using m'(1) o(1) by (simp add: file_read_def file_pread_def del: length_take length_drop)
  moreover have "open_file ?s' f buf l cs"
    using o same pos by (simp add: open_file_def Let_def del: length_take length_drop) simp
  moreover have "\<exists>m pos. ?s' = s\<lparr>fs_mem := m, files := (files s)(f := (files s f)\<lparr>f_pos := pos\<rparr>)\<rparr>"
    by blast
  ultimately show ?thesis
    using m'(2) pos by (intro exI [of _ ?s']) (simp del: length_take length_drop)
qed

text \<open>C20: Reading an open file piece by piece into one buffer that fits each piece and does not overlap the file, with any
  sizes, gives the contents of the file from its position on: the pieces put together are as many bytes as were asked for,
  or all that are left, and the position moves behind them.\<close>

theorem file_read_pieces:
  assumes "open_file s f buf l cs" and "\<And>n. n \<in> set ns \<Longrightarrow> unat n \<le> l"
  shows "\<exists>s'. read_pieces f buf ns s = Inr (take (sum_list (map unat ns)) (drop (unat (f_pos (files s f))) cs), s') \<and>
    unat (f_pos (files s' f)) = min (length cs) (unat (f_pos (files s f)) + sum_list (map unat ns))"
  using assms
proof (induction ns arbitrary: s)
  case Nil
  then show ?case
    by (simp add: open_file_def Let_def)
next
  case (Cons n ns)
  let ?pos = "unat (f_pos (files s f))"
  let ?r = "take (unat n) (drop ?pos cs)"
  obtain s1 where s1: "file_read f buf n s = Inr (int (length ?r), s1)" "open_file s1 f buf l cs" "bytes_at (fs_mem s1) buf ?r"
      "unat (f_pos (files s1 f)) = ?pos + length ?r"
    using file_read_spec [OF Cons.prems(1)] Cons.prems(2) [of n] by auto
  obtain s2 where s2: "read_pieces f buf ns s1 = Inr (take (sum_list (map unat ns)) (drop (unat (f_pos (files s1 f))) cs), s2)"
      "unat (f_pos (files s2 f)) = min (length cs) (unat (f_pos (files s1 f)) + sum_list (map unat ns))"
    using Cons.IH [OF s1(2)] Cons.prems(2) by auto
  have le: "?pos \<le> length cs"
    using Cons.prems(1) by (simp add: open_file_def Let_def)
  have piece: "map (\<lambda>i. fs_mem s1 (buf + of_nat i)) [0..<nat (int (length ?r))] = ?r"
    using s1(3) by (intro nth_equalityI) (simp_all add: bytes_at_def)
  have rest: "?r @ take (sum_list (map unat ns)) (drop (?pos + length ?r) cs) = take (unat n + sum_list (map unat ns)) (drop ?pos cs)"
    by (cases "unat n \<le> length cs - ?pos") (simp_all add: take_add add.commute)
  have "read_pieces f buf (n # ns) s = Inr (take (unat n + sum_list (map unat ns)) (drop ?pos cs), s2)"
    using s1(1) s2(1) piece rest s1(4) by (simp del: length_take length_drop nat_int)
  moreover have "unat (f_pos (files s2 f)) = min (length cs) (?pos + (unat n + sum_list (map unat ns)))"
    using s2(2) s1(4) le by simp
  ultimately show ?case
    by simp
qed

subsection \<open>References\<close>

text \<open>A task runs outside of interrupts; the lock of an inode is free and nobody waits for it.\<close>

definition quiet :: "'s fs_state \<Rightarrow> bool" where
  "quiet s \<longleftrightarrow> current_task (kst (fs_sched s)) \<noteq> None \<and> \<not> is_interrupt_context (kst (fs_sched s)) \<and>
    preempt_counter (kst (fs_sched s)) \<noteq> - 1"

definition free_lock :: "'s fs_state \<Rightarrow> u32 \<Rightarrow> bool" where
  "free_lock s q \<longleftrightarrow> m_owner (fs_sched s) q = None \<and> lonely (block_links (fs_sched s)) (MutexNode q)"

definition locked :: "u32 \<Rightarrow> 's fs_state \<Rightarrow> 's fs_state" where
  "locked q s = s\<lparr>fs_sched := (fs_sched s)\<lparr>m_owner := (m_owner (fs_sched s))(q := current_task (kst (fs_sched s)))\<rparr>\<rparr>"

lemma preempt_up_down_id: "preempt_counter k \<noteq> - 1 \<Longrightarrow> preempt_down (preempt_up k) = Inr k"
  by (cases k) (simp add: preempt_up_def preempt_down_def Let_def)

lemma preempt_up_simps [simp]:
  "current_task (preempt_up k) = current_task k" "is_interrupt_context (preempt_up k) = is_interrupt_context k"
  by (simp_all add: preempt_up_def is_interrupt_context_def)

lemma lock_free:
  assumes "quiet s" and "free_lock s q"
  shows "mutex_lock regs resume sp q (fs_sched s) = Inr (True, fs_sched (locked q s))"
  using assms by (auto simp: quiet_def free_lock_def mutex_lock_def locked_def Let_def preempt_up_down_id)

lemma unlock_free:
  assumes "quiet s" and "free_lock s q" and "fs_sched s1 = fs_sched (locked q s)"
  shows "mutex_unlock q (fs_sched s1) = Inr (fs_sched s)"
proof -
  have "(m_owner (fs_sched s))(q := None) = m_owner (fs_sched s)"
    using assms(2) by (auto simp: free_lock_def)
  then show ?thesis
    using assms unfolding quiet_def free_lock_def
    by (cases "fs_sched s") (auto simp: mutex_unlock_def locked_def Let_def preempt_up_down_id)
qed

lemma scoped_mutex_free:
  assumes "quiet s" and "free_lock s q"
  shows "body (locked q s) = Inl e \<Longrightarrow> scoped_mutex q body s = Inl e"
    and "body (locked q s) = Inr (r, s1) \<Longrightarrow> fs_sched s1 = fs_sched (locked q s) \<Longrightarrow>
      scoped_mutex q body s = Inr (r, s1\<lparr>fs_sched := fs_sched s\<rparr>)"
proof -
  have l: "s\<lparr>fs_sched := fs_sched (locked q s)\<rparr> = locked q s"
    by (simp add: locked_def)
  show "body (locked q s) = Inl e \<Longrightarrow> scoped_mutex q body s = Inl e"
    using lock_free [OF assms] l by (simp add: scoped_mutex_def split: prod.split)
  show "body (locked q s) = Inr (r, s1) \<Longrightarrow> fs_sched s1 = fs_sched (locked q s) \<Longrightarrow>
      scoped_mutex q body s = Inr (r, s1\<lparr>fs_sched := fs_sched s\<rparr>)"
    using lock_free [OF assms] unlock_free [OF assms, of "locked q s"] l by (simp add: scoped_mutex_def split: prod.split)
qed

lemma take_ref_free:
  assumes "quiet s" and "free_lock s q"
  shows "i_rc (inodes s q) \<le> 0 \<Longrightarrow> take_ref_locked q s = Inl KAssert"
    and "0 < i_rc (inodes s q) \<Longrightarrow> i_rc (inodes s q) < 2 ^ 31 - 1 \<Longrightarrow>
      take_ref_locked q s = Inr ((), set_inode q (\<lambda>i. i\<lparr>i_rc := i_rc i + 1\<rparr>) s)"
proof -
  let ?up = "set_inode q (\<lambda>i. i\<lparr>i_rc := i_rc i + 1\<rparr>)"
  show "i_rc (inodes s q) \<le> 0 \<Longrightarrow> take_ref_locked q s = Inl KAssert"
    unfolding take_ref_locked_def by (rule scoped_mutex_free(1) [OF assms]) (simp add: locked_def kassert_def)
  have "0 < i_rc (inodes s q) \<Longrightarrow> i_rc (inodes s q) < 2 ^ 31 - 1 \<Longrightarrow>
      take_ref_locked q s = Inr ((), (?up (locked q s))\<lparr>fs_sched := fs_sched s\<rparr>)"
    unfolding take_ref_locked_def by (rule scoped_mutex_free(2) [OF assms]) (simp_all add: locked_def set_inode_def kassert_def)
  moreover have "(?up (locked q s))\<lparr>fs_sched := fs_sched s\<rparr> = ?up s"
    by (simp add: locked_def set_inode_def)
  ultimately show "0 < i_rc (inodes s q) \<Longrightarrow> i_rc (inodes s q) < 2 ^ 31 - 1 \<Longrightarrow> take_ref_locked q s = Inr ((), ?up s)"
    by simp
qed

lemma release_ref_free:
  assumes "quiet s" and "free_lock s q" and "0 < i_rc (inodes s q)"
  shows "release_ref_locked q s = Inr (i_rc (inodes s q) = 1, set_inode q (\<lambda>i. i\<lparr>i_rc := i_rc i - 1\<rparr>) s)"
proof -
  let ?down = "set_inode q (\<lambda>i. i\<lparr>i_rc := i_rc i - 1\<rparr>)"
  have "release_ref_locked q s = Inr (i_rc (inodes s q) = 1, (?down (locked q s))\<lparr>fs_sched := fs_sched s\<rparr>)"
    unfolding release_ref_locked_def
    by (rule scoped_mutex_free(2) [OF assms(1,2)]) (use assms(3) in \<open>simp_all add: locked_def set_inode_def kassert_def Let_def\<close>)
  moreover have "(?down (locked q s))\<lparr>fs_sched := fs_sched s\<rparr> = ?down s"
    by (simp add: locked_def set_inode_def)
  ultimately show ?thesis
    by simp
qed

lemma inode_release_shared:
  assumes "quiet s" and "free_lock s q" and "1 < i_rc (inodes s q)"
  shows "inode_release ops q s = Inr (set_inode q (\<lambda>i. i\<lparr>i_rc := i_rc i - 1\<rparr>) s)"
  using release_ref_free [OF assms(1,2)] assms(3) by (simp add: inode_release_def release_chain.simps)

text \<open>What opening an inode and the last release of a file do.\<close>

definition tar_fd :: "u32 \<Rightarrow> file_desc" where
  "tar_fd q = \<lparr>f_rc = 1, owner_inode = q, f_pos = 0, f_methods = TarMethods\<rparr>"

lemma inode_open_spec:
  assumes "quiet s" and "free_lock s q" and "0 < i_rc (inodes s q)" and "i_rc (inodes s q) < 2 ^ 31 - 1"
    and "obj_new ops FileObj (fs_objs s) = Inr (f, os)"
  shows "inode_open ops q s =
    Inr ((E_ok, f), (set_inode q (\<lambda>i. i\<lparr>i_rc := i_rc i + 1\<rparr>) (s\<lparr>fs_objs := os\<rparr>))\<lparr>files := (files s)(f := tar_fd q)\<rparr>)"
proof -
  let ?s0 = "s\<lparr>fs_objs := os, files := (files s)(f := (tar_fd q)\<lparr>f_methods := DefaultMethods\<rparr>)\<rparr>"
  have "quiet ?s0" "free_lock ?s0 q"
    using assms(1,2) by (simp_all add: quiet_def free_lock_def)
  then have "take_ref_locked q ?s0 = Inr ((), set_inode q (\<lambda>i. i\<lparr>i_rc := i_rc i + 1\<rparr>) ?s0)"
    using assms(3,4) by (intro take_ref_free(2)) simp_all
  then show ?thesis
    using assms(5) by (simp add: inode_open_def refcount_new_def Let_def set_inode_def tar_fd_def)
qed

lemma file_release_spec:
  assumes "quiet s" and "f_rc (files s f) = 1" and "owner_inode (files s f) = q" and "free_lock s q" and "1 < i_rc (inodes s q)"
    and "obj_del ops FileObj f (fs_objs s) = Inr os"
  shows "file_release ops f s =
    Inr ((set_inode q (\<lambda>i. i\<lparr>i_rc := i_rc i - 1\<rparr>) (s\<lparr>files := (files s)(f := (files s f)\<lparr>f_rc := 0\<rparr>)\<rparr>))\<lparr>fs_objs := os\<rparr>)"
proof -
  let ?s1 = "s\<lparr>files := (files s)(f := (files s f)\<lparr>f_rc := 0\<rparr>)\<rparr>"
  have "quiet ?s1" "free_lock ?s1 q" "1 < i_rc (inodes ?s1 q)"
    using assms(1,4,5) by (simp_all add: quiet_def free_lock_def)
  then have "inode_release ops q ?s1 = Inr (set_inode q (\<lambda>i. i\<lparr>i_rc := i_rc i - 1\<rparr>) ?s1)"
    by (rule inode_release_shared)
  then show ?thesis
    using assms(2,3,6) by (simp add: file_release_def release_ref_def kassert_def set_inode_def)
qed

text \<open>C20: Opening an inode takes one reference to it for the file, which starts at position 0 with the methods of the archive;
  the last release of the file gives the reference back and frees the file, and only the file: the inodes, the
  scheduler and the memory are as before.\<close>

lemma open_release_roundtrip:
  assumes "quiet s" and "free_lock s q" and "0 < i_rc (inodes s q)" and "i_rc (inodes s q) < 2 ^ 31 - 1"
    and "obj_new ops FileObj (fs_objs s) = Inr (f, os)" and "obj_del ops FileObj f os = Inr os'"
  shows "\<exists>s1 s2. inode_open ops q s = Inr ((E_ok, f), s1) \<and>
    files s1 f = \<lparr>f_rc = 1, owner_inode = q, f_pos = 0, f_methods = TarMethods\<rparr> \<and>
    i_rc (inodes s1 q) = i_rc (inodes s q) + 1 \<and>
    file_release ops f s1 = Inr s2 \<and> inodes s2 = inodes s \<and> fs_sched s2 = fs_sched s \<and> fs_mem s2 = fs_mem s \<and> fs_objs s2 = os'"
proof -
  let ?s1 = "(set_inode q (\<lambda>i. i\<lparr>i_rc := i_rc i + 1\<rparr>) (s\<lparr>fs_objs := os\<rparr>))\<lparr>files := (files s)(f := tar_fd q)\<rparr>"
  have s1: "quiet ?s1" "f_rc (files ?s1 f) = 1" "owner_inode (files ?s1 f) = q" "free_lock ?s1 q" "1 < i_rc (inodes ?s1 q)"
      "obj_del ops FileObj f (fs_objs ?s1) = Inr os'"
    using assms(1-3,6) by (simp_all add: quiet_def free_lock_def set_inode_def tar_fd_def)
  show ?thesis
  proof (intro exI conjI)
    show "inode_open ops q s = Inr ((E_ok, f), ?s1)"
      by (rule inode_open_spec [OF assms(1-5)])
    show "file_release ops f ?s1 =
        Inr ((set_inode q (\<lambda>i. i\<lparr>i_rc := i_rc i - 1\<rparr>) (?s1\<lparr>files := (files ?s1)(f := (files ?s1 f)\<lparr>f_rc := 0\<rparr>)\<rparr>))\<lparr>fs_objs := os'\<rparr>)"
      by (rule file_release_spec [OF s1])
  qed (simp_all add: set_inode_def tar_fd_def)
qed

subsection \<open>An example\<close>

text \<open>The archive of the example of the tar file system, mounted at the root with the file system 5. The table
  holds the root at \<open>0x900\<close> and, with \<open>Some 0x910\<close> for \<open>dir\<close>, the directory \<^verbatim>\<open>a\<close>; the file 8 is open on it. The allocator counts up.\<close>

definition demo_ops :: "u32 obj_ops" where
  "demo_ops = \<lparr>obj_new = \<lambda>k n. Inr (n, n + 0x100), obj_del = \<lambda>k q n. Inr n\<rparr>"

definition demo_table :: "u32 option \<Rightarrow> u32 hashtable" where
  "demo_table dir = (let e = \<lparr>ht_links = \<lparr>l_prev = id, l_next = id\<rparr>, ht_key = (\<lambda>p. 0), ht_obj = (\<lambda>p. None), ht_alloc = 0\<rparr> in
    (hashtable_new 256 e)\<lparr>ht_key := \<lambda>p. if p = ArrLink 142 then 2 else if p = ArrLink 213 then 3 else 0,
      ht_obj := \<lambda>p. if p = ArrLink 142 then Some 0x900 else if p = ArrLink 213 then dir else None\<rparr>)"

definition demo_fs :: "int \<Rightarrow> u32 option \<Rightarrow> u32 fs_state" where
  "demo_fs rc dir = \<lparr>fs_sched = two_tasks, fs_mem = demo, fs_objs = 0x8000,
     inodes = (\<lambda>q. if q = 0x900
       then \<lparr>i_rc = rc, owner_fs = 5, i_parent_ref = None, i_num = 2, m_contents = 0, m_contents_length = 0, m_filename_length = 0\<rparr>
       else \<lparr>i_rc = 1, owner_fs = 5, i_parent_ref = Some 0x900, i_num = 3, m_contents = 0x1200, m_contents_length = 2, m_filename_length = 1\<rparr>),
     files = (\<lambda>f. \<lparr>f_rc = 1, owner_inode = 0x910, f_pos = 0, f_methods = TarMethods\<rparr>),
     vfss = (\<lambda>v. \<lparr>vfs_table = demo_table dir, root_inode = 2, m_archive = 0x1000\<rparr>), first_mount_point = Some 0x700,
     mount_links = node_new 0x700 \<lparr>l_prev = id, l_next = id\<rparr>,
     mounts = (\<lambda>q. \<lparr>m_path = [47, 0], m_path_length = 1, m_fs = 5\<rparr>), path_buf = 0x7000, fs_caller = (zero_regs, 0, 0)\<rparr>"

lemma demo_fs_quiet: "quiet (demo_fs rc dir)" "preempt_counter (kst (fs_sched (demo_fs rc dir))) = 0" "free_lock (demo_fs rc dir) q"
  by (simp_all add: quiet_def free_lock_def demo_fs_def two_tasks_def boot_state_def is_interrupt_context_def lonely_def)

theorem best_mount_longest_witness:
  "\<exists>k. best_mount \<lparr>data = 0x4FFF, length_field = 2\<rparr> 0x700 (demo_fs 1 None) = Some (Some 0x700, of_nat k) \<and> k = 1"
proof -
  have "ring (mount_links (demo_fs 1 None)) 0x700 []"
    by (simp add: demo_fs_def ring_new)
  moreover have "mount_named (mounts (demo_fs 1 None) q) [47]" for q
    by (simp add: demo_fs_def mount_named_def)
  moreover have "bytes_at (fs_mem (demo_fs 1 None)) 0x4FFF [47, 97]"
    by (simp add: demo_fs_def demo_mem_def)
  moreover have "covers [47] [47, 97]"
    by (simp add: covers_def)
  ultimately show ?thesis
    using best_mount_longest [of "demo_fs 1 None" "0x700" "[]" "\<lambda>q. [47]" "\<lparr>data = 0x4FFF, length_field = 2\<rparr>" "[47, 97]"]
    by (auto split: option.splits)
qed

theorem file_read_pieces_witness:
  "\<exists>s'. read_pieces 8 0x6000 [1, 0, 9] (demo_fs 1 None) = Inr ([104, 105], s')"
proof -
  have "in_range 0x6000 9 a \<Longrightarrow> \<not> in_range 0x1200 (Suc (Suc 0)) a" for a
    using ranges_apart [of "0x1200" "Suc (Suc 0)" a "0x6000" 9] by auto
  then have "open_file (demo_fs 1 None) 8 0x6000 9 [104, 105]"
    by (simp add: open_file_def demo_fs_def) (simp add: demo_mem_def)
  moreover have "unat n \<le> 9" if "n \<in> set [1, 0, 9]" for n :: u32
    using that by auto
  moreover have "f_pos (files (demo_fs 1 None) 8) = 0"
    by (simp add: demo_fs_def)
  ultimately show ?thesis
    using file_read_pieces [of "demo_fs 1 None" 8 "0x6000" 9 "[104, 105]" "[1, 0, 9]"] by (simp del: read_pieces.simps) blast
qed

lemma open_release_example:
  "\<exists>s1 s2. inode_open demo_ops 0x910 (demo_fs 1 None) = Inr ((E_ok, 0x8000), s1) \<and> i_rc (inodes s1 0x910) = 2 \<and>
    file_release demo_ops 0x8000 s1 = Inr s2 \<and> inodes s2 = inodes (demo_fs 1 None)"
proof -
  have "obj_new demo_ops FileObj (fs_objs (demo_fs 1 None)) = Inr (0x8000, 0x8100)" "i_rc (inodes (demo_fs 1 None) 0x910) = 1"
    by (simp_all add: demo_ops_def demo_fs_def)
  then show ?thesis
    using open_release_roundtrip [OF demo_fs_quiet(1,3), of 1 None "0x910" demo_ops "0x8000" "0x8100" "0x8100"] by (auto simp: demo_ops_def)
qed

end
