(* ===== verification/Vfs_Walk.thy ===== *)
theory Vfs_Walk
  imports Vfs_Props
begin

section \<open>Resolving paths\<close>

text \<open>
  What \<open>traverse\<close> does with the names of a path: the walk over inodes that are in memory and the references that it takes
  and gives back, the inode that a path to a new file makes, and a failure of the reference count of the root.
\<close>

subsection \<open>Walking along a path\<close>

text \<open>The names in a path: its parts between slashes that are not empty.\<close>

function components :: "u8 list \<Rightarrow> u8 list list" where
  "components cs = (case dropWhile (\<lambda>c. c = slash_char) cs of
      [] \<Rightarrow> []
    | d # ds \<Rightarrow> takeWhile (\<lambda>c. c \<noteq> slash_char) (d # ds) # components (dropWhile (\<lambda>c. c \<noteq> slash_char) ds))"
  by pat_completeness auto
termination
proof (relation "measure length", goal_cases)
  case (2 cs d ds)
  have "length (dropWhile (\<lambda>c. c \<noteq> slash_char) ds) \<le> length ds" "length (d # ds) \<le> length cs"
    using length_dropWhile_le [of "\<lambda>c. c \<noteq> slash_char" ds] length_dropWhile_le [of "\<lambda>c. c = slash_char" cs] 2 by simp_all
  then show ?case
    by simp
qed simp

declare components.simps [simp del]

lemma components_nil: "components cs = [] \<longleftrightarrow> (\<forall>c \<in> set cs. c = slash_char)"
proof -
  have "components cs = [] \<longleftrightarrow> dropWhile (\<lambda>c. c = slash_char) cs = []"
    by (cases "dropWhile (\<lambda>c. c = slash_char) cs") (simp_all only: components.simps [of cs] list.case list.simps simp_thms)
  then show ?thesis
    by (simp add: dropWhile_eq_Nil_conv)
qed

lemma components_cons:
  assumes "components cs = name # names"
  obtains j cs' where "cs = replicate j slash_char @ name @ cs'" "components cs' = names" "name \<noteq> []"
    "slash_char \<notin> set name" "cs' = [] \<or> hd cs' = slash_char"
proof -
  let ?sl = "takeWhile (\<lambda>c. c = slash_char) cs" and ?rest = "dropWhile (\<lambda>c. c = slash_char) cs"
  obtain d ds where d: "?rest = d # ds"
    using assms by (subst (asm) components.simps) (auto split: list.splits)
  then have "d \<noteq> slash_char"
    using hd_dropWhile [of "\<lambda>c. c = slash_char" cs] by simp
  then have n: "name = takeWhile (\<lambda>c. c \<noteq> slash_char) (d # ds)" "names = components (dropWhile (\<lambda>c. c \<noteq> slash_char) (d # ds))"
    using assms d components.simps [of cs] by simp_all
  have "c = slash_char" if "c \<in> set ?sl" for c
    using set_takeWhileD [OF that] by blast
  then have "?sl = replicate (length ?sl) slash_char"
    using replicate_length_same [of ?sl slash_char] by simp
  then have "cs = replicate (length ?sl) slash_char @ name @ dropWhile (\<lambda>c. c \<noteq> slash_char) (d # ds)"
    unfolding n(1) by (simp only: takeWhile_dropWhile_id d [symmetric])
  moreover have "name \<noteq> []" "slash_char \<notin> set name"
    using n(1) \<open>d \<noteq> slash_char\<close> set_takeWhileD [of slash_char "\<lambda>c. c \<noteq> slash_char" "d # ds"] by auto
  moreover have "dropWhile (\<lambda>c. c \<noteq> slash_char) (d # ds) = [] \<or> hd (dropWhile (\<lambda>c. c \<noteq> slash_char) (d # ds)) = slash_char"
    using hd_dropWhile [of "\<lambda>c. c \<noteq> slash_char" "d # ds"] by blast
  ultimately show thesis
    using that n(2) by blast
qed

lemma walk_slashes:
  assumes "\<And>i. i < j \<Longrightarrow> fs_mem s (p + of_nat i) = slash_char"
  shows "walk_path ops v r (j + n) p cur s = walk_path ops v r n (p + of_nat j) cur s"
  using assms
proof (induction j arbitrary: p)
  case (Suc j)
  have "fs_mem s (p + 1 + of_nat i) = slash_char" if "i < j" for i
    using Suc.prems [of "Suc i"] that by (simp add: algebra_simps)
  then have "walk_path ops v r (j + n) (p + 1) cur s = walk_path ops v r n (p + 1 + of_nat j) cur s"
    by (rule Suc.IH)
  then show ?case
    using Suc.prems [of 0] by (subst walk_path.simps) (simp add: algebra_simps)
qed simp

lemma text_until_slash_eq:
  assumes "bytes_at m p (name @ cs')" and "slash_char \<notin> set name" and "cs' = [] \<or> hd cs' = slash_char"
  shows "text_until_slash (length (name @ cs')) p m = length name"
  using assms
proof (induction name arbitrary: p)
  case Nil
  have "m p = slash_char" if "cs' \<noteq> []"
    using Nil that bytes_at_def [of m p cs'] by (auto simp: hd_conv_nth)
  then show ?case
    by (cases cs') simp_all
next
  case (Cons c name)
  have "bytes_at m (p + 1) (name @ cs')" "m p = c"
    using Cons.prems(1) by simp_all
  then show ?case
    using Cons by auto
qed

lemma walk_nil:
  assumes "bytes_at (fs_mem s) p cs" and "components cs = []"
  shows "walk_path ops v r (length cs) p cur s = Inr ((E_ok, Some cur), s)"
proof -
  have "walk_path ops v r (length cs + 0) p cur s = walk_path ops v r 0 (p + of_nat (length cs)) cur s"
    using assms unfolding components_nil by (intro walk_slashes) (simp add: bytes_at_def)
  then show ?thesis
    by (simp add: walk_path.simps)
qed

lemma walk_cons:
  assumes "bytes_at (fs_mem s) p cs" and "components cs = name # names" and "length cs < 2 ^ 31"
  obtains q cs' where "components cs' = names" "name \<noteq> []" "slash_char \<notin> set name" "set name \<subseteq> set cs" "length name \<le> length cs"
    "length cs' \<le> length cs" "set cs' \<subseteq> set cs" "length (name @ cs') \<le> length cs"
    "bytes_at (fs_mem s) q (name @ cs')" "\<forall>a. in_range q (length (name @ cs')) a \<longrightarrow> in_range p (length cs) a"
    "walk_path ops v r (length cs) p cur s =
      kbind (inode_lookup cur \<lparr>data = q, length_field = of_nat (length name)\<rparr> s) (\<lambda>((e, found_i), s1).
      if e \<noteq> E_ok then kbind (release_unless_root ops r cur s1) (\<lambda>s2. Inr ((e, None), s2))
      else kbind (get_inode_struct ops v found_i cur s1) (\<lambda>(nxt, s2).
           kbind (release_unless_root ops r cur s2) (walk_path ops v r (length cs') (q + of_nat (length name)) nxt)))"
proof -
  obtain j cs' where cs: "cs = replicate j slash_char @ name @ cs'" "components cs' = names" "name \<noteq> []" "slash_char \<notin> set name"
      "cs' = [] \<or> hd cs' = slash_char"
    using components_cons [OF assms(2)] .
  let ?q = "p + of_nat j"
  have b: "bytes_at (fs_mem s) p (replicate j slash_char)" "bytes_at (fs_mem s) ?q (name @ cs')"
    using assms(1) unfolding cs(1) by (simp_all add: bytes_at_append)
  have "walk_path ops v r (j + length (name @ cs')) p cur s = walk_path ops v r (length (name @ cs')) ?q cur s"
    using b(1) by (intro walk_slashes) (simp add: bytes_at_def)
  moreover have "fs_mem s ?q \<noteq> slash_char" "length (name @ cs') \<noteq> 0"
    using b(2) cs(3,4) by (cases name; auto)+
  moreover have rest: "length name + length cs' - length name = length cs'"
    by simp
  ultimately have "walk_path ops v r (length cs) p cur s =
      kbind (inode_lookup cur \<lparr>data = ?q, length_field = of_nat (length name)\<rparr> s) (\<lambda>((e, found_i), s1).
      if e \<noteq> E_ok then kbind (release_unless_root ops r cur s1) (\<lambda>s2. Inr ((e, None), s2))
      else kbind (get_inode_struct ops v found_i cur s1) (\<lambda>(nxt, s2).
           kbind (release_unless_root ops r cur s2) (\<lambda>s3. walk_path ops v r (length cs') (?q + of_nat (length name)) nxt s3)))"
    using cs(1) text_until_slash_eq [OF b(2) cs(4,5)] rest
    by (simp only: length_append length_replicate walk_path.simps [of ops v r "length name + length cs'"] Let_def if_False)
  moreover have "\<forall>a. in_range ?q (length (name @ cs')) a \<longrightarrow> in_range p (length cs) a"
    using in_range_sub [of p j "length (name @ cs')" _ "length cs"] cs(1) assms(3) by simp
  moreover have "set name \<subseteq> set cs" "set cs' \<subseteq> set cs" "length name \<le> length cs" "length cs' \<le> length cs"
      "length (name @ cs') \<le> length cs"
    using cs(1) by auto
  ultimately show thesis
    using that [OF cs(2-4) _ _ _ _ _ b(2)] by blast
qed

subsection \<open>Inodes in memory\<close>

definition outside_buffer :: "'s fs_state \<Rightarrow> u32 \<Rightarrow> nat \<Rightarrow> bool" where
  "outside_buffer s p n \<longleftrightarrow> (\<forall>a. in_range (path_buf s) 400 a \<longrightarrow> \<not> in_range p n a)"

definition same_but_buffer :: "'s fs_state \<Rightarrow> mem \<Rightarrow> bool" where
  "same_but_buffer s m \<longleftrightarrow> (\<forall>a. \<not> in_range (path_buf s) 400 a \<longrightarrow> m a = fs_mem s a)"

text \<open>The inode \<open>q\<close> is in the table for the directory or file \<open>d\<close> of the archive, referenced, and nobody uses it now.\<close>

definition held :: "'s fs_state \<Rightarrow> u32 \<Rightarrow> entry list \<Rightarrow> u32 \<Rightarrow> u8 list \<Rightarrow> bool" where
  "held s v es q d \<longleftrightarrow> (let i = inodes s q in
    owner_fs i = v \<and> dir_inode (fs_mem s) i d \<and> free_lock s q \<and> 0 < i_rc i \<and> i_rc i < 2 ^ 31 - 2 \<and>
    outside_buffer s (m_contents i - 512) (length d) \<and> ht_lookup 256 (i_num i) (vfs_table (vfss s v)) = Inr (Some q) \<and>
    (d \<noteq> [] \<longrightarrow> (\<exists>a n e. find_entry (m_archive (vfss s v)) 3 d es = Some (a, n, e) \<and> i_num i = of_nat n)))"

text \<open>The directories that a walk from \<open>d\<close> along the names passes, and how it ends.\<close>

fun trail :: "u32 \<Rightarrow> entry list \<Rightarrow> u8 list \<Rightarrow> u8 list list \<Rightarrow> u8 list list \<times> errno" where
  "trail A es d [] = ([d], E_ok)"
| "trail A es d (name # names) =
    (let d' = full_path d name
     in if 99 < length d' then ([d], E_path_too_long)
        else if find_entry A 3 d' es = None then ([d], E_no_entry)
        else (case trail A es d' names of (ds, e) \<Rightarrow> (d # ds, e)))"

lemma trail_start: "trail A es d names = (ds, e) \<Longrightarrow> \<exists>ds'. ds = d # ds'"
  by (cases names) (auto simp: Let_def split: if_splits prod.splits)

definition with_ref :: "u32 \<Rightarrow> u8 list \<Rightarrow> 's fs_state \<Rightarrow> 's fs_state" where
  "with_ref q d s = (if d = [] then s else set_inode q (\<lambda>i. i\<lparr>i_rc := i_rc i + 1\<rparr>) s)"

lemma with_ref_simps [simp]:
  "fs_sched (with_ref q d s) = fs_sched s" "vfss (with_ref q d s) = vfss s" "path_buf (with_ref q d s) = path_buf s"
  "fs_mem (with_ref q d s) = fs_mem s" "x \<noteq> q \<Longrightarrow> inodes (with_ref q d s) x = inodes s x"
  "owner_fs (inodes (with_ref q d s) x) = owner_fs (inodes s x)" "i_num (inodes (with_ref q d s) x) = i_num (inodes s x)"
  "m_contents (inodes (with_ref q d s) x) = m_contents (inodes s x)" "i_rc (inodes (with_ref q d s) q) = (if d = [] then 0 else 1) + i_rc (inodes s q)"
  "m_filename_length (inodes (with_ref q d s) x) = m_filename_length (inodes s x)"
  by (simp_all add: with_ref_def set_inode_def)

lemma dir_inode_mem:
  assumes "dir_inode m i d" and "\<And>a. in_range (m_contents i - 512) (length d) a \<Longrightarrow> m' a = m a"
    and "i_num i' = i_num i" and "m_contents i' = m_contents i" and "m_filename_length i' = m_filename_length i"
  shows "dir_inode m' i' d"
proof (cases "d = []")
  case True
  then show ?thesis
    using assms(1,3) by (simp add: dir_inode_def)
next
  case False
  then have "bytes_at m (m_contents i - 512) d" "length d \<le> 4294967296"
    using assms(1) by (simp_all add: dir_inode_def)
  then have "bytes_at m' (m_contents i - 512) d"
    using bytes_at_frame assms(2) by blast
  then show ?thesis
    using assms(1,3-5) False unfolding dir_inode_def by simp
qed

lemma release_with_ref:
  assumes "quiet s" and "held s v es q d"
  shows "release_unless_root ops 2 q ((with_ref q d s)\<lparr>fs_mem := m\<rparr>) = Inr (s\<lparr>fs_mem := m\<rparr>)"
proof -
  let ?t = "(with_ref q d s)\<lparr>fs_mem := m\<rparr>"
  have two: "i_num (inodes s q) = 2 \<longleftrightarrow> d = []"
    using assms(2) by (auto simp: held_def Let_def dir_inode_def split: if_splits)
  show ?thesis
  proof (cases "d = []")
    case True
    then show ?thesis
      using two by (simp add: release_unless_root_def with_ref_def)
  next
    case False
    have "quiet ?t" "free_lock ?t q" "1 < i_rc (inodes ?t q)"
      using assms False by (simp_all add: quiet_def held_def Let_def free_lock_def)
    then have "inode_release ops q ?t = Inr (set_inode q (\<lambda>i. i\<lparr>i_rc := i_rc i - 1\<rparr>) ?t)"
      by (rule inode_release_shared)
    moreover have "set_inode q (\<lambda>i. i\<lparr>i_rc := i_rc i - 1\<rparr>) ?t = s\<lparr>fs_mem := m\<rparr>"
      using False by (simp add: set_inode_def with_ref_def)
    ultimately show ?thesis
      using two False by (simp add: release_unless_root_def)
  qed
qed

text \<open>A mounted archive and a path, both outside the buffer.\<close>

definition mounted :: "'s fs_state \<Rightarrow> u32 \<Rightarrow> entry list \<Rightarrow> bool" where
  "mounted s v es \<longleftrightarrow> archive_at (fs_mem s) (m_archive (vfss s v)) es \<and> root_inode (vfss s v) = 2 \<and>
    (\<forall>a. in_range (path_buf s) 400 a \<longrightarrow> a \<notin> archive_bytes (m_archive (vfss s v)) es)"

lemma lookup_held:
  assumes mem: "same_but_buffer s m" and mnt: "mounted s v es" and h: "held s v es q d"
    and name: "bytes_at m p name" "outside_buffer s p (length name)" "0 \<notin> set name" "length name < 2 ^ 31"
  obtains found m' where
    "inode_lookup q \<lparr>data = p, length_field = of_nat (length name)\<rparr> ((with_ref q d s)\<lparr>fs_mem := m\<rparr>) =
      Inr ((if 99 < length (full_path d name) then E_path_too_long
        else if find_entry (m_archive (vfss s v)) 3 (full_path d name) es = None then E_no_entry else E_ok, found), (with_ref q d s)\<lparr>fs_mem := m'\<rparr>)"
    "same_but_buffer s m'"
    "\<And>a n e. length (full_path d name) \<le> 99 \<Longrightarrow> find_entry (m_archive (vfss s v)) 3 (full_path d name) es = Some (a, n, e) \<Longrightarrow> found = of_nat n"
proof -
  let ?A = "m_archive (vfss s v)" and ?node = "inodes (with_ref q d s) q"
  have buf: "a \<notin> archive_bytes ?A es \<and> \<not> in_range p (length name) a \<and> \<not> in_range (m_contents ?node - 512) (length d) a"
    if "in_range (path_buf s) 400 a" for a
    using that mnt name(2) h by (simp add: mounted_def outside_buffer_def held_def Let_def)
  have "m a = fs_mem s a" if "a \<in> archive_bytes ?A es" for a
    using that mnt mem unfolding mounted_def same_but_buffer_def by blast
  then have arch: "archive_at m ?A es"
    using archive_frame mnt unfolding mounted_def by blast
  have "m a = fs_mem s a" if "in_range (m_contents (inodes s q) - 512) (length d) a" for a
    using that h mem unfolding held_def Let_def outside_buffer_def same_but_buffer_def by blast
  moreover have "dir_inode (fs_mem s) (inodes s q) d"
    using h by (simp add: held_def Let_def)
  ultimately have dir: "dir_inode m ?node d"
    using dir_inode_mem with_ref_simps(7,8,10) by blast
  have arg: "bytes_at m (data \<lparr>data = p, length_field = of_nat (length name)\<rparr>) name"
    using name(1) by simp
  have "\<exists>o' m'. inode_tar_lookup ?A (path_buf s) ?node \<lparr>data = p, length_field = of_nat (length name)\<rparr>
        \<lparr>out_inode = 0, out_content = 0, out_file_len = 0\<rparr> m =
      Inr (if 99 < length (full_path d name) then E_path_too_long
        else if find_entry ?A 3 (full_path d name) es = None then E_no_entry else E_ok, o', m') \<and>
      (\<forall>a n e. length (full_path d name) \<le> 99 \<and> find_entry ?A 3 (full_path d name) es = Some (a, n, e) \<longrightarrow> out_inode o' = of_nat n) \<and>
      (\<forall>a. \<not> in_range (path_buf s) 400 a \<longrightarrow> m' a = m a)"
    by (rule inode_lookup_spec [OF arch dir arg]) (simp_all only: string_buf.simps name(3,4) buf simp_thms)
  then obtain o' m' where r: "inode_tar_lookup ?A (path_buf s) ?node \<lparr>data = p, length_field = of_nat (length name)\<rparr>
        \<lparr>out_inode = 0, out_content = 0, out_file_len = 0\<rparr> m =
      Inr (if 99 < length (full_path d name) then E_path_too_long
        else if find_entry ?A 3 (full_path d name) es = None then E_no_entry else E_ok, o', m')"
      "\<forall>a n e. length (full_path d name) \<le> 99 \<and> find_entry ?A 3 (full_path d name) es = Some (a, n, e) \<longrightarrow> out_inode o' = of_nat n"
      "\<forall>a. \<not> in_range (path_buf s) 400 a \<longrightarrow> m' a = m a"
    by blast
  have "same_but_buffer s m'"
    using r(3) mem by (simp add: same_but_buffer_def)
  moreover have "owner_fs (inodes s q) = v"
    using h by (simp add: held_def Let_def)
  ultimately show thesis
    using that [of "out_inode o'" m'] r(1,2) by (simp add: inode_lookup_def)
qed

text \<open>Getting the inode of a number that is in the table.\<close>

lemma get_held:
  assumes "quiet s" and "held s v es q d" and "d \<noteq> []" and "t = (with_ref q' d' s)\<lparr>fs_mem := m\<rparr>" and "q \<noteq> q'"
  shows "get_inode_struct ops v (i_num (inodes s q)) parent t = Inr (q, set_inode q (\<lambda>i. i\<lparr>i_rc := i_rc i + 1\<rparr>) t)"
proof -
  have h: "ht_lookup 256 (i_num (inodes s q)) (vfs_table (vfss t v)) = Inr (Some q)" "i_num (inodes t q) = i_num (inodes s q)"
      "0 < i_rc (inodes t q)" "i_rc (inodes t q) < 2 ^ 31 - 1" "quiet t" "free_lock t q"
    using assms by (simp_all add: held_def Let_def quiet_def free_lock_def)
  have "take_ref_locked q t = Inr ((), set_inode q (\<lambda>i. i\<lparr>i_rc := i_rc i + 1\<rparr>) t)"
    by (rule take_ref_free(2) [OF h(5,6,3,4)])
  then show ?thesis
    using h(1,2) by (simp add: get_inode_struct_def kassert_def)
qed

lemma swap_refs:
  assumes "q \<noteq> q'" and "d \<noteq> []"
  shows "set_inode q (\<lambda>i. i\<lparr>i_rc := i_rc i + 1\<rparr>) ((with_ref q' d' s)\<lparr>fs_mem := m\<rparr>) = (with_ref q' d' (with_ref q d s))\<lparr>fs_mem := m\<rparr>"
  using assms by (simp add: with_ref_def set_inode_def fun_upd_twist)

lemma held_with_ref: "held s v es q d \<Longrightarrow> q \<noteq> q' \<Longrightarrow> held (with_ref q' d' s) v es q d"
  by (simp add: held_def Let_def free_lock_def outside_buffer_def)

lemma quiet_with_ref: "quiet s \<Longrightarrow> quiet (with_ref q d s)"
  by (simp add: quiet_def)

lemma same_but_buffer_bytes:
  assumes "same_but_buffer s m" and "outside_buffer s p (length xs)" and "length xs < 2 ^ 31"
  shows "bytes_at m p xs \<longleftrightarrow> bytes_at (fs_mem s) p xs"
proof -
  have "m a = fs_mem s a" if "in_range p (length xs) a" for a
    using that assms(1,2) unfolding outside_buffer_def same_but_buffer_def by blast
  then show ?thesis
    using bytes_at_frame [of m p xs "fs_mem s"] bytes_at_frame [of "fs_mem s" p xs m] assms(3) by auto
qed

text \<open>One step of the walk to an inode in memory takes a reference to it and gives back the one to the inode before.\<close>

lemma step_held:
  assumes "quiet s" and "held s v es q d" and "held s v es q' d'" and "d' \<noteq> []" and "q \<noteq> q'"
  shows "kbind (get_inode_struct ops v (i_num (inodes s q')) q ((with_ref q d s)\<lparr>fs_mem := m\<rparr>)) (\<lambda>(nxt, s2).
      kbind (release_unless_root ops 2 q s2) (g nxt)) = g q' ((with_ref q' d' s)\<lparr>fs_mem := m\<rparr>)"
proof -
  have "get_inode_struct ops v (i_num (inodes s q')) q ((with_ref q d s)\<lparr>fs_mem := m\<rparr>) =
      Inr (q', (with_ref q d (with_ref q' d' s))\<lparr>fs_mem := m\<rparr>)"
    using get_held [OF assms(1,3,4) refl assms(5) [symmetric]] swap_refs [OF assms(5) [symmetric] assms(4)] by metis
  moreover have "release_unless_root ops 2 q ((with_ref q d (with_ref q' d' s))\<lparr>fs_mem := m\<rparr>) = Inr ((with_ref q' d' s)\<lparr>fs_mem := m\<rparr>)"
    by (rule release_with_ref [OF quiet_with_ref [OF assms(1)] held_with_ref [OF assms(2,5)]])
  ultimately show ?thesis
    by simp
qed

lemma walk_held:
  assumes quiet: "quiet s" and mnt: "mounted s v es"
  shows "same_but_buffer s m \<Longrightarrow> bytes_at (fs_mem s) p cs \<Longrightarrow> outside_buffer s p (length cs) \<Longrightarrow> 0 \<notin> set cs \<Longrightarrow>
    length cs < 2 ^ 31 \<Longrightarrow> trail (m_archive (vfss s v)) es d (components cs) = (ds, e) \<Longrightarrow>
    \<forall>d' \<in> set ds. held s v es (nd d') d' \<Longrightarrow> inj_on nd (set ds) \<Longrightarrow>
    \<exists>m'. walk_path ops v 2 (length cs) p (nd d) ((with_ref (nd d) d s)\<lparr>fs_mem := m\<rparr>) =
        Inr ((e, if e = E_ok then Some (nd (last ds)) else None),
          (if e = E_ok then with_ref (nd (last ds)) (last ds) s else s)\<lparr>fs_mem := m'\<rparr>) \<and> same_but_buffer s m'"
proof (induction "components cs" arbitrary: cs d ds p m)
  case Nil
  then have "ds = [d]" "e = E_ok"
    by simp_all
  moreover have "bytes_at (fs_mem ((with_ref (nd d) d s)\<lparr>fs_mem := m\<rparr>)) p cs"
    using same_but_buffer_bytes [OF Nil.prems(1,3,5)] Nil.prems(2) by simp
  ultimately show ?case
    using walk_nil Nil by fastforce
next
  case (Cons name names)
  let ?A = "m_archive (vfss s v)" and ?t = "(with_ref (nd d) d s)\<lparr>fs_mem := m\<rparr>" and ?d = "full_path d name"
  have "bytes_at (fs_mem ?t) p cs"
    using same_but_buffer_bytes [OF Cons.prems(1,3,5)] Cons.prems(2) by simp
  from walk_cons [OF this Cons.hyps(2) [symmetric] Cons.prems(5), where ops = ops and v = v and r = 2 and cur = "nd d"]
  obtain cs' q where w: "components cs' = names" "name \<noteq> []" "slash_char \<notin> set name" "set name \<subseteq> set cs" "length name \<le> length cs"
      "length cs' \<le> length cs" "set cs' \<subseteq> set cs" "length (name @ cs') \<le> length cs"
      "bytes_at (fs_mem ?t) q (name @ cs')" "\<forall>a. in_range q (length (name @ cs')) a \<longrightarrow> in_range p (length cs) a"
      "walk_path ops v 2 (length cs) p (nd d) ?t =
        kbind (inode_lookup (nd d) \<lparr>data = q, length_field = of_nat (length name)\<rparr> ?t) (\<lambda>((e, found_i), s1).
        if e \<noteq> E_ok then kbind (release_unless_root ops 2 (nd d) s1) (\<lambda>s2. Inr ((e, None), s2))
        else kbind (get_inode_struct ops v found_i (nd d) s1) (\<lambda>(nxt, s2).
             kbind (release_unless_root ops 2 (nd d) s2) (walk_path ops v 2 (length cs') (q + of_nat (length name)) nxt)))"
    .
  have out: "outside_buffer s q (length (name @ cs'))"
    using Cons.prems(3) w(10) unfolding outside_buffer_def by blast
  have path: "bytes_at (fs_mem s) q (name @ cs')"
    using same_but_buffer_bytes [OF Cons.prems(1) out] w(8,9) Cons.prems(5) by simp
  have start: "d \<in> set ds" "held s v es (nd d) d"
    using trail_start [OF Cons.prems(6)] Cons.prems(7) by auto
  have len: "length (name @ cs') < 2 ^ 31"
    using w(8) Cons.prems(5) by linarith
  have "outside_buffer s q (length name)"
    using out in_range_sub [of q 0 "length name" _ "length (name @ cs')"] len by (auto simp: outside_buffer_def)
  moreover have "0 \<notin> set name"
    using w(4) Cons.prems(4) by blast
  ultimately obtain found m' where look:
    "inode_lookup (nd d) \<lparr>data = q, length_field = of_nat (length name)\<rparr> ?t =
      Inr ((if 99 < length ?d then E_path_too_long else if find_entry ?A 3 ?d es = None then E_no_entry else E_ok, found), (with_ref (nd d) d s)\<lparr>fs_mem := m'\<rparr>)"
    "same_but_buffer s m'" "\<And>a n e. length ?d \<le> 99 \<Longrightarrow> find_entry ?A 3 ?d es = Some (a, n, e) \<Longrightarrow> found = of_nat n"
    using lookup_held [OF Cons.prems(1) mnt start(2), of q name] w(9) len by auto
  show ?case
  proof (cases "99 < length ?d \<or> find_entry ?A 3 ?d es = None")
    case True
    then have tr: "ds = [d]" "e = (if 99 < length ?d then E_path_too_long else E_no_entry)" "e \<noteq> E_ok"
      using Cons.prems(6) Cons.hyps(2) [symmetric] by (auto simp: Let_def split: if_splits)
    have "release_unless_root ops 2 (nd d) ((with_ref (nd d) d s)\<lparr>fs_mem := m'\<rparr>) = Inr (s\<lparr>fs_mem := m'\<rparr>)"
      by (rule release_with_ref [OF quiet start(2)])
    then have "walk_path ops v 2 (length cs) p (nd d) ?t = Inr ((e, None), s\<lparr>fs_mem := m'\<rparr>)"
      using w(11) look(1) True tr(2,3) by (auto split: if_splits)
    with look(2) tr(3) show ?thesis
      by auto
  next
    case False
    then obtain a n x where found: "find_entry ?A 3 ?d es = Some (a, n, x)" "found = of_nat n"
      using look(3) by auto
    obtain ds' where tr: "trail ?A es ?d names = (ds', e)" "ds = d # ds'"
      using Cons.prems(6) Cons.hyps(2) [symmetric] False by (auto simp: Let_def split: prod.splits if_splits)
    have d': "?d \<in> set ds'" "held s v es (nd ?d) ?d" "?d \<noteq> []" "?d \<noteq> d"
      using trail_start [OF tr(1)] Cons.prems(7) tr(2) w(2) by (auto simp: full_path_def)
    then have "nd d \<noteq> nd ?d"
      using Cons.prems(8) tr(2) by auto
    moreover have "found = i_num (inodes s (nd ?d))"
      using d'(2,3) found by (auto simp: held_def Let_def)
    ultimately have step: "kbind (get_inode_struct ops v found (nd d) ((with_ref (nd d) d s)\<lparr>fs_mem := m'\<rparr>)) (\<lambda>(nxt, s2).
        kbind (release_unless_root ops 2 (nd d) s2) (walk_path ops v 2 (length cs') (q + of_nat (length name)) nxt)) =
        walk_path ops v 2 (length cs') (q + of_nat (length name)) (nd ?d) ((with_ref (nd ?d) ?d s)\<lparr>fs_mem := m'\<rparr>)"
      using step_held [OF quiet start(2) d'(2,3), where g = "walk_path ops v 2 (length cs') (q + of_nat (length name))"] by simp
    have "inode_lookup (nd d) \<lparr>data = q, length_field = of_nat (length name)\<rparr> ?t = Inr ((E_ok, found), (with_ref (nd d) d s)\<lparr>fs_mem := m'\<rparr>)"
      using look(1) False found(1) by simp
    then have "walk_path ops v 2 (length cs) p (nd d) ?t =
        walk_path ops v 2 (length cs') (q + of_nat (length name)) (nd ?d) ((with_ref (nd ?d) ?d s)\<lparr>fs_mem := m'\<rparr>)"
      using w(11) step by simp
    moreover have "outside_buffer s (q + of_nat (length name)) (length cs')"
      using out in_range_sub [of q "length name" "length cs'" _ "length (name @ cs')"] len by (auto simp: outside_buffer_def)
    moreover have "last ds = last ds'"
      using trail_start [OF tr(1)] tr(2) by auto
    moreover have "bytes_at (fs_mem s) (q + of_nat (length name)) cs'" "0 \<notin> set cs'" "length cs' < 2 ^ 31"
        "\<forall>d' \<in> set ds'. held s v es (nd d') d'" "inj_on nd (set ds')"
      using path w(6,7) Cons.prems(4,5,7,8) tr(2) by auto
    ultimately show ?thesis
      using Cons.hyps(1) [OF w(1) [symmetric] look(2) _ _ _ _ tr(1) [folded w(1)], of "q + of_nat (length name)"] by presburger
  qed
qed

subsection \<open>Traverse\<close>

text \<open>A path \<open>cs\<close> in memory whose longest mount point has \<open>len\<close> characters and the file system \<open>v\<close>.\<close>

definition path_below :: "'s fs_state \<Rightarrow> string_buf \<Rightarrow> u8 list \<Rightarrow> nat \<Rightarrow> u32 \<Rightarrow> bool" where
  "path_below s path cs len v \<longleftrightarrow> bytes_at (fs_mem s) (data path) cs \<and> length_field path = of_nat (length cs) \<and> cs \<noteq> [] \<and>
    length cs < 2 ^ 31 \<and> 0 \<notin> set cs \<and> outside_buffer s (data path) (length cs) \<and> len \<le> length cs \<and>
    (\<exists>f q. first_mount_point s = Some f \<and> best_mount path f s = Some (Some q, of_nat len) \<and> m_fs (mounts s q) = v)"

definition up_preempt :: "'s fs_state \<Rightarrow> 's fs_state" where
  "up_preempt s = s\<lparr>fs_sched := (fs_sched s)\<lparr>kst := preempt_up (kst (fs_sched s))\<rparr>\<rparr>"

lemma up_preempt_simps [simp]:
  "fs_mem (up_preempt s) = fs_mem s" "inodes (up_preempt s) = inodes s" "vfss (up_preempt s) = vfss s"
  "path_buf (up_preempt s) = path_buf s" "fs_objs (up_preempt s) = fs_objs s" "free_lock (up_preempt s) q = free_lock s q"
  "held (up_preempt s) v es q d = held s v es q d" "mounted (up_preempt s) v es = mounted s v es"
  "outside_buffer (up_preempt s) p n = outside_buffer s p n" "same_but_buffer (up_preempt s) m = same_but_buffer s m"
  by (simp_all add: up_preempt_def free_lock_def held_def mounted_def outside_buffer_def same_but_buffer_def Let_def)

text \<open>A task runs, outside of interrupts, and the counter of the preemption locks is far from its end.\<close>

definition may_traverse :: "'s fs_state \<Rightarrow> bool" where
  "may_traverse s \<longleftrightarrow> quiet s \<and> preempt_counter (kst (fs_sched s)) \<noteq> - 2"

lemma quiet_up:
  assumes "may_traverse s"
  shows "quiet (up_preempt s)"
proof -
  have "preempt_counter (kst (fs_sched s)) + 1 \<noteq> - 1"
    using assms by (simp add: may_traverse_def eq_diff_eq [symmetric])
  then show ?thesis
    using assms by (simp add: may_traverse_def quiet_def up_preempt_def preempt_up_def is_interrupt_context_def)
qed

lemma traverse_walk:
  assumes "may_traverse s" and "path_below s path cs len v" and "root_inode (vfss s v) = 2"
    and "ht_lookup 256 2 (vfs_table (vfss s v)) = Inr (Some root)"
    and "walk_path ops v 2 (length (drop len cs)) (data path + of_nat len) root (up_preempt s) = r"
  shows "traverse ops path s = kbind r (\<lambda>(r, s1).
    kbind (preempt_down (kst (fs_sched s1))) (\<lambda>k. Inr (r, s1\<lparr>fs_sched := (fs_sched s1)\<lparr>kst := k\<rparr>\<rparr>)))"
proof -
  obtain f q where p: "bytes_at (fs_mem s) (data path) cs" "length_field path = of_nat (length cs)" "cs \<noteq> []" "length cs < 2 ^ 31"
      "len \<le> length cs" "first_mount_point s = Some f" "best_mount path f s = Some (Some q, of_nat len)" "m_fs (mounts s q) = v"
    using assms(2) unfolding path_below_def by blast
  have "best_mount path f (up_preempt s) = best_mount path f s"
    by (simp add: best_mount_def up_preempt_def cong: if_cong)
  moreover have "unat (length_field path - of_nat len) = length (drop len cs)"
    using p(2,4,5) of_nat_diff [of len "length cs", where 'a = u32] unat_of_nat_32 [of "length cs - len"] by simp
  moreover have "length_field path \<noteq> 0"
    using p(2-4) of_nat_32_eq [of "length cs" 0] by simp
  ultimately have "traverse_locked ops path (up_preempt s) = r"
    using assms(3-5) p(6-8) by (simp add: traverse_locked_def Let_def up_preempt_def)
  then show ?thesis
    by (simp add: traverse_def up_preempt_def)
qed

lemma traverse_held_spec:
  assumes "may_traverse s" and "mounted s v es" and "path_below s path cs len v"
    and "trail (m_archive (vfss s v)) es [] (components (drop len cs)) = (ds, e)"
    and "\<forall>d \<in> set ds. held s v es (nd d) d" and "inj_on nd (set ds)"
  shows "\<exists>m'. traverse ops path s = Inr ((e, if e = E_ok then Some (nd (last ds)) else None),
      (if e = E_ok \<and> last ds \<noteq> [] then set_inode (nd (last ds)) (\<lambda>i. i\<lparr>i_rc := i_rc i + 1\<rparr>) s else s)\<lparr>fs_mem := m'\<rparr>) \<and>
    (\<forall>a. \<not> in_range (path_buf s) 400 a \<longrightarrow> m' a = fs_mem s a)"
proof -
  let ?p = "data path + of_nat len" and ?cs = "drop len cs" and ?u = "up_preempt s"
  have p: "bytes_at (fs_mem s) (data path) cs" "length cs < 2 ^ 31" "0 \<notin> set cs" "outside_buffer s (data path) (length cs)" "len \<le> length cs"
    using assms(3) by (simp_all add: path_below_def)
  have "bytes_at (fs_mem s) ?p ?cs"
    using p(1,5) bytes_at_append [of "fs_mem s" "data path" "take len cs" ?cs] by simp
  moreover have "outside_buffer s ?p (length ?cs)"
    using p(2,4,5) in_range_sub [of "data path" len "length ?cs" _ "length cs"] by (auto simp: outside_buffer_def)
  moreover have "0 \<notin> set ?cs" "length ?cs < 2 ^ 31"
    using p(2,3) by (auto dest: in_set_dropD)
  moreover have "same_but_buffer s (fs_mem s)"
    by (simp add: same_but_buffer_def)
  moreover have "mounted ?u v es" "trail (m_archive (vfss ?u v)) es [] (components ?cs) = (ds, e)" "\<forall>d \<in> set ds. held ?u v es (nd d) d"
    using assms(2,4,5) by simp_all
  ultimately obtain m' where w: "walk_path ops v 2 (length ?cs) ?p (nd []) ((with_ref (nd []) [] ?u)\<lparr>fs_mem := fs_mem s\<rparr>) =
      Inr ((e, if e = E_ok then Some (nd (last ds)) else None), (if e = E_ok then with_ref (nd (last ds)) (last ds) ?u else ?u)\<lparr>fs_mem := m'\<rparr>)"
      "same_but_buffer s m'"
    using walk_held [OF quiet_up [OF assms(1)], of v es "fs_mem s" ?p ?cs "[]" ds e nd ops] assms(6) unfolding up_preempt_simps by blast
  have "(with_ref (nd []) [] ?u)\<lparr>fs_mem := fs_mem s\<rparr> = ?u"
    by (simp add: with_ref_def up_preempt_def)
  moreover have "ht_lookup 256 2 (vfs_table (vfss s v)) = Inr (Some (nd []))"
    using assms(5) trail_start [OF assms(4)] by (auto simp: held_def Let_def dir_inode_def)
  moreover have "root_inode (vfss s v) = 2"
    using assms(2) by (simp add: mounted_def)
  ultimately have go: "traverse ops path s = kbind (Inr ((e, if e = E_ok then Some (nd (last ds)) else None),
      (if e = E_ok then with_ref (nd (last ds)) (last ds) ?u else ?u)\<lparr>fs_mem := m'\<rparr>)) (\<lambda>(r, s1).
      kbind (preempt_down (kst (fs_sched s1))) (\<lambda>k. Inr (r, s1\<lparr>fs_sched := (fs_sched s1)\<lparr>kst := k\<rparr>\<rparr>)))"
    using traverse_walk [OF assms(1,3), where root = "nd []" and ops = ops, OF _ _ refl] w(1) by simp
  have "preempt_down (preempt_up (kst (fs_sched s))) = Inr (kst (fs_sched s))"
    using assms(1) by (simp add: preempt_up_down_id may_traverse_def quiet_def)
  then have "traverse ops path s = Inr ((e, if e = E_ok then Some (nd (last ds)) else None),
      (if e = E_ok \<and> last ds \<noteq> [] then set_inode (nd (last ds)) (\<lambda>i. i\<lparr>i_rc := i_rc i + 1\<rparr>) s else s)\<lparr>fs_mem := m'\<rparr>)"
    unfolding go by (simp add: with_ref_def up_preempt_def set_inode_def)
  with w(2) show ?thesis
    by (auto simp: same_but_buffer_def)
qed

text \<open>C4: Resolving a path whose inodes are in memory: \<open>traverse\<close> ends, follows the names of the path below its longest mount
  point, and returns the inode of the last directory of the trail, or the error of the first name that is missing
  or makes the path too long. It takes one reference to the inode that it returns, but none when that is the root, and
  none when it fails; all other inodes, the scheduler and the memory outside the buffer on the stack are as before.\<close>

theorem traverse_held:
  assumes "may_traverse s" and "mounted s v es" and "path_below s path cs len v"
    and "trail (m_archive (vfss s v)) es [] (components (drop len cs)) = (ds, e)"
    and "\<forall>d \<in> set ds. held s v es (nd d) d" and "inj_on nd (set ds)"
  shows "\<exists>m'. traverse ops path s = Inr ((e, if e = E_ok then Some (nd (last ds)) else None),
      (if e = E_ok \<and> last ds \<noteq> [] then set_inode (nd (last ds)) (\<lambda>i. i\<lparr>i_rc := i_rc i + 1\<rparr>) s else s)\<lparr>fs_mem := m'\<rparr>) \<and>
    (\<forall>a. \<not> in_range (path_buf s) 400 a \<longrightarrow> m' a = fs_mem s a)"
  by (rule traverse_held_spec [OF assms])

subsection \<open>An inode that is not in memory\<close>

text \<open>A new inode for the entry \<open>e\<close> with its header at \<open>a\<close>. Its reference count is never set: it is what the memory held.\<close>

definition fresh_node :: "u32 \<Rightarrow> u32 \<Rightarrow> u32 \<Rightarrow> u32 \<Rightarrow> entry \<Rightarrow> u8 list \<Rightarrow> inode_tar \<Rightarrow> inode_tar" where
  "fresh_node v parent n a e name i = i\<lparr>owner_fs := v, i_parent_ref := Some parent, i_num := n,
     m_filename_length := of_nat (length name), m_contents := a + 512, m_contents_length := of_nat (length (e_contents e))\<rparr>"

definition enter_inode :: "u32 \<Rightarrow> u32 \<Rightarrow> u32 \<Rightarrow> inode_tar \<Rightarrow> 's hashtable \<Rightarrow> 's fs_state \<Rightarrow> 's fs_state" where
  "enter_inode v x parent i T s = s\<lparr>fs_sched := mutex_new x (fs_sched s), fs_objs := ht_alloc T,
     inodes := (inodes s)(parent := (inodes s parent)\<lparr>i_rc := i_rc (inodes s parent) + 1\<rparr>, x := i),
     vfss := (vfss s)(v := (vfss s v)\<lparr>vfs_table := T\<rparr>)\<rparr>"

lemma get_fresh:
  assumes "quiet s" and "free_lock s p" and "0 < i_rc (inodes s p)" and "i_rc (inodes s p) < 2 ^ 31 - 1"
    and "obj_new ops InodeObj (fs_objs s) = Inr (x, os)" and "x \<noteq> p"
    and "ht_lookup 256 (of_nat n) (vfs_table (vfss s v)) = Inr None"
    and "archive_at (fs_mem s) (m_archive (vfss s v)) es" and "find_entry (m_archive (vfss s v)) 3 name es = Some (a, n, e)"
    and "name \<noteq> []" and "last name \<noteq> slash_char"
    and "ht_insert 256 (obj_new ops LinkObj) (of_nat n) (Some x) ((vfs_table (vfss s v))\<lparr>ht_alloc := os\<rparr>) = Inr T"
  shows "get_inode_struct ops v (of_nat n) p s = Inr (x, enter_inode v x p (fresh_node v p (of_nat n) a e name (inodes s x)) T s)"
proof -
  let ?t = "set_inode x (\<lambda>i. i\<lparr>owner_fs := v, i_parent_ref := Some p, m_contents := 0\<rparr>)
      (s\<lparr>fs_objs := os, fs_sched := mutex_new x (fs_sched s)\<rparr>)"
  have t: "quiet ?t" "free_lock ?t p" "0 < i_rc (inodes ?t p)" "i_rc (inodes ?t p) < 2 ^ 31 - 1"
    using assms(1-4,6) by (simp_all add: quiet_def free_lock_def set_inode_def mutex_new_def lonely_def node_new_def)
  have alloc: "alloc_inode_struct ops v (of_nat n) (Some p) s =
      Inr (x, set_inode x (\<lambda>i. i\<lparr>i_num := of_nat n\<rparr>) (set_inode p (\<lambda>i. i\<lparr>i_rc := i_rc i + 1\<rparr>) ?t))"
    using take_ref_free(2) [OF t] assms(5) by (simp add: alloc_inode_struct_def inode_tar_new_def take_parent_struct_def set_inode_def)
  have b: "3 \<le> n" "n < 2 ^ 32"
    using find_entry_bounds [OF assms(9,8)] by simp_all
  then have "\<not> (of_nat n :: u32) < 3"
    by (simp add: word_less_nat_alt unat_of_nat_32)
  then have "tar_lookup_by_index (m_archive (vfss s v)) (of_nat n) out (fs_mem s) =
      Some (E_ok, \<lparr>io_filename_length = of_nat (length name), io_content = a + 512, io_file_len = of_nat (length (e_contents e))\<rparr>)" for out
    using tar_index_loop_spec [OF assms(10,11,9,8), of out] by (simp add: tar_lookup_by_index_def)
  then show ?thesis
    using assms(6,7,12) by (simp add: get_inode_struct_def alloc read_inode_def read_inode_disk_def with_table_def set_inode_def
        enter_inode_def fresh_node_def fun_upd_twist)
qed

text \<open>
  Resolving a path with one name below the mount point, to a file whose inode is not in memory: it is read from the
  archive and entered into the table, and the root gets a reference, for the new inode.
\<close>

lemma traverse_fresh:
  assumes "may_traverse s" and "mounted s v es" and "path_below s path cs len v"
    and "ht_lookup 256 2 (vfs_table (vfss s v)) = Inr (Some root)" and "owner_fs (inodes s root) = v" and "i_num (inodes s root) = 2"
    and "free_lock s root" and "0 < i_rc (inodes s root)" and "i_rc (inodes s root) < 2 ^ 31 - 1"
    and "components (drop len cs) = [name]" and "length name \<le> 99"
    and "find_entry (m_archive (vfss s v)) 3 name es = Some (a, n, e)" and "ht_lookup 256 (of_nat n) (vfs_table (vfss s v)) = Inr None"
    and "obj_new ops InodeObj (fs_objs s) = Inr (x, os)" and "x \<noteq> root"
    and "ht_insert 256 (obj_new ops LinkObj) (of_nat n) (Some x) ((vfs_table (vfss s v))\<lparr>ht_alloc := os\<rparr>) = Inr T"
  shows "\<exists>m. traverse ops path s = Inr ((E_ok, Some x),
      (enter_inode v x root (fresh_node v root (of_nat n) a e name (inodes s x)) T s)\<lparr>fs_mem := m\<rparr>) \<and> same_but_buffer s m"
proof -
  let ?p = "data path + of_nat len" and ?cs = "drop len cs" and ?u = "up_preempt s" and ?A = "m_archive (vfss s v)"
  have p: "bytes_at (fs_mem s) (data path) cs" "length cs < 2 ^ 31" "0 \<notin> set cs" "outside_buffer s (data path) (length cs)" "len \<le> length cs"
    using assms(3) by (simp_all add: path_below_def)
  have bytes: "bytes_at (fs_mem ?u) ?p ?cs"
    using p(1,5) bytes_at_append [of "fs_mem s" "data path" "take len cs" ?cs] by simp
  have "length ?cs < 2 ^ 31"
    using p(2) by simp
  from walk_cons [OF bytes assms(10) this, where ops = ops and v = v and r = 2 and cur = root]
  obtain cs' q where w: "components cs' = []" "name \<noteq> []" "slash_char \<notin> set name" "set name \<subseteq> set ?cs" "length name \<le> length ?cs"
      "length cs' \<le> length ?cs" "set cs' \<subseteq> set ?cs" "length (name @ cs') \<le> length ?cs"
      "bytes_at (fs_mem ?u) q (name @ cs')" "\<forall>a. in_range q (length (name @ cs')) a \<longrightarrow> in_range ?p (length ?cs) a"
      "walk_path ops v 2 (length ?cs) ?p root ?u =
        kbind (inode_lookup root \<lparr>data = q, length_field = of_nat (length name)\<rparr> ?u) (\<lambda>((e, found_i), s1).
        if e \<noteq> E_ok then kbind (release_unless_root ops 2 root s1) (\<lambda>s2. Inr ((e, None), s2))
        else kbind (get_inode_struct ops v found_i root s1) (\<lambda>(nxt, s2).
             kbind (release_unless_root ops 2 root s2) (walk_path ops v 2 (length cs') (q + of_nat (length name)) nxt)))"
    .
  let ?arg = "\<lparr>data = q, length_field = of_nat (length name)\<rparr>"
  have dir: "dir_inode (fs_mem s) (inodes s root) []"
    using assms(6) by (simp add: dir_inode_def)
  have arg: "bytes_at (fs_mem s) (data ?arg) name" "length_field ?arg = of_nat (length name)" "0 \<notin> set name" "length name < 2 ^ 31"
    using w(4,9) p(3) assms(11) by (auto dest: in_set_dropD)
  have apart: "\<not> in_range q (length (name @ cs')) a" if "in_range (path_buf s) 400 a" for a
    using that w(10) p(2,4,5) in_range_sub [of "data path" len "length ?cs" a "length cs"] by (auto simp: outside_buffer_def)
  have buf: "a \<notin> archive_bytes ?A es \<and> \<not> in_range (data ?arg) (length name) a \<and>
      \<not> in_range (m_contents (inodes s root) - 512) (length ([] :: u8 list)) a" if "in_range (path_buf s) 400 a" for a
  proof -
    have "\<not> in_range q (length name) a"
      using apart [OF that] by (simp add: in_range_def)
    then show ?thesis
      using that assms(2) by (simp add: mounted_def in_range_def)
  qed
  have arch: "archive_at (fs_mem s) ?A es"
    using assms(2) by (simp add: mounted_def)
  have "full_path [] name = name"
    by (simp add: full_path_def)
  then obtain o' m' where "inode_tar_lookup ?A (path_buf s) (inodes s root) ?arg \<lparr>out_inode = 0, out_content = 0, out_file_len = 0\<rparr> (fs_mem s) =
      Inr (E_ok, o', m')" "out_inode o' = of_nat n" "\<forall>a. \<not> in_range (path_buf s) 400 a \<longrightarrow> m' a = fs_mem s a"
    using inode_lookup_spec [OF arch dir arg buf, where out = "\<lparr>out_inode = 0, out_content = 0, out_file_len = 0\<rparr>"] assms(11,12) by force
  then have look: "inode_lookup root ?arg ?u = Inr ((E_ok, of_nat n), ?u\<lparr>fs_mem := m'\<rparr>)" and same: "same_but_buffer s m'"
    using assms(5) by (simp_all add: inode_lookup_def same_but_buffer_def)
  let ?t = "?u\<lparr>fs_mem := m'\<rparr>"
  let ?i = "fresh_node v root (of_nat n) a e name (inodes s x)"
  have "archive_at m' ?A es"
    using arch same assms(2) archive_frame unfolding mounted_def same_but_buffer_def by blast
  then have t: "archive_at (fs_mem ?t) (m_archive (vfss ?t v)) es" "find_entry (m_archive (vfss ?t v)) 3 name es = Some (a, n, e)"
    using assms(12) by simp_all
  have t2: "quiet ?t" "free_lock ?t root" "0 < i_rc (inodes ?t root)" "i_rc (inodes ?t root) < 2 ^ 31 - 1"
      "obj_new ops InodeObj (fs_objs ?t) = Inr (x, os)" "ht_lookup 256 (of_nat n) (vfs_table (vfss ?t v)) = Inr None"
      "ht_insert 256 (obj_new ops LinkObj) (of_nat n) (Some x) ((vfs_table (vfss ?t v))\<lparr>ht_alloc := os\<rparr>) = Inr T"
    using quiet_up [OF assms(1)] assms(7-9,13,14,16) by (simp_all add: quiet_def free_lock_def up_preempt_def)
  have "last name \<noteq> slash_char"
    using w(2,3) last_in_set by metis
  then have get: "get_inode_struct ops v (of_nat n) root ?t = Inr (x, enter_inode v x root ?i T ?t)"
    using get_fresh [OF t2(1-5) assms(15) t2(6) t w(2) _ t2(7)] by simp
  let ?w = "enter_inode v x root ?i T ?t"
  have "i_num (inodes ?w root) = 2"
    using assms(6,15) by (simp add: enter_inode_def)
  then have rel: "release_unless_root ops 2 root ?w = Inr ?w"
    by (simp add: release_unless_root_def)
  have "m' a = fs_mem s a" if "in_range q (length (name @ cs')) a" for a
    using apart that same unfolding same_but_buffer_def by blast
  then have "bytes_at m' q (name @ cs')"
    using bytes_at_frame [of "fs_mem s" q "name @ cs'" m'] w(8,9) p(2) by simp
  then have "bytes_at (fs_mem ?w) (q + of_nat (length name)) cs'"
    by (simp add: bytes_at_append enter_inode_def)
  then have "walk_path ops v 2 (length cs') (q + of_nat (length name)) x ?w = Inr ((E_ok, Some x), ?w)"
    by (rule walk_nil [OF _ w(1)])
  then have go: "walk_path ops v 2 (length ?cs) ?p root ?u = Inr ((E_ok, Some x), ?w)"
    using w(11) look get rel by simp
  have "root_inode (vfss s v) = 2"
    using assms(2) by (simp add: mounted_def)
  then have "traverse ops path s = kbind (Inr ((E_ok, Some x), ?w)) (\<lambda>(r, s1).
      kbind (preempt_down (kst (fs_sched s1))) (\<lambda>k. Inr (r, s1\<lparr>fs_sched := (fs_sched s1)\<lparr>kst := k\<rparr>\<rparr>)))"
    using traverse_walk [OF assms(1,3) _ assms(4) go] by simp
  moreover have "preempt_down (preempt_up (kst (fs_sched s))) = Inr (kst (fs_sched s))"
    using assms(1) by (simp add: preempt_up_down_id may_traverse_def quiet_def)
  ultimately show ?thesis
    using same by (intro exI [of _ m']) (simp add: enter_inode_def up_preempt_def mutex_new_def)
qed

subsection \<open>The references of the root\<close>

lemma lookup_alone:
  assumes "ring (ht_links t) (ArrLink (hash N k)) []"
  shows "lookup_internal k (hash N k) t = Inr (if ht_key t (ArrLink (hash N k)) = k then Some (ArrLink (hash N k)) else None)"
    and "ht_lookup N k t = Inr (if ht_key t (ArrLink (hash N k)) = k then ht_obj t (ArrLink (hash N k)) else None)"
  using ring_find_eq [OF assms, of "\<lambda>p. ht_key t p = k"] by (simp_all add: lookup_internal_def ht_lookup_def)

text \<open>A caller that resolves a path and releases the inode it gets, \<open>n\<close> times.\<close>

primrec resolve_rounds :: "'s obj_ops \<Rightarrow> string_buf \<Rightarrow> nat \<Rightarrow> 's fs_state \<Rightarrow> 's fs_state res" where
  "resolve_rounds ops path 0 s = Inr s"
| "resolve_rounds ops path (Suc n) s =
    kbind (traverse ops path s) (\<lambda>((e, a), s1).
    kbind (case a of None \<Rightarrow> Inr s1 | Some q \<Rightarrow> inode_release ops q s1) (resolve_rounds ops path n))"

text \<open>The root \<open>root\<close> of the file system \<open>v\<close>, alone in its bucket of the table, and a path to it.\<close>

definition root_alone :: "'s fs_state \<Rightarrow> string_buf \<Rightarrow> u32 \<Rightarrow> u32 \<Rightarrow> bool" where
  "root_alone s path v root \<longleftrightarrow> may_traverse s \<and> free_lock s root \<and> root_inode (vfss s v) = 2 \<and>
    ring (ht_links (vfs_table (vfss s v))) (ArrLink (hash 256 2)) [] \<and> ht_key (vfs_table (vfss s v)) (ArrLink (hash 256 2)) = 2 \<and>
    ht_obj (vfs_table (vfss s v)) (ArrLink (hash 256 2)) = Some root \<and>
    i_num (inodes s root) = 2 \<and> owner_fs (inodes s root) = v \<and> i_parent_ref (inodes s root) = None \<and>
    (\<exists>cs len. path_below s path cs len v \<and> components (drop len cs) = [])"

lemma path_below_set_inode [simp]: "path_below (set_inode q f s) path cs len v = path_below s path cs len v"
  by (simp add: path_below_def best_mount_def outside_buffer_def set_inode_def cong: if_cong)

lemma root_alone_set_rc: "root_alone (set_inode root (\<lambda>i. i\<lparr>i_rc := i_rc i - 1\<rparr>) s) path v root = root_alone s path v root"
  unfolding root_alone_def path_below_set_inode by (simp add: set_inode_def may_traverse_def quiet_def free_lock_def)

lemma traverse_root:
  assumes "root_alone s path v root"
  shows "traverse ops path s = Inr ((E_ok, Some root), s)"
proof -
  obtain cs len where p: "path_below s path cs len v" "components (drop len cs) = []"
    using assms by (auto simp: root_alone_def)
  have r: "may_traverse s" "root_inode (vfss s v) = 2" "ht_lookup 256 2 (vfs_table (vfss s v)) = Inr (Some root)"
    using assms lookup_alone(2) [of "vfs_table (vfss s v)" 256 2] by (simp_all add: root_alone_def)
  have "bytes_at (fs_mem (up_preempt s)) (data path + of_nat len) (drop len cs)"
    using p(1) bytes_at_append [of "fs_mem s" "data path" "take len cs" "drop len cs"] by (simp add: path_below_def)
  then have "walk_path ops v 2 (length (drop len cs)) (data path + of_nat len) root (up_preempt s) = Inr ((E_ok, Some root), up_preempt s)"
    by (rule walk_nil [OF _ p(2)])
  then have "traverse ops path s = kbind (Inr ((E_ok, Some root), up_preempt s)) (\<lambda>(r, s1).
      kbind (preempt_down (kst (fs_sched s1))) (\<lambda>k. Inr (r, s1\<lparr>fs_sched := (fs_sched s1)\<lparr>kst := k\<rparr>\<rparr>)))"
    by (intro traverse_walk [OF r(1) p(1) r(2,3)])
  then show ?thesis
    using r(1) by (simp add: up_preempt_def preempt_up_down_id may_traverse_def quiet_def)
qed

lemma last_release:
  assumes ra: "root_alone s path v root" and one: "i_rc (inodes s root) = 1" and del: "obj_del ops InodeObj root (fs_objs s) = Inr os"
  shows "\<exists>s'. inode_release ops root s = Inr s' \<and> fs_objs s' = os \<and> ht_lookup 256 2 (vfs_table (vfss s' v)) = Inr None \<and>
    (\<forall>path' cs len. path_below s path' cs len v \<longrightarrow> traverse ops path' s' = Inl KAssert)"
proof -
  let ?T = "(vfs_table (vfss s v))\<lparr>ht_alloc := fs_objs s\<rparr>" and ?h = "ArrLink (hash 256 2)"
  let ?T' = "?T\<lparr>ht_obj := (ht_obj ?T)(?h := None)\<rparr>"
  let ?s1 = "set_inode root (\<lambda>i. i\<lparr>i_rc := i_rc i - 1\<rparr>) s"
  let ?s2 = "?s1\<lparr>vfss := (vfss s)(v := (vfss s v)\<lparr>vfs_table := ?T'\<rparr>), fs_objs := os\<rparr>"
  have r: "quiet s" "free_lock s root" "root_inode (vfss s v) = 2" "ring (ht_links (vfs_table (vfss s v))) ?h []"
      "ht_key (vfs_table (vfss s v)) ?h = 2" "i_num (inodes s root) = 2" "owner_fs (inodes s root) = v" "i_parent_ref (inodes s root) = None"
    using ra by (simp_all add: root_alone_def may_traverse_def)
  have "release_ref_locked root s = Inr (True, ?s1)"
    using release_ref_free [OF r(1,2)] one by simp
  moreover have "ht_remove 256 (obj_del ops LinkObj) 2 ?T = Inr (True, ?T')"
    using lookup_alone(1) [of ?T 256 2] r(4,5) ring_ends(1) [OF r(4)] by (simp add: ht_remove_def Let_def get_next_def)
  then have "with_table v (ht_remove 256 (obj_del ops LinkObj) 2) ?s1 =
      Inr (True, ?s1\<lparr>vfss := (vfss s)(v := (vfss s v)\<lparr>vfs_table := ?T'\<rparr>), fs_objs := fs_objs s\<rparr>)"
    by (simp add: with_table_def set_inode_def)
  moreover have "m_owner (fs_sched s) root = None"
    using r(2) by (simp add: free_lock_def)
  ultimately have release: "inode_release ops root s = Inr ?s2"
    using r(6-8) del by (simp add: inode_release_def release_chain.simps free_inode_struct_def mutex_destroy_def kassert_def set_inode_def)
  have none: "ht_lookup 256 2 ?T' = Inr None"
    using lookup_alone(2) [of ?T' 256 2] r(4) by simp
  have "traverse ops path' ?s2 = Inl KAssert" if pb: "path_below s path' cs len v" for path' cs len
  proof -
    obtain f q where p: "length_field path' \<noteq> 0" "first_mount_point s = Some f" "best_mount path' f s = Some (Some q, of_nat len)" "m_fs (mounts s q) = v"
      using pb of_nat_32_eq [of "length cs" 0] by (auto simp: path_below_def)
    have "best_mount path' f (up_preempt ?s2) = best_mount path' f s"
      by (simp add: best_mount_def up_preempt_def set_inode_def cong: if_cong)
    then have "traverse_locked ops path' (up_preempt ?s2) = Inl KAssert"
      using p r(3) none by (simp add: traverse_locked_def Let_def up_preempt_def set_inode_def)
    then show ?thesis
      by (simp add: traverse_def up_preempt_def)
  qed
  with release none show ?thesis
    by (intro exI [of _ ?s2]) simp
qed

lemma resolve_rounds_root:
  "root_alone s path v root \<Longrightarrow> i_rc (inodes s root) = int (Suc n) \<Longrightarrow> obj_del ops InodeObj root (fs_objs s) = Inr os \<Longrightarrow>
    \<exists>s'. resolve_rounds ops path (Suc n) s = Inr s' \<and> fs_objs s' = os \<and> ht_lookup 256 2 (vfs_table (vfss s' v)) = Inr None \<and>
      (\<forall>path' cs len. path_below s path' cs len v \<longrightarrow> traverse ops path' s' = Inl KAssert)"
proof (induction n arbitrary: s)
  case 0
  then show ?case
    using last_release [OF 0(1) _ 0(3)] traverse_root [OF 0(1), of ops] by auto
next
  case (Suc n)
  let ?s1 = "set_inode root (\<lambda>i. i\<lparr>i_rc := i_rc i - 1\<rparr>) s"
  have "inode_release ops root s = Inr ?s1"
    using Suc.prems(1,2) by (intro inode_release_shared) (auto simp: root_alone_def may_traverse_def)
  then have run: "resolve_rounds ops path (Suc (Suc n)) s = resolve_rounds ops path (Suc n) ?s1"
    using traverse_root [OF Suc.prems(1), of ops] by simp
  have "root_alone ?s1 path v root" "i_rc (inodes ?s1 root) = int (Suc n)" "obj_del ops InodeObj root (fs_objs ?s1) = Inr os"
    using Suc.prems by (simp_all only: root_alone_set_rc) (simp_all add: set_inode_def)
  from Suc.IH [OF this] show ?case
    unfolding run path_below_set_inode .
qed

text \<open>C21: A caller has to release the inode that \<open>traverse\<close> gives it, but \<open>traverse\<close> takes no reference for the root, so each
  round of resolving a path to the root and releasing the result loses a reference of the root. When nobody else uses the
  root and it is alone in its bucket of the table, then after as many rounds as its reference count, whatever that is, the
  root inode is freed and out of the table, and resolving any path of the file system stops the kernel with an assertion.\<close>

theorem root_release_breaks_mount:
  assumes "root_alone s path v root" and "i_rc (inodes s root) = int n" and "0 < n" and "obj_del ops InodeObj root (fs_objs s) = Inr os"
  shows "\<exists>s'. resolve_rounds ops path n s = Inr s' \<and> fs_objs s' = os \<and> ht_lookup 256 2 (vfs_table (vfss s' v)) = Inr None \<and>
    (\<forall>path' cs len. path_below s path' cs len v \<longrightarrow> traverse ops path' s' = Inl KAssert)"
  using resolve_rounds_root [OF assms(1) _ assms(4), of "n - 1"] assms(2,3) by simp

subsection \<open>Mounting the initial ramdisk\<close>

lemma fresh_table:
  fixes T :: "'s hashtable"
  defines "h \<equiv> ArrLink (hash 256 2)"
  assumes T: "T = (hashtable_new 256 T0)\<lparr>ht_alloc := a, ht_key := (ht_key (hashtable_new 256 T0))(h := 2), ht_obj := (ht_obj (hashtable_new 256 T0))(h := Some root)\<rparr>"
  shows "ring (ht_links T) h []" and "ht_key T h = 2" and "ht_obj T h = Some root"
    and "ht_lookup 256 k T = Inr (if k = 2 then Some root else None)"
    and "ht_obj T (ArrLink (hash 256 k)) = (if hash 256 k = hash 256 2 then Some root else None)"
proof -
  have less: "hash 256 k < 256" for k
    using hash_less [of 256 8 k] by simp
  have ring: "ring (ht_links T) (ArrLink (hash 256 k)) []" for k
    using hashtable_new_links [OF less, of T0] by (simp add: T)
  show "ring (ht_links T) h []" "ht_key T h = 2" "ht_obj T h = Some root"
    using ring [of 2] by (simp_all add: T h_def)
  have none: "ht_obj T (ArrLink (hash 256 k)) = None" if "hash 256 k \<noteq> hash 256 2"
    using hashtable_new_links [OF less, of T0 k] that by (simp add: T h_def)
  then show "ht_obj T (ArrLink (hash 256 k)) = (if hash 256 k = hash 256 2 then Some root else None)"
    by (simp add: T h_def)
  from none show "ht_lookup 256 k T = Inr (if k = 2 then Some root else None)"
    using lookup_alone(2) [OF ring, of k] by (cases "hash 256 k = hash 256 2") (auto simp: T h_def)
qed

text \<open>Entering an inode into that table takes a link of the heap only in the bucket of the root.\<close>

lemma insert_beside_root:
  assumes "ht_obj t (ArrLink (hash 256 k)) = (if hash 256 k = hash 256 2 then Some root else None)"
    and "if hash 256 k = hash 256 2 then new_link (ht_alloc t) = Inr (l, os) else os = ht_alloc t"
  obtains T where "ht_insert 256 new_link k (Some x) t = Inr T" "ht_alloc T = os"
  using assms by (cases "hash 256 k = hash 256 2") (simp_all add: ht_insert_def kassert_def Let_def ht_link_new_def)

text \<open>Registering the archive of the initial ramdisk when nothing is mounted, below a name of less than 400 characters that does
  not end in a slash: afterwards there is one mount point with that name, whose file system has the archive and a table with only
  the root inode, under number 2, unlocked and without a parent. The reference count of the root is still what
  its memory held before.\<close>

lemma register_initrd_spec:
  assumes "first_mount_point s = None" and "bytes_at (fs_mem s) (data path) name" and "length_field path = of_nat (length name)"
    and "0 < length name" and "length name < 400" and "length name = 1 \<or> last name \<noteq> slash_char"
    and "obj_new ops TableObj (fs_objs s) = Inr (tbl, o1)" and "obj_new ops InodeObj o1 = Inr (root, o2)" and "obj_new ops MountObj o2 = Inr (q, o3)"
  shows "\<exists>s'. register_initrd ops initrd v path s = Inr s' \<and> first_mount_point s' = Some q \<and> ring (mount_links s') q [] \<and>
    mount_named (mounts s' q) name \<and> m_fs (mounts s' q) = v \<and> m_archive (vfss s' v) = initrd \<and> root_inode (vfss s' v) = 2 \<and>
    (\<forall>k. ht_lookup 256 k (vfs_table (vfss s' v)) = Inr (if k = 2 then Some root else None)) \<and>
    (\<forall>k. ht_obj (vfs_table (vfss s' v)) (ArrLink (hash 256 k)) = (if hash 256 k = hash 256 2 then Some root else None)) \<and>
    (\<forall>y. y \<noteq> root \<longrightarrow> inodes s' y = inodes s y) \<and> i_num (inodes s' root) = 2 \<and> owner_fs (inodes s' root) = v \<and> i_parent_ref (inodes s' root) = None \<and> free_lock s' root \<and>
    i_rc (inodes s' root) = i_rc (inodes s root) \<and> fs_mem s' = fs_mem s \<and> fs_objs s' = o3 \<and>
    fs_sched s' = mutex_new root (fs_sched s) \<and> path_buf s' = path_buf s"
proof -
  let ?base = "vfs_table (vfss s v)" and ?h = "ArrLink (hash 256 2)"
  let ?T = "(hashtable_new 256 ?base)\<lparr>ht_alloc := o2, ht_key := (ht_key (hashtable_new 256 ?base))(?h := 2),
      ht_obj := (ht_obj (hashtable_new 256 ?base))(?h := Some root)\<rparr>"
  let ?mp = "\<lparr>m_path = name @ [0], m_path_length = of_nat (length name), m_fs = v\<rparr>"
  let ?root = "(inodes s root)\<lparr>owner_fs := v, i_parent_ref := None, m_contents := 0, i_num := 2\<rparr>"
  have u: "unat (of_nat (length name) :: u32) = length name"
    using assms(5) by (simp add: unat_of_nat_32)
  have len: "(of_nat (length name) :: u32) < path_name_max" "(of_nat (length name) :: u32) \<noteq> 0" "(of_nat (length name) :: u32) = 1 \<longleftrightarrow> length name = 1"
    using assms(4,5) u by (simp_all add: path_name_max_def word_less_nat_alt word_unat_eq_iff)
  have "(of_nat (length name) - 1 :: u32) = of_nat (length name - 1)"
    using assms(4) by (cases name) simp_all
  moreover have "fs_mem s (data path + of_nat (length name - 1)) = name ! (length name - 1)"
    using assms(2,4) unfolding bytes_at_def by simp
  ultimately have "fs_mem s (data path + (of_nat (length name) - 1)) = last name"
    using assms(4) last_conv_nth [of name] by (simp only: length_greater_0_conv simp_thms)
  moreover have "map (\<lambda>i. fs_mem s (data path + of_nat i)) [0..<length name] = name"
    using assms(2) by (intro nth_equalityI) (simp_all add: bytes_at_def)
  ultimately have mp: "mount_point_new path v (fs_mem s) = Inr ?mp"
    using len assms(3,6) u by (auto simp: mount_point_new_def kassert_def)
  have less: "hash 256 2 < 256"
    using hash_less [of 256 8 2] by simp
  have insert: "ht_insert 256 (obj_new ops LinkObj) 2 (Some root) ((hashtable_new 256 ?base)\<lparr>ht_alloc := o2\<rparr>) = Inr ?T"
    using hashtable_new_links [OF less, of ?base] by (simp add: ht_insert_def kassert_def Let_def)
  let ?s' = "s\<lparr>fs_sched := mutex_new root (fs_sched s), inodes := (inodes s)(root := ?root),
      vfss := (vfss s)(v := (vfss s v)\<lparr>root_inode := 2, m_archive := initrd, vfs_table := ?T\<rparr>), fs_objs := o3,
      mounts := (mounts s)(q := ?mp), mount_links := node_new q (mount_links s), first_mount_point := Some q\<rparr>"
  have "register_initrd ops initrd v path s = Inr ?s'"
    using assms(1,7-9) mp insert
    by (simp add: register_initrd_def mount_def Let_def alloc_root_inode_struct_def alloc_inode_struct_def inode_tar_new_def
        take_parent_struct_def set_inode_def with_table_def)
  moreover have "free_lock ?s' root"
    by (simp add: free_lock_def mutex_new_def lonely_def node_new_def)
  moreover have "ht_lookup 256 k ?T = Inr (if k = 2 then Some root else None)" for k
    by (rule fresh_table(4)) (rule refl)
  moreover have "ht_obj ?T (ArrLink (hash 256 k)) = (if hash 256 k = hash 256 2 then Some root else None)" for k
    by (rule fresh_table(5)) (rule refl)
  ultimately show ?thesis
    using assms(4,5) by (intro exI [of _ ?s']) (simp add: ring_new mount_named_def)
qed

subsection \<open>The example\<close>

text \<open>The path \<^verbatim>\<open>/a\<close> at \<open>0x4FFF\<close>, and the path \<^verbatim>\<open>/\<close> there.\<close>

lemma demo_hash: "hash 256 2 = 142" "hash 256 3 = 213"
  by (simp_all add: hash_def)

lemma demo_bucket: "h < 256 \<Longrightarrow> ring (ht_links (demo_table dir)) (ArrLink h) []"
  by (simp add: demo_table_def Let_def hashtable_new_links)

lemma demo_entry: "ht_key (demo_table dir) (ArrLink 142) = 2" "ht_obj (demo_table dir) (ArrLink 142) = Some 0x900"
  by (simp_all add: demo_table_def Let_def)

lemma demo_root: "inodes (demo_fs rc dir) 0x900 =
    \<lparr>i_rc = rc, owner_fs = 5, i_parent_ref = None, i_num = 2, m_contents = 0, m_contents_length = 0, m_filename_length = 0\<rparr>"
  by (simp add: demo_fs_def)

lemma demo_lookup: "ht_lookup 256 2 (demo_table dir) = Inr (Some 0x900)" "ht_lookup 256 3 (demo_table dir) = Inr dir"
proof -
  show "ht_lookup 256 2 (demo_table dir) = Inr (Some 0x900)"
    using lookup_alone(2) [of "demo_table dir" 256 2] demo_bucket by (simp add: demo_hash) (simp add: demo_table_def)
  show "ht_lookup 256 3 (demo_table dir) = Inr dir"
    using lookup_alone(2) [of "demo_table dir" 256 3] demo_bucket by (simp add: demo_hash) (simp add: demo_table_def)
qed

lemma demo_may_traverse: "may_traverse (demo_fs rc dir)"
  using demo_fs_quiet by (simp add: may_traverse_def)

lemma demo_vfss: "vfss (demo_fs rc dir) v = \<lparr>vfs_table = demo_table dir, root_inode = 2, m_archive = 0x1000\<rparr>"
  by (simp add: demo_fs_def)

lemma demo_mounted: "mounted (demo_fs rc dir) v demo_files"
proof -
  have "in_range 0x7000 400 a \<Longrightarrow> a \<notin> archive_bytes 0x1000 demo_files" for a
    using ranges_apart [of "0x1000" 1024 a "0x7000" 400] ranges_apart [of "0x1400" 512 a "0x7000" 400] by (auto simp: entry_size_def)
  then show ?thesis
    using demo_archive by (simp add: mounted_def demo_vfss) (simp add: demo_fs_def)
qed

lemma demo_outside:
  assumes "unat p + n \<le> 0x7000"
  shows "outside_buffer (demo_fs rc dir) p n"
proof -
  have "in_range 0x7000 400 a \<Longrightarrow> \<not> in_range p n a" for a
    using ranges_apart [of p n a "0x7000" 400] assms by auto
  then show ?thesis
    by (simp add: outside_buffer_def demo_fs_def)
qed

lemma demo_best: "0 < n \<Longrightarrow> n < 100 \<Longrightarrow> best_mount \<lparr>data = 0x4FFF, length_field = of_nat n\<rparr> 0x700 (demo_fs rc dir) = Some (Some 0x700, 1)"
proof -
  assume n: "0 < n" "n < 100"
  have "ring (mount_links (demo_fs rc dir)) 0x700 []"
    by (simp add: demo_fs_def ring_new)
  then have "ring_fold (mount_links (demo_fs rc dir)) g 0x700 b = Some (g 0x700 b)" for g and b :: "u32 option \<times> u32"
    using ring_fold_eq [of _ "0x700" "[]"] by simp
  moreover have "\<not> (of_nat n :: u32) < 1"
    using n unat_of_nat_32 [of n] by (simp add: word_less_nat_alt)
  ultimately show ?thesis
    unfolding best_mount_def by (simp add: better_mount_def mount_matches_def) (simp add: demo_fs_def demo_mem_def)
qed

lemma demo_path: "cs = [47] \<or> cs = [47, 97] \<Longrightarrow> path_below (demo_fs rc dir) \<lparr>data = 0x4FFF, length_field = of_nat (length cs)\<rparr> cs 1 5"
proof -
  assume cs: "cs = [47] \<or> cs = [47, 97]"
  then have "best_mount \<lparr>data = 0x4FFF, length_field = of_nat (length cs)\<rparr> 0x700 (demo_fs rc dir) = Some (Some 0x700, 1)"
    by (intro demo_best) auto
  moreover have "outside_buffer (demo_fs rc dir) 0x4FFF (length cs)"
    using cs by (intro demo_outside) auto
  moreover have "first_mount_point (demo_fs rc dir) = Some 0x700" "m_fs (mounts (demo_fs rc dir) 0x700) = 5"
    by (simp_all add: demo_fs_def)
  moreover have "bytes_at (fs_mem (demo_fs rc dir)) 0x4FFF cs"
    using cs by (auto simp: demo_fs_def demo_mem_def)
  ultimately show ?thesis
    using cs unfolding path_below_def by auto
qed

lemma demo_components: "components [] = []" "components [97] = [[97]]"
  by (simp_all add: components.simps [of "[]"] components.simps [of "[97]"] slash_char_def)

lemma demo_trail: "trail (m_archive (vfss (demo_fs rc dir) 5)) demo_files [] (components (drop 1 [47, 97])) = ([[], [97]], E_ok)"
  using demo_find(2) by (simp add: demo_components demo_vfss full_path_def)

lemma demo_held:
  "\<forall>d \<in> set [[], [97]]. held (demo_fs 1 (Some 0x910)) 5 demo_files (if d = [] then 0x900 else 0x910) d"
proof -
  let ?s = "demo_fs 1 (Some 0x910)"
  have "held ?s 5 demo_files 0x900 []"
    by (simp add: held_def demo_vfss demo_fs_quiet demo_outside demo_lookup dir_inode_def) (simp add: demo_fs_def demo_lookup outside_buffer_def in_range_def)
  moreover have "held ?s 5 demo_files 0x910 [97]"
    using demo_find(2) demo_outside [of "0x1000" 1]
    by (simp add: held_def demo_vfss demo_fs_quiet dir_inode_def) (simp add: demo_fs_def demo_lookup demo_mem_def slash_char_def)
  ultimately show ?thesis
    by simp
qed

theorem traverse_held_witness:
  "\<exists>m'. traverse demo_ops \<lparr>data = 0x4FFF, length_field = 2\<rparr> (demo_fs 1 (Some 0x910)) =
    Inr ((E_ok, Some 0x910), (set_inode 0x910 (\<lambda>i. i\<lparr>i_rc := i_rc i + 1\<rparr>) (demo_fs 1 (Some 0x910)))\<lparr>fs_mem := m'\<rparr>)"
  using traverse_held [OF demo_may_traverse demo_mounted demo_path demo_trail demo_held, of demo_ops] by (fastforce simp: inj_on_def)

theorem root_release_breaks_mount_witness:
  "\<exists>s'. resolve_rounds demo_ops \<lparr>data = 0x4FFF, length_field = 1\<rparr> 0x41414141 (demo_fs 0x41414141 None) = Inr s' \<and>
    traverse demo_ops \<lparr>data = 0x4FFF, length_field = 2\<rparr> s' = Inl KAssert"
proof -
  let ?s = "demo_fs 0x41414141 None"
  have path: "path_below ?s \<lparr>data = 0x4FFF, length_field = 1\<rparr> [47] 1 5" "path_below ?s \<lparr>data = 0x4FFF, length_field = 2\<rparr> [47, 97] 1 5"
    using demo_path [of "[47]" "0x41414141" None] demo_path [of "[47, 97]" "0x41414141" None] by simp_all
  have "\<exists>cs len. path_below ?s \<lparr>data = 0x4FFF, length_field = 1\<rparr> cs len 5 \<and> components (drop len cs) = []"
    using path(1) by (intro exI [of _ "[47]"] exI [of _ 1]) (simp add: demo_components)
  then have "root_alone ?s \<lparr>data = 0x4FFF, length_field = 1\<rparr> 5 0x900"
    using demo_may_traverse demo_fs_quiet(3) demo_bucket [of 142 None]
    unfolding root_alone_def demo_vfss demo_hash demo_root vfs.simps demo_entry inode.simps inode_tar.simps by auto
  moreover have "obj_del demo_ops InodeObj 0x900 (fs_objs ?s) = Inr 0x8000"
    by (simp add: demo_ops_def demo_fs_def)
  moreover have "i_rc (inodes ?s 0x900) = int 0x41414141"
    by (simp add: demo_root)
  ultimately show ?thesis
    using root_release_breaks_mount [of ?s "\<lparr>data = 0x4FFF, length_field = 1\<rparr>" 5 "0x900" "0x41414141" demo_ops "0x8000"] path(2)
    by (auto simp del: resolve_rounds.simps)
qed

lemma register_initrd_example:
  "\<exists>s'. register_initrd demo_ops 0x1000 5 \<lparr>data = 0x4FFF, length_field = 1\<rparr> ((demo_fs 0 None)\<lparr>first_mount_point := None\<rparr>) = Inr s' \<and>
    first_mount_point s' = Some 0x8200 \<and> ht_lookup 256 2 (vfs_table (vfss s' 5)) = Inr (Some 0x8100)"
proof -
  let ?s = "(demo_fs 0 None)\<lparr>first_mount_point := None\<rparr>"
  have "first_mount_point ?s = None" "bytes_at (fs_mem ?s) 0x4FFF [47]" "fs_objs ?s = 0x8000"
    by (simp_all add: demo_fs_def demo_mem_def)
  then show ?thesis
    using register_initrd_spec [of ?s "\<lparr>data = 0x4FFF, length_field = 1\<rparr>" "[47]" demo_ops "0x8000" "0x8100" "0x8100" "0x8200" "0x8200" "0x8300" "0x1000" 5]
    by (auto simp: demo_ops_def)
qed

end
