(* ===== verification/Elf.thy ===== *)
theory Elf
  imports Vfs
begin

section \<open>Loading programs\<close>

text \<open>
  \<^verbatim>\<open>kernel/scheduler/elf.cpp\<close>: the header of an ELF file, its program headers, and the loading of the segments into
  new pages. \<open>fs_mem\<close> is memory as the CPU addresses it; mapping a page replaces the bytes of its range by those of the
  physical page. The headers are read into buffers on the stack, whose addresses are arguments. Errors are
  the numbers that the code returns, 0 for \<^verbatim>\<open>errno::ok\<close>. The log output is left out.
\<close>

subsection \<open>Headers\<close>

definition load16 :: "mem \<Rightarrow> u32 \<Rightarrow> u16" where
  "load16 m a = ucast (m a) OR push_bit 8 (ucast (m (a + 1)))"

record elf32_phdr =
  p_type :: u32
  p_offset :: u32
  p_vaddr :: u32
  p_paddr :: u32
  p_filesz :: u32
  p_memsz :: u32
  p_flags :: u32
  p_align :: u32

definition sizeof_phdr :: nat where
  "sizeof_phdr = 32"

definition phdr_at :: "mem \<Rightarrow> u32 \<Rightarrow> elf32_phdr" where
  "phdr_at m p = \<lparr>p_type = load32 m p, p_offset = load32 m (p + 4), p_vaddr = load32 m (p + 8), p_paddr = load32 m (p + 12),
     p_filesz = load32 m (p + 16), p_memsz = load32 m (p + 20), p_flags = load32 m (p + 24), p_align = load32 m (p + 28)\<rparr>"

definition pt_load :: u32 where
  "pt_load = 1"

definition pf_w :: u32 where
  "pf_w = 2"

text \<open>The fields of \<^verbatim>\<open>Elf_Ehdr\<close> that the loader uses, after the 16 bytes of \<^verbatim>\<open>e_ident\<close>.\<close>

record elf_ehdr =
  e_type :: u16
  e_machine :: u16
  e_entry :: u32
  e_phoff :: u32
  e_phentsize :: u16
  e_phnum :: u16

definition sizeof_ehdr :: nat where
  "sizeof_ehdr = 52"

definition ehdr_at :: "mem \<Rightarrow> u32 \<Rightarrow> elf_ehdr" where
  "ehdr_at m p = \<lparr>e_type = load16 m (p + 16), e_machine = load16 m (p + 18), e_entry = load32 m (p + 24), e_phoff = load32 m (p + 28),
     e_phentsize = load16 m (p + 42), e_phnum = load16 m (p + 44)\<rparr>"

text \<open>\<open>check_magic\<close> assigns its result to the first byte of the header instead of comparing it.\<close>

definition check_magic :: "u32 \<Rightarrow> mem \<Rightarrow> bool \<times> mem" where
  "check_magic p m =
    (let r = m (p + 1) = 69 \<and> m (p + 2) = 76 \<and> m (p + 3) = 70
     in (r, m(p := if r then 1 else 0)))"

definition check_supported :: "u32 \<Rightarrow> mem \<Rightarrow> bool \<times> mem" where
  "check_supported p m0 =
    (let (magic, m) = check_magic p m0
     in (magic \<and> m (p + 4) = 1 \<and> m (p + 5) = 1 \<and> e_machine (ehdr_at m p) = 3 \<and> m (p + 6) = 1 \<and> e_type (ehdr_at m p) = 2, m))"

subsection \<open>Reading\<close>

text \<open>The three loops that call \<open>pread\<close> until \<open>amount\<close> bytes from \<open>off\<close> on are at \<open>base\<close>.\<close>

function read_loop :: "u32 \<Rightarrow> u32 \<Rightarrow> nat \<Rightarrow> u64 \<Rightarrow> nat \<Rightarrow> (int, 's) fop" where
  "read_loop f base amount off pos s =
    (if pos < amount then
       kbind (file_pread f (base + of_nat pos) (of_nat (amount - pos)) (off + of_nat pos) s) (\<lambda>(r, s1).
       if r < 0 then Inr (r, s1)
       else if r = 0 then Inr (errno_value E_invalid, s1)
       else read_loop f base amount off (pos + nat r) s1)
     else Inr (0, s))"
  by pat_completeness auto
termination
  by (relation "measure (\<lambda>(f, base, amount, off, pos, s). amount - pos)") auto

declare read_loop.simps [simp del]

subsection \<open>Segments\<close>

text \<open>
  \<^verbatim>\<open>hmem_alloc_page\<close> and \<^verbatim>\<open>map_user_page\<close> of the loop over the pages. The functions below have the mapping of a new page
  as their first argument, which is \<open>map_new_page\<close> in the kernel.
\<close>

definition map_new_page :: "u32 \<Rightarrow> bool \<Rightarrow> (unit, 's) fop" where
  "map_new_page virt writable s =
    kbind (hmem_alloc_page (kst (fs_sched s))) (\<lambda>(new_page, k1).
    kbind (map_user_page virt new_page writable k1) (\<lambda>(_, k2).
    Inr ((), s\<lparr>fs_sched := (fs_sched s)\<lparr>kst := k2\<rparr>,
      fs_mem := \<lambda>a. if in_range virt 4096 a then kmem k2 (to_virt new_page + (a - virt)) else fs_mem s a\<rparr>)))"

definition load_page :: "(u32 \<Rightarrow> bool \<Rightarrow> (unit, 's) fop) \<Rightarrow> u32 \<Rightarrow> elf32_phdr \<Rightarrow> u32 \<Rightarrow> u32 \<Rightarrow> (int, 's) fop" where
  "load_page map_new f phdr addr_start virt s =
    kbind (map_new virt (p_flags phdr AND pf_w \<noteq> 0) s) (\<lambda>(_, s1).
    let idx = virt - addr_start
    in if idx < p_filesz phdr then
         let left = p_filesz phdr - idx;
             read_cnt = (if 0x1000 < left then 0x1000 else left);
             memset_at = (if 0x1000 < left then 0 else left)
         in kbind (read_loop f virt (unat read_cnt) (ucast (idx + p_offset phdr)) 0 s1) (\<lambda>(r, s2).
            if r \<noteq> 0 then Inr (r, s2)
            else Inr (0, s2\<lparr>fs_mem := memset (virt + memset_at) 0 (0x1000 - memset_at) (fs_mem s2)\<rparr>))
       else Inr (0, s1\<lparr>fs_mem := memset virt 0 0x1000 (fs_mem s1)\<rparr>))"

text \<open>The loop over the pages; the address can wrap around, then it has no end.\<close>

partial_function (option) load_pages :: "(u32 \<Rightarrow> bool \<Rightarrow> (unit, 's) fop) \<Rightarrow> u32 \<Rightarrow> elf32_phdr \<Rightarrow> u32 \<Rightarrow> u32 \<Rightarrow> u32 \<Rightarrow> 's fs_state \<Rightarrow> (int \<times> 's fs_state) res option" where
  "load_pages map_new f phdr addr_start addr_end virt s =
    (if virt < addr_end then
       (case load_page map_new f phdr addr_start virt s of
          Inl e \<Rightarrow> Some (Inl e)
        | Inr (r, s1) \<Rightarrow> if r \<noteq> 0 then Some (Inr (r, s1)) else load_pages map_new f phdr addr_start addr_end (virt + 0x1000) s1)
     else Some (Inr (0, s)))"

definition load_segment :: "(u32 \<Rightarrow> bool \<Rightarrow> (unit, 's) fop) \<Rightarrow> u32 \<Rightarrow> elf32_phdr \<Rightarrow> (int, 's) fop" where
  "load_segment map_new f phdr s =
    (if p_type phdr = pt_load then
       let addr_start = p_vaddr phdr AND 0xFFFFF000;
           addr_end = addr_start + p_memsz phdr
       in kbind (kassert (addr_start AND 0xFFF = 0)) (\<lambda>_.
          case load_pages map_new f phdr addr_start addr_end addr_start s of None \<Rightarrow> Inl OutOfFuel | Some r \<Rightarrow> r)
     else Inr (0, s))"

subsection \<open>Files\<close>

fun load_phdrs :: "(u32 \<Rightarrow> bool \<Rightarrow> (unit, 's) fop) \<Rightarrow> u32 \<Rightarrow> u32 \<Rightarrow> u32 \<Rightarrow> nat list \<Rightarrow> (int, 's) fop" where
  "load_phdrs map_new f phdr_buf phoff [] s = Inr (0, s)"
| "load_phdrs map_new f phdr_buf phoff (i # rest) s =
    kbind (read_loop f phdr_buf sizeof_phdr (ucast (phoff + of_nat i * of_nat sizeof_phdr)) 0 s) (\<lambda>(r, s1).
    if r \<noteq> 0 then Inr (r, s1)
    else
      kbind (load_segment map_new f (phdr_at (fs_mem s1) phdr_buf) s1) (\<lambda>(r, s2).
      if r \<noteq> 0 then Inr (r, s2) else load_phdrs map_new f phdr_buf phoff rest s2))"

text \<open>The result is the error and, once the header has been read, the entry point.\<close>

definition load_elf :: "(u32 \<Rightarrow> bool \<Rightarrow> (unit, 's) fop) \<Rightarrow> u32 \<Rightarrow> u32 \<Rightarrow> u32 \<Rightarrow> (int \<times> u32 option, 's) fop" where
  "load_elf map_new hdr_buf phdr_buf f s =
    kbind (read_loop f hdr_buf sizeof_ehdr 0 0 s) (\<lambda>(r, s1).
    if r \<noteq> 0 then Inr ((r, None), s1)
    else
      let entry = e_entry (ehdr_at (fs_mem s1) hdr_buf);
          (supported, m) = check_supported hdr_buf (fs_mem s1);
          s2 = s1\<lparr>fs_mem := m\<rparr>;
          hdr = ehdr_at m hdr_buf
      in if \<not> supported then Inr ((errno_value E_invalid, Some entry), s2)
         else
           kbind (kassert (e_phentsize hdr = of_nat sizeof_phdr)) (\<lambda>_.
           kbind (kassert (e_phnum hdr < 1000)) (\<lambda>_.
           kbind (load_phdrs map_new f phdr_buf (e_phoff hdr) [0..<unat (e_phnum hdr)] s2) (\<lambda>(r, s3).
           Inr ((r, Some entry), s3)))))"

end
