(* ===== verification/Elf_Props.thy ===== *)
theory Elf_Props
  imports Elf Vfs_Props Hmem_Props
begin

section \<open>Properties of the loader\<close>

text \<open>
  Reading from a file of the archive, the contents of the memory after a segment has been loaded, and the files that are
  refused. The mapping of new pages is an interface, which the kernel's page allocators provide.
\<close>

subsection \<open>Reading\<close>

definition tar_file :: "'s fs_state \<Rightarrow> u32 \<Rightarrow> u8 list \<Rightarrow> bool" where
  "tar_file s f cs \<longleftrightarrow> (let i = inodes s (owner_inode (files s f)) in
    f_methods (files s f) = TarMethods \<and> bytes_at (fs_mem s) (m_contents i) cs \<and> m_contents_length i = of_nat (length cs) \<and>
    length cs < 2 ^ 31)"

definition contents_apart :: "'s fs_state \<Rightarrow> u32 \<Rightarrow> u8 list \<Rightarrow> u32 \<Rightarrow> nat \<Rightarrow> bool" where
  "contents_apart s f cs p n \<longleftrightarrow>
    (\<forall>a. in_range p n a \<longrightarrow> \<not> in_range (m_contents (inodes s (owner_inode (files s f)))) (length cs) a)"

lemma contents_apart_sub:
  "contents_apart s f cs p n \<Longrightarrow> k + l \<le> n \<Longrightarrow> n \<le> 2 ^ 32 \<Longrightarrow> contents_apart s f cs (p + of_nat k) l"
  using in_range_sub [of p k l _ n] by (auto simp: contents_apart_def)

lemma tar_file_frame:
  assumes "tar_file s f cs" and "contents_apart s f cs p n" and "\<forall>a. \<not> in_range p n a \<longrightarrow> fs_mem t a = fs_mem s a"
    and "inodes t = inodes s" and "files t = files s"
  shows "tar_file t f cs"
proof -
  let ?i = "inodes s (owner_inode (files s f))"
  have "fs_mem t a = fs_mem s a" if "in_range (m_contents ?i) (length cs) a" for a
    using that assms(2,3) unfolding contents_apart_def by blast
  then have "bytes_at (fs_mem t) (m_contents ?i) cs"
    using bytes_at_frame [of "fs_mem s" "m_contents ?i" cs "fs_mem t"] assms(1) by (simp add: tar_file_def Let_def)
  then show ?thesis
    using assms(1,4,5) by (simp add: tar_file_def Let_def)
qed

lemma pread_tar:
  fixes pos :: u64
  assumes "tar_file s f cs" and "contents_apart s f cs buf (unat count)"
  defines "r \<equiv> take (unat count) (drop (unat pos) cs)"
  obtains m' where "file_pread f buf count pos s = Inr (int (length r), s\<lparr>fs_mem := m'\<rparr>)" "bytes_at m' buf r"
    "\<forall>a. \<not> in_range buf (length r) a \<longrightarrow> m' a = fs_mem s a"
proof -
  let ?i = "inodes s (owner_inode (files s f))"
  have f: "f_methods (files s f) = TarMethods" "bytes_at (fs_mem s) (m_contents ?i) cs" "m_contents_length ?i = of_nat (length cs)"
      "length cs < 2 ^ 31"
    using assms(1) by (simp_all add: tar_file_def Let_def)
  have "in_range buf (unat count) a \<Longrightarrow> \<not> in_range (m_contents ?i) (length cs) a" for a
    using assms(2) by (simp add: contents_apart_def)
  from tar_read_spec [OF f(2-4), of buf count pos] this
  obtain m' where "tar_read ?i buf count pos (fs_mem s) = (int (length r), m')" "bytes_at m' buf r"
      "\<forall>a. \<not> in_range buf (length r) a \<longrightarrow> m' a = fs_mem s a"
    unfolding r_def by blast
  then show thesis
    using that [of m'] f(1) by (simp add: file_pread_def)
qed

text \<open>The loops get all the bytes at once, or find the end of the file in the next round.\<close>

lemma read_loop_all:
  assumes f: "tar_file s f cs" and apart: "contents_apart s f cs base n" and n: "unat off + n \<le> length cs"
  obtains m' where "read_loop f base n off 0 s = Inr (0, s\<lparr>fs_mem := m'\<rparr>)" "bytes_at m' base (take n (drop (unat off) cs))"
    "\<forall>a. \<not> in_range base n a \<longrightarrow> m' a = fs_mem s a"
proof (cases "n = 0")
  case True
  then show thesis
    using that [of "fs_mem s"] by (simp add: read_loop.simps)
next
  case False
  let ?r = "take n (drop (unat off) cs)"
  have u: "unat (of_nat n :: u32) = n" "length ?r = n"
    using f n by (simp_all add: tar_file_def Let_def unat_of_nat_32)
  obtain m' where m': "file_pread f base (of_nat n) off s = Inr (int (length ?r), s\<lparr>fs_mem := m'\<rparr>)" "bytes_at m' base ?r"
      "\<forall>a. \<not> in_range base (length ?r) a \<longrightarrow> m' a = fs_mem s a"
    using pread_tar [OF f, of base "of_nat n" off] apart u(1) by auto
  have "read_loop f base n off 0 s = Inr (0, s\<lparr>fs_mem := m'\<rparr>)"
    using False m'(1) u(2) by (simp add: read_loop.simps [of f base n off 0] read_loop.simps [of f base n off n])
  then show thesis
    using that m'(2,3) u(2) by simp
qed

lemma read_loop_short:
  assumes f: "tar_file s f cs" and apart: "contents_apart s f cs base n" and n: "length cs < unat off + n" "0 < n" "n < 2 ^ 31"
    and off: "unat off < 2 ^ 32"
  obtains m' where "read_loop f base n off 0 s = Inr (errno_value E_invalid, s\<lparr>fs_mem := m'\<rparr>)"
    "\<forall>a. \<not> in_range base n a \<longrightarrow> m' a = fs_mem s a"
proof -
  let ?r = "take n (drop (unat off) cs)"
  have u: "unat (of_nat n :: u32) = n"
    using n by (simp add: unat_of_nat_32)
  obtain m' where m': "file_pread f base (of_nat n) off s = Inr (int (length ?r), s\<lparr>fs_mem := m'\<rparr>)"
      "\<forall>a. \<not> in_range base (length ?r) a \<longrightarrow> m' a = fs_mem s a"
    using pread_tar [OF f, of base "of_nat n" off] apart u by auto
  have frame: "\<forall>a. \<not> in_range base n a \<longrightarrow> m' a = fs_mem s a"
    using m'(2) by (auto simp: in_range_def)
  show thesis
  proof (cases "length ?r = 0")
    case True
    then have "read_loop f base n off 0 s = Inr (errno_value E_invalid, s\<lparr>fs_mem := m'\<rparr>)"
      using m'(1) n(2) by (simp add: read_loop.simps [of f base n off 0])
    with frame that show thesis by blast
  next
    case False
    define k where "k = length ?r"
    have k: "0 < k" "k < n" "unat off + k = length cs"
      using False n(1) by (auto simp: k_def)
    let ?t = "s\<lparr>fs_mem := m'\<rparr>"
    have t: "tar_file ?t f cs"
      by (rule tar_file_frame [OF f apart]) (simp_all add: frame)
    have "contents_apart ?t f cs base n"
      using apart by (simp add: contents_apart_def)
    then have "contents_apart ?t f cs (base + of_nat k) (n - k)"
      using contents_apart_sub [of ?t f cs base n k "n - k"] k n(3) by simp
    moreover have "unat (of_nat (n - k) :: u32) = n - k"
      by (rule unat_of_nat_32) (use n(3) in simp)
    ultimately have "contents_apart ?t f cs (base + of_nat k) (unat (of_nat (n - k) :: u32))"
      by (simp only:)
    moreover have "unat (off + of_nat k) = length cs"
      using k(2,3) off n(3) f by (simp add: tar_file_def Let_def unat_word_ariths unat_of_nat take_bit_eq_mod)
    ultimately obtain m'' where m'': "file_pread f (base + of_nat k) (of_nat (n - k)) (off + of_nat k) ?t = Inr (0, ?t\<lparr>fs_mem := m''\<rparr>)"
        "\<forall>a. m'' a = m' a"
      using pread_tar [OF t, of "base + of_nat k" "of_nat (n - k)" "off + of_nat k"] by (auto simp: in_range_def)
    then have "read_loop f base n off k ?t = Inr (errno_value E_invalid, s\<lparr>fs_mem := m'\<rparr>)"
      using k(2) ext [of m'' m'] by (simp add: read_loop.simps [of f base n off k])
    then have "read_loop f base n off 0 s = Inr (errno_value E_invalid, s\<lparr>fs_mem := m'\<rparr>)"
      using m'(1) k n(2) unfolding k_def [symmetric] by (simp add: read_loop.simps [of f base n off 0])
    with frame that show thesis by blast
  qed
qed

subsection \<open>Pages\<close>

text \<open>
  Byte \<open>k\<close> of a segment after it has been loaded: a byte of the file only in the last page that has any; the pages before
  it, which the file fills, are zero.
\<close>

definition segment_byte :: "u8 list \<Rightarrow> elf32_phdr \<Rightarrow> nat \<Rightarrow> u8" where
  "segment_byte cs phdr k =
    (if k < unat (p_filesz phdr) \<and> unat (p_filesz phdr) - 4096 * (k div 4096) \<le> 4096 then cs ! (unat (p_offset phdr) + k) else 0)"

text \<open>Mapping new pages: with room for \<open>n\<close> pages, a page of \<open>V\<close> can be mapped, and only its bytes change.\<close>

locale page_mapper =
  fixes map_new :: "u32 \<Rightarrow> bool \<Rightarrow> (unit, 's) fop"
    and room :: "u32 set \<Rightarrow> nat \<Rightarrow> 's fs_state \<Rightarrow> bool"
  assumes map_law: "room V (Suc n) s \<Longrightarrow> virt \<in> V \<Longrightarrow> page_aligned virt \<Longrightarrow>
      \<exists>s'. map_new virt w s = Inr ((), s') \<and> room V n s' \<and> inodes s' = inodes s \<and> files s' = files s \<and>
        (\<forall>a. \<not> in_range virt 4096 a \<longrightarrow> fs_mem s' a = fs_mem s a)"
    and room_mem: "room V n (s\<lparr>fs_mem := m\<rparr>) = room V n s"

lemma unat_ucast_64: "unat (ucast x :: u64) = unat x" for x :: u32
proof -
  have "unat x < 2 ^ 64"
    using unsigned_less [of x] less_le_trans [of "unat x" "2 ^ 32" "2 ^ 64"] by simp
  then show ?thesis
    by (simp only: unsigned_ucast_eq) (simp add: take_bit_nat_eq_self)
qed

lemma page_tail:
  assumes "n \<le> 4096" and "bytes_at m virt xs" and "length xs = n"
  shows "i < 4096 \<Longrightarrow> memset (virt + of_nat n) 0 (0x1000 - of_nat n) m (virt + of_nat i) = (if i < n then xs ! i else 0)"
    and "\<not> in_range virt 4096 a \<Longrightarrow> memset (virt + of_nat n) 0 (0x1000 - of_nat n) m a = m a"
proof -
  have len: "unat (0x1000 - of_nat n :: u32) = 4096 - n"
  proof -
    have "(0x1000 - of_nat n :: u32) = of_nat (4096 - n)"
      using assms(1) by simp
    then show ?thesis
      using unat_of_nat_32 [of "4096 - n"] by simp
  qed
  have iff: "in_range (virt + of_nat n) (4096 - n) (virt + of_nat i) \<longleftrightarrow> n \<le> i" if "i < 4096" for i
  proof (cases "n \<le> i")
    case True
    then have "virt + of_nat i - (virt + of_nat n) = of_nat (i - n)"
      by simp
    then have "unat (virt + of_nat i - (virt + of_nat n)) = i - n"
      using that unat_of_nat_32 [of "i - n"] by simp
    then show ?thesis
      using True that by (simp add: in_range_def)
  next
    case False
    have "\<not> in_range (virt + of_nat n) (4096 - n) (virt + of_nat i)"
    proof
      assume r: "in_range (virt + of_nat n) (4096 - n) (virt + of_nat i)"
      define j where "j = unat (virt + of_nat i - (virt + of_nat n))"
      then have "(of_nat j :: u32) = of_nat i - of_nat n"
        by simp
      then have "(of_nat (n + j) :: u32) = of_nat i"
        by simp
      moreover have "j < 4096 - n"
        using r by (simp add: in_range_def j_def)
      ultimately show False
        using of_nat_32_eq [of "n + j" i] False assms(1) by (simp del: of_nat_add)
    qed
    then show ?thesis
      using False by simp
  qed
  show "i < 4096 \<Longrightarrow> memset (virt + of_nat n) 0 (0x1000 - of_nat n) m (virt + of_nat i) = (if i < n then xs ! i else 0)"
    using iff [of i] assms(2,3) by (auto simp: memset_eq len bytes_at_def)
  show "\<not> in_range virt 4096 a \<Longrightarrow> memset (virt + of_nat n) 0 (0x1000 - of_nat n) m a = m a"
    using in_range_sub [of virt n "4096 - n" a 4096] assms(1) by (auto simp: memset_eq len)
qed

context page_mapper
begin

lemma load_page_content:
  assumes f: "tar_file s f cs" and apart: "contents_apart s f cs virt 4096" and room: "room V (Suc n) s" and virt: "virt \<in> V" "page_aligned virt"
    and idx: "virt - start = of_nat (4096 * j)" "4096 * j < 2 ^ 32"
    and bound: "unat (p_offset phdr) + unat (p_filesz phdr) \<le> length cs"
  shows "\<exists>s'. load_page map_new f phdr start virt s = Inr (0, s') \<and> room V n s' \<and> inodes s' = inodes s \<and> files s' = files s \<and>
    (\<forall>a. \<not> in_range virt 4096 a \<longrightarrow> fs_mem s' a = fs_mem s a) \<and> (\<forall>i < 4096. fs_mem s' (virt + of_nat i) = segment_byte cs phdr (4096 * j + i))"
proof -
  let ?fs = "unat (p_filesz phdr)" and ?off = "unat (p_offset phdr)"
  obtain s1 where s1: "map_new virt (p_flags phdr AND pf_w \<noteq> 0) s = Inr ((), s1)" "room V n s1" "inodes s1 = inodes s" "files s1 = files s"
      "\<forall>a. \<not> in_range virt 4096 a \<longrightarrow> fs_mem s1 a = fs_mem s a"
    using map_law [OF room virt] by blast
  have f1: "tar_file s1 f cs"
    by (rule tar_file_frame [OF f apart s1(5,3,4)])
  have apart1: "contents_apart s1 f cs virt 4096"
    using apart s1(3,4) by (simp add: contents_apart_def)
  have uj: "unat (of_nat (4096 * j) :: u32) = 4096 * j"
    by (rule unat_of_nat_32) (use idx(2) in simp)
  have seg: "segment_byte cs phdr (4096 * j + i) = (if 4096 * j + i < ?fs \<and> ?fs - 4096 * j \<le> 4096 then cs ! (?off + (4096 * j + i)) else 0)"
    if "i < 4096" for i
    using that by (simp add: segment_byte_def)
  have less: "virt - start < p_filesz phdr \<longleftrightarrow> 4096 * j < ?fs"
    unfolding idx(1) word_less_nat_alt uj ..
  show ?thesis
  proof (cases "4096 * j < ?fs")
    case False
    let ?s2 = "s1\<lparr>fs_mem := memset virt 0 0x1000 (fs_mem s1)\<rparr>"
    have "load_page map_new f phdr start virt s = Inr (0, ?s2)"
      using s1(1) less False by (simp add: load_page_def Let_def)
    moreover have "fs_mem ?s2 (virt + of_nat i) = segment_byte cs phdr (4096 * j + i)" if "i < 4096" for i
      using that False seg [OF that] by (simp add: memset_eq in_range_offset)
    ultimately show ?thesis
      using s1(2-5) by (intro exI [of _ ?s2]) (simp add: room_mem memset_eq)
  next
    case True
    define cnt where "cnt = (if 4096 < ?fs - 4096 * j then 4096 else ?fs - 4096 * j)"
    define tail_at where "tail_at = (if 4096 < ?fs - 4096 * j then 0 else ?fs - 4096 * j)"
    have ul: "unat (p_filesz phdr - (virt - start)) = ?fs - 4096 * j"
      using True unat_sub [of "of_nat (4096 * j)" "p_filesz phdr"] unfolding idx(1) word_le_nat_alt uj by linarith
    have left: "(0x1000 < p_filesz phdr - (virt - start)) \<longleftrightarrow> 4096 < ?fs - 4096 * j"
      unfolding word_less_nat_alt ul by simp
    have cnt_eq: "unat (if 0x1000 < p_filesz phdr - (virt - start) then 0x1000 else p_filesz phdr - (virt - start)) = cnt"
      unfolding left cnt_def using ul by simp
    have tail_eq: "(if 0x1000 < p_filesz phdr - (virt - start) then 0 else p_filesz phdr - (virt - start)) = of_nat tail_at"
      unfolding left tail_at_def ul [symmetric] by (simp del: unat_sub)
    have "?off + 4096 * j < 2 ^ 31"
      using bound True f by (simp add: tar_file_def Let_def)
    then have uo: "unat (ucast (virt - start + p_offset phdr) :: u64) = ?off + 4096 * j"
      unfolding idx(1) unat_ucast_64 unat_word_ariths uj by simp
    have "cnt \<le> 4096" "tail_at \<le> 4096" "?off + 4096 * j + cnt \<le> length cs" "tail_at \<le> cnt"
      using bound True by (auto simp: cnt_def tail_at_def)
    note b = this
    have "contents_apart s1 f cs virt cnt"
      using contents_apart_sub [OF apart1, of 0 cnt] b(1) by simp
    then obtain m where m: "read_loop f virt cnt (ucast (virt - start + p_offset phdr)) 0 s1 = Inr (0, s1\<lparr>fs_mem := m\<rparr>)"
        "bytes_at m virt (take cnt (drop (?off + 4096 * j) cs))" "\<forall>a. \<not> in_range virt cnt a \<longrightarrow> m a = fs_mem s1 a"
      using read_loop_all [OF f1, of virt cnt "ucast (virt - start + p_offset phdr)"] b(3) uo by auto
    let ?xs = "take tail_at (drop (?off + 4096 * j) cs)"
    let ?s2 = "s1\<lparr>fs_mem := memset (virt + of_nat tail_at) 0 (0x1000 - of_nat tail_at) m\<rparr>"
    have load: "load_page map_new f phdr start virt s = Inr (0, ?s2)"
      using s1(1) less True m(1) by (simp add: load_page_def Let_def cnt_eq tail_eq)
    have xs: "bytes_at m virt ?xs" "length ?xs = tail_at"
      using m(2) b(3,4) by (simp_all add: bytes_at_def)
    have "fs_mem ?s2 (virt + of_nat i) = segment_byte cs phdr (4096 * j + i)" if "i < 4096" for i
      using page_tail(1) [OF b(2) xs that] seg [OF that] b(3,4) True that by (auto simp: tail_at_def add.assoc)
    moreover have "fs_mem ?s2 a = fs_mem s a" if "\<not> in_range virt 4096 a" for a
    proof -
      have "\<not> in_range virt cnt a"
        using that b(1) by (simp add: in_range_def)
      then show ?thesis
        using page_tail(2) [OF b(2) xs that] m(3) s1(5) that by simp
    qed
    ultimately show ?thesis
      using load s1(2-4) by (intro exI [of _ ?s2]) (simp add: room_mem)
  qed
qed

lemma load_pages_content:
  assumes align: "page_aligned start" and size: "unat start + 4096 * N < 2 ^ 32" "unat (p_memsz phdr) \<le> 4096 * N" "4096 * N < unat (p_memsz phdr) + 4096"
    and bound: "unat (p_offset phdr) + unat (p_filesz phdr) \<le> length cs" and V: "\<forall>i < N. start + of_nat (4096 * i) \<in> V"
  shows "tar_file s f cs \<Longrightarrow> room V k s \<Longrightarrow> contents_apart s f cs start (4096 * N) \<Longrightarrow> j + k = N \<Longrightarrow>
    \<exists>s'. load_pages map_new f phdr start (start + p_memsz phdr) (start + of_nat (4096 * j)) s = Some (Inr (0, s')) \<and>
      inodes s' = inodes s \<and> files s' = files s \<and> (\<forall>a. \<not> in_range (start + of_nat (4096 * j)) (4096 * k) a \<longrightarrow> fs_mem s' a = fs_mem s a) \<and>
      (\<forall>i < 4096 * k. fs_mem s' (start + of_nat (4096 * j + i)) = segment_byte cs phdr (4096 * j + i))"
proof (induction k arbitrary: j s)
  case 0
  have "unat (start + p_memsz phdr) = unat start + unat (p_memsz phdr)" "unat (start + of_nat (4096 * j)) = unat start + 4096 * j"
    using size(1,2) 0(4) unat_add_of_nat [of start "unat (p_memsz phdr)"] unat_add_of_nat [of start "4096 * j"] by simp_all
  then have "\<not> start + of_nat (4096 * j) < start + p_memsz phdr"
    using size(2) 0(4) unfolding word_less_nat_alt by linarith
  then show ?case
    by (subst load_pages.simps) simp
next
  case (Suc k)
  let ?v = "start + of_nat (4096 * j)"
  have j: "4096 * Suc j \<le> 4096 * N" "j < N"
    using Suc.prems(4) by simp_all
  have u: "unat (start + p_memsz phdr) = unat start + unat (p_memsz phdr)" "unat ?v = unat start + 4096 * j"
      "unat (start + of_nat (4096 * Suc j)) = unat start + 4096 * Suc j"
    using size(1,2) j unat_add_of_nat [of start "unat (p_memsz phdr)"] unat_add_of_nat [of start "4096 * j"]
      unat_add_of_nat [of start "4096 * Suc j"] by simp_all
  then have less: "?v < start + p_memsz phdr"
    using size(3) j unfolding word_less_nat_alt by linarith
  have next_page: "?v + 0x1000 = start + of_nat (4096 * Suc j)"
    by simp
  have "page_aligned ?v"
    using align unfolding page_aligned_def u(2) by simp
  moreover have "contents_apart s f cs ?v 4096"
    using contents_apart_sub [OF Suc.prems(3), of "4096 * j" 4096] j size(1) by simp
  moreover have "?v - start = of_nat (4096 * j)" "4096 * j < 2 ^ 32" "?v \<in> V"
    using j size(1) V by simp_all
  ultimately obtain s1 where s1: "load_page map_new f phdr start ?v s = Inr (0, s1)" "room V k s1" "inodes s1 = inodes s" "files s1 = files s"
      "\<forall>a. \<not> in_range ?v 4096 a \<longrightarrow> fs_mem s1 a = fs_mem s a" "\<forall>i < 4096. fs_mem s1 (?v + of_nat i) = segment_byte cs phdr (4096 * j + i)"
    using load_page_content [OF Suc.prems(1) _ Suc.prems(2) _ _ _ _ bound] by blast
  have out: "in_range ?v 4096 a \<Longrightarrow> in_range start (4096 * N) a" for a
    using in_range_sub [of start "4096 * j" 4096 a "4096 * N"] j size(1) by simp
  have f1: "tar_file s1 f cs"
  proof (rule tar_file_frame [OF Suc.prems(1,3) _ s1(3,4)])
    show "\<forall>a. \<not> in_range start (4096 * N) a \<longrightarrow> fs_mem s1 a = fs_mem s a"
      using s1(5) out by blast
  qed
  have apart1: "contents_apart s1 f cs start (4096 * N)"
    using Suc.prems(3) s1(3,4) by (simp add: contents_apart_def)
  obtain s2 where s2: "load_pages map_new f phdr start (start + p_memsz phdr) (start + of_nat (4096 * Suc j)) s1 = Some (Inr (0, s2))"
      "inodes s2 = inodes s1" "files s2 = files s1" "\<forall>a. \<not> in_range (start + of_nat (4096 * Suc j)) (4096 * k) a \<longrightarrow> fs_mem s2 a = fs_mem s1 a"
      "\<forall>i < 4096 * k. fs_mem s2 (start + of_nat (4096 * Suc j + i)) = segment_byte cs phdr (4096 * Suc j + i)"
    using Suc.IH [OF f1 s1(2) apart1, of "Suc j"] Suc.prems(4) by auto
  have "load_pages map_new f phdr start (start + p_memsz phdr) ?v s = Some (Inr (0, s2))"
    using less s1(1) s2(1) unfolding next_page [symmetric] by (subst load_pages.simps) simp
  moreover have "fs_mem s2 a = fs_mem s a" if "\<not> in_range ?v (4096 * Suc k) a" for a
  proof -
    have "\<not> in_range ?v 4096 a"
      using that by (simp add: in_range_def)
    moreover have "\<not> in_range (start + of_nat (4096 * Suc j)) (4096 * k) a"
      using that in_range_sub [of ?v 4096 "4096 * k" a "4096 * Suc k"] Suc.prems(4) size(1) unfolding next_page [symmetric] by auto
    ultimately show ?thesis
      using s1(5) s2(4) by simp
  qed
  moreover have "fs_mem s2 (start + of_nat (4096 * j + i)) = segment_byte cs phdr (4096 * j + i)" if "i < 4096 * Suc k" for i
  proof (cases "i < 4096")
    case True
    let ?a = "?v + of_nat i"
    have "in_range ?v 4096 ?a"
      using True by (intro in_range_offset) simp_all
    then have "\<not> in_range (start + of_nat (4096 * Suc j)) (4096 * k) ?a"
      using ranges_apart [of ?v 4096 ?a "start + of_nat (4096 * Suc j)" "4096 * k"] u(2,3) size(1) Suc.prems(4) by auto
    then have "fs_mem s2 ?a = fs_mem s1 ?a"
      using s2(4) by blast
    then show ?thesis
      using s1(6) True by (simp add: add.assoc)
  next
    case False
    then have "i - 4096 < 4096 * k"
      using that by simp
    then have "fs_mem s2 (start + of_nat (4096 * Suc j + (i - 4096))) = segment_byte cs phdr (4096 * Suc j + (i - 4096))"
      using s2(5) by blast
    moreover have "4096 * Suc j + (i - 4096) = 4096 * j + i"
      using False by simp
    ultimately show ?thesis
      by metis
  qed
  ultimately show ?case
    using s1(3,4) s2(2,3) by (intro exI [of _ s2]) simp
qed

lemma load_segment_pages:
  assumes "tar_file s f cs" and "p_type phdr = pt_load" and "room (page_range (p_vaddr phdr AND 0xFFFFF000) N) N s"
    and "contents_apart s f cs (p_vaddr phdr AND 0xFFFFF000) (4096 * N)" and "unat (p_vaddr phdr AND 0xFFFFF000) + 4096 * N < 2 ^ 32"
    and "unat (p_memsz phdr) \<le> 4096 * N" and "4096 * N < unat (p_memsz phdr) + 4096"
    and "unat (p_offset phdr) + unat (p_filesz phdr) \<le> length cs"
  shows "\<exists>s'. load_segment map_new f phdr s = Inr (0, s') \<and> inodes s' = inodes s \<and> files s' = files s \<and>
    (\<forall>a. \<not> in_range (p_vaddr phdr AND 0xFFFFF000) (4096 * N) a \<longrightarrow> fs_mem s' a = fs_mem s a) \<and>
    (\<forall>k < 4096 * N. fs_mem s' ((p_vaddr phdr AND 0xFFFFF000) + of_nat k) = segment_byte cs phdr k)"
proof -
  let ?start = "p_vaddr phdr AND 0xFFFFF000"
  have zero: "?start AND 0xFFF = 0"
    by (simp add: and.assoc)
  then have "page_aligned ?start"
    by (simp add: page_aligned_and)
  moreover have "\<forall>i < N. ?start + of_nat (4096 * i) \<in> page_range ?start N"
    by (auto simp: page_range_def)
  ultimately show ?thesis
    using load_pages_content [OF _ assms(5-8) _ assms(1,3,4), of 0] assms(2) zero by (auto simp: load_segment_def Let_def kassert_def)
qed

end

subsection \<open>The kernel's pages\<close>

text \<open>
  The pages of \<open>V\<close> have page tables, the list of free high pages is empty and there are \<open>n\<close> pages between the low and the high
  memory; a task may allocate.
\<close>

definition map_room :: "u32 set \<Rightarrow> nat \<Rightarrow> 's fs_state \<Rightarrow> bool" where
  "map_room V n s \<longleftrightarrow> (let k = kst (fs_sched s) in
    hmem_callable k \<and> hmem_phys_list k = 0 \<and> unat (kmem_phys_end k) + 4096 * n < unat (hmem_phys_end k) \<and>
    tables_ok (kmem k) (to_virt (cr3 k)) V)"

lemma hmem_alloc_page_top:
  assumes "hmem_callable k" and "hmem_phys_list k = 0" and "unat (kmem_phys_end k) + 4096 < unat (hmem_phys_end k)"
  shows "hmem_alloc_page k = Inr (hmem_phys_end k - 4096, k\<lparr>hmem_phys_end := hmem_phys_end k - 4096\<rparr>)"
    and "unat (hmem_phys_end k - 4096) = unat (hmem_phys_end k) - 4096"
proof -
  show u: "unat (hmem_phys_end k - 4096) = unat (hmem_phys_end k) - 4096"
    using assms(3) unat_sub [of 4096 "hmem_phys_end k"] by (simp add: word_le_nat_alt)
  have "kmem_phys_end k < hmem_phys_end k - 4096"
    unfolding word_less_nat_alt u using assms(3) by linarith
  then show "hmem_alloc_page k = Inr (hmem_phys_end k - 4096, k\<lparr>hmem_phys_end := hmem_phys_end k - 4096\<rparr>)"
    using assms(1,2) by (simp add: hmem_alloc_page_def scoped_preemptlock_def hmem_callable_def preempt_up_def preempt_down_def Let_def kassert_def)
qed

interpretation pages: page_mapper map_new_page map_room
proof
  fix V :: "u32 set" and n virt w and s :: "'s fs_state"
  assume room: "map_room V (Suc n) s" and virt: "virt \<in> V" "page_aligned virt"
  let ?k = "kst (fs_sched s)" and ?page = "hmem_phys_end (kst (fs_sched s)) - 4096"
  let ?k1 = "?k\<lparr>hmem_phys_end := ?page\<rparr>" and ?pd = "to_virt (cr3 (kst (fs_sched s)))"
  have r: "hmem_callable ?k" "hmem_phys_list ?k = 0" "unat (kmem_phys_end ?k) + 4096 * Suc n < unat (hmem_phys_end ?k)" "tables_ok (kmem ?k) ?pd V"
    using room by (simp_all add: map_room_def Let_def)
  have page: "hmem_alloc_page ?k = Inr (?page, ?k1)" "unat ?page = unat (hmem_phys_end ?k) - 4096"
    using hmem_alloc_page_top [OF r(1,2)] r(3) by simp_all
  define m where "m = store32 (table_entry_addr (table_of (load32 (kmem ?k) (dir_entry_addr ?pd virt))) virt) (user_pte ?page w) (kmem ?k)"
  have "is_present (load32 (kmem ?k) (dir_entry_addr ?pd virt))"
    using r(4) virt(1) by (simp add: tables_ok_def)
  then have map: "map_user_page virt ?page w ?k1 = Inr ((), ?k1\<lparr>kmem := m\<rparr>)"
    using map_page_present [OF virt(2), of ?k1 ?pd] by (simp add: map_user_page_eq m_def)
  let ?s = "s\<lparr>fs_sched := (fs_sched s)\<lparr>kst := ?k1\<lparr>kmem := m\<rparr>\<rparr>,
      fs_mem := \<lambda>a. if in_range virt 4096 a then m (to_virt ?page + (a - virt)) else fs_mem s a\<rparr>"
  have "map_new_page virt w s = Inr ((), ?s)"
    using page(1) map by (simp add: map_new_page_def cong: if_cong)
  moreover have "map_room V n ?s"
    using r(1-3) store_table_entry(4) [OF r(4) virt(1) m_def] page(2)
    by (simp add: map_room_def Let_def hmem_callable_def is_interrupt_context_def)
  ultimately show "\<exists>s'. map_new_page virt w s = Inr ((), s') \<and> map_room V n s' \<and> inodes s' = inodes s \<and> files s' = files s \<and>
      (\<forall>a. \<not> in_range virt 4096 a \<longrightarrow> fs_mem s' a = fs_mem s a)"
    by (intro exI [of _ ?s]) simp
qed (simp add: map_room_def)

text \<open>C13: Loading a segment of an open file. With page tables for its pages and enough high memory, the loader ends, maps the pages of
  the segment, writes no other byte, and leaves in them the bytes of the file in the last page that has any and
  zero after them; but the pages that the file fills entirely end as zero, since the loader clears each of them after
  reading it.\<close>

theorem load_segment_content:
  assumes "tar_file s f cs" and "p_type phdr = pt_load" and "map_room (page_range (p_vaddr phdr AND 0xFFFFF000) N) N s"
    and "contents_apart s f cs (p_vaddr phdr AND 0xFFFFF000) (4096 * N)" and "unat (p_vaddr phdr AND 0xFFFFF000) + 4096 * N < 2 ^ 32"
    and "unat (p_memsz phdr) \<le> 4096 * N" and "4096 * N < unat (p_memsz phdr) + 4096"
    and "unat (p_offset phdr) + unat (p_filesz phdr) \<le> length cs"
  shows "\<exists>s'. load_segment map_new_page f phdr s = Inr (0, s') \<and> inodes s' = inodes s \<and> files s' = files s \<and>
    (\<forall>a. \<not> in_range (p_vaddr phdr AND 0xFFFFF000) (4096 * N) a \<longrightarrow> fs_mem s' a = fs_mem s a) \<and>
    (\<forall>k < 4096 * N. fs_mem s' ((p_vaddr phdr AND 0xFFFFF000) + of_nat k) =
      (if k < unat (p_filesz phdr) \<and> unat (p_filesz phdr) - 4096 * (k div 4096) \<le> 4096 then cs ! (unat (p_offset phdr) + k) else 0))"
  using pages.load_segment_pages [OF assms] unfolding segment_byte_def .

subsection \<open>Files that are refused\<close>

text \<open>The bytes of a file as a memory that starts at 0, and the files whose header the loader supports.\<close>

definition list_mem :: "u8 list \<Rightarrow> mem" where
  "list_mem cs a = cs ! unat a"

definition elf_supported :: "u8 list \<Rightarrow> bool" where
  "elf_supported cs \<longleftrightarrow> 52 \<le> length cs \<and> cs ! 1 = 69 \<and> cs ! 2 = 76 \<and> cs ! 3 = 70 \<and> cs ! 4 = 1 \<and> cs ! 5 = 1 \<and> cs ! 6 = 1 \<and>
    e_machine (ehdr_at (list_mem cs) 0) = 3 \<and> e_type (ehdr_at (list_mem cs) 0) = 2"

lemma ehdr_at_list:
  assumes "bytes_at m p (take 52 cs)" and "52 \<le> length cs"
  shows "ehdr_at m p = ehdr_at (list_mem cs) 0" and "i < 52 \<Longrightarrow> m (p + of_nat i) = cs ! i"
proof -
  show byte: "m (p + of_nat i) = cs ! i" if "i < 52" for i
    using assms that by (simp add: bytes_at_def)
  have "m (p + of_nat i) = list_mem cs (of_nat i)" if "i < 52" for i
    using byte [OF that] unat_of_nat_32 [of i] that by (simp add: list_mem_def)
  from this [of "numeral k" for k] have "m (p + numeral k) = list_mem cs (numeral k)" if "numeral k < (52 :: nat)" for k
    using that by simp
  then show "ehdr_at m p = ehdr_at (list_mem cs) 0"
    by (simp add: ehdr_at_def load16_def load32_def add.assoc)
qed

lemma ehdr_at_magic: "ehdr_at (m(p := b)) p = ehdr_at m p"
  by (simp add: ehdr_at_def load16_def load32_def add.assoc)

lemma check_supported_bytes:
  assumes "bytes_at m p (take 52 cs)" and "52 \<le> length cs"
  shows "fst (check_supported p m) = elf_supported cs" and "ehdr_at (snd (check_supported p m)) p = ehdr_at (list_mem cs) 0"
    and "a \<noteq> p \<Longrightarrow> snd (check_supported p m) a = m a"
proof -
  have bytes: "m (p + 1) = cs ! 1" "m (p + 2) = cs ! 2" "m (p + 3) = cs ! 3" "m (p + 4) = cs ! 4" "m (p + 5) = cs ! 5" "m (p + 6) = cs ! 6"
    using ehdr_at_list(2) [OF assms, of 1] ehdr_at_list(2) [OF assms, of 2] ehdr_at_list(2) [OF assms, of 3]
      ehdr_at_list(2) [OF assms, of 4] ehdr_at_list(2) [OF assms, of 5] ehdr_at_list(2) [OF assms, of 6] by simp_all
  show "fst (check_supported p m) = elf_supported cs"
    using assms(2) by (simp add: check_supported_def check_magic_def Let_def bytes ehdr_at_magic ehdr_at_list(1) [OF assms] elf_supported_def conj_ac)
  show "ehdr_at (snd (check_supported p m)) p = ehdr_at (list_mem cs) 0"
    using ehdr_at_list(1) [OF assms] by (simp add: check_supported_def check_magic_def Let_def ehdr_at_magic)
  show "a \<noteq> p \<Longrightarrow> snd (check_supported p m) a = m a"
    by (simp add: check_supported_def check_magic_def Let_def)
qed

text \<open>C22: A file that is too short for a header or whose header is not supported is refused with \<^verbatim>\<open>errno::invalid\<close>: nothing is mapped or
  changed but the buffer of the header on the stack. A supported header with a wrong size of its program headers or
  with 1000 of them or more stops the kernel. The first byte of the file, which should be \<open>0x7F\<close>, is not looked at.\<close>

theorem load_elf_refuses:
  assumes "tar_file s f cs" and "contents_apart s f cs hdr_buf 52"
  shows "\<exists>m'. (\<not> elf_supported cs \<longrightarrow> (\<exists>entry. load_elf map_new hdr_buf phdr_buf f s = Inr ((errno_value E_invalid, entry), s\<lparr>fs_mem := m'\<rparr>))) \<and>
    (elf_supported cs \<and> (e_phentsize (ehdr_at (list_mem cs) 0) \<noteq> 32 \<or> 1000 \<le> e_phnum (ehdr_at (list_mem cs) 0)) \<longrightarrow>
      load_elf map_new hdr_buf phdr_buf f s = Inl KAssert) \<and>
    (\<forall>a. \<not> in_range hdr_buf 52 a \<longrightarrow> m' a = fs_mem s a)"
proof (cases "52 \<le> length cs")
  case False
  have "length cs < unat (0 :: u64) + 52" "(0 :: nat) < 52" "(52 :: nat) < 2 ^ 31" "unat (0 :: u64) < 2 ^ 32"
    using False by simp_all
  then obtain m' where m': "read_loop f hdr_buf 52 0 0 s = Inr (errno_value E_invalid, s\<lparr>fs_mem := m'\<rparr>)"
      "\<forall>a. \<not> in_range hdr_buf 52 a \<longrightarrow> m' a = fs_mem s a"
    by (rule read_loop_short [OF assms])
  then have "load_elf map_new hdr_buf phdr_buf f s = Inr ((errno_value E_invalid, None), s\<lparr>fs_mem := m'\<rparr>)"
    by (simp add: load_elf_def sizeof_ehdr_def)
  with m'(2) False show ?thesis
    by (intro exI [of _ m']) (auto simp: elf_supported_def)
next
  case True
  have "unat (0 :: u64) + 52 \<le> length cs"
    using True by simp
  then obtain m where m: "read_loop f hdr_buf 52 0 0 s = Inr (0, s\<lparr>fs_mem := m\<rparr>)" "bytes_at m hdr_buf (take 52 cs)"
      "\<forall>a. \<not> in_range hdr_buf 52 a \<longrightarrow> m a = fs_mem s a"
    using read_loop_all [OF assms] by (metis drop_0 unat_0)
  obtain r m' where c: "check_supported hdr_buf m = (r, m')"
    by force
  then have cs: "r = elf_supported cs" "ehdr_at m' hdr_buf = ehdr_at (list_mem cs) 0" "\<And>a. a \<noteq> hdr_buf \<Longrightarrow> m' a = m a"
    using check_supported_bytes [OF m(2) True] by simp_all
  have run: "load_elf map_new hdr_buf phdr_buf f s =
      (if \<not> elf_supported cs then Inr ((errno_value E_invalid, Some (e_entry (ehdr_at m hdr_buf))), s\<lparr>fs_mem := m'\<rparr>)
       else
         kbind (kassert (e_phentsize (ehdr_at (list_mem cs) 0) = 32)) (\<lambda>_.
         kbind (kassert (e_phnum (ehdr_at (list_mem cs) 0) < 1000)) (\<lambda>_.
         kbind (load_phdrs map_new f phdr_buf (e_phoff (ehdr_at (list_mem cs) 0)) [0..<unat (e_phnum (ehdr_at (list_mem cs) 0))]
           (s\<lparr>fs_mem := m'\<rparr>)) (\<lambda>(r, s3). Inr ((r, Some (e_entry (ehdr_at m hdr_buf))), s3)))))"
    using m(1) c cs(1,2) by (simp add: load_elf_def sizeof_ehdr_def sizeof_phdr_def Let_def)
  have "in_range hdr_buf 52 hdr_buf"
    by (simp add: in_range_def)
  then have "\<forall>a. \<not> in_range hdr_buf 52 a \<longrightarrow> m' a = fs_mem s a"
    using cs(3) m(3) by metis
  moreover have "load_elf map_new hdr_buf phdr_buf f s = Inl KAssert"
    if "elf_supported cs" "e_phentsize (ehdr_at (list_mem cs) 0) \<noteq> 32 \<or> 1000 \<le> e_phnum (ehdr_at (list_mem cs) 0)"
    using that unfolding run by (auto simp: kassert_def)
  ultimately show ?thesis
    using run by (intro exI [of _ m']) auto
qed

subsection \<open>An example\<close>

text \<open>A segment of two bytes of the open file of the example, loaded to \<open>0x8048000\<close>.\<close>

definition demo_phdr :: elf32_phdr where
  "demo_phdr = \<lparr>p_type = 1, p_offset = 0, p_vaddr = 0x8048000, p_paddr = 0, p_filesz = 2, p_memsz = 16, p_flags = 0, p_align = 0\<rparr>"

text \<open>The state of that example, with an empty list of free high pages.\<close>

definition elf_demo :: "u32 fs_state" where
  "elf_demo = (demo_fs 1 None)\<lparr>fs_sched := two_tasks\<lparr>kst := boot_state\<lparr>hmem_phys_list := 0\<rparr>\<rparr>\<rparr>"

lemma demo_tar_file: "tar_file elf_demo 8 [104, 105]"
  by (simp add: tar_file_def elf_demo_def demo_fs_def) (simp add: demo_mem_def)

lemma demo_contents_apart: "0x2000 \<le> unat p \<Longrightarrow> unat p + n \<le> 2 ^ 32 \<Longrightarrow> contents_apart elf_demo 8 [104, 105] p n"
  using ranges_apart [of "0x1200" "Suc (Suc 0)" _ p n] by (auto simp: contents_apart_def elf_demo_def demo_fs_def)

lemma demo_room: "map_room (page_range 0x8048000 1) 1 elf_demo"
proof -
  have "page_range 0x8048000 1 = {0x8048000}"
    by (auto simp: page_range_def)
  moreover have "tables_ok (kmem boot_state) (to_virt (cr3 boot_state)) {0x8048000}"
    by (simp add: tables_ok_def boot_state_def page_aligned_def to_virt_def load_ones table_of_def align_page_down_def is_present_bit)
  ultimately show ?thesis
    by (simp add: map_room_def elf_demo_def hmem_callable_def is_interrupt_context_def) (simp add: boot_state_def)
qed

theorem load_segment_content_witness:
  "\<exists>s'. load_segment map_new_page 8 demo_phdr elf_demo = Inr (0, s') \<and> fs_mem s' 0x8048001 = 105 \<and> fs_mem s' 0x8048FFF = 0"
proof -
  have apart: "contents_apart elf_demo 8 [104, 105] (p_vaddr demo_phdr AND 0xFFFFF000) (4096 * 1)"
    by (rule demo_contents_apart) (simp_all add: demo_phdr_def)
  have room: "map_room (page_range (p_vaddr demo_phdr AND 0xFFFFF000) 1) 1 elf_demo"
    using demo_room by (simp add: demo_phdr_def)
  obtain s' where s': "load_segment map_new_page 8 demo_phdr elf_demo = Inr (0, s')"
      "\<forall>k < 4096 * 1. fs_mem s' ((p_vaddr demo_phdr AND 0xFFFFF000) + of_nat k) =
        (if k < unat (p_filesz demo_phdr) \<and> unat (p_filesz demo_phdr) - 4096 * (k div 4096) \<le> 4096
         then [104, 105] ! (unat (p_offset demo_phdr) + k) else 0)"
    using load_segment_content [OF demo_tar_file _ room apart] by (auto simp: demo_phdr_def pt_load_def)
  show ?thesis
    using s'(1) s'(2) [rule_format, of 1] s'(2) [rule_format, of 4095] by (intro exI [of _ s']) (simp add: demo_phdr_def)
qed

theorem load_elf_refuses_witness:
  "\<exists>m' entry. load_elf map_new_page 0x7200 0x7300 8 elf_demo = Inr ((- 22, entry), elf_demo\<lparr>fs_mem := m'\<rparr>)"
proof -
  have "contents_apart elf_demo 8 [104, 105] 0x7200 52"
    by (rule demo_contents_apart) simp_all
  moreover have "\<not> elf_supported [104, 105]"
    by (simp add: elf_supported_def)
  ultimately show ?thesis
    using load_elf_refuses [OF demo_tar_file, of "0x7200" map_new_page "0x7300"] by auto
qed

end
