(* ===== verification/Str_Util.thy ===== *)
theory Str_Util
  imports Cstr
begin

section \<open>Number formatting\<close>

text \<open>
  \<^verbatim>\<open>kernel/util/str_util.cpp\<close>: \<open>str_util::dec\<close> for \<^verbatim>\<open>int\<close> and \<^verbatim>\<open>uint\<close> and \<open>str_util::hex\<close>. The digits
  are written into a caller's buffer from the least significant one up, reversed in place and closed
  with a NUL. The buffer is a byte list (\<^verbatim>\<open>int_to_str_stack_buf\<close> has 21 bytes), so writing past its
  end is \<open>OutOfBounds\<close>; the result is the buffer and the length of the \<^verbatim>\<open>string_buf\<close> returned.
\<close>

subsection \<open>The routines\<close>

function dec_loop :: "int \<Rightarrow> nat \<Rightarrow> u8 list \<Rightarrow> (nat \<times> u8 list) res" where
  "dec_loop val i out =
    (if 0 < val then
       kbind (array_write out i (word_of_int (48 + val mod 10))) (\<lambda>out'.
       dec_loop (val div 10) (Suc i) out')
     else Inr (i, out))"
  by pat_completeness auto
termination
  by (relation "measure (\<lambda>(val, i, out). nat val)") auto

text \<open>The in-place reversal \<^verbatim>\<open>for (j = 0; j < (i >> 1); j++)\<close> that \<open>dec\<close> and \<open>hex\<close> share.\<close>

function reverse_loop :: "nat \<Rightarrow> nat \<Rightarrow> u8 list \<Rightarrow> u8 list res" where
  "reverse_loop j i out =
    (if j < i div 2 then
       kbind (array_read out j) (\<lambda>tmp.
       kbind (array_read out (i - j - 1)) (\<lambda>c.
       kbind (array_write out j c) (\<lambda>out1.
       kbind (array_write out1 (i - j - 1) tmp) (\<lambda>out2.
       reverse_loop (Suc j) i out2))))
     else Inr out)"
  by pat_completeness auto
termination
  by (relation "measure (\<lambda>(j, i, out). i div 2 - j)") auto

text \<open>
  \<open>dec_impl\<close> at \<^verbatim>\<open>T = int\<close> and at \<^verbatim>\<open>T = uint\<close>; negating the least \<^verbatim>\<open>int\<close> overflows, which C++ leaves
  undefined. For \<^verbatim>\<open>uint\<close> the test \<open>val < 0\<close> never holds.
\<close>

definition dec_impl :: "int \<Rightarrow> u8 list \<Rightarrow> (nat \<times> u8 list) res" where
  "dec_impl val out =
    (if val = 0 then
       kbind (array_write out 0 48) (\<lambda>out1.
       kbind (array_write out1 1 0) (\<lambda>out2. Inr (1, out2)))
     else if val = - 2147483648 then Inl Undefined
     else
       let negative = val < 0;
           val' = (if negative then - val else val)
       in kbind (dec_loop val' 0 out) (\<lambda>(i, out1).
          kbind (if negative
                 then kbind (array_write out1 i 45) (\<lambda>out2. Inr (Suc i, out2))
                 else Inr (i, out1)) (\<lambda>(i, out2).
          kbind (reverse_loop 0 i out2) (\<lambda>out3.
          kbind (array_write out3 i 0) (\<lambda>out4. Inr (i, out4))))))"

definition str_util_dec_int :: "u32 \<Rightarrow> u8 list \<Rightarrow> (nat \<times> u8 list) res" where
  "str_util_dec_int val out = dec_impl (sint val) out"

definition str_util_dec_uint :: "u32 \<Rightarrow> u8 list \<Rightarrow> (nat \<times> u8 list) res" where
  "str_util_dec_uint val out = dec_impl (uint val) out"

function hex_loop :: "u32 \<Rightarrow> nat \<Rightarrow> u8 list \<Rightarrow> (nat \<times> u8 list) res" where
  "hex_loop val i out =
    (if val \<noteq> 0 then
       let remainder = val AND 0xF
       in kbind (array_write out i
             (if remainder < 10 then 48 + ucast remainder else (97 - 10) + ucast remainder)) (\<lambda>out'.
          hex_loop (drop_bit 4 val) (Suc i) out')
     else Inr (i, out))"
  by pat_completeness auto
termination
proof (relation "measure (\<lambda>(val, i, out). unat val)")
  fix val :: u32 and i :: nat and out x xa
  assume "val \<noteq> 0"
  then have "0 < unat val" by (simp add: unat_gt_0)
  then show "((drop_bit 4 val, Suc i, xa), val, i, out) \<in> measure (\<lambda>(val, i, out). unat val)"
    by (simp add: unat_simps div_less_dividend)
qed simp

definition str_util_hex :: "u32 \<Rightarrow> u8 list \<Rightarrow> (nat \<times> u8 list) res" where
  "str_util_hex val out =
    (if val = 0 then
       kbind (array_write out 0 48) (\<lambda>out1.
       kbind (array_write out1 1 0) (\<lambda>out2. Inr (1, out2)))
     else
       kbind (hex_loop val 0 out) (\<lambda>(i, out1).
       kbind (reverse_loop 0 i out1) (\<lambda>out2.
       kbind (array_write out2 i 0) (\<lambda>out3. Inr (i, out3)))))"

declare dec_loop.simps [simp del] reverse_loop.simps [simp del] hex_loop.simps [simp del]

subsection \<open>Digits of a number\<close>

text \<open>The digits in base \<open>b\<close>, least significant first, and the value they stand for.\<close>

fun digits :: "nat \<Rightarrow> nat \<Rightarrow> nat list" where
  "digits b n = (if n = 0 \<or> b < 2 then [] else n mod b # digits b (n div b))"

declare digits.simps [simp del]

definition digits_value :: "nat \<Rightarrow> nat list \<Rightarrow> nat" where
  "digits_value b ds = foldr (\<lambda>d v. d + b * v) ds 0"

lemma digits_value_Cons [simp]: "digits_value b (d # ds) = d + b * digits_value b ds"
  by (simp add: digits_value_def)

lemma digits_value_Nil [simp]: "digits_value b [] = 0"
  by (simp add: digits_value_def)

lemma digits_value_digits: "2 \<le> b \<Longrightarrow> digits_value b (digits b n) = n"
  by (induction b n rule: digits.induct) (subst digits.simps, auto)

lemma digits_less: "d \<in> set (digits b n) \<Longrightarrow> d < b"
proof (induction b n rule: digits.induct)
  case (1 b n)
  show ?case
  proof (cases "n = 0 \<or> b < 2")
    case False
    then have "d = n mod b \<or> d \<in> set (digits b (n div b))"
      using 1(2) by (subst (asm) digits.simps) auto
    with 1(1) False show ?thesis by auto
  qed (use 1(2) in \<open>simp add: digits.simps\<close>)
qed

lemma digits_length: "2 \<le> b \<Longrightarrow> n < b ^ k \<Longrightarrow> length (digits b n) \<le> k"
proof (induction k arbitrary: n)
  case 0
  then show ?case by (simp add: digits.simps)
next
  case (Suc k)
  have "n div b < b ^ k"
    using Suc.prems by (simp add: less_mult_imp_div_less mult.commute)
  with Suc show ?case by (subst digits.simps) auto
qed

text \<open>The number a printed text denotes, most significant character first.\<close>

definition hex_digit_value :: "u8 \<Rightarrow> nat" where
  "hex_digit_value c = (if c < 97 then unat c - 48 else unat c - 87)"

definition text_value :: "nat \<Rightarrow> u8 list \<Rightarrow> nat" where
  "text_value b cs = foldl (\<lambda>v c. b * v + hex_digit_value c) 0 cs"

lemma text_value_rev: "text_value b (rev cs) = digits_value b (map hex_digit_value cs)"
  by (simp add: text_value_def digits_value_def foldl_conv_foldr foldr_map comp_def add.commute)

definition hex_char :: "nat \<Rightarrow> u8" where
  "hex_char d = (if d < 10 then 48 + of_nat d else 87 + of_nat d)"

lemma hex_digit_char: "d < 16 \<Longrightarrow> hex_digit_value (hex_char d) = d"
proof -
  have "\<forall>d \<in> set [0..<16]. hex_digit_value (hex_char d) = d"
    by code_simp
  then show "d < 16 \<Longrightarrow> hex_digit_value (hex_char d) = d" by simp
qed

lemma map_hex_digit_char: "\<forall>d \<in> set ds. d < 16 \<Longrightarrow> map hex_digit_value (map hex_char ds) = ds"
  by (induction ds) (simp_all add: hex_digit_char)

subsection \<open>The loops\<close>

lemma dec_loop_eq:
  assumes "0 \<le> val" and "i + length (digits 10 (nat val)) \<le> length out"
  shows "dec_loop val i out =
    (let ds = digits 10 (nat val); n = i + length ds
     in Inr (n, take i out @ map hex_char ds @ drop n out))"
  using assms
proof (induction val i out rule: dec_loop.induct)
  case (1 val i out)
  show ?case
  proof (cases "0 < val")
    case True
    define ds where "ds = digits 10 (nat (val div 10))"
    have ds: "digits 10 (nat val) = nat val mod 10 # ds"
      using True by (subst digits.simps) (simp add: ds_def nat_div_distrib)
    have c: "word_of_int (48 + val mod 10) = hex_char (nat val mod 10)"
    proof -
      have "val mod 10 = int (nat val mod 10)"
        using True by (simp add: zmod_int)
      moreover have "nat val mod 10 < 10" by simp
      ultimately show ?thesis
        unfolding hex_char_def by (simp only: if_True of_int_add of_int_numeral of_int_of_nat_eq)
    qed
    have len: "i < length out" "Suc i + length ds \<le> length out"
      using 1(3) by (simp_all add: ds)
    let ?out = "out[i := hex_char (nat val mod 10)]"
    have "dec_loop val i out = dec_loop (val div 10) (Suc i) ?out"
      using True len by (subst dec_loop.simps) (simp only: c if_True array_write_in kbind_Inr)
    also have "\<dots> = Inr (Suc i + length ds, take (Suc i) ?out @ map hex_char ds @ drop (Suc i + length ds) ?out)"
      using 1(1) [OF True, of ?out] 1(2) len c by (simp add: ds_def Let_def)
    also have "\<dots> = Inr (Suc i + length ds,
        take i out @ map hex_char (nat val mod 10 # ds) @ drop (Suc i + length ds) out)"
      using len(1) by (simp add: take_Suc_conv_app_nth)
    finally show ?thesis
      by (simp add: ds Let_def)
  next
    case False
    with 1(2) have "val = 0" by simp
    then show ?thesis
      by (simp add: dec_loop.simps digits.simps)
  qed
qed

lemma reverse_loop_nth:
  assumes "i \<le> length out"
  shows "\<exists>r. reverse_loop j i out = Inr r \<and> length r = length out \<and>
    (\<forall>k < length out. r ! k = (if j \<le> k \<and> k < i - j then out ! (i - 1 - k) else out ! k))"
  using assms
proof (induction j i out rule: reverse_loop.induct)
  case (1 j i out)
  show ?case
  proof (cases "j < i div 2")
    case True
    define out2 where "out2 = out[j := out ! (i - j - 1), i - j - 1 := out ! j]"
    have len: "j < length out" "i - j - 1 < length out" "j < i - j - 1" "length out2 = length out"
      using True 1(2) by (auto simp: out2_def)
    have eq: "reverse_loop j i out = reverse_loop (Suc j) i out2"
      using True len by (subst reverse_loop.simps) (simp add: out2_def)
    obtain r where r: "reverse_loop (Suc j) i out2 = Inr r" "length r = length out"
      and nth: "\<And>k. k < length out \<Longrightarrow>
        r ! k = (if Suc j \<le> k \<and> k < i - Suc j then out2 ! (i - 1 - k) else out2 ! k)"
      using 1(1) [OF True, of "out ! j" "out ! (i - j - 1)" "out[j := out ! (i - j - 1)]" out2]
        1(2) len by (auto simp: out2_def)
    have "r ! k = (if j \<le> k \<and> k < i - j then out ! (i - 1 - k) else out ! k)" if "k < length out" for k
      using nth [OF that] len that True by (auto simp: out2_def nth_list_update)
    with eq r show ?thesis by auto
  next
    case False
    then have "k = i - 1 - k" if "j \<le> k" "k < i - j" for k
      using that by linarith
    with False show ?thesis by (subst reverse_loop.simps) auto
  qed
qed

lemma reverse_loop_eq:
  assumes "i \<le> length out"
  shows "reverse_loop 0 i out = Inr (rev (take i out) @ drop i out)"
proof -
  obtain r where r: "reverse_loop 0 i out = Inr r" "length r = length out"
    and nth: "\<And>k. k < length out \<Longrightarrow> r ! k = (if k < i then out ! (i - 1 - k) else out ! k)"
    using reverse_loop_nth [OF assms, of 0] by auto
  have "r = rev (take i out) @ drop i out"
    by (rule nth_equalityI) (use assms r(2) in \<open>auto simp: nth nth_append rev_nth\<close>)
  with r(1) show ?thesis by simp
qed

lemma unat_and_15: "unat (w AND 0xF) = unat w mod 16" for w :: u32
proof -
  have "w AND 0xF = take_bit 4 w"
    by (simp add: take_bit_eq_mask mask_eq_exp_minus_1)
  then have "unat (w AND 0xF) = take_bit 4 (unat w)"
    by (simp add: unsigned_take_bit_eq)
  then show ?thesis by (simp add: take_bit_eq_mod)
qed

lemma hex_loop_char:
  "(if w AND 0xF < 10 then 48 + ucast (w AND 0xF) else (97 - 10) + ucast (w AND 0xF)) =
    hex_char (unat w mod 16)" for w :: u32
proof -
  have "(ucast (w AND 0xF) :: u8) = of_nat (unat (w AND 0xF))"
    by simp
  then show ?thesis
    by (simp add: hex_char_def word_less_nat_alt unat_and_15)
qed

lemma hex_loop_eq:
  assumes "i + length (digits 16 (unat val)) \<le> length out"
  shows "hex_loop val i out =
    (let ds = digits 16 (unat val); n = i + length ds
     in Inr (n, take i out @ map hex_char ds @ drop n out))"
  using assms
proof (induction val i out rule: hex_loop.induct)
  case (1 val i out)
  show ?case
  proof (cases "val = 0")
    case False
    define ds where "ds = digits 16 (unat (drop_bit 4 val))"
    have ds: "digits 16 (unat val) = unat val mod 16 # ds"
      using False by (subst digits.simps) (simp add: ds_def unat_simps unat_eq_zero)
    have len: "i < length out" "Suc i + length ds \<le> length out"
      using 1(2) by (simp_all add: ds)
    let ?out = "out[i := hex_char (unat val mod 16)]"
    have "hex_loop val i out = hex_loop (drop_bit 4 val) (Suc i) ?out"
      using False len by (subst hex_loop.simps) (simp only: Let_def hex_loop_char, simp)
    also have "\<dots> = Inr (Suc i + length ds, take (Suc i) ?out @ map hex_char ds @ drop (Suc i + length ds) ?out)"
      using 1(1) [OF False refl, of ?out, unfolded hex_loop_char] len by (simp add: ds_def Let_def)
    also have "\<dots> = Inr (Suc i + length ds,
        take i out @ map hex_char (unat val mod 16 # ds) @ drop (Suc i + length ds) out)"
      using len(1) by (simp add: take_Suc_conv_app_nth)
    finally show ?thesis
      by (simp add: ds Let_def)
  qed (simp add: hex_loop.simps digits.simps)
qed

subsection \<open>Printing and reading back\<close>

text \<open>The string a call returned: the first \<open>n\<close> bytes of the buffer, with a NUL behind them.\<close>

definition prints :: "(nat \<times> u8 list) res \<Rightarrow> u8 list \<Rightarrow> u8 list \<Rightarrow> bool" where
  "prints r out cs \<longleftrightarrow> (\<exists>buf. r = Inr (length cs, buf) \<and> length buf = length out \<and>
     take (length cs) buf = cs \<and> length cs < length out \<and> buf ! length cs = 0)"

lemma reverse_and_close:
  assumes "length cs < length out" and "out1 = cs @ drop (length cs) out"
  shows "prints (kbind (reverse_loop 0 (length cs) out1) (\<lambda>out2.
      kbind (array_write out2 (length cs) 0) (\<lambda>out3. Inr (length cs, out3)))) out (rev cs)"
  using assms by (auto simp: prints_def reverse_loop_eq list_update_append nth_append)

lemma dec_impl_pos:
  assumes "0 < val" and "val < 10 ^ 10" and "11 < length out"
  shows "prints (dec_impl val out) out (rev (map hex_char (digits 10 (nat val))))"
proof -
  let ?cs = "map hex_char (digits 10 (nat val))"
  have len: "length ?cs \<le> 10"
    using assms(1,2) digits_length [of 10 "nat val" 10] by simp
  have "dec_loop val 0 out = Inr (length ?cs, ?cs @ drop (length ?cs) out)"
    using assms len dec_loop_eq [of val 0 out] by (simp add: Let_def)
  then show ?thesis
    using assms len reverse_and_close [of ?cs out, OF _ refl]
    by (simp add: dec_impl_def Let_def)
qed

lemma dec_impl_neg:
  assumes "val < 0" and "- (2 ^ 31) < val" and "12 < length out"
  shows "prints (dec_impl val out) out (45 # rev (map hex_char (digits 10 (nat (- val)))))"
proof -
  let ?ds = "map hex_char (digits 10 (nat (- val)))"
  let ?cs = "?ds @ [45]"
  have len: "length ?ds \<le> 10"
    using assms(1,2) digits_length [of 10 "nat (- val)" 10] by simp
  have "dec_loop (- val) 0 out = Inr (length ?ds, ?ds @ drop (length ?ds) out)"
    using assms len dec_loop_eq [of "- val" 0 out] by (simp add: Let_def)
  moreover have "(?ds @ drop (length ?ds) out)[length ?ds := 45] = ?cs @ drop (length ?cs) out"
    using assms(3) len by (simp add: list_update_append Cons_nth_drop_Suc [symmetric])
  ultimately show ?thesis
    using assms len reverse_and_close [of ?cs out, OF _ refl]
    by (simp add: dec_impl_def Let_def)
qed

lemma hex_prints:
  assumes "val \<noteq> 0" and "8 < length out"
  shows "prints (str_util_hex val out) out (rev (map hex_char (digits 16 (unat val))))"
proof -
  let ?cs = "map hex_char (digits 16 (unat val))"
  have len: "length ?cs \<le> 8"
    using digits_length [of 16 "unat val" 8] unat_less_32 [of val] by simp
  have "hex_loop val 0 out = Inr (length ?cs, ?cs @ drop (length ?cs) out)"
    using assms len hex_loop_eq [of 0 val out] by (simp add: Let_def)
  then show ?thesis
    using assms len reverse_and_close [of ?cs out, OF _ refl]
    by (simp add: str_util_hex_def)
qed

lemma text_value_digits:
  "2 \<le> b \<Longrightarrow> b \<le> 16 \<Longrightarrow> text_value b (rev (map hex_char (digits b n))) = n"
proof -
  assume b: "2 \<le> b" "b \<le> 16"
  then have "\<forall>d \<in> set (digits b n). d < 16"
    by (auto dest: digits_less)
  with b show ?thesis
    by (simp only: text_value_rev map_hex_digit_char digits_value_digits)
qed

lemma zero_prints:
  "1 < length out \<Longrightarrow> prints (kbind (array_write out 0 48) (\<lambda>out1.
    kbind (array_write out1 1 0) (\<lambda>out2. Inr (1, out2)))) out [48]"
  by (cases out; cases "tl out") (auto simp: prints_def)

lemma text_value_zero: "text_value b [48] = 0"
  by (simp add: text_value_def hex_digit_value_def)

lemma dec_prints_nonneg:
  assumes "0 \<le> val" and "val < 10 ^ 10" and "11 < length out"
  shows "\<exists>cs. prints (dec_impl val out) out cs \<and> text_value 10 cs = nat val"
proof (cases "val = 0")
  case True
  then show ?thesis
    using assms zero_prints [of out] text_value_zero by (auto simp: dec_impl_def intro!: exI [of _ "[48]"])
next
  case False
  with assms have "prints (dec_impl val out) out (rev (map hex_char (digits 10 (nat val))))"
    by (intro dec_impl_pos) auto
  then show ?thesis
    using text_value_digits [of 10 "nat val"] by fastforce
qed

lemma dec_prints_signed:
  assumes "- (2 ^ 31) < val" and "val < 2 ^ 31" and "12 < length out"
  shows "\<exists>cs. prints (dec_impl val out) out (if val < 0 then 45 # cs else cs) \<and>
    int (text_value 10 cs) = \<bar>val\<bar>"
proof (cases "val < 0")
  case True
  with assms have "prints (dec_impl val out) out (45 # rev (map hex_char (digits 10 (nat (- val)))))"
    by (intro dec_impl_neg) auto
  then show ?thesis
    using True text_value_digits [of 10 "nat (- val)"] by (auto intro!: exI)
next
  case False
  then show ?thesis
    using dec_prints_nonneg [of val out] assms by auto
qed

lemma sint_bounds: "val \<noteq> 0x80000000 \<Longrightarrow> - (2 ^ 31) < sint val \<and> sint val < 2 ^ 31" for val :: u32
proof -
  assume "val \<noteq> 0x80000000"
  then have "sint val \<noteq> sint (0x80000000 :: u32)"
    using signed_word_eqI by blast
  moreover have "sint (0x80000000 :: u32) = - (2 ^ 31)"
    by simp
  ultimately show ?thesis
    using sint_ge [of val] sint_lt [of val] by simp
qed

lemma str_util_prints:
  assumes "length out = 21"
  shows "(\<exists>cs. prints (str_util_dec_uint val out) out cs \<and> text_value 10 cs = unat val) \<and>
    (\<exists>cs. prints (str_util_hex val out) out cs \<and> text_value 16 cs = unat val) \<and>
    (val \<noteq> 0x80000000 \<longrightarrow> (\<exists>cs. prints (str_util_dec_int val out) out
      (if sint val < 0 then 45 # cs else cs) \<and> int (text_value 10 cs) = \<bar>sint val\<bar>))"
proof (intro conjI impI)
  have "uint val < 10 ^ 10"
    using uint_lt2p [of val] by simp
  then show "\<exists>cs. prints (str_util_dec_uint val out) out cs \<and> text_value 10 cs = unat val"
    using dec_prints_nonneg [of "uint val" out] assms by (simp add: str_util_dec_uint_def)
  show "\<exists>cs. prints (str_util_hex val out) out cs \<and> text_value 16 cs = unat val"
  proof (cases "val = 0")
    case True
    then show ?thesis
      using assms zero_prints [of out] text_value_zero
      by (auto simp: str_util_hex_def intro!: exI [of _ "[48]"])
  next
    case False
    then show ?thesis
      using assms hex_prints [of val out] text_value_digits [of 16 "unat val"] by auto
  qed
  show "\<exists>cs. prints (str_util_dec_int val out) out (if sint val < 0 then 45 # cs else cs) \<and>
      int (text_value 10 cs) = \<bar>sint val\<bar>" if "val \<noteq> 0x80000000"
    unfolding str_util_dec_int_def
    by (rule dec_prints_signed) (use assms sint_bounds [OF that] in auto)
qed

text \<open>C26: printing a 32-bit value with \<open>str_util::dec\<close> or \<open>str_util::hex\<close> into the 21-byte stack
  buffer of the log driver never leaves the buffer, ends in a NUL, and prints a text that reads back
  as the value (for a signed value: an optional minus sign and the magnitude). The least \<^verbatim>\<open>int\<close> is
  the one input excluded, since its negation overflows.\<close>

theorem str_util_roundtrip:
  assumes "length out = 21"
  shows "(\<exists>cs. prints (str_util_dec_uint val out) out cs \<and> text_value 10 cs = unat val) \<and>
    (\<exists>cs. prints (str_util_hex val out) out cs \<and> text_value 16 cs = unat val) \<and>
    (val \<noteq> 0x80000000 \<longrightarrow> (\<exists>cs. prints (str_util_dec_int val out) out
      (if sint val < 0 then 45 # cs else cs) \<and> int (text_value 10 cs) = \<bar>sint val\<bar>))"
  by (rule str_util_prints [OF assms])

theorem str_util_roundtrip_witness:
  "\<exists>cs. prints (str_util_dec_int 0xFFFFFF85 (replicate 21 0)) (replicate 21 0) (45 # cs) \<and>
    text_value 10 cs = 123"
  using str_util_roundtrip [of "replicate 21 0" "0xFFFFFF85"] by simp

end
