(* ===== verification/Devices.thy ===== *)
theory Devices
  imports Kernel_Prelude
begin

section \<open>Screen, keyboard and serial line\<close>

text \<open>
  \<^verbatim>\<open>kernel/tty.cpp\<close>, \<^verbatim>\<open>kernel/devices/keyboard.cpp\<close> and \<^verbatim>\<open>kernel/serial.cpp\<close>. The screen memory \<open>t_buf\<close> and its copy
  \<open>internal_buf\<close>, a ring of rows, are lists of 2000 cells; an access outside is an error. What the drivers write
  to I/O ports is logged in \<open>port_log\<close>, newest first.
\<close>

subsection \<open>State\<close>

datatype color = Black | Blue | Green | Cyan | Red | Magenta | Brown | Light_gray | Dark_gray | Light_blue
  | Light_green | Light_cyan | Light_red | Light_magenta | Light_brown | White

fun color_value :: "color \<Rightarrow> u8" where
  "color_value Black = 0" | "color_value Blue = 1" | "color_value Green = 2" | "color_value Cyan = 3"
| "color_value Red = 4" | "color_value Magenta = 5" | "color_value Brown = 6" | "color_value Light_gray = 7"
| "color_value Dark_gray = 8" | "color_value Light_blue = 9" | "color_value Light_green = 10"
| "color_value Light_cyan = 11" | "color_value Light_red = 12" | "color_value Light_magenta = 13"
| "color_value Light_brown = 14" | "color_value White = 15"

record color_pair =
  fg :: color
  bg :: color

record devices =
  t_x :: u32
  t_y :: u32
  t_color :: u8
  t_buf :: "u16 list"
  internal_buf :: "u16 list"
  internal_buf_i :: u32
  is_down :: "u32 list"
  port_log :: "(u16 \<times> u8) list"

definition vga_width :: u32 where "vga_width = 80"

definition vga_height :: u32 where "vga_height = 25"

definition asm_outb :: "u16 \<Rightarrow> u8 \<Rightarrow> devices \<Rightarrow> devices" where
  "asm_outb port d s = s\<lparr>port_log := (port, d) # port_log s\<rparr>"

subsection \<open>The screen\<close>

definition vga_color :: "color \<Rightarrow> color \<Rightarrow> u8" where
  "vga_color f b = color_value f OR push_bit 4 (color_value b)"

definition vga_entry :: "u8 \<Rightarrow> u8 \<Rightarrow> u16" where
  "vga_entry code c = ucast code OR push_bit 8 (ucast c)"

definition set_char :: "u8 \<Rightarrow> u8 \<Rightarrow> u32 \<Rightarrow> u32 \<Rightarrow> devices \<Rightarrow> devices res" where
  "set_char code c x y s =
    kbind (array_write (t_buf s) (unat (y * vga_width + x)) (vga_entry code c)) (\<lambda>b.
    kbind (array_write (internal_buf s) (unat ((y + internal_buf_i s) mod vga_height * vga_width + x)) (vga_entry code c)) (\<lambda>ib.
    Inr (s\<lparr>t_buf := b, internal_buf := ib\<rparr>)))"

definition tty_set_color :: "color_pair \<Rightarrow> devices \<Rightarrow> devices" where
  "tty_set_color cp s = s\<lparr>t_color := vga_color (fg cp) (bg cp)\<rparr>"

text \<open>The cells of the screen in the order of the nested loops over rows and columns.\<close>

definition all_cells :: "(u32 \<times> u32) list" where
  "all_cells = concat (map (\<lambda>y. map (\<lambda>x. (of_nat y, of_nat x)) [0..<80]) [0..<25])"

definition space_char :: u8 where "space_char = 32"

definition newline_char :: u8 where "newline_char = 10"

definition tty_initialize :: "devices \<Rightarrow> devices res" where
  "tty_initialize s =
    kfold (\<lambda>(y, x) s. set_char space_char (t_color s) x y s) all_cells
      (tty_set_color \<lparr>fg = Black, bg = White\<rparr> (s\<lparr>t_x := 0, t_y := 0, internal_buf_i := 0\<rparr>))"

definition move_cursor :: "u16 \<Rightarrow> devices \<Rightarrow> devices" where
  "move_cursor pos s =
    asm_outb 0x3D5 (ucast pos AND 0xFF) (asm_outb 0x3D4 15
      (asm_outb 0x3D5 (ucast (drop_bit 8 pos) AND 0xFF) (asm_outb 0x3D4 14 s)))"

definition tty_scroll :: "devices \<Rightarrow> devices res" where
  "tty_scroll s0 =
    (let i = internal_buf_i s0 + 1;
         s1 = s0\<lparr>internal_buf_i := if i = vga_height then 0 else i\<rparr>
     in kbind
          (kfold (\<lambda>(y, x) s.
             kbind (array_read (internal_buf s) (unat ((y + internal_buf_i s) mod vga_height * vga_width + x))) (\<lambda>v.
             kbind (array_write (t_buf s) (unat (y * vga_width + x)) v) (\<lambda>b. Inr (s\<lparr>t_buf := b\<rparr>)))) all_cells s1)
          (kfold (\<lambda>x s. set_char space_char (t_color s) (of_nat x) (vga_height - 1) s) [0..<80]))"

definition tty_newline :: "devices \<Rightarrow> devices res" where
  "tty_newline s =
    (let s1 = s\<lparr>t_x := 0\<rparr> in if t_y s1 = vga_height - 1 then tty_scroll s1 else Inr (s1\<lparr>t_y := t_y s1 + 1\<rparr>))"

definition tty_put :: "u8 \<Rightarrow> devices \<Rightarrow> devices res" where
  "tty_put c s =
    kbind
      (if c = newline_char then tty_newline s
       else
         kbind (set_char c (t_color s) (t_x s) (t_y s) s) (\<lambda>s1.
         let s2 = s1\<lparr>t_x := t_x s1 + 1\<rparr> in if t_x s2 = vga_width then tty_newline s2 else Inr s2))
      (\<lambda>s3. Inr (move_cursor (ucast (t_x s3 + t_y s3 * vga_width)) s3))"

subsection \<open>The keyboard\<close>

definition kbd_us :: "u8 list" where
  "kbd_us =
    [0, 27, 49, 50, 51, 52, 53, 54, 55, 56, 57, 48, 45, 61, 8, 9,
     113, 119, 101, 114, 116, 121, 117, 105, 111, 112, 91, 93, 10, 0,
     97, 115, 100, 102, 103, 104, 106, 107, 108, 59, 39, 96, 0, 92,
     122, 120, 99, 118, 98, 110, 109, 44, 46, 47, 0, 42, 0,
     32, 0, 0, 0, 0, 0, 0, 0, 0, 0, 0, 0, 0, 0, 0, 0, 0,
     45, 0, 0, 0, 43, 0, 0, 0, 0, 0, 0, 0, 0, 0, 0, 0] @ replicate 38 0"

definition on_scan_code :: "u8 \<Rightarrow> devices \<Rightarrow> devices res" where
  "on_scan_code scan_code s =
    (if scan_code AND 0x80 \<noteq> 0 then
       let code = scan_code XOR 0x80; i = unat (drop_bit 5 code)
       in kbind (array_read (is_down s) i) (\<lambda>w.
          kbind (array_write (is_down s) i (w AND NOT (push_bit (unat (code AND 0x1F)) 1))) (\<lambda>ws. Inr (s\<lparr>is_down := ws\<rparr>)))
     else
       let i = unat (drop_bit 5 scan_code)
       in kbind (array_read (is_down s) i) (\<lambda>w.
          kbind (array_write (is_down s) i (w OR push_bit (unat (scan_code AND 0x1F)) 1)) (\<lambda>ws.
          let s1 = s\<lparr>is_down := ws\<rparr>
          in kbind (array_read kbd_us (unat scan_code)) (\<lambda>us_char.
             if us_char \<noteq> 0 then
               kbind (array_read ws 1) (\<lambda>w1.
               tty_put (if 97 \<le> us_char \<and> us_char \<le> 122 \<and> w1 AND 1024 \<noteq> 0 then us_char - 32 else us_char) s1)
             else Inr s1))))"

subsection \<open>The serial line\<close>

text \<open>
  The line status is read from the device: \<open>status n\<close> is the byte that the \<open>n\<close>th read of the status port returns.
  \<open>put\<close> waits without bound.
\<close>

definition serial_configure_baud_rate :: "u16 \<Rightarrow> u16 \<Rightarrow> devices \<Rightarrow> devices" where
  "serial_configure_baud_rate com divisor s =
    asm_outb com (ucast divisor AND 0xFF) (asm_outb com (ucast (drop_bit 8 divisor) AND 0xFF) (asm_outb (com + 3) 0x80 s))"

definition serial_configure_line :: "u16 \<Rightarrow> devices \<Rightarrow> devices" where
  "serial_configure_line com s = asm_outb (com + 3) 0x03 s"

definition serial_initialize :: "devices \<Rightarrow> devices" where
  "serial_initialize s = serial_configure_line 0x3F8 (serial_configure_baud_rate 0x3F8 1 s)"

definition serial_is_transmit_fifo_empty :: "u8 \<Rightarrow> bool" where
  "serial_is_transmit_fifo_empty line_status \<longleftrightarrow> line_status AND 0x20 \<noteq> 0"

partial_function (option) serial_wait :: "(nat \<Rightarrow> u8) \<Rightarrow> nat \<Rightarrow> nat option" where
  "serial_wait status n = (if serial_is_transmit_fifo_empty (status n) then Some (Suc n) else serial_wait status (Suc n))"

definition serial_put :: "(nat \<Rightarrow> u8) \<Rightarrow> u8 \<Rightarrow> nat \<times> devices \<Rightarrow> (nat \<times> devices) option" where
  "serial_put status c = (\<lambda>(n, s). map_option (\<lambda>n'. (n', asm_outb 0x3F8 c s)) (serial_wait status n))"

end
