(* ===== verification/Devices_Props.thy ===== *)
theory Devices_Props
  imports Devices
begin

section \<open>The screen as a terminal\<close>

text \<open>
  The driver's two buffers and its ring of rows implement a terminal: a cursor and 25 rows of 80 cells that move up
  by one row when the cursor leaves the last one. The keyboard keeps the set of keys that are down.
\<close>

subsection \<open>Cells\<close>

definition cell :: "devices \<Rightarrow> nat \<Rightarrow> nat \<Rightarrow> u16" where
  "cell s y x = t_buf s ! (y * 80 + x)"

definition ring_cell :: "devices \<Rightarrow> nat \<Rightarrow> nat \<Rightarrow> u16" where
  "ring_cell s y x = internal_buf s ! ((y + unat (internal_buf_i s)) mod 25 * 80 + x)"

definition bufs_ok :: "devices \<Rightarrow> bool" where
  "bufs_ok s \<longleftrightarrow> length (t_buf s) = 2000 \<and> length (internal_buf s) = 2000 \<and> unat (internal_buf_i s) < 25"

definition mirrored :: "devices \<Rightarrow> bool" where
  "mirrored s \<longleftrightarrow> (\<forall>y < 25. \<forall>x < 80. cell s y x = ring_cell s y x)"

definition tty_inv :: "devices \<Rightarrow> bool" where
  "tty_inv s \<longleftrightarrow> bufs_ok s \<and> mirrored s \<and> unat (t_x s) < 80 \<and> unat (t_y s) < 25"

text \<open>What writing cells leaves alone.\<close>

definition same_control :: "devices \<Rightarrow> devices \<Rightarrow> bool" where
  "same_control s s' \<longleftrightarrow> t_x s' = t_x s \<and> t_y s' = t_y s \<and> t_color s' = t_color s \<and> internal_buf_i s' = internal_buf_i s \<and>
    is_down s' = is_down s \<and> port_log s' = port_log s"

lemma unat_cell:
  fixes x y :: u32
  assumes "unat y < 25" and "unat x < 80"
  shows "unat (y * vga_width + x) = unat y * 80 + unat x"
proof -
  have "y * vga_width + x = of_nat (unat y * 80 + unat x)"
    by (simp add: vga_width_def)
  moreover have "unat y * 80 + unat x < 4294967296"
    using assms by linarith
  ultimately show ?thesis
    by (simp only: unat_of_nat_32)
qed

lemma unat_row:
  fixes y i :: u32
  assumes "unat y < 25" and "unat i < 25"
  shows "unat ((y + i) mod vga_height) = (unat y + unat i) mod 25"
proof -
  have "y + i = of_nat (unat y + unat i)"
    by simp
  moreover have "unat y + unat i < 4294967296"
    using assms by linarith
  ultimately have "unat (y + i) = unat y + unat i"
    by (simp only: unat_of_nat_32)
  then show ?thesis
    by (simp add: unat_mod_distrib vga_height_def)
qed

lemma cell_bound: "y < 25 \<Longrightarrow> x < 80 \<Longrightarrow> y * 80 + x < (2000 :: nat)"
  by linarith

lemma cell_index_eq:
  fixes x k y r :: nat
  assumes "x < 80" and "k < 80"
  shows "y * 80 + x = r * 80 + k \<longleftrightarrow> y = r \<and> x = k"
proof
  assume eq: "y * 80 + x = r * 80 + k"
  have "(y * 80 + x) div 80 = y" "(y * 80 + x) mod 80 = x" "(r * 80 + k) div 80 = r" "(r * 80 + k) mod 80 = k"
    using assms by simp_all
  with eq show "y = r \<and> x = k" by metis
qed simp

lemma mod_25: "a < 50 \<Longrightarrow> a mod 25 = (if a < 25 then a else a - (25 :: nat))"
  by (simp add: le_mod_geq)

lemma row_index_eq:
  fixes y r i :: nat
  assumes "y < 25" and "r < 25" and "i < 25"
  shows "(y + i) mod 25 = (r + i) mod 25 \<longleftrightarrow> y = r"
  using assms mod_25 [of "y + i"] mod_25 [of "r + i"] by (simp split: if_splits) linarith?

lemma set_char_spec:
  assumes ok: "bufs_ok s" and x: "unat x < 80" and y: "unat y < 25"
  obtains s' where "set_char code c x y s = Inr s'" "bufs_ok s'" "same_control s s'"
    "\<And>r k. r < 25 \<Longrightarrow> k < 80 \<Longrightarrow> cell s' r k = (if r = unat y \<and> k = unat x then vga_entry code c else cell s r k)"
    "\<And>r k. r < 25 \<Longrightarrow> k < 80 \<Longrightarrow> ring_cell s' r k = (if r = unat y \<and> k = unat x then vga_entry code c else ring_cell s r k)"
proof -
  let ?i = "unat (internal_buf_i s)" and ?e = "vga_entry code c"
  let ?row = "(unat y + ?i) mod 25"
  have i: "?i < 25" and len: "length (t_buf s) = 2000" "length (internal_buf s) = 2000"
    using ok by (simp_all add: bufs_ok_def)
  have u1: "unat (y * vga_width + x) = unat y * 80 + unat x"
    by (rule unat_cell [OF y x])
  have u2: "unat ((y + internal_buf_i s) mod vga_height * vga_width + x) = ?row * 80 + unat x"
    using unat_cell [of "(y + internal_buf_i s) mod vga_height" x] unat_row [OF y i] x by simp
  have b: "unat y * 80 + unat x < 2000" "?row * 80 + unat x < 2000"
    using cell_bound [OF y x] cell_bound [of ?row "unat x"] x by simp_all
  let ?s = "s\<lparr>t_buf := (t_buf s)[unat y * 80 + unat x := ?e], internal_buf := (internal_buf s)[?row * 80 + unat x := ?e]\<rparr>"
  have "set_char code c x y s = Inr ?s"
    using b len by (simp add: set_char_def u1 u2)
  moreover have "bufs_ok ?s" "same_control s ?s"
    using ok by (simp_all add: bufs_ok_def same_control_def)
  moreover have "cell ?s r k = (if r = unat y \<and> k = unat x then ?e else cell s r k)" if "r < 25" "k < 80" for r k
    using b(1) len(1) cell_index_eq [OF x that(2), of "unat y" r] by (auto simp: cell_def nth_list_update)
  moreover have "ring_cell ?s r k = (if r = unat y \<and> k = unat x then ?e else ring_cell s r k)" if "r < 25" "k < 80" for r k
    using b(2) len(2) cell_index_eq [OF x that(2), of ?row "(r + ?i) mod 25"] row_index_eq [OF y that(1) i]
    by (auto simp: ring_cell_def nth_list_update)
  ultimately show thesis
    using that by blast
qed

lemma same_control_trans: "same_control s s' \<Longrightarrow> same_control s' s'' \<Longrightarrow> same_control s s''"
  by (simp add: same_control_def)

text \<open>Writing the same character to many cells.\<close>

definition cells_of :: "(u32 \<times> u32) list \<Rightarrow> (nat \<times> nat) set" where
  "cells_of ps = (\<lambda>(y, x). (unat y, unat x)) ` set ps"

lemma fill_cells:
  assumes ok: "bufs_ok s" and ps: "\<And>y x. (y, x) \<in> set ps \<Longrightarrow> unat y < 25 \<and> unat x < 80"
  shows "\<exists>s'. kfold (\<lambda>(y, x) s. set_char code (t_color s) x y s) ps s = Inr s' \<and> bufs_ok s' \<and> same_control s s' \<and>
    (\<forall>r < 25. \<forall>k < 80. cell s' r k = (if (r, k) \<in> cells_of ps then vga_entry code (t_color s) else cell s r k) \<and>
       ring_cell s' r k = (if (r, k) \<in> cells_of ps then vga_entry code (t_color s) else ring_cell s r k))"
  using assms
proof (induction ps arbitrary: s)
  case Nil
  then show ?case by (simp add: same_control_def cells_of_def)
next
  case (Cons p ps)
  obtain y x where p: "p = (y, x)" by (cases p)
  have yx: "unat y < 25" "unat x < 80"
    using Cons.prems(2) [of y x] p by simp_all
  obtain s1 where s1: "set_char code (t_color s) x y s = Inr s1" "bufs_ok s1" "same_control s s1"
      "\<And>r k. r < 25 \<Longrightarrow> k < 80 \<Longrightarrow> cell s1 r k = (if r = unat y \<and> k = unat x then vga_entry code (t_color s) else cell s r k)"
      "\<And>r k. r < 25 \<Longrightarrow> k < 80 \<Longrightarrow> ring_cell s1 r k = (if r = unat y \<and> k = unat x then vga_entry code (t_color s) else ring_cell s r k)"
    using set_char_spec [OF Cons.prems(1) yx(2,1)] by blast
  have col: "t_color s1 = t_color s"
    using s1(3) by (simp add: same_control_def)
  obtain s2 where s2: "kfold (\<lambda>(y, x) s. set_char code (t_color s) x y s) ps s1 = Inr s2" "bufs_ok s2" "same_control s1 s2"
      "\<forall>r < 25. \<forall>k < 80. cell s2 r k = (if (r, k) \<in> cells_of ps then vga_entry code (t_color s) else cell s1 r k) \<and>
       ring_cell s2 r k = (if (r, k) \<in> cells_of ps then vga_entry code (t_color s) else ring_cell s1 r k)"
    using Cons.IH [OF s1(2)] Cons.prems(2) unfolding col by auto
  have "(r, k) \<in> cells_of (p # ps) \<longleftrightarrow> r = unat y \<and> k = unat x \<or> (r, k) \<in> cells_of ps" for r k
    by (auto simp: cells_of_def p)
  then show ?case
    using s1 s2 same_control_trans [OF s1(3) s2(3)] p by auto
qed

lemma all_cells_mem:
  "(y, x) \<in> set all_cells \<Longrightarrow> unat y < 25 \<and> unat x < 80"
  by (auto simp: all_cells_def unat_of_nat_32)

lemma cells_of_all: "r < 25 \<Longrightarrow> k < 80 \<Longrightarrow> (r, k) \<in> cells_of all_cells"
  unfolding cells_of_def all_cells_def
  by (rule image_eqI [where x = "(of_nat r, of_nat k)"]) (auto simp: unat_of_nat_32 intro!: bexI [of _ r])

lemma copy_cells:
  assumes "bufs_ok s" and "\<And>y x. (y, x) \<in> set ps \<Longrightarrow> unat y < 25 \<and> unat x < 80"
  shows "\<exists>s'. kfold (\<lambda>(y, x) s.
      kbind (array_read (internal_buf s) (unat ((y + internal_buf_i s) mod vga_height * vga_width + x))) (\<lambda>v.
      kbind (array_write (t_buf s) (unat (y * vga_width + x)) v) (\<lambda>b. Inr (s\<lparr>t_buf := b\<rparr>)))) ps s = Inr s' \<and>
    bufs_ok s' \<and> same_control s s' \<and>
    (\<forall>r < 25. \<forall>k < 80. cell s' r k = (if (r, k) \<in> cells_of ps then ring_cell s r k else cell s r k) \<and>
       ring_cell s' r k = ring_cell s r k)"
  using assms
proof (induction ps arbitrary: s)
  case Nil
  then show ?case by (simp add: same_control_def cells_of_def)
next
  case (Cons p ps)
  obtain y x where p: "p = (y, x)" by (cases p)
  have yx: "unat y < 25" "unat x < 80"
    using Cons.prems(2) [of y x] p by simp_all
  let ?i = "unat (internal_buf_i s)"
  have i: "?i < 25" and len: "length (t_buf s) = 2000" "length (internal_buf s) = 2000"
    using Cons.prems(1) by (simp_all add: bufs_ok_def)
  have u1: "unat (y * vga_width + x) = unat y * 80 + unat x"
    by (rule unat_cell [OF yx])
  have u2: "unat ((y + internal_buf_i s) mod vga_height * vga_width + x) = (unat y + ?i) mod 25 * 80 + unat x"
    using unat_cell [of "(y + internal_buf_i s) mod vga_height" x] unat_row [OF yx(1) i] yx(2) by simp
  have b: "unat y * 80 + unat x < 2000" "(unat y + ?i) mod 25 * 80 + unat x < 2000"
    using cell_bound [OF yx] cell_bound [of "(unat y + ?i) mod 25" "unat x"] yx(2) by simp_all
  define s1 where "s1 = s\<lparr>t_buf := (t_buf s)[unat y * 80 + unat x := ring_cell s (unat y) (unat x)]\<rparr>"
  have step: "kbind (array_read (internal_buf s) (unat ((y + internal_buf_i s) mod vga_height * vga_width + x))) (\<lambda>v.
      kbind (array_write (t_buf s) (unat (y * vga_width + x)) v) (\<lambda>b. Inr (s\<lparr>t_buf := b\<rparr>))) = Inr s1"
    using b len by (simp add: u1 u2 s1_def ring_cell_def)
  have s1: "bufs_ok s1" "same_control s s1"
      "\<And>r k. r < 25 \<Longrightarrow> k < 80 \<Longrightarrow> cell s1 r k = (if r = unat y \<and> k = unat x then ring_cell s r k else cell s r k)"
      "\<And>r k. ring_cell s1 r k = ring_cell s r k"
    using Cons.prems(1) len b(1) cell_index_eq [OF yx(2), of _ "unat y"]
    by (auto simp: s1_def bufs_ok_def same_control_def cell_def ring_cell_def nth_list_update)
  obtain s2 where s2: "kfold (\<lambda>(y, x) s.
      kbind (array_read (internal_buf s) (unat ((y + internal_buf_i s) mod vga_height * vga_width + x))) (\<lambda>v.
      kbind (array_write (t_buf s) (unat (y * vga_width + x)) v) (\<lambda>b. Inr (s\<lparr>t_buf := b\<rparr>)))) ps s1 = Inr s2"
      "bufs_ok s2" "same_control s1 s2"
      "\<forall>r < 25. \<forall>k < 80. cell s2 r k = (if (r, k) \<in> cells_of ps then ring_cell s1 r k else cell s1 r k) \<and>
         ring_cell s2 r k = ring_cell s1 r k"
    using Cons.IH [OF s1(1)] Cons.prems(2) by auto
  have "(r, k) \<in> cells_of (p # ps) \<longleftrightarrow> r = unat y \<and> k = unat x \<or> (r, k) \<in> cells_of ps" for r k
    by (auto simp: cells_of_def p)
  then show ?case
    using step s1 s2 same_control_trans [OF s1(2) s2(3)] p by auto
qed

subsection \<open>The terminal\<close>

record terminal =
  cur_x :: nat
  cur_y :: nat
  screen :: "nat \<Rightarrow> nat \<Rightarrow> u16"

definition term_of :: "devices \<Rightarrow> terminal" where
  "term_of s = \<lparr>cur_x = unat (t_x s), cur_y = unat (t_y s), screen = (\<lambda>r k. if r < 25 \<and> k < 80 then cell s r k else 0)\<rparr>"

definition term_scroll :: "u16 \<Rightarrow> (nat \<Rightarrow> nat \<Rightarrow> u16) \<Rightarrow> nat \<Rightarrow> nat \<Rightarrow> u16" where
  "term_scroll blank scr = (\<lambda>r k. if r < 24 \<and> k < 80 then scr (Suc r) k else if r = 24 \<and> k < 80 then blank else 0)"

definition term_newline :: "u16 \<Rightarrow> terminal \<Rightarrow> terminal" where
  "term_newline blank t =
    (if cur_y t = 24 then t\<lparr>cur_x := 0, screen := term_scroll blank (screen t)\<rparr> else t\<lparr>cur_x := 0, cur_y := Suc (cur_y t)\<rparr>)"

definition term_put :: "u8 \<Rightarrow> u8 \<Rightarrow> terminal \<Rightarrow> terminal" where
  "term_put col c t =
    (if c = newline_char then term_newline (vga_entry space_char col) t
     else
       let t1 = t\<lparr>screen := (screen t)(cur_y t := (screen t (cur_y t))(cur_x t := vga_entry c col)), cur_x := Suc (cur_x t)\<rparr>
       in if cur_x t1 = 80 then term_newline (vga_entry space_char col) t1 else t1)"

lemma unat_less_eq: "unat (v :: u32) = n \<longleftrightarrow> v = of_nat n" if "n < 4294967296"
  using that unat_of_nat_32 [of n] by auto

lemma unat_Suc_small: "unat (v :: u32) < 100 \<Longrightarrow> unat (v + 1) = Suc (unat v)"
proof -
  assume v: "unat v < 100"
  have "v + 1 = of_nat (Suc (unat v))"
    by simp
  then show ?thesis
    using v by (simp only: unat_of_nat_32)
qed

lemma last_row: "unat (vga_height - 1) = 24" "v = vga_height - 1 \<longleftrightarrow> unat (v :: u32) = 24"
  by (simp_all add: vga_height_def unat_less_eq)

lemma tty_scroll_spec:
  assumes ok: "bufs_ok s" and mir: "mirrored s"
  shows "\<exists>s'. tty_scroll s = Inr s' \<and> bufs_ok s' \<and> mirrored s' \<and> t_x s' = t_x s \<and> t_y s' = t_y s \<and> t_color s' = t_color s \<and>
    is_down s' = is_down s \<and> port_log s' = port_log s \<and>
    screen (term_of s') = term_scroll (vga_entry space_char (t_color s)) (screen (term_of s))"
proof -
  let ?j = "internal_buf_i s + 1"
  define s1 where "s1 = s\<lparr>internal_buf_i := if ?j = vga_height then 0 else ?j\<rparr>"
  have i: "unat (internal_buf_i s) < 25"
    using ok by (simp add: bufs_ok_def)
  then have j: "unat ?j = Suc (unat (internal_buf_i s))"
    by (intro unat_Suc_small) simp
  have i1: "unat (internal_buf_i s1) = Suc (unat (internal_buf_i s)) mod 25"
  proof (cases "?j = vga_height")
    case True
    then have "unat ?j = 25"
      by (simp add: vga_height_def)
    with True j show ?thesis
      by (simp add: s1_def)
  next
    case False
    then have "unat ?j \<noteq> 25"
      using unat_less_eq [of 25 ?j] by (simp add: vga_height_def)
    with False i j show ?thesis
      by (simp add: s1_def)
  qed
  have ok1: "bufs_ok s1"
    using ok i1 by (simp add: bufs_ok_def s1_def split: if_splits)
  have rc1: "ring_cell s1 r k = ring_cell s (Suc r) k" for r k
  proof -
    have "(r + unat (internal_buf_i s1)) mod 25 = (Suc r + unat (internal_buf_i s)) mod 25"
      unfolding i1 by (simp add: mod_add_right_eq)
    moreover have "internal_buf s1 = internal_buf s"
      by (simp add: s1_def)
    ultimately show ?thesis
      by (simp add: ring_cell_def)
  qed
  obtain s2 where s2: "kfold (\<lambda>(y, x) s.
      kbind (array_read (internal_buf s) (unat ((y + internal_buf_i s) mod vga_height * vga_width + x))) (\<lambda>v.
      kbind (array_write (t_buf s) (unat (y * vga_width + x)) v) (\<lambda>b. Inr (s\<lparr>t_buf := b\<rparr>)))) all_cells s1 = Inr s2"
      "bufs_ok s2" "same_control s1 s2"
      "\<And>r k. r < 25 \<Longrightarrow> k < 80 \<Longrightarrow> cell s2 r k = ring_cell s1 r k \<and> ring_cell s2 r k = ring_cell s1 r k"
    using copy_cells [OF ok1, of all_cells] all_cells_mem cells_of_all by (metis (lifting))
  let ?ps = "map (\<lambda>x. (vga_height - 1, of_nat x)) [0..<80] :: (u32 \<times> u32) list"
  have ps: "unat y < 25 \<and> unat x < 80" if "(y, x) \<in> set ?ps" for y x
    using that by (auto simp: vga_height_def unat_of_nat_32)
  have cs: "(r, k) \<in> cells_of ?ps \<longleftrightarrow> r = 24 \<and> k < 80" for r k
    using last_row(1) by (force simp: cells_of_def unat_of_nat_32 image_iff)
  have loop: "kfold (\<lambda>x s. set_char space_char (t_color s) (of_nat x) (vga_height - 1) s) xs s2 =
      kfold (\<lambda>(y, x) s. set_char space_char (t_color s) x y s) (map (\<lambda>x. (vga_height - 1, of_nat x)) xs) s2" for xs s2
    by (induction xs arbitrary: s2) (simp_all add: kbind_def split: sum.splits)
  obtain s3 where s3: "kfold (\<lambda>x s. set_char space_char (t_color s) (of_nat x) (vga_height - 1) s) [0..<80] s2 = Inr s3"
      "bufs_ok s3" "same_control s2 s3"
      "\<forall>r < 25. \<forall>k < 80. cell s3 r k = (if r = 24 \<and> k < 80 then vga_entry space_char (t_color s2) else cell s2 r k) \<and>
       ring_cell s3 r k = (if r = 24 \<and> k < 80 then vga_entry space_char (t_color s2) else ring_cell s2 r k)"
    using fill_cells [where ps = ?ps and code = space_char, OF s2(2) ps] unfolding loop cs by (metis (lifting))
  have col: "t_color s2 = t_color s"
    using s2(3) by (simp add: same_control_def s1_def)
  have "tty_scroll s = Inr s3"
    using s2(1) s3(1) by (simp add: tty_scroll_def Let_def s1_def [symmetric])
  moreover have "mirrored s3"
    using s3(4) s2(4) by (simp add: mirrored_def)
  moreover have "screen (term_of s3) = term_scroll (vga_entry space_char (t_color s)) (screen (term_of s))"
  proof (intro ext)
    fix r k
    have "cell s3 r k = cell s (Suc r) k" if "r < 24" "k < 80"
      using that s3(4) s2(4) [of r k] rc1 [of r k] mir by (simp add: mirrored_def)
    then show "screen (term_of s3) r k = term_scroll (vga_entry space_char (t_color s)) (screen (term_of s)) r k"
      using s3(4) col by (auto simp: term_of_def term_scroll_def)
  qed
  ultimately show ?thesis
    using s3(2,3) s2(3) by (intro exI [of _ s3]) (simp add: same_control_def s1_def)
qed

lemma term_of_move [simp]: "term_of (move_cursor p s) = term_of s" "tty_inv (move_cursor p s) = tty_inv s"
  "is_down (move_cursor p s) = is_down s" "t_color (move_cursor p s) = t_color s"
  by (simp_all add: term_of_def move_cursor_def asm_outb_def cell_def tty_inv_def bufs_ok_def mirrored_def ring_cell_def fun_eq_iff)

lemma tty_newline_spec:
  assumes ok: "bufs_ok s" and mir: "mirrored s" and y: "unat (t_y s) < 25"
  shows "\<exists>s'. tty_newline s = Inr s' \<and> tty_inv s' \<and> t_color s' = t_color s \<and> is_down s' = is_down s \<and> port_log s' = port_log s \<and>
    term_of s' = term_newline (vga_entry space_char (t_color s)) (term_of s)"
proof (cases "t_y s = vga_height - 1")
  case True
  have "bufs_ok (s\<lparr>t_x := 0\<rparr>)" "mirrored (s\<lparr>t_x := 0\<rparr>)"
    using ok mir by (simp_all add: bufs_ok_def mirrored_def cell_def ring_cell_def)
  from tty_scroll_spec [OF this] obtain s' where s': "tty_scroll (s\<lparr>t_x := 0\<rparr>) = Inr s'" "bufs_ok s'" "mirrored s'"
      "t_x s' = 0" "t_y s' = t_y s" "t_color s' = t_color s" "is_down s' = is_down s" "port_log s' = port_log s"
      "screen (term_of s') = term_scroll (vga_entry space_char (t_color s)) (screen (term_of (s\<lparr>t_x := 0\<rparr>)))"
    by auto
  moreover have "screen (term_of (s\<lparr>t_x := 0\<rparr>)) = screen (term_of s)"
    by (simp add: term_of_def cell_def fun_eq_iff)
  moreover have "unat (t_y s) = 24"
    using True last_row(2) [of "t_y s"] by simp
  moreover have "cur_x (term_of s') = 0" "cur_y (term_of s') = 24"
    using s'(4,5) \<open>unat (t_y s) = 24\<close> by (simp_all add: term_of_def)
  ultimately show ?thesis
    using True y by (intro exI [of _ s']) (auto simp: tty_newline_def tty_inv_def term_newline_def term_of_def)
next
  case False
  then have y': "unat (t_y s) < 24"
    using y last_row(2) [of "t_y s"] by simp
  then have "unat (t_y s + 1) = Suc (unat (t_y s))"
    by (intro unat_Suc_small) simp
  with False y' ok mir show ?thesis
    by (simp add: tty_newline_def Let_def tty_inv_def term_newline_def term_of_def bufs_ok_def mirrored_def cell_def ring_cell_def fun_eq_iff)
qed

definition cursor_log :: "nat \<Rightarrow> (u16 \<times> u8) list" where
  "cursor_log pos = [(0x3D5, of_nat pos), (0x3D4, 15), (0x3D5, of_nat (pos div 256)), (0x3D4, 14)]"

lemma move_cursor_log:
  assumes "pos < 2000"
  shows "port_log (move_cursor (of_nat pos) s) = cursor_log pos @ port_log s"
proof -
  have m: "v AND 0xFF = v" for v :: u8
  proof -
    have "(0xFF :: u8) = mask 8"
      by (simp add: mask_eq_exp_minus_1)
    moreover have "v AND mask 8 = v"
      by (rule bit_word_eqI) (auto simp: bit_simps)
    ultimately show ?thesis
      by (simp only:)
  qed
  have c: "(ucast (of_nat n :: u16) :: u8) = of_nat n" if "n < 2000" for n
    using that by (simp add: unsigned_of_nat take_bit_nat_eq_self)
  have u: "unat (of_nat n :: u16) = n" if "n < 2000" for n
    using that by (simp add: unat_of_nat take_bit_nat_eq_self)
  have "unat (drop_bit 8 (of_nat pos :: u16)) = unat (of_nat (pos div 256) :: u16)"
    using u [of pos] u [of "pos div 256"] assms by (simp add: unat_drop_bit)
  then have d: "drop_bit 8 (of_nat pos :: u16) = of_nat (pos div 256)"
    by (simp only: word_unat_eq_iff)
  have "pos div 256 < 2000"
    using assms by simp
  then show ?thesis
    using assms unfolding move_cursor_def asm_outb_def cursor_log_def m d by (simp only: c) simp
qed

lemma tty_put_spec:
  assumes inv: "tty_inv s"
  shows "\<exists>s'. tty_put c s = Inr s' \<and> tty_inv s' \<and> term_of s' = term_put (t_color s) c (term_of s) \<and> t_color s' = t_color s \<and>
    is_down s' = is_down s \<and> port_log s' = cursor_log (unat (t_y s') * 80 + unat (t_x s')) @ port_log s"
proof -
  have ok: "bufs_ok s" "mirrored s" and x: "unat (t_x s) < 80" and y: "unat (t_y s) < 25"
    using inv by (simp_all add: tty_inv_def)
  have "\<exists>s3. (if c = newline_char then tty_newline s
       else kbind (set_char c (t_color s) (t_x s) (t_y s) s) (\<lambda>s1.
         let s2 = s1\<lparr>t_x := t_x s1 + 1\<rparr> in if t_x s2 = vga_width then tty_newline s2 else Inr s2)) = Inr s3 \<and>
      tty_inv s3 \<and> term_of s3 = term_put (t_color s) c (term_of s) \<and> t_color s3 = t_color s \<and> is_down s3 = is_down s \<and>
      port_log s3 = port_log s"
  proof (cases "c = newline_char")
    case True
    then show ?thesis
      using tty_newline_spec [OF ok y] by (auto simp: term_put_def)
  next
    case False
    obtain s1 where s1: "set_char c (t_color s) (t_x s) (t_y s) s = Inr s1" "bufs_ok s1" "same_control s s1"
        "\<And>r k. r < 25 \<Longrightarrow> k < 80 \<Longrightarrow> cell s1 r k = (if r = unat (t_y s) \<and> k = unat (t_x s) then vga_entry c (t_color s) else cell s r k)"
        "\<And>r k. r < 25 \<Longrightarrow> k < 80 \<Longrightarrow> ring_cell s1 r k = (if r = unat (t_y s) \<and> k = unat (t_x s) then vga_entry c (t_color s) else ring_cell s r k)"
      using set_char_spec [OF ok(1) x y] by blast
    define s2 where "s2 = s1\<lparr>t_x := t_x s1 + 1\<rparr>"
    have ctl: "t_x s2 = t_x s + 1" "t_y s2 = t_y s" "t_color s2 = t_color s" "is_down s2 = is_down s" "port_log s2 = port_log s"
      using s1(3) by (simp_all add: s2_def same_control_def)
    have x2: "unat (t_x s2) = Suc (unat (t_x s))"
      unfolding ctl(1) by (rule unat_Suc_small) (use x in simp)
    have ok2: "bufs_ok s2" and mir2: "mirrored s2"
      using s1(2,4,5) ok(2) by (simp_all add: s2_def bufs_ok_def mirrored_def cell_def ring_cell_def)
    have term2: "term_of s2 = (term_of s)\<lparr>screen := (screen (term_of s))(cur_y (term_of s) :=
        (screen (term_of s) (cur_y (term_of s)))(cur_x (term_of s) := vga_entry c (t_color s))), cur_x := Suc (cur_x (term_of s))\<rparr>"
      using s1(4) x y x2 ctl(2) by (simp add: term_of_def fun_eq_iff s2_def cell_def)
    have w: "t_x s2 = vga_width \<longleftrightarrow> Suc (unat (t_x s)) = 80"
      using x2 unat_less_eq [of 80 "t_x s2"] by (simp add: vga_width_def)
    have cx: "cur_x (term_of s2) = Suc (unat (t_x s))"
      using x2 by (simp add: term_of_def)
    have put: "kbind (set_char c (t_color s) (t_x s) (t_y s) s) (\<lambda>s1.
        let s2 = s1\<lparr>t_x := t_x s1 + 1\<rparr> in if t_x s2 = vga_width then tty_newline s2 else Inr s2) =
        (if t_x s2 = vga_width then tty_newline s2 else Inr s2)"
      using s1(1) by (simp add: Let_def s2_def)
    show ?thesis
    proof (cases "t_x s2 = vga_width")
      case True
      then have "term_put (t_color s) c (term_of s) = term_newline (vga_entry space_char (t_color s)) (term_of s2)"
        using False w cx unfolding term_put_def by (simp add: Let_def term2)
      then show ?thesis
        using tty_newline_spec [OF ok2 mir2] y ctl True False unfolding put by auto
    next
      case F: False
      then have "term_put (t_color s) c (term_of s) = term_of s2"
        using False w cx unfolding term_put_def by (simp add: Let_def term2)
      moreover have "tty_inv s2"
        using ok2 mir2 x2 w F x y ctl(2) by (simp add: tty_inv_def)
      ultimately show ?thesis
        using F False ctl unfolding put by simp
    qed
  qed
  then obtain s3 where s3: "(if c = newline_char then tty_newline s
       else kbind (set_char c (t_color s) (t_x s) (t_y s) s) (\<lambda>s1.
         let s2 = s1\<lparr>t_x := t_x s1 + 1\<rparr> in if t_x s2 = vga_width then tty_newline s2 else Inr s2)) = Inr s3"
      "tty_inv s3" "term_of s3 = term_put (t_color s) c (term_of s)" "t_color s3 = t_color s" "is_down s3 = is_down s"
      "port_log s3 = port_log s"
    by blast
  let ?p = "unat (t_y s3) * 80 + unat (t_x s3)"
  have xy: "unat (t_x s3) < 80" "unat (t_y s3) < 25"
    using s3(2) by (simp_all add: tty_inv_def)
  then have p: "?p < 2000"
    by (rule cell_bound [rotated])
  have "t_x s3 + t_y s3 * vga_width = of_nat ?p"
    by (simp add: vga_width_def)
  then have "(ucast (t_x s3 + t_y s3 * vga_width) :: u16) = of_nat ?p"
    using p by (simp add: unsigned_of_nat take_bit_nat_eq_self del: of_nat_add of_nat_mult)
  moreover have "t_x (move_cursor q s3) = t_x s3 \<and> t_y (move_cursor q s3) = t_y s3" for q
    by (simp add: move_cursor_def asm_outb_def)
  ultimately show ?thesis
    using s3 move_cursor_log [OF p, of s3] unfolding tty_put_def by simp
qed

text \<open>The keys that are down, and the character of a key.\<close>

definition key_char :: "nat set \<Rightarrow> nat \<Rightarrow> u8" where
  "key_char keys k = (let c = kbd_us ! k in if 97 \<le> c \<and> c \<le> 122 \<and> 42 \<in> keys then c - 32 else c)"

lemma unat_and_31_8: "unat (w AND 0x1F) = unat w mod 32" for w :: u8
proof -
  have "w AND 0x1F = take_bit 5 w"
    by (simp add: take_bit_eq_mask mask_eq_exp_minus_1)
  then have "unat (w AND 0x1F) = take_bit 5 (unat w)"
    by (simp add: unsigned_take_bit_eq)
  then show ?thesis by (simp add: take_bit_eq_mod)
qed

lemma release_code: "bit c 7 \<Longrightarrow> unat (c XOR 0x80) = unat c mod 128" for c :: u8
proof -
  assume c: "bit c 7"
  have e: "(0x80 :: u8) = 2 ^ 7"
    by simp
  have "c XOR 2 ^ 7 = take_bit 7 c"
    by (rule bit_word_eqI) (use c in \<open>auto simp: bit_simps less_Suc_eq numeral_eq_Suc\<close>)
  then have "unat (c XOR 2 ^ 7) = take_bit 7 (unat c)"
    by (simp only: unsigned_take_bit_eq)
  then show ?thesis
    unfolding e by (simp add: take_bit_eq_mod)
qed

lemma high_bit: "c AND 0x80 = 0 \<longleftrightarrow> \<not> bit c 7" "\<not> bit c 7 \<Longrightarrow> unat c < 128" for c :: u8
proof -
  show "c AND 0x80 = 0 \<longleftrightarrow> \<not> bit c 7"
    using word_and_bit_eq_0 [of c 7] by simp
  assume "\<not> bit c 7"
  then have "take_bit 7 c = c"
    by (intro bit_word_eqI) (auto simp: bit_simps less_Suc_eq numeral_eq_Suc)
  then have "take_bit 7 (unat c) = unat c"
    by (simp only: unsigned_take_bit_eq [symmetric])
  then show "unat c < 128"
    by (simp add: take_bit_nat_eq_self_iff)
qed

subsection \<open>Properties\<close>

text \<open>
  C32: The screen driver implements a terminal. \<open>put\<close> on a well-formed driver state stays inside both buffers and
  keeps the state well formed; the screen changes as the terminal's does: the character appears at the cursor
  in the current colour, the cursor moves on, at the end of a row to the next one, and in the last row the
  screen moves up by a row. The hardware cursor is sent the new position.
\<close>

theorem tty_put_refines:
  assumes "tty_inv s"
  shows "\<exists>s'. tty_put c s = Inr s' \<and> tty_inv s' \<and> term_of s' = term_put (t_color s) c (term_of s) \<and>
    port_log s' = cursor_log (unat (t_y s') * 80 + unat (t_x s')) @ port_log s"
  using tty_put_spec [OF assms] by blast

text \<open>
  C33: \<open>initialize\<close> makes any driver state with buffers of the right size well formed: all cells blank, black on
  white, and the cursor in the first cell.
\<close>

theorem tty_initialize_blank:
  assumes "length (t_buf s) = 2000" and "length (internal_buf s) = 2000"
  shows "\<exists>s'. tty_initialize s = Inr s' \<and> tty_inv s' \<and> t_color s' = 0xF0 \<and>
    term_of s' = \<lparr>cur_x = 0, cur_y = 0, screen = (\<lambda>r k. if r < 25 \<and> k < 80 then vga_entry space_char 0xF0 else 0)\<rparr>"
proof -
  define s1 where "s1 = tty_set_color \<lparr>fg = Black, bg = White\<rparr> (s\<lparr>t_x := 0, t_y := 0, internal_buf_i := 0\<rparr>)"
  have s1: "bufs_ok s1" "t_x s1 = 0" "t_y s1 = 0" "t_color s1 = 0xF0"
    using assms by (simp_all add: s1_def tty_set_color_def bufs_ok_def vga_color_def)
  obtain s2 where s2: "kfold (\<lambda>(y, x) s. set_char space_char (t_color s) x y s) all_cells s1 = Inr s2" "bufs_ok s2"
      "same_control s1 s2" "\<And>r k. r < 25 \<Longrightarrow> k < 80 \<Longrightarrow> cell s2 r k = vga_entry space_char 0xF0 \<and> ring_cell s2 r k = vga_entry space_char 0xF0"
    using fill_cells [where ps = all_cells and code = space_char, OF s1(1) all_cells_mem] cells_of_all s1(4) by (metis (lifting))
  then show ?thesis
    using s1 by (intro exI [of _ s2]) (auto simp: tty_initialize_def s1_def [symmetric] tty_inv_def mirrored_def same_control_def term_of_def fun_eq_iff)
qed

definition power_on :: devices where
  "power_on = \<lparr>t_x = 7, t_y = 90, t_color = 0, t_buf = replicate 2000 0x41, internal_buf = replicate 2000 0, internal_buf_i = 0,
     is_down = replicate 4 0, port_log = []\<rparr>"

theorem tty_initialize_blank_witness: "\<exists>s'. tty_initialize power_on = Inr s' \<and> tty_inv s'"
  using tty_initialize_blank [of power_on] by (auto simp: power_on_def)

definition blank_screen :: devices where
  "blank_screen = \<lparr>t_x = 79, t_y = 24, t_color = 0xF0, t_buf = replicate 2000 0xF020, internal_buf = replicate 2000 0xF020,
     internal_buf_i = 24, is_down = replicate 4 0, port_log = []\<rparr>"

lemma blank_screen_inv: "tty_inv blank_screen"
proof -
  have "(y + 24) mod 25 * 80 + x < 2000" "y * 80 + x < 2000" if "y < 25" "x < 80" for x y :: nat
    using that cell_bound [of "(y + 24) mod 25" x] by simp_all
  then show ?thesis
    by (simp add: tty_inv_def bufs_ok_def mirrored_def cell_def ring_cell_def blank_screen_def)
qed

theorem tty_put_refines_witness:
  "\<exists>s'. tty_put 65 blank_screen = Inr s' \<and> tty_inv s' \<and> screen (term_of s') 23 79 = vga_entry 65 0xF0 \<and> cur_x (term_of s') = 0"
proof -
  obtain s' where s': "tty_put 65 blank_screen = Inr s'" "tty_inv s'" "term_of s' = term_put (t_color blank_screen) 65 (term_of blank_screen)"
    using tty_put_refines [OF blank_screen_inv, of 65] by blast
  have "cur_x (term_of blank_screen) = 79" "cur_y (term_of blank_screen) = 24" "t_color blank_screen = 0xF0"
    by (simp_all add: term_of_def blank_screen_def)
  then show ?thesis
    using s' by (simp add: term_put_def term_newline_def newline_char_def term_scroll_def)
qed

lemma on_scan_code_spec:
  assumes "tty_inv s" and "length (is_down s) = 4"
  shows "\<exists>s'. on_scan_code code s = Inr s' \<and> tty_inv s' \<and> length (is_down s') = 4 \<and>
    (if 128 \<le> unat code
     then word_bits (is_down s') = word_bits (is_down s) - {unat code mod 128} \<and> term_of s' = term_of s
     else word_bits (is_down s') = insert (unat code) (word_bits (is_down s)) \<and>
       term_of s' = (let c = key_char (word_bits (is_down s')) (unat code)
                     in if kbd_us ! unat code = 0 then term_of s else term_put (t_color s) c (term_of s)))"
proof (cases "bit code 7")
  case True
  let ?c = "code XOR 0x80"
  have c: "unat ?c = unat code mod 128" "unat ?c div 32 < 4"
    using release_code [OF True] by simp_all
  have ge: "128 \<le> unat code"
  proof (rule ccontr)
    assume "\<not> 128 \<le> unat code"
    then have "take_bit 7 (unat code) = unat code"
      by (simp add: take_bit_nat_eq_self)
    then have "take_bit 7 code = code"
      by (simp only: word_unat_eq_iff unsigned_take_bit_eq)
    then have "bit (take_bit 7 code) 7"
      using True by simp
    then show False
      by (simp add: bit_take_bit_iff)
  qed
  let ?s = "s\<lparr>is_down := (is_down s)[unat code mod 128 div 32 := is_down s ! (unat code mod 128 div 32) AND NOT (2 ^ (unat code mod 128 mod 32))]\<rparr>"
  have "on_scan_code code s = Inr ?s"
    using True assms(2) c high_bit(1) [of code] by (simp add: on_scan_code_def Let_def unat_drop_bit unat_and_31_8)
  moreover have "word_bits (is_down ?s) = word_bits (is_down s) - {unat code mod 128}"
    using word_bits_and_not [of "unat code mod 128" "is_down s"] assms(2) c by simp
  moreover have "tty_inv ?s" "term_of ?s = term_of s"
    using assms(1) by (simp_all add: tty_inv_def bufs_ok_def mirrored_def cell_def ring_cell_def term_of_def fun_eq_iff)
  ultimately show ?thesis
    using ge assms(2) by (intro exI [of _ ?s]) simp
next
  case False
  note lt = high_bit(2) [OF False]
  let ?k = "unat code"
  let ?ws = "(is_down s)[?k div 32 := is_down s ! (?k div 32) OR 2 ^ (?k mod 32)]"
  let ?s = "s\<lparr>is_down := ?ws\<rparr>"
  have d: "?k div 32 < length (is_down s)"
    using lt assms(2) by simp
  have down: "word_bits ?ws = insert ?k (word_bits (is_down s))"
    by (rule word_bits_or [OF d])
  have len: "length kbd_us = 128"
    by (simp add: kbd_us_def)
  have shift: "?ws ! 1 AND 1024 \<noteq> 0 \<longleftrightarrow> 42 \<in> word_bits ?ws"
    using word_and_bit_eq_0 [of "?ws ! 1" 10] assms(2) by (simp add: word_bits_iff)
  have s: "tty_inv ?s" "term_of ?s = term_of s" "t_color ?s = t_color s"
    using assms(1) by (simp_all add: tty_inv_def bufs_ok_def mirrored_def cell_def ring_cell_def term_of_def fun_eq_iff)
  have run: "on_scan_code code s = (if kbd_us ! ?k \<noteq> 0 then tty_put (key_char (word_bits ?ws) ?k) ?s else Inr ?s)"
    using False assms(2) d lt high_bit(1) [of code] shift len
    by (simp add: on_scan_code_def Let_def unat_drop_bit unat_and_31_8 key_char_def)
  show ?thesis
  proof (cases "kbd_us ! ?k = 0")
    case True
    then show ?thesis
      using run s down assms(2) lt by (intro exI [of _ ?s]) simp
  next
    case F: False
    obtain s' where "tty_put (key_char (word_bits ?ws) ?k) ?s = Inr s'" "tty_inv s'" "is_down s' = ?ws"
        "term_of s' = term_put (t_color s) (key_char (word_bits ?ws) ?k) (term_of s)"
      using tty_put_spec [OF s(1), of "key_char (word_bits ?ws) ?k"] s by auto
    then show ?thesis
      using run F down assms(2) lt by (intro exI [of _ s']) (simp add: Let_def)
  qed
qed

lemma on_scan_code_ok: "tty_inv s \<Longrightarrow> length (is_down s) = 4 \<Longrightarrow> \<exists>s'. on_scan_code code s = Inr s' \<and> tty_inv s'"
  using on_scan_code_spec by blast

text \<open>
  C34: The keyboard handler keeps in \<open>is_down\<close> the set of keys that are down: a scan code below 0x80 adds its key and
  prints the key's character, a letter as a capital while key 42 (left shift) is down; a scan code with bit 7 removes
  the key and prints nothing.
\<close>

theorem keyboard_tracks_keys:
  assumes "tty_inv s" and "length (is_down s) = 4"
  shows "\<exists>s'. on_scan_code code s = Inr s' \<and> tty_inv s' \<and> length (is_down s') = 4 \<and>
    (if 128 \<le> unat code
     then word_bits (is_down s') = word_bits (is_down s) - {unat code mod 128} \<and> term_of s' = term_of s
     else word_bits (is_down s') = insert (unat code) (word_bits (is_down s)) \<and>
       term_of s' = (let c = key_char (word_bits (is_down s')) (unat code)
                     in if kbd_us ! unat code = 0 then term_of s else term_put (t_color s) c (term_of s)))"
  using on_scan_code_spec [OF assms] .

theorem keyboard_tracks_keys_witness:
  "\<exists>s'. on_scan_code 30 blank_screen = Inr s' \<and> word_bits (is_down s') = insert 30 (word_bits (is_down blank_screen))"
proof -
  have "length (is_down blank_screen) = 4"
    by (simp add: blank_screen_def)
  from keyboard_tracks_keys [OF blank_screen_inv this, of 30] show ?thesis
    by auto
qed

text \<open>
  \<open>serial::put\<close> returns if and only if the line status shows an empty transmit buffer at some later read; then it has
  read the status up to the first such read and sent the character once.
\<close>

lemma serial_put_terminates:
  "serial_put status c (n, s) = Some (n', s') \<longleftrightarrow>
    n < n' \<and> status (n' - 1) AND 0x20 \<noteq> 0 \<and> (\<forall>i. n \<le> i \<and> i < n' - 1 \<longrightarrow> status i AND 0x20 = 0) \<and> s' = asm_outb 0x3F8 c s"
proof -
  define sent where "sent = (\<lambda>(status :: nat \<Rightarrow> u8) n m. n < m \<and> status (m - 1) AND 0x20 \<noteq> 0 \<and>
    (\<forall>i. n \<le> i \<and> i < m - 1 \<longrightarrow> status i AND 0x20 = 0))"
  have fwd: "sent status n m" if w: "serial_wait status n = Some m" for n m
  proof (rule serial_wait.raw_induct [of sent, OF _ w])
    fix f st i j
    assume IH: "\<And>st i j. f st i = Some j \<Longrightarrow> sent st i j"
      and r: "(if serial_is_transmit_fifo_empty (st i) then Some (Suc i) else f st (Suc i)) = Some j"
    show "sent st i j"
    proof (cases "serial_is_transmit_fifo_empty (st i)")
      case True
      with r show ?thesis by (auto simp: serial_is_transmit_fifo_empty_def sent_def)
    next
      case False
      then have "sent st (Suc i) j" and i: "st i AND 0x20 = 0"
        using IH r by (simp_all add: serial_is_transmit_fifo_empty_def)
      moreover have "st k AND 0x20 = 0" if "i \<le> k" "k < j - 1" "\<forall>k. Suc i \<le> k \<and> k < j - 1 \<longrightarrow> st k AND 0x20 = 0" for k
        using that i by (cases "k = i") simp_all
      ultimately show ?thesis
        unfolding sent_def by simp
    qed
  qed
  have bwd: "serial_wait status n = Some (n + Suc k)"
    if "status (n + k) AND 0x20 \<noteq> 0" "\<forall>i < k. status (n + i) AND 0x20 = 0" for n k
    using that
  proof (induction k arbitrary: n)
    case 0
    then show ?case by (subst serial_wait.simps) (simp add: serial_is_transmit_fifo_empty_def)
  next
    case (Suc k)
    have "serial_wait status (Suc n) = Some (Suc n + Suc k)"
      using Suc.prems Suc.IH [of "Suc n"] by force
    then show ?case
      using Suc.prems(2) by (subst serial_wait.simps) (force simp: serial_is_transmit_fifo_empty_def)
  qed
  show ?thesis
  proof
    assume "serial_put status c (n, s) = Some (n', s')"
    then show "n < n' \<and> status (n' - 1) AND 0x20 \<noteq> 0 \<and> (\<forall>i. n \<le> i \<and> i < n' - 1 \<longrightarrow> status i AND 0x20 = 0) \<and> s' = asm_outb 0x3F8 c s"
      using fwd [of n n'] by (auto simp: serial_put_def sent_def)
  next
    assume r: "n < n' \<and> status (n' - 1) AND 0x20 \<noteq> 0 \<and> (\<forall>i. n \<le> i \<and> i < n' - 1 \<longrightarrow> status i AND 0x20 = 0) \<and> s' = asm_outb 0x3F8 c s"
    then obtain k where "n' = n + Suc k"
      using less_iff_Suc_add by auto
    with r bwd [of n k] show "serial_put status c (n, s) = Some (n', s')"
      by (simp add: serial_put_def)
  qed
qed

lemma serial_put_example:
  "serial_put (\<lambda>n. if n < 3 then 0 else 0x60) 65 (0, blank_screen) = Some (4, asm_outb 0x3F8 65 blank_screen)"
  by (subst serial_put_terminates) auto

lemma serial_put_ready:
  assumes "n \<le> m" and "status m AND 0x20 \<noteq> 0"
  shows "\<exists>n'. serial_put status c (n, s) = Some (n', asm_outb 0x3F8 c s)"
proof -
  define k where "k = (LEAST k. n \<le> k \<and> status k AND 0x20 \<noteq> 0)"
  have "n \<le> k" "status k AND 0x20 \<noteq> 0"
    using LeastI [of "\<lambda>k. n \<le> k \<and> status k AND 0x20 \<noteq> 0" m] assms unfolding k_def by blast+
  moreover have "\<forall>i. n \<le> i \<and> i < k \<longrightarrow> status i AND 0x20 = 0"
    using not_less_Least unfolding k_def by blast
  ultimately have "serial_put status c (n, s) = Some (Suc k, asm_outb 0x3F8 c s)"
    unfolding serial_put_terminates by simp
  then show ?thesis ..
qed

end
