(* ===== verification/Logging.thy ===== *)
theory Logging
  imports Str_Util Devices_Props Tar
begin

section \<open>Formatted output\<close>

text \<open>
  \<^verbatim>\<open>formatting::log_driver\<close> of \<^verbatim>\<open>kernel/formatting.hpp\<close>: \<open>write\<close> with its list of arguments, over the two functions of a
  device (\<^verbatim>\<open>tty_driver\<close> has those of the screen). Each overload of \<^verbatim>\<open>_write\<close> is an item; strings are in memory, names
  of errors are literals. \<open>buf\<close> is what the buffer for numbers on the stack holds at first.
\<close>

datatype log_item = LChar u8 | LString string_buf | LInt u32 | LUint u32 | LHex u32 | LColor color_pair | LErrno errno

record 'd log_driver =
  ld_put :: "u8 \<Rightarrow> 'd \<Rightarrow> 'd res"
  ld_set_color :: "color_pair \<Rightarrow> 'd \<Rightarrow> 'd"

definition tty_driver :: "devices log_driver" where
  "tty_driver = \<lparr>ld_put = tty_put, ld_set_color = tty_set_color\<rparr>"

definition write_string :: "'d log_driver \<Rightarrow> u8 list \<Rightarrow> 'd \<Rightarrow> 'd res" where
  "write_string drv cs = kfold (ld_put drv) cs"

text \<open>The characters of a string in memory, and those that a conversion left in the buffer.\<close>

definition string_chars :: "mem \<Rightarrow> string_buf \<Rightarrow> u8 list" where
  "string_chars m s = map (\<lambda>i. m (data s + of_nat i)) [0..<unat (length_field s)]"

definition write_number :: "'d log_driver \<Rightarrow> (nat \<times> u8 list) res \<Rightarrow> 'd \<Rightarrow> 'd res" where
  "write_number drv r s = kbind r (\<lambda>(n, out). write_string drv (take n out) s)"

definition literal :: "string \<Rightarrow> u8 list" where
  "literal = map of_char"

text \<open>The switch over the errors has no case for \<^verbatim>\<open>errno::invalid\<close>.\<close>

fun errno_name :: "errno \<Rightarrow> u8 list" where
  "errno_name E_ok = literal ''errno::ok''"
| "errno_name E_not_permitted = literal ''errno::not_permitted''"
| "errno_name E_no_entry = literal ''errno::no_entry''"
| "errno_name E_no_process = literal ''errno::no_process''"
| "errno_name E_interrupted = literal ''errno::interrupted''"
| "errno_name E_io_error = literal ''errno::io_error''"
| "errno_name E_no_memory = literal ''errno::no_memory''"
| "errno_name E_no_access = literal ''errno::no_access''"
| "errno_name E_exists = literal ''errno::exists''"
| "errno_name E_not_dir = literal ''errno::not_dir''"
| "errno_name E_is_dir = literal ''errno::is_dir''"
| "errno_name E_path_too_long = literal ''errno::path_too_long''"
| "errno_name E_invalid = []"

fun log_item_write :: "'d log_driver \<Rightarrow> mem \<Rightarrow> u8 list \<Rightarrow> log_item \<Rightarrow> 'd \<Rightarrow> 'd res" where
  "log_item_write drv m buf (LChar c) s = ld_put drv c s"
| "log_item_write drv m buf (LString str) s = write_string drv (string_chars m str) s"
| "log_item_write drv m buf (LInt val) s = write_number drv (str_util_dec_int val buf) s"
| "log_item_write drv m buf (LUint val) s = write_number drv (str_util_dec_uint val buf) s"
| "log_item_write drv m buf (LHex val) s = write_number drv (str_util_hex val buf) s"
| "log_item_write drv m buf (LColor cp) s = Inr (ld_set_color drv cp s)"
| "log_item_write drv m buf (LErrno e) s = write_string drv (errno_name e) s"

definition log_write :: "'d log_driver \<Rightarrow> mem \<Rightarrow> u8 list \<Rightarrow> log_item list \<Rightarrow> 'd \<Rightarrow> 'd res" where
  "log_write drv m buf items = kfold (log_item_write drv m buf) items"

subsection \<open>What is printed\<close>

text \<open>An output is a sequence of characters and colours; the texts that stand for an item.\<close>

datatype log_event = Print u8 | Paint color_pair

fun shows_item :: "mem \<Rightarrow> log_item \<Rightarrow> log_event list \<Rightarrow> bool" where
  "shows_item m (LChar c) evs \<longleftrightarrow> evs = [Print c]"
| "shows_item m (LString str) evs \<longleftrightarrow> evs = map Print (string_chars m str)"
| "shows_item m (LInt val) evs \<longleftrightarrow> (\<exists>cs. evs = map Print (if sint val < 0 then 45 # cs else cs) \<and> int (text_value 10 cs) = \<bar>sint val\<bar>)"
| "shows_item m (LUint val) evs \<longleftrightarrow> (\<exists>cs. evs = map Print cs \<and> text_value 10 cs = unat val)"
| "shows_item m (LHex val) evs \<longleftrightarrow> (\<exists>cs. evs = map Print cs \<and> text_value 16 cs = unat val)"
| "shows_item m (LColor cp) evs \<longleftrightarrow> evs = [Paint cp]"
| "shows_item m (LErrno e) evs \<longleftrightarrow> evs = map Print (errno_name e)"

text \<open>The terminal of the screen driver with its colour.\<close>

fun term_event :: "log_event \<Rightarrow> u8 \<times> terminal \<Rightarrow> u8 \<times> terminal" where
  "term_event (Print c) (col, t) = (col, term_put col c t)"
| "term_event (Paint cp) (col, t) = (vga_color (fg cp) (bg cp), t)"

definition colored_term :: "devices \<Rightarrow> u8 \<times> terminal" where
  "colored_term s = (t_color s, term_of s)"

subsection \<open>Drivers that print\<close>

text \<open>
  What a device promises to \<^verbatim>\<open>log_driver\<close>: in the states \<open>ok\<close> its functions return, keep \<open>ok\<close>, and take one step on what is
  seen of the device. Then every write prints the texts of its arguments.
\<close>

locale log_printer =
  fixes drv :: "'d log_driver" and ok :: "'d \<Rightarrow> bool" and seen :: "'d \<Rightarrow> 'o" and show_event :: "log_event \<Rightarrow> 'o \<Rightarrow> 'o"
  assumes put: "ok s \<Longrightarrow> \<exists>s'. ld_put drv c s = Inr s' \<and> ok s' \<and> seen s' = show_event (Print c) (seen s)"
    and set_color: "ok s \<Longrightarrow> ok (ld_set_color drv cp s) \<and> seen (ld_set_color drv cp s) = show_event (Paint cp) (seen s)"
begin

definition shown :: "'d res \<Rightarrow> log_event list \<Rightarrow> 'd \<Rightarrow> bool" where
  "shown r evs s \<longleftrightarrow> (\<exists>s'. r = Inr s' \<and> ok s' \<and> seen s' = fold show_event evs (seen s))"

lemma string_shown: "ok s \<Longrightarrow> shown (write_string drv cs s) (map Print cs) s"
proof (induction cs arbitrary: s)
  case (Cons c cs)
  then show ?case
    using put [OF Cons.prems, of c] by (force simp: write_string_def shown_def)
qed (simp add: write_string_def shown_def)

lemma number_shown:
  assumes "ok s" and "prints r buf cs"
  shows "shown (write_number drv r s) (map Print cs) s"
  using string_shown [OF assms(1), of cs] assms(2) by (auto simp: write_number_def prints_def)

lemma item_shown:
  assumes "ok s" and "length buf = 21" and "item \<noteq> LInt 0x80000000"
  shows "\<exists>evs. shows_item m item evs \<and> shown (log_item_write drv m buf item s) evs s"
proof (cases item)
  case (LChar c)
  then show ?thesis
    using put [OF assms(1), of c] by (simp add: shown_def)
next
  case (LString str)
  then show ?thesis
    using string_shown [OF assms(1), of "string_chars m str"] by simp
next
  case (LInt val)
  then obtain cs where "prints (str_util_dec_int val buf) buf (if sint val < 0 then 45 # cs else cs)" "int (text_value 10 cs) = \<bar>sint val\<bar>"
    using str_util_prints [OF assms(2), of val] assms(3) by blast
  from number_shown [OF assms(1) this(1)] this(2) show ?thesis
    unfolding LInt shows_item.simps log_item_write.simps by blast
next
  case (LUint val)
  obtain cs where "prints (str_util_dec_uint val buf) buf cs" "text_value 10 cs = unat val"
    using str_util_prints [OF assms(2), of val] by blast
  from number_shown [OF assms(1) this(1)] this(2) show ?thesis
    unfolding LUint shows_item.simps log_item_write.simps by blast
next
  case (LHex val)
  obtain cs where "prints (str_util_hex val buf) buf cs" "text_value 16 cs = unat val"
    using str_util_prints [OF assms(2), of val] by blast
  from number_shown [OF assms(1) this(1)] this(2) show ?thesis
    unfolding LHex shows_item.simps log_item_write.simps by blast
next
  case (LColor cp)
  then show ?thesis
    using set_color [OF assms(1), of cp] by (simp add: shown_def)
next
  case (LErrno e)
  then show ?thesis
    using string_shown [OF assms(1), of "errno_name e"] by simp
qed

lemma write_shown:
  assumes "ok s" and "length buf = 21" and "LInt 0x80000000 \<notin> set items"
  shows "\<exists>outs. list_all2 (shows_item m) items outs \<and> shown (log_write drv m buf items s) (concat outs) s"
  using assms
proof (induction items arbitrary: s)
  case Nil
  then show ?case
    by (simp add: log_write_def shown_def)
next
  case (Cons item items)
  obtain evs s1 where s1: "shows_item m item evs" "log_item_write drv m buf item s = Inr s1" "ok s1" "seen s1 = fold show_event evs (seen s)"
    using item_shown [OF Cons.prems(1,2), of item m] Cons.prems(3) by (auto simp: shown_def)
  obtain outs where "list_all2 (shows_item m) items outs" "shown (log_write drv m buf items s1) (concat outs) s1"
    using Cons.IH [OF s1(3)] Cons.prems by auto
  then show ?case
    using s1 by (intro exI [of _ "evs # outs"]) (auto simp: log_write_def shown_def)
qed

end

text \<open>
  What is seen of the screen and the serial line: the terminal with its colour, and the characters sent. Neither device
  touches the other.
\<close>

definition serial_sent :: "devices \<Rightarrow> u8 list" where
  "serial_sent d = map snd (filter (\<lambda>(port, c). port = 0x3F8) (rev (port_log d)))"

definition console_view :: "devices \<Rightarrow> (u8 \<times> terminal) \<times> u8 list" where
  "console_view d = (colored_term d, serial_sent d)"

definition on_screen :: "log_event \<Rightarrow> (u8 \<times> terminal) \<times> u8 list \<Rightarrow> (u8 \<times> terminal) \<times> u8 list" where
  "on_screen ev = apfst (term_event ev)"

fun send_event :: "log_event \<Rightarrow> u8 list \<Rightarrow> u8 list" where
  "send_event (Print c) cs = cs @ [c]"
| "send_event (Paint cp) cs = cs"

definition on_line :: "log_event \<Rightarrow> (u8 \<times> terminal) \<times> u8 list \<Rightarrow> (u8 \<times> terminal) \<times> u8 list" where
  "on_line ev = apsnd (send_event ev)"

lemma fold_on_screen: "fold on_screen evs (t, cs) = (fold term_event evs t, cs)"
  by (induction evs arbitrary: t) (simp_all add: on_screen_def)

lemma fold_on_line: "fold on_line (map Print cs) (t, sent) = (t, sent @ cs)"
  by (induction cs arbitrary: sent) (simp_all add: on_line_def)

lemma tty_set_color_spec:
  "tty_inv s \<Longrightarrow> tty_inv (tty_set_color cp s) \<and> console_view (tty_set_color cp s) = on_screen (Paint cp) (console_view s)"
  by (simp add: tty_set_color_def console_view_def serial_sent_def on_screen_def colored_term_def tty_inv_def bufs_ok_def mirrored_def
      term_of_def cell_def ring_cell_def cong: if_cong)

interpretation tty: log_printer tty_driver tty_inv console_view on_screen
proof
  show "\<exists>s'. ld_put tty_driver c s = Inr s' \<and> tty_inv s' \<and> console_view s' = on_screen (Print c) (console_view s)" if "tty_inv s" for s c
    using tty_put_spec [OF that, of c]
    by (auto simp: tty_driver_def console_view_def serial_sent_def colored_term_def on_screen_def cursor_log_def)
qed (simp add: tty_driver_def tty_set_color_spec)

text \<open>
  The driver of the serial line, whose line status has to become ready again and again. Its state also counts the reads of
  the status; waiting for ever is \<open>OutOfFuel\<close>.
\<close>

definition serial_driver :: "(nat \<Rightarrow> u8) \<Rightarrow> (nat \<times> devices) log_driver" where
  "serial_driver status = \<lparr>ld_put = \<lambda>c s. case serial_put status c s of None \<Rightarrow> Inl OutOfFuel | Some s' \<Rightarrow> Inr s', ld_set_color = \<lambda>cp s. s\<rparr>"

definition line_ready :: "(nat \<Rightarrow> u8) \<Rightarrow> bool" where
  "line_ready status \<longleftrightarrow> (\<forall>n. \<exists>m \<ge> n. status m AND 0x20 \<noteq> 0)"

lemma asm_outb_tty: "tty_inv (asm_outb port c d) = tty_inv d" "colored_term (asm_outb port c d) = colored_term d"
  by (simp_all add: asm_outb_def tty_inv_def bufs_ok_def mirrored_def colored_term_def term_of_def cell_def ring_cell_def cong: if_cong)

interpretation serial: log_printer "serial_driver status" "\<lambda>(n, d). line_ready status \<and> tty_inv d" "\<lambda>(n, d). console_view d" on_line
proof
  show "\<exists>s'. ld_put (serial_driver status) c s = Inr s' \<and> (case s' of (n, d) \<Rightarrow> line_ready status \<and> tty_inv d) \<and>
      (case s' of (n, d) \<Rightarrow> console_view d) = on_line (Print c) (case s of (n, d) \<Rightarrow> console_view d)"
    if "case s of (n, d) \<Rightarrow> line_ready status \<and> tty_inv d" for s c
  proof (cases s)
    case (Pair n d)
    have r: "line_ready status" "tty_inv d"
      using that Pair by simp_all
    obtain m where m: "n \<le> m" "status m AND 0x20 \<noteq> 0"
      using r(1) unfolding line_ready_def by (elim allE [of _ n]) blast
    obtain n' where "serial_put status c (n, d) = Some (n', asm_outb 0x3F8 c d)"
      using serial_put_ready [of n m status, OF m] by blast
    with r Pair show ?thesis
      by (simp add: serial_driver_def asm_outb_tty console_view_def serial_sent_def on_line_def) (simp add: asm_outb_def)
  qed
qed (simp add: serial_driver_def on_line_def console_view_def split: prod.splits)

text \<open>C24: Writing a list of arguments to the screen never fails, if no argument is the least \<^verbatim>\<open>int\<close>: the terminal prints a text for each
  argument in turn, the characters of a string, the digits that read back as the number, the name of
  an error; a colour changes the colour of what follows. For \<^verbatim>\<open>errno::invalid\<close> it prints nothing.\<close>

theorem log_write_prints:
  assumes "tty_inv s" and "length buf = 21" and "LInt 0x80000000 \<notin> set items"
  shows "\<exists>outs s'. list_all2 (shows_item m) items outs \<and> log_write tty_driver m buf items s = Inr s' \<and> tty_inv s' \<and>
    colored_term s' = fold term_event (concat outs) (colored_term s) \<and> serial_sent s' = serial_sent s"
  using tty.write_shown [OF assms, of m] by (auto simp: tty.shown_def console_view_def fold_on_screen)

theorem log_write_prints_witness:
  "\<exists>s'. log_write tty_driver (\<lambda>a. 0) (replicate 21 0) [LColor \<lparr>fg = Red, bg = White\<rparr>, LErrno E_invalid, LChar 65] blank_screen = Inr s' \<and>
    t_color s' = 0xF4 \<and> screen (term_of s') 23 79 = vga_entry 65 0xF4"
proof -
  obtain outs s' where s': "list_all2 (shows_item (\<lambda>a. 0)) [LColor \<lparr>fg = Red, bg = White\<rparr>, LErrno E_invalid, LChar 65] outs"
      "log_write tty_driver (\<lambda>a. 0) (replicate 21 0) [LColor \<lparr>fg = Red, bg = White\<rparr>, LErrno E_invalid, LChar 65] blank_screen = Inr s'"
      "colored_term s' = fold term_event (concat outs) (colored_term blank_screen)"
    using log_write_prints [OF blank_screen_inv, of "replicate 21 0" "[LColor \<lparr>fg = Red, bg = White\<rparr>, LErrno E_invalid, LChar 65]" "\<lambda>a. 0"] by auto
  have "outs = [[Paint \<lparr>fg = Red, bg = White\<rparr>], [], [Print 65]]"
    using s'(1) by (auto simp: list_all2_Cons1)
  moreover have "cur_x (term_of blank_screen) = 79" "cur_y (term_of blank_screen) = 24"
    by (simp_all add: term_of_def blank_screen_def)
  ultimately have "t_color s' = 0xF4" "term_of s' = term_put 0xF4 65 (term_of blank_screen)"
    using s'(3) by (simp_all add: colored_term_def vga_color_def)
  with s'(2) \<open>cur_x (term_of blank_screen) = 79\<close> \<open>cur_y (term_of blank_screen) = 24\<close> show ?thesis
    by (simp add: term_put_def term_newline_def newline_char_def term_scroll_def)
qed

end
