(* ===== verification/Panic.thy ===== *)
theory Panic
  imports Logging Kmem_Props
begin

section \<open>Panic reports\<close>

text \<open>
  \<^verbatim>\<open>kernel/util/kassert.cpp\<close> and the macros of \<^verbatim>\<open>kernel/util.hpp\<close> and \<^verbatim>\<open>kernel/logging.hpp\<close>: the messages of a failed
  assertion and of a panic on the screen, and the stack trace on the serial line. Elsewhere in the model a failure is
  only its kind; here it is what the kernel does then. A report ends with the CPU halted for ever, so its result is the
  state in which the kernel halts.
\<close>

subsection \<open>State\<close>

text \<open>The devices come with the number of reads of the line status so far.\<close>

record console =
  con_kst :: kstate
  con_dev :: "nat \<times> devices"

definition cli :: "console \<Rightarrow> console" where
  "cli s = s\<lparr>con_kst := (con_kst s)\<lparr>if_flag := False\<rparr>\<rparr>"

text \<open>Texts that the compiler makes: literals, the names of files and functions.\<close>

definition text_items :: "u8 list \<Rightarrow> log_item list" where
  "text_items cs = map LChar cs"

definition tty_write :: "u8 list \<Rightarrow> log_item list \<Rightarrow> console \<Rightarrow> console res" where
  "tty_write buf items s =
    kbind (log_write tty_driver (kmem (con_kst s)) buf items (snd (con_dev s))) (\<lambda>d. Inr (s\<lparr>con_dev := (fst (con_dev s), d)\<rparr>))"

definition serial_write :: "(nat \<Rightarrow> u8) \<Rightarrow> u8 list \<Rightarrow> log_item list \<Rightarrow> console \<Rightarrow> console res" where
  "serial_write status buf items s =
    kbind (log_write (serial_driver status) (kmem (con_kst s)) buf items (con_dev s)) (\<lambda>d. Inr (s\<lparr>con_dev := d\<rparr>))"

text \<open>\<^verbatim>\<open>scoped_intlock\<close> around a write.\<close>

definition con_intlock :: "(console \<Rightarrow> console res) \<Rightarrow> console \<Rightarrow> console res" where
  "con_intlock body s =
    kbind (body (cli s)) (\<lambda>s'. Inr (if if_flag (con_kst s) then s'\<lparr>con_kst := (con_kst s')\<lparr>if_flag := True\<rparr>\<rparr> else s'))"

text \<open>\<^verbatim>\<open>TINY_INFO\<close>, \<^verbatim>\<open>TINY_WARN\<close> and \<^verbatim>\<open>TINY_ERR\<close>, with their first text.\<close>

definition tiny_log :: "(nat \<Rightarrow> u8) \<Rightarrow> u8 list \<Rightarrow> u8 list \<Rightarrow> log_item list \<Rightarrow> u8 list \<Rightarrow> u32 \<Rightarrow> u8 list \<Rightarrow> console \<Rightarrow> console res" where
  "tiny_log status buf level items file_name line func =
    con_intlock (serial_write status buf
      (text_items level @ items @ text_items (literal '' in file '') @ text_items file_name @ [LChar 58, LInt line, LChar 32, LChar 40] @
       text_items func @ [LChar 41, LChar 10]))"

subsection \<open>The stack trace\<close>

text \<open>A frame is the saved frame pointer and, above it, the return address.\<close>

definition frame_ebp :: "mem \<Rightarrow> u32 \<Rightarrow> u32" where
  "frame_ebp m frame = load32 m frame"

definition frame_eip :: "mem \<Rightarrow> u32 \<Rightarrow> u32" where
  "frame_eip m frame = load32 m (frame + 4)"

definition trace_frame :: "(nat \<Rightarrow> u8) \<Rightarrow> u8 list \<Rightarrow> u32 \<Rightarrow> console \<Rightarrow> console res" where
  "trace_frame status buf frame s =
    con_intlock (serial_write status buf (text_items (literal ''TRACE '') @ [LHex (frame_eip (kmem (con_kst s)) frame), LChar 10])) s"

function stack_trace :: "(nat \<Rightarrow> u8) \<Rightarrow> u8 list \<Rightarrow> u32 \<Rightarrow> u32 \<Rightarrow> u32 \<Rightarrow> console \<Rightarrow> console res" where
  "stack_trace status buf frame_min frame_max frame s =
    (if frame \<noteq> 0 \<and> frame_min \<le> frame \<and> frame \<le> frame_max then
       kbind (trace_frame status buf frame s) (\<lambda>s1.
       let nxt = frame_ebp (kmem (con_kst s1)) frame
       in if nxt \<le> frame then Inr s1 else stack_trace status buf frame_min frame_max nxt s1)
     else Inr s)"
  by pat_completeness auto
termination
  by (relation "measure (\<lambda>(status, buf, lo, hi, frame, s). 2 ^ 32 - unat frame)")
    (auto simp: word_less_nat_alt not_le intro!: diff_less_mono2 unat_less_32 [simplified])

declare stack_trace.simps [simp del]

subsection \<open>Reports\<close>

text \<open>\<open>ebp\<close> is the frame pointer of the report itself.\<close>

definition kpanic_internal_after :: "(nat \<Rightarrow> u8) \<Rightarrow> u8 list \<Rightarrow> u8 list \<Rightarrow> u32 \<Rightarrow> u8 list \<Rightarrow> u32 \<Rightarrow> console \<Rightarrow> console res" where
  "kpanic_internal_after status buf file_name line func ebp s =
    kbind (tty_write buf (text_items (literal '' in file '') @ text_items file_name @ [LChar 58, LUint line] @
      text_items (literal '' in function '') @ text_items func) s) (\<lambda>s1.
    let frame_min = ebp AND NOT 8191
    in stack_trace status buf frame_min (frame_min + 8192) ebp s1)"

definition kassert_fail_internal :: "(nat \<Rightarrow> u8) \<Rightarrow> u8 list \<Rightarrow> u8 list \<Rightarrow> u8 list \<Rightarrow> u32 \<Rightarrow> u8 list \<Rightarrow> u32 \<Rightarrow> console \<Rightarrow> console res" where
  "kassert_fail_internal status buf assertion file_name line func ebp s =
    kbind (tty_write buf ([LColor \<lparr>fg = Red, bg = White\<rparr>, LChar 10] @ text_items (literal ''ASSERTION FAILED: '') @
      [LColor \<lparr>fg = Black, bg = White\<rparr>] @ text_items assertion) (cli s)) (\<lambda>s1.
    kpanic_internal_after status buf file_name line func ebp s1)"

definition kpanic_internal_before :: "u8 list \<Rightarrow> console \<Rightarrow> console res" where
  "kpanic_internal_before buf s =
    tty_write buf ([LColor \<lparr>fg = Red, bg = White\<rparr>, LChar 10] @ text_items (literal ''KERNEL PANIC: '') @
      [LColor \<lparr>fg = Black, bg = White\<rparr>]) (cli s)"

text \<open>The macro \<^verbatim>\<open>kpanic\<close>.\<close>

definition kpanic :: "(nat \<Rightarrow> u8) \<Rightarrow> u8 list \<Rightarrow> log_item list \<Rightarrow> u8 list \<Rightarrow> u32 \<Rightarrow> u8 list \<Rightarrow> u32 \<Rightarrow> console \<Rightarrow> console res" where
  "kpanic status buf msg file_name line func ebp s =
    kbind (kpanic_internal_before buf s) (\<lambda>s1.
    kbind (tty_write buf msg s1) (\<lambda>s2.
    kpanic_internal_after status buf file_name line func ebp s2))"

subsection \<open>What a report shows\<close>

definition shows_items :: "mem \<Rightarrow> log_item list \<Rightarrow> log_event list \<Rightarrow> bool" where
  "shows_items m items evs \<longleftrightarrow> (\<exists>outs. list_all2 (shows_item m) items outs \<and> evs = concat outs)"

lemma shows_items_nil [simp]: "shows_items m [] evs \<longleftrightarrow> evs = []"
  by (simp add: shows_items_def)

lemma shows_items_cons [simp]: "shows_items m (i # is) evs \<longleftrightarrow> (\<exists>e es. evs = e @ es \<and> shows_item m i e \<and> shows_items m is es)"
proof
  assume "shows_items m (i # is) evs"
  then show "\<exists>e es. evs = e @ es \<and> shows_item m i e \<and> shows_items m is es"
    by (auto simp: shows_items_def list_all2_Cons1) blast
next
  assume "\<exists>e es. evs = e @ es \<and> shows_item m i e \<and> shows_items m is es"
  then obtain e outs where "evs = concat (e # outs)" "list_all2 (shows_item m) (i # is) (e # outs)"
    by (auto simp: shows_items_def)
  then show "shows_items m (i # is) evs"
    unfolding shows_items_def by blast
qed

lemma shows_items_text: "shows_items m (text_items cs @ is) evs \<longleftrightarrow> (\<exists>es. evs = map Print cs @ es \<and> shows_items m is es)"
  by (induction cs arbitrary: evs) (auto simp: text_items_def)

lemma shows_items_text_only [simp]: "shows_items m (text_items cs) evs \<longleftrightarrow> evs = map Print cs"
  using shows_items_text [of m cs "[]"] by simp

lemma no_int_text [simp]: "LInt v \<notin> set (text_items cs)"
  by (auto simp: text_items_def)

lemma tty_write_shown:
  assumes "tty_inv (snd (con_dev s))" and "length buf = 21" and "LInt 0x80000000 \<notin> set items"
  shows "\<exists>evs d. shows_items (kmem (con_kst s)) items evs \<and> tty_write buf items s = Inr (s\<lparr>con_dev := (fst (con_dev s), d)\<rparr>) \<and> tty_inv d \<and>
    colored_term d = fold term_event evs (colored_term (snd (con_dev s))) \<and> serial_sent d = serial_sent (snd (con_dev s))"
  using tty.write_shown [OF assms, of "kmem (con_kst s)"]
  by (fastforce simp: tty.shown_def tty_write_def shows_items_def console_view_def fold_on_screen)

lemma con_intlock_quiet:
  assumes "\<not> if_flag (con_kst s)"
  shows "con_intlock body s = body s"
proof -
  have "(con_kst s)\<lparr>if_flag := False\<rparr> = con_kst s"
    using assms by (cases "con_kst s") simp
  then have "cli s = s"
    by (simp add: cli_def)
  with assms show ?thesis
    by (cases "body s") (simp_all add: con_intlock_def)
qed

lemma serial_write_sends:
  assumes "line_ready status" and "tty_inv (snd (con_dev s))" and "length buf = 21" and "LInt 0x80000000 \<notin> set items"
  shows "\<exists>evs d. shows_items (kmem (con_kst s)) items evs \<and> serial_write status buf items s = Inr (s\<lparr>con_dev := d\<rparr>) \<and> tty_inv (snd d) \<and>
    colored_term (snd d) = colored_term (snd (con_dev s)) \<and> serial_sent (snd d) = fold send_event evs (serial_sent (snd (con_dev s)))"
proof -
  let ?m = "kmem (con_kst s)"
  have ok: "case con_dev s of (n, d) \<Rightarrow> line_ready status \<and> tty_inv d"
    using assms(1,2) by (simp add: case_prod_unfold)
  from serial.write_shown [OF ok assms(3,4), of ?m] obtain outs
    where outs: "list_all2 (shows_item ?m) items outs" "serial.shown status (log_write (serial_driver status) ?m buf items (con_dev s)) (concat outs) (con_dev s)"
    by blast
  obtain d where "log_write (serial_driver status) ?m buf items (con_dev s) = Inr d" "tty_inv (snd d)"
      "console_view (snd d) = fold on_line (concat outs) (console_view (snd (con_dev s)))"
    using outs(2) [unfolded serial.shown_def] by (auto simp: case_prod_unfold)
  moreover have "shows_items ?m items (concat outs)"
    using outs(1) unfolding shows_items_def by blast
  moreover have "fold on_line evs (t, cs) = (t, fold send_event evs cs)" for evs t cs
    by (induction evs arbitrary: cs) (simp_all add: on_line_def)
  ultimately show ?thesis
    by (intro exI [of _ "concat outs"] exI [of _ d]) (simp add: serial_write_def console_view_def prod_eq_iff)
qed

fun printed :: "log_event list \<Rightarrow> u8 list" where
  "printed [] = []"
| "printed (Print c # evs) = c # printed evs"
| "printed (Paint cp # evs) = printed evs"

lemma printed_append [simp]: "printed (xs @ ys) = printed xs @ printed ys"
  by (induction xs rule: printed.induct) simp_all

lemma printed_text [simp]: "printed (map Print cs) = cs"
  by (induction cs) simp_all

lemma fold_send_event: "fold send_event evs sent = sent @ printed evs"
  by (induction evs arbitrary: sent rule: printed.induct) simp_all

lemma shows_items_append: "shows_items m (xs @ ys) evs \<longleftrightarrow> (\<exists>es fs. evs = es @ fs \<and> shows_items m xs es \<and> shows_items m ys fs)"
proof (induction xs arbitrary: evs)
  case (Cons x xs)
  show ?case
    unfolding append_Cons shows_items_cons Cons.IH by (metis append_assoc)
qed simp

lemma con_intlock_dev:
  assumes "body (cli s) = Inr ((cli s)\<lparr>con_dev := d\<rparr>)"
  shows "con_intlock body s = Inr (s\<lparr>con_dev := d\<rparr>)"
proof (cases "if_flag (con_kst s)")
  case True
  then have "(con_kst s)\<lparr>if_flag := False, if_flag := True\<rparr> = con_kst s"
    by (cases "con_kst s") simp
  with assms True show ?thesis
    by (cases s) (simp add: con_intlock_def cli_def)
next
  case False
  then have "cli s = s"
    by (cases s, cases "con_kst s") (simp add: cli_def)
  with assms False show ?thesis
    by (simp add: con_intlock_def)
qed

text \<open>A log message changes only the devices; on the line it is its level, its items and its place.\<close>

lemma tiny_log_sends:
  assumes "line_ready status" and "tty_inv (snd (con_dev s))" and "length buf = 21" and "LInt 0x80000000 \<notin> set items" and "line \<noteq> 0x80000000"
  shows "\<exists>evs d place. tiny_log status buf level items file_name line func s = Inr (s\<lparr>con_dev := d\<rparr>) \<and>
    tty_inv (snd d) \<and> colored_term (snd d) = colored_term (snd (con_dev s)) \<and> shows_items (kmem (con_kst s)) items evs \<and>
    serial_sent (snd d) = serial_sent (snd (con_dev s)) @ level @ printed evs @ place"
proof -
  let ?post = "text_items (literal '' in file '') @ text_items file_name @ [LChar 58, LInt line, LChar 32, LChar 40] @ text_items func @ [LChar 41, LChar 10]"
  have c: "line_ready status" "tty_inv (snd (con_dev (cli s)))" "length buf = 21" "LInt 0x80000000 \<notin> set (text_items level @ items @ ?post)"
      "kmem (con_kst (cli s)) = kmem (con_kst s)" "con_dev (cli s) = con_dev s"
    using assms by (simp_all add: cli_def)
  obtain evs d where e: "shows_items (kmem (con_kst s)) (text_items level @ items @ ?post) evs"
      "serial_write status buf (text_items level @ items @ ?post) (cli s) = Inr ((cli s)\<lparr>con_dev := d\<rparr>)" "tty_inv (snd d)"
      "colored_term (snd d) = colored_term (snd (con_dev s))" "serial_sent (snd d) = serial_sent (snd (con_dev s)) @ printed evs"
    using serial_write_sends [OF c(1-4)] unfolding c(5,6) fold_send_event by blast
  obtain es fs where "evs = map Print level @ es @ fs" "shows_items (kmem (con_kst s)) items es"
    using e(1) unfolding shows_items_text shows_items_append [of _ items] by blast
  moreover have "tiny_log status buf level items file_name line func s = Inr (s\<lparr>con_dev := d\<rparr>)"
    unfolding tiny_log_def by (rule con_intlock_dev) (rule e(2))
  ultimately show ?thesis
    using e(3-5) by (intro exI [of _ es] exI [of _ d] exI [of _ "printed fs"]) simp
qed

lemma trace_frame_sends:
  assumes "\<not> if_flag (con_kst s)" and "line_ready status" and "tty_inv (snd (con_dev s))" and "length buf = 21"
  shows "\<exists>cs d. trace_frame status buf f s = Inr (s\<lparr>con_dev := d\<rparr>) \<and> tty_inv (snd d) \<and>
    text_value 16 cs = unat (frame_eip (kmem (con_kst s)) f) \<and> colored_term (snd d) = colored_term (snd (con_dev s)) \<and>
    serial_sent (snd d) = serial_sent (snd (con_dev s)) @ literal ''TRACE '' @ cs @ [10]"
proof -
  let ?m = "kmem (con_kst s)"
  let ?items = "text_items (literal ''TRACE '') @ [LHex (frame_eip ?m f), LChar 10]"
  have "LInt 0x80000000 \<notin> set ?items"
    by simp
  from serial_write_sends [OF assms(2-4) this] obtain evs d
    where d: "shows_items ?m ?items evs" "serial_write status buf ?items s = Inr (s\<lparr>con_dev := d\<rparr>)" "tty_inv (snd d)"
      "colored_term (snd d) = colored_term (snd (con_dev s))" "serial_sent (snd d) = serial_sent (snd (con_dev s)) @ printed evs"
    unfolding fold_send_event by blast
  from d(1) obtain cs where cs: "evs = map Print (literal ''TRACE '' @ cs @ [10])" "text_value 16 cs = unat (frame_eip ?m f)"
    unfolding shows_items_text by auto
  from cs(2) d(2-5) show ?thesis
    unfolding trace_frame_def con_intlock_quiet [OF assms(1)] cs(1) printed_text by blast
qed

text \<open>
  The frames from \<open>f\<close> on: each is on the stack between \<open>lo\<close> and \<open>hi\<close>, and leads to the next one, which lies above it. The list
  ends at a saved frame pointer that is null, does not lead upwards, or leaves the stack.
\<close>

fun call_frames :: "mem \<Rightarrow> u32 \<Rightarrow> u32 \<Rightarrow> u32 \<Rightarrow> u32 list \<Rightarrow> bool" where
  "call_frames m lo hi f [] \<longleftrightarrow> f = 0 \<or> f < lo \<or> hi < f"
| "call_frames m lo hi f (x # xs) \<longleftrightarrow> x = f \<and> f \<noteq> 0 \<and> lo \<le> f \<and> f \<le> hi \<and>
    (if frame_ebp m f \<le> f then xs = [] else call_frames m lo hi (frame_ebp m f) xs)"

definition traces :: "mem \<Rightarrow> u32 list \<Rightarrow> u8 list \<Rightarrow> bool" where
  "traces m fs out \<longleftrightarrow> (\<exists>texts. list_all2 (\<lambda>f cs. text_value 16 cs = unat (frame_eip m f)) fs texts \<and>
    out = concat (map (\<lambda>cs. literal ''TRACE '' @ cs @ [10]) texts))"

lemma stack_trace_shown:
  assumes "\<not> if_flag (con_kst s)" and "line_ready status" and "tty_inv (snd (con_dev s))" and "length buf = 21"
  shows "\<exists>fs out d. stack_trace status buf lo hi f s = Inr (s\<lparr>con_dev := d\<rparr>) \<and> call_frames (kmem (con_kst s)) lo hi f fs \<and>
    sorted_wrt (<) fs \<and> (\<forall>x \<in> set fs. f \<le> x) \<and> traces (kmem (con_kst s)) fs out \<and> colored_term (snd d) = colored_term (snd (con_dev s)) \<and>
    serial_sent (snd d) = serial_sent (snd (con_dev s)) @ out"
  using assms
proof (induction status buf lo hi f s rule: stack_trace.induct)
  case (1 status buf lo hi f s)
  let ?m = "kmem (con_kst s)"
  show ?case
  proof (cases "f \<noteq> 0 \<and> lo \<le> f \<and> f \<le> hi")
    case False
    then have "stack_trace status buf lo hi f s = Inr (s\<lparr>con_dev := con_dev s\<rparr>)" "call_frames ?m lo hi f []"
      by (auto simp: stack_trace.simps)
    then show ?thesis
      by (intro exI [of _ "[]"] exI [of _ "con_dev s"]) (simp add: traces_def)
  next
    case in_stack: True
    obtain cs d where d: "trace_frame status buf f s = Inr (s\<lparr>con_dev := d\<rparr>)" "tty_inv (snd d)" "text_value 16 cs = unat (frame_eip ?m f)"
        "colored_term (snd d) = colored_term (snd (con_dev s))"
        "serial_sent (snd d) = serial_sent (snd (con_dev s)) @ literal ''TRACE '' @ cs @ [10]"
      using trace_frame_sends [OF "1.prems", of f] by blast
    show ?thesis
    proof (cases "frame_ebp ?m f \<le> f")
      case True
      then have "stack_trace status buf lo hi f s = Inr (s\<lparr>con_dev := d\<rparr>)" "call_frames ?m lo hi f [f]"
        using in_stack d(1) by (auto simp: stack_trace.simps)
      then show ?thesis
        using d(3-5) by (intro exI [of _ "[f]"] exI [of _ "literal ''TRACE '' @ cs @ [10]"] exI [of _ d])
          (auto simp: traces_def intro!: exI [of _ "[cs]"])
    next
      case False
      have step: "stack_trace status buf lo hi f s = stack_trace status buf lo hi (frame_ebp ?m f) (s\<lparr>con_dev := d\<rparr>)"
        using in_stack d(1) False by (subst stack_trace.simps) simp
      obtain fs out d' where rest: "stack_trace status buf lo hi (frame_ebp ?m f) (s\<lparr>con_dev := d\<rparr>) = Inr (s\<lparr>con_dev := d'\<rparr>)"
          "call_frames ?m lo hi (frame_ebp ?m f) fs" "sorted_wrt (<) fs" "\<forall>x \<in> set fs. frame_ebp ?m f \<le> x" "traces ?m fs out"
          "colored_term (snd d') = colored_term (snd d)" "serial_sent (snd d') = serial_sent (snd d) @ out"
        using "1.IH" [OF in_stack d(1) refl] False "1.prems" d(2) by auto
      obtain texts where "list_all2 (\<lambda>f cs. text_value 16 cs = unat (frame_eip ?m f)) fs texts"
          "out = concat (map (\<lambda>cs. literal ''TRACE '' @ cs @ [10]) texts)"
        using rest(5) unfolding traces_def by blast
      then have "traces ?m (f # fs) (literal ''TRACE '' @ cs @ [10] @ out)"
        using d(3) unfolding traces_def by (intro exI [of _ "cs # texts"]) simp
      then show ?thesis
        using step rest(1-4,6,7) in_stack False d(4,5)
        by (intro exI [of _ "f # fs"] exI [of _ "literal ''TRACE '' @ cs @ [10] @ out"] exI [of _ d']) force
    qed
  qed
qed

text \<open>C25: A failed assertion is reported completely, whatever is on the stack: with interrupts disabled, the screen shows the
  assertion with its file, line and function, and the serial line gets one line for each call frame, in order, with the
  return address of the frame. The frames lie on the 8 KiB stack of the frame pointer, each above the one before, so the
  trace ends; then the kernel halts.\<close>

theorem kassert_fail_reports:
  assumes "tty_inv (snd (con_dev s))" and "line_ready status" and "length buf = 21"
  shows "\<exists>s' digits fs out. kassert_fail_internal status buf assertion file_name line func ebp s = Inr s' \<and> \<not> if_flag (con_kst s') \<and>
    colored_term (snd (con_dev s')) = fold term_event
      ([Paint \<lparr>fg = Red, bg = White\<rparr>] @ map Print ([10] @ literal ''ASSERTION FAILED: '') @ [Paint \<lparr>fg = Black, bg = White\<rparr>] @
       map Print (assertion @ literal '' in file '' @ file_name @ [58] @ digits @ literal '' in function '' @ func))
      (colored_term (snd (con_dev s))) \<and> text_value 10 digits = unat line \<and>
    call_frames (kmem (con_kst s)) (ebp AND NOT 8191) ((ebp AND NOT 8191) + 8192) ebp fs \<and> sorted_wrt (<) fs \<and>
    traces (kmem (con_kst s)) fs out \<and> serial_sent (snd (con_dev s')) = serial_sent (snd (con_dev s)) @ out"
proof -
  let ?m = "kmem (con_kst s)" and ?d = "snd (con_dev s)"
  let ?head = "[LColor \<lparr>fg = Red, bg = White\<rparr>, LChar 10] @ text_items (literal ''ASSERTION FAILED: '') @
      [LColor \<lparr>fg = Black, bg = White\<rparr>] @ text_items assertion"
  let ?place = "text_items (literal '' in file '') @ text_items file_name @ [LChar 58, LUint line] @
      text_items (literal '' in function '') @ text_items func"
  have c: "con_dev (cli s) = con_dev s" "kmem (con_kst (cli s)) = ?m" "\<not> if_flag (con_kst (cli s))"
    by (simp_all add: cli_def)
  obtain evs d1 where d1: "shows_items ?m ?head evs" "tty_write buf ?head (cli s) = Inr ((cli s)\<lparr>con_dev := (fst (con_dev s), d1)\<rparr>)"
      "tty_inv d1" "colored_term d1 = fold term_event evs (colored_term ?d)" "serial_sent d1 = serial_sent ?d"
    using tty_write_shown [of "cli s" buf ?head] assms(1,3) c by auto
  let ?s1 = "(cli s)\<lparr>con_dev := (fst (con_dev s), d1)\<rparr>"
  obtain evs' d2 where d2: "shows_items ?m ?place evs'" "tty_write buf ?place ?s1 = Inr (?s1\<lparr>con_dev := (fst (con_dev s), d2)\<rparr>)"
      "tty_inv d2" "colored_term d2 = fold term_event evs' (colored_term d1)" "serial_sent d2 = serial_sent d1"
    using tty_write_shown [of ?s1 buf ?place] d1(3) assms(3) c by auto
  let ?s2 = "?s1\<lparr>con_dev := (fst (con_dev s), d2)\<rparr>" and ?lo = "ebp AND NOT 8191"
  have s2: "\<not> if_flag (con_kst ?s2)" "tty_inv (snd (con_dev ?s2))" "kmem (con_kst ?s2) = ?m"
    using c d2(3) by simp_all
  obtain fs out d where d: "stack_trace status buf ?lo (?lo + 8192) ebp ?s2 = Inr (?s2\<lparr>con_dev := d\<rparr>)"
      "call_frames ?m ?lo (?lo + 8192) ebp fs" "sorted_wrt (<) fs" "traces ?m fs out"
      "colored_term (snd d) = colored_term d2" "serial_sent (snd d) = serial_sent d2 @ out"
    using stack_trace_shown [OF s2(1) assms(2) s2(2) assms(3), of ?lo "?lo + 8192" ebp] s2(3) by auto
  have evs: "evs = [Paint \<lparr>fg = Red, bg = White\<rparr>] @ map Print ([10] @ literal ''ASSERTION FAILED: '') @
      [Paint \<lparr>fg = Black, bg = White\<rparr>] @ map Print assertion"
    using d1(1) by (auto simp: shows_items_text)
  obtain digits where digits: "evs' = map Print (literal '' in file '' @ file_name @ [58] @ digits @ literal '' in function '' @ func)"
      "text_value 10 digits = unat line"
    using d2(1) by (auto simp: shows_items_text)
  have "kassert_fail_internal status buf assertion file_name line func ebp s = Inr (?s2\<lparr>con_dev := d\<rparr>)"
    using d1(2) d2(2) d(1) unfolding kassert_fail_internal_def kpanic_internal_after_def Let_def by simp
  then show ?thesis
    using s2(1) d(2-6) d1(4,5) d2(4,5) evs digits
    by (intro exI [of _ "?s2\<lparr>con_dev := d\<rparr>"] exI [of _ digits] exI [of _ fs] exI [of _ out]) simp
qed

theorem kassert_fail_reports_witness:
  "\<exists>s' cs. kassert_fail_internal (\<lambda>n. 0x20) (replicate 21 0) (literal ''x'') (literal ''f'') 7 (literal ''g'') 0xC0002010
      \<lparr>con_kst = boot_state\<lparr>kmem := \<lambda>a. 0\<rparr>, con_dev = (0, blank_screen)\<rparr> = Inr s' \<and>
    serial_sent (snd (con_dev s')) = serial_sent blank_screen @ literal ''TRACE '' @ cs @ [10] \<and> text_value 16 cs = 0"
proof -
  let ?s = "\<lparr>con_kst = boot_state\<lparr>kmem := \<lambda>a. 0\<rparr>, con_dev = (0, blank_screen)\<rparr>"
  have "line_ready (\<lambda>n. 0x20)"
    by (auto simp: line_ready_def)
  moreover have "tty_inv (snd (con_dev ?s))" "length (replicate 21 0 :: u8 list) = 21"
    using blank_screen_inv by simp_all
  ultimately obtain s' fs out where r: "kassert_fail_internal (\<lambda>n. 0x20) (replicate 21 0) (literal ''x'') (literal ''f'') 7 (literal ''g'') 0xC0002010 ?s = Inr s'"
      "call_frames (\<lambda>a. 0) 0xC0002000 0xC0004000 0xC0002010 fs" "traces (\<lambda>a. 0) fs out"
      "serial_sent (snd (con_dev s')) = serial_sent blank_screen @ out"
    using kassert_fail_reports [of ?s "\<lambda>n. 0x20" "replicate 21 0" "literal ''x''" "literal ''f''" 7 "literal ''g''" "0xC0002010"] by auto
  have "fs = [0xC0002010]"
    using r(2) by (cases fs) (simp_all add: frame_ebp_def load32_def)
  then obtain cs where "out = literal ''TRACE '' @ cs @ [10]" "text_value 16 cs = 0"
    using r(3) by (auto simp: traces_def list_all2_Cons1 frame_eip_def load32_def)
  with r(1,4) show ?thesis
    by auto
qed

end
