(* ===== verification/Boot.thy ===== *)
theory Boot
  imports Machine
begin

section \<open>The memory map of the boot loader\<close>

text \<open>
  \<^verbatim>\<open>kernel/memory/multiboot.cpp\<close>: \<open>read_multiboot_data\<close> looks for the memory that starts at 1 MiB. The structures are
  those of the Multiboot specification; a boot loader gives physical addresses.
\<close>

definition load64 :: "mem \<Rightarrow> u32 \<Rightarrow> u64" where
  "load64 m a = ucast (load32 m a) OR push_bit 32 (ucast (load32 m (a + 4)))"

text \<open>The fields of \<^verbatim>\<open>multiboot_info\<close> and of an entry of the map that the code uses, by their offsets.\<close>

definition mb_flags :: "mem \<Rightarrow> u32 \<Rightarrow> u32" where
  "mb_flags m p = load32 m p"

definition mb_mmap_length :: "mem \<Rightarrow> u32 \<Rightarrow> u32" where
  "mb_mmap_length m p = load32 m (p + 44)"

definition mb_mmap_addr :: "mem \<Rightarrow> u32 \<Rightarrow> u32" where
  "mb_mmap_addr m p = load32 m (p + 48)"

definition mmap_entry :: "mem \<Rightarrow> u32 \<Rightarrow> u64 \<times> u64" where
  "mmap_entry m p = (load64 m (p + 4), load64 m (p + 12))"

definition sizeof_mmap_entry :: u32 where
  "sizeof_mmap_entry = 24"

partial_function (option) mmap_loop :: "mem \<Rightarrow> u32 \<Rightarrow> u32 \<Rightarrow> u32 \<Rightarrow> u32 \<Rightarrow> u32 option" where
  "mmap_loop m map_addr map_length i ram_amount =
    (if i < map_length then
       let (addr, len) = mmap_entry m (map_addr + 0xC0000000 + i)
       in mmap_loop m map_addr map_length (i + sizeof_mmap_entry) (if addr = 0x100000 then ucast len else ram_amount)
     else Some ram_amount)"

text \<open>The result is the new value of \<^verbatim>\<open>ram_amount\<close>, from its value before.\<close>

definition read_multiboot_data :: "u32 \<Rightarrow> u32 \<Rightarrow> u32 \<Rightarrow> mem \<Rightarrow> u32 res" where
  "read_multiboot_data phys magic ram_amount m =
    (let data = phys + 0xC0000000
     in kbind (kassert (magic = 0x2BADB002)) (\<lambda>_.
        kbind (kassert (drop_bit 6 (mb_flags m data) AND 1 \<noteq> 0)) (\<lambda>_.
        case mmap_loop m (mb_mmap_addr m data) (mb_mmap_length m data) 0 ram_amount of
          None \<Rightarrow> Inl OutOfFuel
        | Some ram \<Rightarrow> kbind (kassert (ram \<noteq> 0)) (\<lambda>_. Inr ram))))"

subsection \<open>The size of the memory\<close>

definition mmap_entries :: "mem \<Rightarrow> u32 \<Rightarrow> nat \<Rightarrow> nat \<Rightarrow> (u64 \<times> u64) list" where
  "mmap_entries m base k n = map (\<lambda>j. mmap_entry m (base + 0xC0000000 + of_nat (24 * j))) [k..<n]"

text \<open>The length of the last entry that starts at 1 MiB, without its upper half.\<close>

fun last_ram :: "(u64 \<times> u64) list \<Rightarrow> u32 \<Rightarrow> u32" where
  "last_ram [] ram = ram"
| "last_ram ((addr, len) # es) ram = last_ram es (if addr = 0x100000 then ucast len else ram)"

lemma mmap_loop_eq:
  assumes "24 * n < 2 ^ 32" and "unat map_length \<le> 24 * n" and "24 * n < unat map_length + 24" and "k \<le> n"
  shows "mmap_loop m base map_length (of_nat (24 * k)) ram = Some (last_ram (mmap_entries m base k n) ram)"
  using assms(4)
proof (induction "n - k" arbitrary: k ram)
  case 0
  then have "k = n"
    by simp
  have u: "unat (of_nat (24 * n) :: u32) = 24 * n"
    by (rule unat_of_nat_32) (use assms(1) in simp)
  have "\<not> (of_nat (24 * k) :: u32) < map_length"
    unfolding \<open>k = n\<close> word_less_nat_alt u using assms(2) by linarith
  then show ?case
    using \<open>k = n\<close> by (subst mmap_loop.simps) (simp add: mmap_entries_def)
next
  case (Suc d)
  then have k: "k < n" "d = n - Suc k" "24 * Suc k \<le> 24 * n"
    by simp_all
  have u: "unat (of_nat (24 * k) :: u32) = 24 * k"
    by (rule unat_of_nat_32) (use assms(1) k(1) in simp)
  have less: "(of_nat (24 * k) :: u32) < map_length"
    unfolding word_less_nat_alt u using assms(3) k(3) by simp
  obtain addr len where e: "mmap_entry m (base + 0xC0000000 + of_nat (24 * k)) = (addr, len)"
    by force
  have step: "of_nat (24 * k) + sizeof_mmap_entry = of_nat (24 * Suc k)"
    by (simp add: sizeof_mmap_entry_def)
  have "mmap_loop m base map_length (of_nat (24 * k) + sizeof_mmap_entry) r = Some (last_ram (mmap_entries m base (Suc k) n) r)" for r
    unfolding step by (rule Suc.hyps(1) [OF k(2)]) (use k(1) in simp)
  moreover have "mmap_entries m base k n = (addr, len) # mmap_entries m base (Suc k) n"
    using k(1) e by (simp add: mmap_entries_def upt_conv_Cons)
  ultimately show ?case
    using less e by (subst mmap_loop.simps) (simp del: of_nat_mult)
qed

text \<open>C23: With the magic number of a boot loader and a memory map in place, reading the map ends, looks at each of its entries of 24
  bytes, also at one that is cut off, and takes as the amount of memory the lower half of the length of
  the last entry that starts at 1 MiB. It stops with an assertion when that is 0: without such an entry, and
  when the length is a multiple of 4 GiB.\<close>

theorem read_multiboot_correct:
  assumes "magic = 0x2BADB002" and "drop_bit 6 (mb_flags m (phys + 0xC0000000)) AND 1 \<noteq> 0"
    and "24 * n < 2 ^ 32" and "unat (mb_mmap_length m (phys + 0xC0000000)) \<le> 24 * n"
    and "24 * n < unat (mb_mmap_length m (phys + 0xC0000000)) + 24"
  shows "read_multiboot_data phys magic 0 m =
    (let ram = (case filter (\<lambda>(addr, len). addr = 0x100000) (mmap_entries m (mb_mmap_addr m (phys + 0xC0000000)) 0 n) of
         [] \<Rightarrow> 0 | es \<Rightarrow> ucast (snd (last es)))
     in if ram = 0 then Inl KAssert else Inr ram)"
proof -
  have "last_ram es r = (case filter (\<lambda>(addr, len). addr = 0x100000) es of [] \<Rightarrow> r | xs \<Rightarrow> ucast (snd (last xs)))" for es r
    by (induction es r rule: last_ram.induct) (auto split: list.split)
  moreover have "mmap_loop m base (mb_mmap_length m (phys + 0xC0000000)) 0 0 = Some (last_ram (mmap_entries m base 0 n) 0)" for base
    using mmap_loop_eq [OF assms(3-5), of 0 m base 0] by simp
  ultimately show ?thesis
    using assms(1,2) by (simp add: read_multiboot_data_def Let_def kassert_def)
qed

text \<open>A map at \<open>0x2000\<close> with one entry, of \<open>0x7F00000\<close> bytes from 1 MiB on.\<close>

definition boot_mem :: mem where
  "boot_mem =
    store32 0xC0001000 0x40 (store32 (0xC0001000 + 44) 24 (store32 (0xC0001000 + 48) 0x2000
      (store32 (0xC0002000 + 4) 0x100000 (store32 (0xC0002000 + 12) 0x7F00000 (\<lambda>a. 0)))))"

lemma boot_mem_words:
  "load32 boot_mem 0xC0001000 = 0x40" "load32 boot_mem 0xC000102C = 24" "load32 boot_mem 0xC0001030 = 0x2000"
  "load32 boot_mem 0xC0002004 = 0x100000" "load32 boot_mem 0xC0002008 = 0" "load32 boot_mem 0xC000200C = 0x7F00000"
  "load32 boot_mem 0xC0002010 = 0"
  by (simp_all add: boot_mem_def load32_def store32_def)

theorem read_multiboot_correct_witness:
  "read_multiboot_data 0x1000 0x2BADB002 0 boot_mem = Inr 0x7F00000"
proof -
  have "mmap_entries boot_mem 0x2000 0 1 = [(0x100000, 0x7F00000)]"
    by (simp add: mmap_entries_def mmap_entry_def load64_def boot_mem_words)
  then show ?thesis
    using read_multiboot_correct [of "0x2BADB002" boot_mem "0x1000" 1]
    by (simp add: mb_flags_def mb_mmap_length_def mb_mmap_addr_def boot_mem_words)
qed

end
