(* ===== verification/Gdt.thy ===== *)
theory Gdt
  imports Kernel_Prelude
begin

section \<open>Segment descriptors\<close>

text \<open>
  \<^verbatim>\<open>kernel/memory/gdt.cpp\<close>: the encoding of segment descriptors into 8 bytes, the table of six descriptors, and
  \<open>init_gdt\<close>, which enters the address of the task state segment into the last one.
\<close>

record gdt_entry =
  gdt_base :: u32
  gdt_limit :: u32
  gdt_access_byte :: u8
  gdt_flags :: u8

definition gdt_encode :: "gdt_entry \<Rightarrow> u8 list" where
  "gdt_encode source =
    [ucast (gdt_limit source AND 0xFF), ucast (drop_bit 8 (gdt_limit source) AND 0xFF),
     ucast (gdt_base source AND 0xFF), ucast (drop_bit 8 (gdt_base source) AND 0xFF), ucast (drop_bit 16 (gdt_base source) AND 0xFF),
     gdt_access_byte source,
     ucast (drop_bit 16 (gdt_limit source) AND 0x0F) OR push_bit 4 (gdt_flags source),
     ucast (drop_bit 24 (gdt_base source) AND 0xFF)]"

definition concat_gdt_entries :: "u8 list list \<Rightarrow> u8 list" where
  "concat_gdt_entries args = concat args"

definition sizeof_tss :: u32 where
  "sizeof_tss = 104"

definition gdt_descriptors :: "gdt_entry list" where
  "gdt_descriptors =
    [\<lparr>gdt_base = 0, gdt_limit = 0, gdt_access_byte = 0, gdt_flags = 0\<rparr>,
     \<lparr>gdt_base = 0, gdt_limit = 0xFFFFF, gdt_access_byte = 0x9A, gdt_flags = 0xC\<rparr>,
     \<lparr>gdt_base = 0, gdt_limit = 0xFFFFF, gdt_access_byte = 0x92, gdt_flags = 0xC\<rparr>,
     \<lparr>gdt_base = 0, gdt_limit = 0xFFFFF, gdt_access_byte = 0xFA, gdt_flags = 0xC\<rparr>,
     \<lparr>gdt_base = 0, gdt_limit = 0xFFFFF, gdt_access_byte = 0xF2, gdt_flags = 0xC\<rparr>,
     \<lparr>gdt_base = 0, gdt_limit = sizeof_tss, gdt_access_byte = 0x89, gdt_flags = 0\<rparr>]"

definition gdt_arr :: "u8 list" where
  "gdt_arr = concat_gdt_entries (map gdt_encode gdt_descriptors)"

text \<open>\<open>init_gdt\<close>: the table, and the size and the address given to the CPU.\<close>

definition init_gdt :: "u32 \<Rightarrow> u32 \<Rightarrow> u8 list \<Rightarrow> (u8 list \<times> u16 \<times> u32) res" where
  "init_gdt tss_addr gdt_addr arr =
    kbind (array_write arr (0x28 + 2) (ucast (tss_addr AND 0xFF))) (\<lambda>a.
    kbind (array_write a (0x28 + 3) (ucast (drop_bit 8 tss_addr AND 0xFF))) (\<lambda>a.
    kbind (array_write a (0x28 + 4) (ucast (drop_bit 16 tss_addr AND 0xFF))) (\<lambda>a.
    kbind (array_write a (0x28 + 7) (ucast (drop_bit 24 tss_addr AND 0xFF))) (\<lambda>a.
    Inr (a, of_nat (length a) - 1, gdt_addr)))))"

subsection \<open>What the CPU reads\<close>

definition gdt_decode :: "u8 list \<Rightarrow> gdt_entry" where
  "gdt_decode b = \<lparr>
     gdt_base = ucast (b ! 2) OR push_bit 8 (ucast (b ! 3)) OR push_bit 16 (ucast (b ! 4)) OR push_bit 24 (ucast (b ! 7)),
     gdt_limit = ucast (b ! 0) OR push_bit 8 (ucast (b ! 1)) OR push_bit 16 (ucast (b ! 6 AND 0x0F)),
     gdt_access_byte = b ! 5, gdt_flags = drop_bit 4 (b ! 6)\<rparr>"

definition descriptor_at :: "u8 list \<Rightarrow> nat \<Rightarrow> gdt_entry" where
  "descriptor_at a i = gdt_decode (take 8 (drop (8 * i) a))"

lemma masks: "(0xFF :: u32) = mask 8" "(0x0F :: u32) = mask 4" "(0x0F :: u8) = mask 4"
  by (simp_all add: mask_eq_exp_minus_1)

lemma bytes_join:
  "ucast (ucast (w AND 0xFF) :: u8) OR push_bit 8 (ucast (ucast (drop_bit 8 w AND 0xFF) :: u8))
     OR push_bit 16 (ucast (ucast (drop_bit 16 w AND 0xFF) :: u8)) OR push_bit 24 (ucast (ucast (drop_bit 24 w AND 0xFF) :: u8)) = w"
  for w :: u32
  unfolding masks
proof (rule bit_word_eqI)
  fix n
  assume "n < LENGTH(32)"
  then consider "n < 8" | "8 \<le> n" "n < 16" | "16 \<le> n" "n < 24" | "24 \<le> n" "n < 32"
    by force
  then show "bit (ucast (ucast (w AND mask 8) :: u8) OR push_bit 8 (ucast (ucast (drop_bit 8 w AND mask 8) :: u8))
     OR push_bit 16 (ucast (ucast (drop_bit 16 w AND mask 8) :: u8)) OR push_bit 24 (ucast (ucast (drop_bit 24 w AND mask 8) :: u8)) :: u32) n = bit w n"
    by cases (auto simp: bit_simps)
qed

lemma high_bits_0:
  fixes w :: "'a :: len word"
  assumes "unat w < 2 ^ k" and "k \<le> n"
  shows "\<not> bit w n"
proof -
  have "take_bit k (unat w) = unat w"
    using assms(1) by (simp add: take_bit_nat_eq_self)
  then have "take_bit k w = w"
    by (simp only: word_unat_eq_iff unsigned_take_bit_eq)
  then have "bit w n = bit (take_bit k w) n"
    by simp
  then show ?thesis
    using assms(2) by (simp add: bit_take_bit_iff)
qed

text \<open>
  The encoding of a descriptor loses nothing: from the 8 bytes the CPU reads the base, the limit, the access byte
  and the flags, for every limit of 20 bits and flags of 4 bits.
\<close>

lemma gdt_entry_roundtrip:
  assumes "unat (gdt_limit e) < 2 ^ 20" and "unat (gdt_flags e) < 2 ^ 4"
  shows "gdt_decode (gdt_encode e) = e"
proof -
  note l = high_bits_0 [OF assms(1)] and f = high_bits_0 [OF assms(2)]
  have b6: "bit (gdt_encode e ! 6) n \<longleftrightarrow> (if n < 4 then bit (gdt_limit e) (16 + n) else n < 8 \<and> bit (gdt_flags e) (n - 4))" for n
    unfolding gdt_encode_def masks by (auto simp: bit_simps add.commute)
  have limit: "gdt_limit (gdt_decode (gdt_encode e)) = gdt_limit e"
  proof (rule bit_word_eqI)
    fix n
    assume "n < LENGTH(32)"
    then consider "n < 8" | "8 \<le> n" "n < 16" | "16 \<le> n" "n < 20" | "20 \<le> n" "n < 32"
      by force
    then show "bit (gdt_limit (gdt_decode (gdt_encode e))) n = bit (gdt_limit e) n"
    proof cases
      case 4
      then show ?thesis
        using l [of n] b6 [of "n - 16"] unfolding gdt_decode_def by (simp add: gdt_encode_def masks) (auto simp: bit_simps)
    next
      case 3
      then show ?thesis
        using b6 [of "n - 16"] unfolding gdt_decode_def masks by (simp add: gdt_encode_def) (auto simp: bit_simps masks)
    qed (auto simp: gdt_decode_def gdt_encode_def masks bit_simps)
  qed
  have flags: "gdt_flags (gdt_decode (gdt_encode e)) = gdt_flags e"
  proof (rule bit_word_eqI)
    fix n
    assume "n < LENGTH(8)"
    then show "bit (gdt_flags (gdt_decode (gdt_encode e))) n = bit (gdt_flags e) n"
      using f [of n] b6 [of "4 + n"] by (auto simp: gdt_decode_def bit_simps)
  qed
  have base: "gdt_base (gdt_decode (gdt_encode e)) = gdt_base e"
    using bytes_join [of "gdt_base e"] by (simp add: gdt_decode_def gdt_encode_def)
  have "gdt_access_byte (gdt_decode (gdt_encode e)) = gdt_access_byte e"
    by (simp add: gdt_decode_def gdt_encode_def)
  with limit flags base show ?thesis
    by simp
qed

lemma gdt_entry_roundtrip_example:
  "gdt_decode (gdt_encode \<lparr>gdt_base = 0xC0123456, gdt_limit = 0xFFFFF, gdt_access_byte = 0x9A, gdt_flags = 0xC\<rparr>) =
    \<lparr>gdt_base = 0xC0123456, gdt_limit = 0xFFFFF, gdt_access_byte = 0x9A, gdt_flags = 0xC\<rparr>"
  by (rule gdt_entry_roundtrip) simp_all

text \<open>The descriptor at a position of a table of encoded descriptors.\<close>

lemma length_gdt_encode [simp]: "length (gdt_encode e) = 8"
  by (simp add: gdt_encode_def)

lemma descriptor_at_concat:
  "i < length es \<Longrightarrow> descriptor_at (concat (map gdt_encode es)) i = gdt_decode (gdt_encode (es ! i))"
proof (induction es arbitrary: i)
  case (Cons e es)
  then show ?case
  proof (cases i)
    case (Suc j)
    then have "descriptor_at (concat (map gdt_encode (e # es))) i = descriptor_at (concat (map gdt_encode es)) j"
      by (simp add: descriptor_at_def)
    then show ?thesis
      using Cons Suc by simp
  qed (simp add: descriptor_at_def)
qed simp

text \<open>
  \<open>init_gdt\<close> gives the CPU a table whose first five descriptors are the ones of the source and whose sixth is
  the task state segment at the given address; the limit of the table is its size less one.
\<close>

lemma init_gdt_table:
  "\<exists>a. init_gdt tss_addr gdt_addr gdt_arr = Inr (a, 47, gdt_addr) \<and> length a = 48 \<and>
    (\<forall>i < 5. descriptor_at a i = gdt_descriptors ! i) \<and>
    descriptor_at a 5 = \<lparr>gdt_base = tss_addr, gdt_limit = sizeof_tss, gdt_access_byte = 0x89, gdt_flags = 0\<rparr>"
proof -
  let ?tss = "\<lparr>gdt_base = tss_addr, gdt_limit = sizeof_tss, gdt_access_byte = 0x89, gdt_flags = 0\<rparr>"
  let ?es = "take 5 gdt_descriptors @ [?tss]"
  have split: "gdt_arr = concat (map gdt_encode (take 5 gdt_descriptors)) @
      gdt_encode \<lparr>gdt_base = 0, gdt_limit = sizeof_tss, gdt_access_byte = 0x89, gdt_flags = 0\<rparr>"
    by (simp add: gdt_arr_def concat_gdt_entries_def gdt_descriptors_def)
  have len: "length (concat (map gdt_encode (take 5 gdt_descriptors))) = 40"
    by (simp add: gdt_descriptors_def)
  have run: "init_gdt tss_addr gdt_addr gdt_arr = Inr (concat (map gdt_encode ?es), 47, gdt_addr)"
    using len by (simp add: init_gdt_def split list_update_append nth_append gdt_encode_def)
  have lim: "unat (gdt_limit e) < 2 ^ 20 \<and> unat (gdt_flags e) < 2 ^ 4" if "e \<in> set ?es" for e
    using that by (auto simp: gdt_descriptors_def sizeof_tss_def)
  have "descriptor_at (concat (map gdt_encode ?es)) i = ?es ! i" if "i < 6" for i
  proof -
    have "i < length ?es"
      using that by (simp add: gdt_descriptors_def)
    moreover have "?es ! i \<in> set ?es"
      using calculation by (rule nth_mem)
    ultimately show ?thesis
      using descriptor_at_concat [of i ?es] gdt_entry_roundtrip lim by metis
  qed
  moreover have "?es ! 5 = ?tss"
    by (simp add: gdt_descriptors_def)
  moreover have "?es ! i = gdt_descriptors ! i" if "i < 5" for i
  proof -
    have "length (take 5 gdt_descriptors) = 5"
      by (simp add: gdt_descriptors_def)
    with that show ?thesis
      by (simp only: nth_append nth_take) simp
  qed
  moreover have "length (concat (map gdt_encode ?es)) = 48"
    by (simp add: gdt_descriptors_def)
  ultimately show ?thesis
    using run by (intro exI [of _ "concat (map gdt_encode ?es)"]) (simp only: simp_thms, simp)
qed

end
