(* ===== verification/Interrupts.thy ===== *)
theory Interrupts
  imports Sched_Props Devices_Props
begin

section \<open>Interrupts\<close>

text \<open>
  \<^verbatim>\<open>kernel/interrupts/init.cpp\<close> and \<^verbatim>\<open>pic.cpp\<close>: the interrupt descriptor table, the table of handlers, the dispatch of an
  interrupt, and the two interrupts of the interrupt controller. A handler gets the address and the contents of
  the saved registers; its result says whether it returned, or switched to another task and never returns.
\<close>

subsection \<open>Tables\<close>

record idt_entry =
  isr_low :: u16
  idt_kernel_cs :: u16
  idt_reserved :: u8
  idt_attributes :: u8
  isr_high :: u16

type_synonym kernel = "sched \<times> devices"

type_synonym handler = "u32 \<Rightarrow> interrupt_args \<Rightarrow> kernel \<Rightarrow> (bool \<times> kernel) res"

record intr_tables =
  idt_arr :: "idt_entry list"
  interrupt_handler_table :: "handler option list"
  idtr_size :: u16
  idtr_address :: u32

definition zero_idt_entry :: idt_entry where
  "zero_idt_entry = \<lparr>isr_low = 0, idt_kernel_cs = 0, idt_reserved = 0, idt_attributes = 0, isr_high = 0\<rparr>"

definition idt_gate :: "u32 \<Rightarrow> u8 \<Rightarrow> idt_entry" where
  "idt_gate isr attributes = \<lparr>isr_low = ucast (isr AND 0xFFFF), idt_kernel_cs = 0x08, idt_reserved = 0,
     idt_attributes = attributes, isr_high = ucast (drop_bit 16 isr)\<rparr>"

definition register_handler :: "u32 \<Rightarrow> handler \<Rightarrow> intr_tables \<Rightarrow> intr_tables res" where
  "register_handler interrupt h t =
    kbind (kassert (interrupt < 48)) (\<lambda>_.
    kbind (array_write (interrupt_handler_table t) (unat interrupt) (Some h)) (\<lambda>tb.
    Inr (t\<lparr>interrupt_handler_table := tb\<rparr>)))"

text \<open>
  \<open>asm_isr_table\<close> holds the addresses of the 48 stubs, \<open>isr_128\<close> that of the stub of interrupt 0x80, \<open>idt_addr\<close> the
  address of the table.
\<close>

definition interrupts_initialize :: "u32 list \<Rightarrow> u32 \<Rightarrow> u32 \<Rightarrow> kernel \<Rightarrow> (intr_tables \<times> kernel) res" where
  "interrupts_initialize asm_isr_table isr_128 idt_addr = (\<lambda>(s, d).
    kbind (kfold (\<lambda>i arr. kbind (array_read asm_isr_table i) (\<lambda>isr. array_write arr i (idt_gate isr 0x8e)))
             [0..<48] (replicate 256 zero_idt_entry)) (\<lambda>arr.
    kbind (array_write arr 0x80 (idt_gate isr_128 0xee)) (\<lambda>arr.
    Inr (\<lparr>idt_arr = arr, interrupt_handler_table = replicate 256 None, idtr_size = 256 * 8 - 1, idtr_address = idt_addr\<rparr>,
      (s\<lparr>kst := (kst s)\<lparr>interrupt_context_depth := 0\<rparr>\<rparr>, d)))))"

text \<open>\<^verbatim>\<open>interrupts::start\<close> gives the CPU the table and enables interrupts.\<close>

definition interrupts_start :: "kernel \<Rightarrow> kernel" where
  "interrupts_start = (\<lambda>(s, d). (s\<lparr>kst := (kst s)\<lparr>if_flag := True\<rparr>\<rparr>, d))"

definition internal_interrupt_handler :: "intr_tables \<Rightarrow> u32 \<Rightarrow> interrupt_args \<Rightarrow> kernel \<Rightarrow> (bool \<times> kernel) res" where
  "internal_interrupt_handler t p arg = (\<lambda>(s0, d0).
    let s1 = s0\<lparr>kst := (kst s0)\<lparr>interrupt_context_depth := interrupt_context_depth (kst s0) + 1\<rparr>\<rparr>
    in kbind (array_read (interrupt_handler_table t) (unat (ia_interrupt_number arg))) (\<lambda>h.
       case h of
         None \<Rightarrow> Inl KPanic
       | Some f \<Rightarrow>
           kbind (f p arg (s1, d0)) (\<lambda>(returned, s2, d2).
           if returned then kbind (reduce_interrupt_depth (kst s2)) (\<lambda>k. Inr (True, s2\<lparr>kst := k\<rparr>, d2))
           else Inr (False, s2, d2))))"

subsection \<open>The interrupt controller\<close>

definition send_end_of_interrupt :: "u32 \<Rightarrow> devices \<Rightarrow> devices" where
  "send_end_of_interrupt interrupt d =
    asm_outb 0x20 0x20 (if 8 \<le> interrupt then asm_outb 0xA0 0x20 d else d)"

text \<open>\<open>kb_data\<close> is the byte that the keyboard port returns.\<close>

definition pic_interrupt_handler :: "u8 \<Rightarrow> handler" where
  "pic_interrupt_handler kb_data p args = (\<lambda>(s, d).
    let num = ia_interrupt_number args - 0x20
    in if num = 0 then
         kbind (timeslice_passed p s) (\<lambda>s'. Inr (timeslice_held s, s', send_end_of_interrupt num d))
       else if num = 1 then
         kbind (on_scan_code kb_data d) (\<lambda>d'. Inr (True, s, send_end_of_interrupt num d'))
       else Inl KPanic)"

definition init_pic :: "u8 \<Rightarrow> intr_tables \<times> devices \<Rightarrow> (intr_tables \<times> devices) res" where
  "init_pic kb_data = (\<lambda>(t, d).
    kbind (kfold (\<lambda>i. register_handler (of_nat i) (pic_interrupt_handler kb_data)) [0x20..<0x30] t) (\<lambda>t'.
    let out = (\<lambda>(port, v). asm_outb port v);
        divisor = 1193180 div 1000 :: u32
    in Inr (t', fold out
         [(0x20, 0x11), (0xA0, 0x11), (0x21, 0x20), (0xA1, 0x28), (0x21, 0x04), (0xA1, 0x02), (0x21, 0x05), (0xA1, 0x01),
          (0x21, 0xfc), (0xA1, 0xff), (0x43, 52), (0x40, ucast (divisor AND 0xFF)), (0x40, ucast (drop_bit 8 divisor))] d)))"

subsection \<open>Lemmas on the tables\<close>

lemma kfold_register:
  assumes "\<And>i. i \<in> set is \<Longrightarrow> i < 48" and "length (interrupt_handler_table t) = 256"
  shows "\<exists>t'. kfold (\<lambda>i. register_handler (of_nat i) h) is t = Inr t' \<and> length (interrupt_handler_table t') = 256 \<and>
    (\<forall>n. interrupt_handler_table t' ! n = (if n \<in> set is then Some h else interrupt_handler_table t ! n)) \<and>
    idt_arr t' = idt_arr t \<and> idtr_size t' = idtr_size t \<and> idtr_address t' = idtr_address t"
  using assms
proof (induction "is" arbitrary: t)
  case (Cons i "is")
  then have "i < 48"
    by simp
  then have i: "i < 48" "unat (of_nat i :: u32) = i"
    by (simp_all add: unat_of_nat_32)
  then have "(of_nat i :: u32) < 48"
    by (simp add: word_less_nat_alt)
  let ?t = "t\<lparr>interrupt_handler_table := (interrupt_handler_table t)[i := Some h]\<rparr>"
  have reg: "register_handler (of_nat i) h t = Inr ?t"
    using i \<open>of_nat i < 48\<close> Cons.prems(2) by (simp add: register_handler_def)
  obtain t' where "kfold (\<lambda>i. register_handler (of_nat i) h) is ?t = Inr t'" "length (interrupt_handler_table t') = 256"
      "\<forall>n. interrupt_handler_table t' ! n = (if n \<in> set is then Some h else interrupt_handler_table ?t ! n)"
      "idt_arr t' = idt_arr ?t" "idtr_size t' = idtr_size ?t" "idtr_address t' = idtr_address ?t"
    using Cons.IH [of ?t] Cons.prems by auto
  then show ?case
    using reg Cons.prems(2) i by (intro exI [of _ t']) (auto simp: nth_list_update)
qed simp

lemma kfold_gates:
  assumes "\<And>i. i \<in> set is \<Longrightarrow> i < length isrs \<and> i < length arr"
  shows "\<exists>arr'. kfold (\<lambda>i arr. kbind (array_read isrs i) (\<lambda>isr. array_write arr i (idt_gate isr a))) is arr = Inr arr' \<and>
    length arr' = length arr \<and> (\<forall>n. arr' ! n = (if n \<in> set is then idt_gate (isrs ! n) a else arr ! n))"
  using assms
proof (induction "is" arbitrary: arr)
  case (Cons i "is")
  then have i: "i < length isrs" "i < length arr"
    by auto
  let ?arr = "arr[i := idt_gate (isrs ! i) a]"
  obtain arr' where "kfold (\<lambda>i arr. kbind (array_read isrs i) (\<lambda>isr. array_write arr i (idt_gate isr a))) is ?arr = Inr arr'"
      "length arr' = length ?arr" "\<forall>n. arr' ! n = (if n \<in> set is then idt_gate (isrs ! n) a else ?arr ! n)"
    using Cons.IH [of ?arr] Cons.prems by auto
  then show ?case
    using i by (intro exI [of _ arr']) (auto simp: nth_list_update)
qed simp

text \<open>The address that the CPU reads from a gate.\<close>

definition gate_address :: "idt_entry \<Rightarrow> u32" where
  "gate_address e = ucast (isr_low e) OR push_bit 16 (ucast (isr_high e))"

lemma gate_address_gate: "gate_address (idt_gate isr a) = isr"
proof -
  have e: "(0xFFFF :: u32) = mask 16"
    by (simp add: mask_eq_exp_minus_1)
  show ?thesis
    unfolding gate_address_def idt_gate_def e by (rule bit_word_eqI) (auto simp: bit_simps)
qed

subsection \<open>Properties\<close>

text \<open>
  \<open>interrupts::initialize\<close> fills the descriptor table: the gates 0 to 47 lead to their stubs with privilege level
  0, gate 0x80 to its stub with privilege level 3, all other entries are absent, no handler is registered, the
  limit is the size of the table less one, and the nesting depth is 0.
\<close>

lemma idt_initialized:
  assumes "length isrs = 48"
  shows "\<exists>t. interrupts_initialize isrs isr_128 idt_addr (s, d) = Inr (t, s\<lparr>kst := (kst s)\<lparr>interrupt_context_depth := 0\<rparr>\<rparr>, d) \<and>
    length (idt_arr t) = 256 \<and> idtr_size t = 2047 \<and> interrupt_handler_table t = replicate 256 None \<and>
    (\<forall>i < 48. gate_address (idt_arr t ! i) = isrs ! i \<and> idt_attributes (idt_arr t ! i) = 0x8e) \<and>
    gate_address (idt_arr t ! 0x80) = isr_128 \<and> idt_attributes (idt_arr t ! 0x80) = 0xee \<and>
    (\<forall>i < 256. 48 \<le> i \<and> i \<noteq> 0x80 \<longrightarrow> idt_attributes (idt_arr t ! i) = 0)"
proof -
  obtain arr where arr: "kfold (\<lambda>i arr. kbind (array_read isrs i) (\<lambda>isr. array_write arr i (idt_gate isr 0x8e))) [0..<48]
      (replicate 256 zero_idt_entry) = Inr arr" "length arr = 256"
      "\<And>n. arr ! n = (if n < 48 then idt_gate (isrs ! n) 0x8e else replicate 256 zero_idt_entry ! n)"
    using kfold_gates [of "[0..<48]" isrs "replicate 256 zero_idt_entry" "0x8e"] assms by auto
  have at: "idt_attributes (idt_gate x a) = a" for x a
    by (simp add: idt_gate_def)
  show ?thesis
    using arr by (simp add: interrupts_initialize_def gate_address_gate at zero_idt_entry_def)
qed

theorem idt_initialized_witness:
  "\<exists>t. interrupts_initialize (map (\<lambda>i. of_nat (0xC0100000 + 16 * i)) [0..<48]) 0xC0101000 0xC0200000 (two_tasks, blank_screen) =
    Inr (t, two_tasks, blank_screen) \<and> gate_address (idt_arr t ! 3) = 0xC0100030"
proof -
  have "two_tasks\<lparr>kst := (kst two_tasks)\<lparr>interrupt_context_depth := 0\<rparr>\<rparr> = two_tasks"
    by (simp add: two_tasks_def boot_state_def)
  then show ?thesis
    using idt_initialized [of "map (\<lambda>i. of_nat (0xC0100000 + 16 * i)) [0..<48]" "0xC0101000" "0xC0200000" two_tasks blank_screen] by auto
qed

text \<open>The tables after \<open>init_pic\<close>.\<close>

definition pic_ready :: "u8 \<Rightarrow> intr_tables \<Rightarrow> bool" where
  "pic_ready kb_data t \<longleftrightarrow> length (interrupt_handler_table t) = 256 \<and>
    (\<forall>n \<in> {0x20..<0x30}. interrupt_handler_table t ! n = Some (pic_interrupt_handler kb_data)) \<and>
    (\<forall>n < 256. n \<notin> {0x20..<0x30} \<longrightarrow> interrupt_handler_table t ! n = None)"

lemma init_pic_ready:
  assumes "interrupt_handler_table t = replicate 256 None"
  shows "\<exists>t' d'. init_pic kb (t, d) = Inr (t', d') \<and> pic_ready kb t'"
proof -
  have reg: "\<exists>t'. kfold (\<lambda>i. register_handler (of_nat i) (pic_interrupt_handler kb)) [0x20..<0x30] t = Inr t' \<and>
      length (interrupt_handler_table t') = 256 \<and>
      (\<forall>n. interrupt_handler_table t' ! n = (if n \<in> set [0x20..<0x30] then Some (pic_interrupt_handler kb) else interrupt_handler_table t ! n)) \<and>
      idt_arr t' = idt_arr t \<and> idtr_size t' = idtr_size t \<and> idtr_address t' = idtr_address t"
    by (rule kfold_register) (use assms in \<open>auto simp del: upt_rec_numeral\<close>)
  then obtain t' where t': "kfold (\<lambda>i. register_handler (of_nat i) (pic_interrupt_handler kb)) [0x20..<0x30] t = Inr t'"
      "length (interrupt_handler_table t') = 256"
      "\<forall>n. interrupt_handler_table t' ! n = (if n \<in> set [0x20..<0x30] then Some (pic_interrupt_handler kb) else interrupt_handler_table t ! n)"
    by blast
  have "pic_ready kb t'"
    using t'(2,3) assms by (simp add: pic_ready_def del: upt_rec_numeral)
  moreover have "\<exists>d'. init_pic kb (t, d) = Inr (t', d')"
    unfolding init_pic_def prod.case t'(1) by (simp add: Let_def)
  ultimately show ?thesis
    by blast
qed

text \<open>
  C35: A timer interrupt while a task runs with preemption allowed: the end of the interrupt is sent, the handler does
  not return, and a task of the ring that is not blocked runs, outside interrupt context; while preemption is locked,
  the handler returns with the scheduler as it was.
\<close>

theorem timer_interrupt_switches:
  assumes "pic_ready kb t" and "ia_interrupt_number arg = 0x20" and "running idle M T W c s"
  shows "(\<exists>s' c'. internal_interrupt_handler t p arg (s, d) = Inr (False, s', asm_outb 0x20 0x20 d) \<and> running idle M T W c' s' \<and>
      lock_queue W s' = lock_queue W s) \<and>
    (\<forall>n > 0. internal_interrupt_handler t p arg (s\<lparr>kst := (kst s)\<lparr>preempt_counter := n\<rparr>\<rparr>, d) =
      Inr (True, s\<lparr>kst := (kst s)\<lparr>preempt_counter := n\<rparr>\<rparr>, asm_outb 0x20 0x20 d))"
proof (intro conjI allI impI)
  note D = runningD [OF assms(3)]
  have h: "array_read (interrupt_handler_table t) (unat (ia_interrupt_number arg)) = Inr (Some (pic_interrupt_handler kb))"
    using assms(1,2) by (simp add: pic_ready_def)
  let ?s = "s\<lparr>kst := (kst s)\<lparr>interrupt_context_depth := 1\<rparr>\<rparr>"
  obtain s' c' where s': "timeslice_passed p ?s = Inr s'" "running idle M T W c' s'" "lock_queue W s' = lock_queue W s"
    using running_tick [OF assms(3), of p] by blast
  have "\<not> timeslice_held ?s"
    using D by (simp add: timeslice_held_def get_interrupt_context_depth_def)
  then have "internal_interrupt_handler t p arg (s, d) = Inr (False, s', asm_outb 0x20 0x20 d)"
    using h s' D(6) assms(2)
    by (simp add: internal_interrupt_handler_def Let_def pic_interrupt_handler_def send_end_of_interrupt_def)
  then show "\<exists>s' c'. internal_interrupt_handler t p arg (s, d) = Inr (False, s', asm_outb 0x20 0x20 d) \<and> running idle M T W c' s' \<and>
    lock_queue W s' = lock_queue W s"
    using s' by blast
  fix n :: u32
  assume n: "0 < n"
  show "internal_interrupt_handler t p arg (s\<lparr>kst := (kst s)\<lparr>preempt_counter := n\<rparr>\<rparr>, d) =
      Inr (True, s\<lparr>kst := (kst s)\<lparr>preempt_counter := n\<rparr>\<rparr>, asm_outb 0x20 0x20 d)"
    using n h D(6) assms(2)
    by (simp add: internal_interrupt_handler_def Let_def pic_interrupt_handler_def send_end_of_interrupt_def
        timeslice_passed_def timeslice_held_def is_interrupt_context_def reduce_interrupt_depth_def word_neq_0_conv)
qed

theorem timer_interrupt_switches_witness:
  "\<exists>t' d' s'. init_pic 0 (\<lparr>idt_arr = [], interrupt_handler_table = replicate 256 None, idtr_size = 0, idtr_address = 0\<rparr>, blank_screen) = Inr (t', d') \<and>
    internal_interrupt_handler t' 0x1000 (zero_regs\<lparr>ia_interrupt_number := 0x20\<rparr>) (two_tasks, blank_screen) =
      Inr (False, s', asm_outb 0x20 0x20 blank_screen)"
proof -
  let ?t = "\<lparr>idt_arr = [], interrupt_handler_table = replicate 256 None, idtr_size = 0, idtr_address = 0\<rparr>"
  obtain t' d' where t': "init_pic 0 (?t, blank_screen) = Inr (t', d')" "pic_ready 0 t'"
    using init_pic_ready [of ?t 0 blank_screen] by auto
  have "ia_interrupt_number (zero_regs\<lparr>ia_interrupt_number := 0x20\<rparr>) = 0x20"
    by simp
  from timer_interrupt_switches [OF t'(2) this two_tasks_running, of "0x1000" blank_screen] t'(1) show ?thesis
    by blast
qed

text \<open>
  A keyboard interrupt runs the keyboard handler in a nested context and returns to the interrupted code with
  the scheduler unchanged and the end of the interrupt sent.
\<close>

lemma keyboard_interrupt_returns:
  assumes "pic_ready kb t" and "ia_interrupt_number arg = 0x21" and "0 \<le> interrupt_context_depth (kst s)"
    and "tty_inv d" and "length (is_down d) = 4"
  shows "\<exists>d'. internal_interrupt_handler t p arg (s, d) = Inr (True, s, asm_outb 0x20 0x20 d') \<and> on_scan_code kb d = Inr d' \<and> tty_inv d'"
proof -
  have h: "array_read (interrupt_handler_table t) (unat (ia_interrupt_number arg)) = Inr (Some (pic_interrupt_handler kb))"
    using assms(1,2) by (simp add: pic_ready_def)
  obtain d' where "on_scan_code kb d = Inr d'" "tty_inv d'"
    using on_scan_code_ok [OF assms(4,5)] by blast
  then show ?thesis
    using h assms(2,3)
    by (simp add: internal_interrupt_handler_def Let_def pic_interrupt_handler_def send_end_of_interrupt_def reduce_interrupt_depth_def
        word_le_nat_alt)
qed

theorem keyboard_interrupt_returns_witness:
  "\<exists>t' d' d2. init_pic 30 (\<lparr>idt_arr = [], interrupt_handler_table = replicate 256 None, idtr_size = 0, idtr_address = 0\<rparr>, blank_screen) = Inr (t', d') \<and>
    internal_interrupt_handler t' 0x1000 (zero_regs\<lparr>ia_interrupt_number := 0x21\<rparr>) (two_tasks, blank_screen) = Inr (True, two_tasks, d2)"
proof -
  let ?t = "\<lparr>idt_arr = [], interrupt_handler_table = replicate 256 None, idtr_size = 0, idtr_address = 0\<rparr>"
  obtain t' d' where t': "init_pic 30 (?t, blank_screen) = Inr (t', d')" "pic_ready 30 t'"
    using init_pic_ready [of ?t 30 blank_screen] by auto
  have "ia_interrupt_number (zero_regs\<lparr>ia_interrupt_number := 0x21\<rparr>) = 0x21" "0 \<le> interrupt_context_depth (kst two_tasks)"
    "length (is_down blank_screen) = 4"
    by (simp_all add: two_tasks_def boot_state_def blank_screen_def)
  from keyboard_interrupt_returns [OF t'(2) this(1,2) blank_screen_inv this(3), of "0x1000"] t'(1) show ?thesis
    by blast
qed

text \<open>
  The gate of interrupt 0x80 is open to user programs, but no handler can be registered for it: whatever
  registrations succeed after \<open>initialize\<close>, the interrupt stops the kernel.
\<close>

lemma syscall_interrupt_panics:
  assumes "interrupt_handler_table t = replicate 256 None"
    and "kfold (\<lambda>(i, h). register_handler i h) hs t = Inr t'" and "ia_interrupt_number arg = 0x80"
  shows "internal_interrupt_handler t' p arg k = Inl KPanic"
proof -
  have "length (interrupt_handler_table t') = 256 \<and> interrupt_handler_table t' ! 0x80 = None"
    if "length (interrupt_handler_table t) = 256 \<and> interrupt_handler_table t ! 0x80 = None"
      "kfold (\<lambda>(i, h). register_handler i h) hs t = Inr t'" for t
    using that
  proof (induction hs arbitrary: t)
    case (Cons ih hs)
    obtain i h where ih: "ih = (i, h)" by (cases ih)
    then obtain t1 where t1: "register_handler i h t = Inr t1" "kfold (\<lambda>(i, h). register_handler i h) hs t1 = Inr t'"
      using Cons.prems(2) by (auto simp: kbind_eq_Inr)
    have "unat i < 48" if "i < 48"
      using that by (simp add: word_less_nat_alt)
    then have "length (interrupt_handler_table t1) = 256 \<and> interrupt_handler_table t1 ! 0x80 = None"
      using t1(1) Cons.prems(1) by (auto simp: register_handler_def kbind_eq_Inr array_write_def split: if_splits)
    from Cons.IH [OF this t1(2)] show ?case .
  qed simp
  from this [OF _ assms(2)] assms(1) have "array_read (interrupt_handler_table t') 0x80 = Inr None"
    by (simp add: array_read_def)
  then show ?thesis
    using assms(3) by (cases k) (simp add: internal_interrupt_handler_def Let_def)
qed

theorem syscall_interrupt_panics_witness:
  "internal_interrupt_handler \<lparr>idt_arr = [], interrupt_handler_table = replicate 256 None, idtr_size = 0, idtr_address = 0\<rparr> 0
    (zero_regs\<lparr>ia_interrupt_number := 0x80\<rparr>) (two_tasks, blank_screen) = Inl KPanic"
  by (rule syscall_interrupt_panics [where hs = "[]"]) simp_all

end
