(* ===== verification/Kmain.thy ===== *)
theory Kmain
  imports Vfs_Walk Elf_Props Panic Boot Gdt Interrupts
begin

section \<open>The kernel as a whole\<close>

text \<open>
  \<^verbatim>\<open>kernel/kmain.cpp\<close>: the boot of the kernel, its first task with the splash screen and the shell, and the
  background task. Everything here calls the other components, so the state is theirs together.
\<close>

subsection \<open>State\<close>

text \<open>
  The file systems with the scheduler, the page allocator and the memory; the devices with the number of reads of the
  line status; the tables of the CPU; the amount of memory that the boot loader reports.
\<close>

record 's system =
  sys_fs :: "'s fs_state"
  sys_dev :: "nat \<times> devices"
  sys_intr :: intr_tables
  sys_gdt :: "u8 list \<times> u16 \<times> u32"
  sys_ram :: u32

definition sys_kst :: "'s system \<Rightarrow> kstate" where
  "sys_kst s = kst (fs_sched (sys_fs s))"

definition set_sched :: "sched \<Rightarrow> 's system \<Rightarrow> 's system" where
  "set_sched sc s = s\<lparr>sys_fs := (sys_fs s)\<lparr>fs_sched := sc\<rparr>\<rparr>"

definition set_kst :: "kstate \<Rightarrow> 's system \<Rightarrow> 's system" where
  "set_kst k s = set_sched ((fs_sched (sys_fs s))\<lparr>kst := k\<rparr>) s"

definition on_console :: "(console \<Rightarrow> console res) \<Rightarrow> 's system \<Rightarrow> 's system res" where
  "on_console f s =
    kbind (f \<lparr>con_kst = sys_kst s, con_dev = sys_dev s\<rparr>) (\<lambda>c. Inr ((set_kst (con_kst c) s)\<lparr>sys_dev := con_dev c\<rparr>))"

text \<open>Writing to the screen; the strings are in the memory that the CPU sees.\<close>

definition sys_write :: "u8 list \<Rightarrow> log_item list \<Rightarrow> 's system \<Rightarrow> 's system res" where
  "sys_write buf items s =
    kbind (log_write tty_driver (fs_mem (sys_fs s)) buf items (snd (sys_dev s))) (\<lambda>d. Inr (s\<lparr>sys_dev := (fst (sys_dev s), d)\<rparr>))"

subsection \<open>The splash screen\<close>

text \<open>\<open>kmem_alloc_4k\<close> for a buffer: the CPU sees the new page in its memory.\<close>

definition alloc_buffer :: "(u32, 's) fop" where
  "alloc_buffer s =
    kbind (kmem_alloc_pages K4 (kst (fs_sched s))) (\<lambda>(p, k).
    Inr (p, s\<lparr>fs_sched := (fs_sched s)\<lparr>kst := k\<rparr>, fs_mem := \<lambda>a. if in_range p 4096 a then kmem k a else fs_mem s a\<rparr>))"

definition open_path :: "'s obj_ops \<Rightarrow> string_buf \<Rightarrow> (u32 \<times> u32, 's) fop" where
  "open_path ops path s =
    kbind (traverse ops path s) (\<lambda>((e, a), s1).
    kbind (kassert (e = E_ok)) (\<lambda>_.
    case a of
      None \<Rightarrow> Inl Undefined
    | Some q \<Rightarrow>
        kbind (inode_open ops q s1) (\<lambda>((e, f), s2).
        kbind (kassert (e = E_ok)) (\<lambda>_. Inr ((q, f), s2)))))"

text \<open>\<open>path\<close> is the literal \<^verbatim>\<open>/initrd/splash.txt\<close> in memory.\<close>

definition show_splash :: "'s obj_ops \<Rightarrow> u8 list \<Rightarrow> string_buf \<Rightarrow> 's system \<Rightarrow> 's system res" where
  "show_splash ops nbuf path s =
    kbind (open_path ops path (sys_fs s)) (\<lambda>((a, f), s1).
    kbind (alloc_buffer s1) (\<lambda>(buf, s2).
    kbind (file_read f buf 4096 s2) (\<lambda>(read_len, s3).
    kbind (kassert (read_len \<le> 4096 \<and> 0 \<le> read_len)) (\<lambda>_.
    kbind (sys_write nbuf [LString \<lparr>data = buf, length_field = word_of_int read_len\<rparr>] (s\<lparr>sys_fs := s3\<rparr>)) (\<lambda>s4.
    kbind (file_release ops f (sys_fs s4)) (\<lambda>s5.
    kbind (inode_release ops a s5) (\<lambda>s6. Inr (s4\<lparr>sys_fs := s6\<rparr>))))))))"

subsection \<open>The tasks\<close>

text \<open>One round of the endless loop of \<^verbatim>\<open>second_task\<close>, up to the pause.\<close>

definition second_task_round :: "u8 list \<Rightarrow> 's system \<Rightarrow> 's system res" where
  "second_task_round nbuf s =
    kbind (sys_write nbuf (text_items (literal ''hello world!'') @ [LChar 10]) (set_kst (preempt_up (sys_kst s)) s)) (\<lambda>s1.
    kbind (preempt_down (sys_kst s1)) (\<lambda>k. Inr (set_kst k s1)))"

text \<open>
  \<^verbatim>\<open>main_task\<close> up to \<^verbatim>\<open>asm_enter_usermode\<close>, with the entry point and the stack of the program as its result. \<open>wrapper\<close> and
  \<open>second\<close> are the addresses of \<^verbatim>\<open>task_wrapper\<close> and \<^verbatim>\<open>second_task\<close>, \<open>hdr_buf\<close> and \<open>phdr_buf\<close> those of the headers on the stack.
\<close>

definition main_task :: "'s obj_ops \<Rightarrow> u8 list \<Rightarrow> string_buf \<Rightarrow> string_buf \<Rightarrow> u32 \<Rightarrow> u32 \<Rightarrow> u32 \<Rightarrow> u32 \<Rightarrow> 's system \<Rightarrow> ((u32 \<times> u32) \<times> 's system) res" where
  "main_task ops nbuf splash shell wrapper second hdr_buf phdr_buf s =
    kbind (show_splash ops nbuf splash s) (\<lambda>s1.
    kbind (task_allocate wrapper second (fs_sched (sys_fs s1))) (\<lambda>(t, sc).
    kbind (link_task t sc) (\<lambda>sc1.
    kbind (open_path ops shell ((sys_fs s1)\<lparr>fs_sched := sc1\<rparr>)) (\<lambda>((a, f), s2).
    kbind (load_elf map_new_page hdr_buf phdr_buf f s2) (\<lambda>((e, entry), s3).
    kbind (kassert (e = 0)) (\<lambda>_.
    case entry of
      None \<Rightarrow> Inl Undefined
    | Some pc \<Rightarrow> kbind (alloc_buffer s3) (\<lambda>(stack, s4). Inr ((pc, stack), s1\<lparr>sys_fs := s4\<rparr>))))))))"

subsection \<open>Boot\<close>

text \<open>What the boot loader and the linker provide: addresses, and the texts of the log.\<close>

record boot_args =
  b_info :: u32
  b_magic :: u32
  b_tss :: u32
  b_gdt :: u32
  b_kernel_end :: u32
  b_ram_start :: u32
  b_isrs :: "u32 list"
  b_isr_128 :: u32
  b_idt :: u32
  b_wrapper :: u32
  b_idle :: u32
  b_main :: u32
  b_initrd :: u32
  b_vfs :: u32
  b_mount :: string_buf
  b_file :: "u8 list"
  b_line :: u32
  b_func :: "u8 list"

definition kmain :: "'s obj_ops \<Rightarrow> (nat \<Rightarrow> u8) \<Rightarrow> u8 \<Rightarrow> u8 list \<Rightarrow> boot_args \<Rightarrow> 's system \<Rightarrow> 's system res" where
  "kmain ops status kb_data nbuf b s =
    kbind (tty_initialize (snd (sys_dev s))) (\<lambda>d.
    kbind (on_console (tiny_log status nbuf (literal ''[INFO] '')
        (text_items (literal ''Early boot, initialized VGA and serial'')) (b_file b) (b_line b) (b_func b))
      (s\<lparr>sys_dev := (fst (sys_dev s), serial_initialize d)\<rparr>)) (\<lambda>s1.
    kbind (read_multiboot_data (b_info b) (b_magic b) (sys_ram s1) (fs_mem (sys_fs s1))) (\<lambda>ram.
    kbind (init_gdt (b_tss b) (b_gdt b) gdt_arr) (\<lambda>gdt.
    kbind (init_page_allocator (b_kernel_end b) ram (b_ram_start b) (sys_kst s1)) (\<lambda>k.
    let s2 = (set_kst k s1)\<lparr>sys_gdt := gdt, sys_ram := ram\<rparr>
    in kbind (interrupts_initialize (b_isrs b) (b_isr_128 b) (b_idt b) (fs_sched (sys_fs s2), snd (sys_dev s2))) (\<lambda>(t, sc, d).
    kbind (init_pic kb_data (t, d)) (\<lambda>(t, d).
    let (sc1, d1) = interrupts_start (sc, d);
        s3 = (set_sched sc1 s2)\<lparr>sys_dev := (fst (sys_dev s2), d1), sys_intr := t\<rparr>
    in kbind (register_initrd ops (b_initrd b) (b_vfs b) (b_mount b) (sys_fs s3)) (\<lambda>f.
    kbind (scheduler_initialize (b_wrapper b) (b_idle b) (fs_sched f)) (\<lambda>sc2.
    kbind (task_allocate (b_wrapper b) (b_main b) sc2) (\<lambda>(m, sc3).
    kbind (kassert (m \<noteq> 0)) (\<lambda>_.
    kbind (link_task m sc3) (\<lambda>sc4.
    kbind (scheduler_start sc4) (\<lambda>sc5. Inr (s3\<lparr>sys_fs := f\<lparr>fs_sched := sc5\<rparr>\<rparr>))))))))))))))"

subsection \<open>The splash screen is shown\<close>

definition add_refs :: "u32 \<Rightarrow> int \<Rightarrow> 's fs_state \<Rightarrow> 's fs_state" where
  "add_refs q n = set_inode q (\<lambda>i. i\<lparr>i_rc := i_rc i + n\<rparr>)"

lemma alloc_buffer_frame:
  assumes "kmem_alloc_pages K4 (kst (fs_sched s)) = Inr (buf, k)"
  shows "alloc_buffer s = Inr (buf, s\<lparr>fs_sched := (fs_sched s)\<lparr>kst := k\<rparr>, fs_mem := \<lambda>a. if in_range buf 4096 a then kmem k a else fs_mem s a\<rparr>)"
    and "quiet s \<Longrightarrow> quiet (s\<lparr>fs_sched := (fs_sched s)\<lparr>kst := k\<rparr>, fs_mem := m\<rparr>)"
  using kmem_alloc_pages_cpu [OF assms] by (simp_all add: assms alloc_buffer_def quiet_def same_cpu_def is_interrupt_context_def)

lemma sys_write_string:
  assumes "tty_inv (snd (sys_dev s))" and "length nbuf = 21" and "bytes_at (fs_mem (sys_fs s)) buf cs" and "length cs < 2 ^ 32"
  shows "\<exists>d. sys_write nbuf [LString \<lparr>data = buf, length_field = of_nat (length cs)\<rparr>] s = Inr (s\<lparr>sys_dev := (fst (sys_dev s), d)\<rparr>) \<and> tty_inv d \<and>
    colored_term d = fold term_event (map Print cs) (colored_term (snd (sys_dev s))) \<and> serial_sent d = serial_sent (snd (sys_dev s))"
proof -
  let ?item = "LString \<lparr>data = buf, length_field = of_nat (length cs)\<rparr>" and ?m = "fs_mem (sys_fs s)"
  have "string_chars ?m \<lparr>data = buf, length_field = of_nat (length cs)\<rparr> = cs"
    using assms(3,4) by (intro nth_equalityI) (simp_all add: string_chars_def unat_of_nat_32 bytes_at_def)
  moreover obtain outs where "list_all2 (shows_item ?m) [?item] outs" "tty.shown (log_write tty_driver ?m nbuf [?item] (snd (sys_dev s))) (concat outs) (snd (sys_dev s))"
    using tty.write_shown [OF assms(1,2), of "[?item]" ?m] by auto
  ultimately have "tty.shown (log_write tty_driver ?m nbuf [?item] (snd (sys_dev s))) (map Print cs) (snd (sys_dev s))"
    by (auto simp: list_all2_Cons1)
  then show ?thesis
    by (auto simp: tty.shown_def sys_write_def console_view_def fold_on_screen)
qed

lemma release_opened:
  assumes "quiet s" and "free_lock s q" and "0 < i_rc (inodes s q) - 2" and "files s f = (tar_fd q)\<lparr>f_pos := pos\<rparr>"
    and "obj_del ops FileObj f (fs_objs s) = Inr os"
  shows "\<exists>s'. kbind (file_release ops f s) (inode_release ops q) = Inr s' \<and> inodes s' = inodes (add_refs q (- 2) s) \<and>
    fs_sched s' = fs_sched s \<and> fs_mem s' = fs_mem s \<and> fs_objs s' = os"
proof -
  have f: "f_rc (files s f) = 1" "owner_inode (files s f) = q" "1 < i_rc (inodes s q)"
    using assms(3,4) by (simp_all add: tar_fd_def)
  let ?s1 = "(set_inode q (\<lambda>i. i\<lparr>i_rc := i_rc i - 1\<rparr>) (s\<lparr>files := (files s)(f := (files s f)\<lparr>f_rc := 0\<rparr>)\<rparr>))\<lparr>fs_objs := os\<rparr>"
  have s1: "quiet ?s1" "free_lock ?s1 q" "1 < i_rc (inodes ?s1 q)"
    using assms(1-3) by (simp_all add: quiet_def free_lock_def set_inode_def)
  show ?thesis
    using file_release_spec [OF assms(1) f(1,2) assms(2) f(3) assms(5)] inode_release_shared [OF s1, of ops]
    by (simp add: add_refs_def set_inode_def)
qed

text \<open>
  The rest of \<open>show_splash\<close>, after a file with the contents \<open>cs\<close> has been opened: its first 4096 bytes are read into a new
  page and printed, and the file and the inode are released; the page is not.
\<close>

lemma show_splash_tail:
  assumes "open_path ops path (sys_fs s) = Inr ((q, f), s1)" and "quiet s1" and "free_lock s1 q" and "2 < i_rc (inodes s1 q)"
    and "files s1 f = tar_fd q" and "bytes_at (fs_mem s1) (m_contents (inodes s1 q)) cs"
    and "m_contents_length (inodes s1 q) = of_nat (length cs)" and "length cs < 2 ^ 31"
    and "obj_del ops FileObj f (fs_objs s1) = Inr os'" and "kmem_alloc_pages K4 (kst (fs_sched s1)) = Inr (buf, k)"
    and "\<forall>a. in_range buf 4096 a \<longrightarrow> \<not> in_range (m_contents (inodes s1 q)) (length cs) a"
    and "tty_inv (snd (sys_dev s))" and "length nbuf = 21"
  shows "\<exists>s'. show_splash ops nbuf path s = Inr s' \<and>
    colored_term (snd (sys_dev s')) = fold term_event (map Print (take 4096 cs)) (colored_term (snd (sys_dev s))) \<and>
    serial_sent (snd (sys_dev s')) = serial_sent (snd (sys_dev s)) \<and> inodes (sys_fs s') = inodes (add_refs q (- 2) s1) \<and>
    fs_objs (sys_fs s') = os' \<and> fs_sched (sys_fs s') = (fs_sched s1)\<lparr>kst := k\<rparr>"
proof -
  let ?r = "take 4096 cs"
  let ?s2 = "s1\<lparr>fs_sched := (fs_sched s1)\<lparr>kst := k\<rparr>, fs_mem := \<lambda>a. if in_range buf 4096 a then kmem k a else fs_mem s1 a\<rparr>"
  have alloc: "alloc_buffer s1 = Inr (buf, ?s2)" "quiet ?s2"
    using alloc_buffer_frame [OF assms(10)] assms(2) by simp_all
  have "bytes_at (fs_mem ?s2) (m_contents (inodes s1 q)) cs"
    using bytes_at_frame [OF assms(6), of "fs_mem ?s2"] assms(8,11) by fastforce
  then have op: "open_file ?s2 f buf 4096 cs"
    using assms(5,7,8,11) by (simp add: open_file_def Let_def tar_fd_def)
  have pos: "unat (f_pos (files ?s2 f)) = 0"
    using assms(5) by (simp add: tar_fd_def)
  obtain s3 m3 p where s3: "file_read f buf 4096 ?s2 = Inr (int (length ?r), s3)" "bytes_at (fs_mem s3) buf ?r"
      "s3 = ?s2\<lparr>fs_mem := m3, files := (files ?s2)(f := (files ?s2 f)\<lparr>f_pos := p\<rparr>)\<rparr>"
    using file_read_spec [OF op, of 4096] unfolding pos by auto
  have len: "length ?r < 2 ^ 32" "(word_of_int (int (length ?r)) :: u32) = of_nat (length ?r)"
    by simp_all
  obtain d where d: "sys_write nbuf [LString \<lparr>data = buf, length_field = of_nat (length ?r)\<rparr>] (s\<lparr>sys_fs := s3\<rparr>) =
        Inr (s\<lparr>sys_fs := s3, sys_dev := (fst (sys_dev s), d)\<rparr>)"
      "colored_term d = fold term_event (map Print ?r) (colored_term (snd (sys_dev s)))" "serial_sent d = serial_sent (snd (sys_dev s))"
    using sys_write_string [of "s\<lparr>sys_fs := s3\<rparr>" nbuf buf ?r] assms(12,13) s3(2) len(1) by auto
  have "quiet s3" "free_lock s3 q" "0 < i_rc (inodes s3 q) - 2" "files s3 f = (tar_fd q)\<lparr>f_pos := p\<rparr>"
      "obj_del ops FileObj f (fs_objs s3) = Inr os'"
    using alloc(2) assms(3-5,9) by (simp_all add: s3(3) quiet_def free_lock_def)
  from release_opened [OF this] obtain s4 where s4: "kbind (file_release ops f s3) (inode_release ops q) = Inr s4"
      "inodes s4 = inodes (add_refs q (- 2) s3)" "fs_sched s4 = fs_sched s3" "fs_objs s4 = os'"
    by blast
  obtain s35 where s35: "file_release ops f s3 = Inr s35" "inode_release ops q s35 = Inr s4"
    using s4(1) by (auto simp: kbind_eq_Inr)
  have "inodes s4 = inodes (add_refs q (- 2) s1)" "fs_sched s4 = (fs_sched s1)\<lparr>kst := k\<rparr>"
    by (simp_all add: s4(2,3) s3(3) add_refs_def set_inode_def)
  moreover have "show_splash ops nbuf path s = Inr (s\<lparr>sys_fs := s4, sys_dev := (fst (sys_dev s), d)\<rparr>)"
    using assms(1) alloc(1) s3(1) d(1) s35 len(2) by (simp add: show_splash_def kassert_def)
  ultimately show ?thesis
    using d(2,3) s4(4) by (intro exI [of _ "s\<lparr>sys_fs := s4, sys_dev := (fst (sys_dev s), d)\<rparr>"]) simp
qed

text \<open>The state with a file open on the inode \<open>q\<close>.\<close>

definition opened :: "u32 \<Rightarrow> u32 \<Rightarrow> 's \<Rightarrow> 's fs_state \<Rightarrow> 's fs_state" where
  "opened q f os s = (add_refs q 1 (s\<lparr>fs_objs := os\<rparr>))\<lparr>files := (files s)(f := tar_fd q)\<rparr>"

lemma open_path_fresh:
  assumes "traverse ops path s = Inr ((E_ok, Some x), (enter_inode v x root i T s)\<lparr>fs_mem := m\<rparr>)" and "quiet s"
    and "0 < i_rc i" and "i_rc i < 2 ^ 31 - 1" and "obj_new ops FileObj (ht_alloc T) = Inr (f, os)"
  shows "open_path ops path s = Inr ((x, f), opened x f os ((enter_inode v x root i T s)\<lparr>fs_mem := m\<rparr>))"
    and "quiet ((enter_inode v x root i T s)\<lparr>fs_mem := m\<rparr>)" and "free_lock ((enter_inode v x root i T s)\<lparr>fs_mem := m\<rparr>) x"
proof -
  let ?s = "(enter_inode v x root i T s)\<lparr>fs_mem := m\<rparr>"
  show s: "quiet ?s" "free_lock ?s x"
    using assms(2) by (simp_all add: quiet_def free_lock_def enter_inode_def mutex_new_def lonely_def node_new_def)
  have "0 < i_rc (inodes ?s x)" "i_rc (inodes ?s x) < 2 ^ 31 - 1" "obj_new ops FileObj (fs_objs ?s) = Inr (f, os)"
    using assms(3-5) by (simp_all add: enter_inode_def)
  from inode_open_spec [OF s this] show "open_path ops path s = Inr ((x, f), opened x f os ?s)"
    using assms(1) by (simp add: open_path_def kassert_def opened_def add_refs_def set_inode_def)
qed

text \<open>The inode of the file, and all inodes after \<open>show_splash\<close> has entered it and given its two references back.\<close>

definition splash_inodes :: "u32 \<Rightarrow> u32 \<Rightarrow> inode_tar \<Rightarrow> (u32 \<Rightarrow> inode_tar) \<Rightarrow> u32 \<Rightarrow> inode_tar" where
  "splash_inodes root x i I = I(root := (I root)\<lparr>i_rc := i_rc (I root) + 1\<rparr>, x := i\<lparr>i_rc := i_rc i - 1\<rparr>)"

lemma show_splash_fresh:
  assumes path: "traverse ops path (sys_fs s) = Inr ((E_ok, Some x), (enter_inode v x root i T (sys_fs s))\<lparr>fs_mem := m\<rparr>)"
    and "quiet (sys_fs s)" and "1 < i_rc i" and "i_rc i < 2 ^ 31 - 1" and "obj_new ops FileObj (ht_alloc T) = Inr (f, os)"
    and "obj_del ops FileObj f os = Inr os'" and "bytes_at m (m_contents i) cs" and "m_contents_length i = of_nat (length cs)" and "length cs < 2 ^ 31"
    and "kmem_alloc_pages K4 (kst (fs_sched (sys_fs s))) = Inr (buf, k)"
    and "\<forall>a. in_range buf 4096 a \<longrightarrow> \<not> in_range (m_contents i) (length cs) a"
    and "tty_inv (snd (sys_dev s))" and "length nbuf = 21"
  shows "\<exists>s'. show_splash ops nbuf path s = Inr s' \<and>
    colored_term (snd (sys_dev s')) = fold term_event (map Print (take 4096 cs)) (colored_term (snd (sys_dev s))) \<and>
    serial_sent (snd (sys_dev s')) = serial_sent (snd (sys_dev s)) \<and> inodes (sys_fs s') = splash_inodes root x i (inodes (sys_fs s)) \<and>
    fs_objs (sys_fs s') = os' \<and> fs_sched (sys_fs s') = (mutex_new x (fs_sched (sys_fs s)))\<lparr>kst := k\<rparr>"
proof -
  let ?e = "(enter_inode v x root i T (sys_fs s))\<lparr>fs_mem := m\<rparr>"
  let ?s1 = "opened x f os ?e"
  have "0 < i_rc i"
    using assms(3) by simp
  note o = open_path_fresh [OF path assms(2) this assms(4,5)]
  have "quiet ?s1" "free_lock ?s1 x"
    using o(2,3) by (simp_all add: opened_def add_refs_def set_inode_def quiet_def free_lock_def)
  moreover have "inodes ?s1 x = i\<lparr>i_rc := i_rc i + 1\<rparr>" "files ?s1 f = tar_fd x" "fs_mem ?s1 = m" "fs_objs ?s1 = os"
      "fs_sched ?s1 = mutex_new x (fs_sched (sys_fs s))" "kst (mutex_new x (fs_sched (sys_fs s))) = kst (fs_sched (sys_fs s))"
    by (simp_all add: opened_def add_refs_def set_inode_def enter_inode_def mutex_new_def)
  moreover have "inodes (add_refs x (- 2) ?s1) = splash_inodes root x i (inodes (sys_fs s))"
    by (simp add: opened_def add_refs_def set_inode_def enter_inode_def splash_inodes_def)
  ultimately show ?thesis
    using show_splash_tail [OF o(1), of cs os' buf k nbuf] assms(3,6-13) by simp
qed

text \<open>C5: The splash screen of the booted kernel. \<open>register_initrd\<close> mounts the archive when nothing else is mounted; from then on
  the scheduler may have done anything that leaves the lock of the root free. The path of the splash screen names a file in the
  top directory of the archive, whose inode is not in memory yet: \<open>show_splash\<close> makes the inode from the header of the file,
  enters it into the table (with a link of the heap only when it shares the bucket of the root), opens the file, reads its first
  4096 bytes into a new page, prints exactly those on the screen, frees the open file and releases the inode. The constructors
  leave the reference counts of the root and of the new inode as they find them in memory (\<open>0x41414141\<close> in a page that the page
  allocator has filled); whatever they are, if positive, greater than one and below the largest number, the root then has one
  reference more, for its child, and the new inode one less than its memory held. The page is not freed.\<close>

theorem show_splash_prints:
  assumes boot: "first_mount_point (sys_fs s) = None" "bytes_at (fs_mem (sys_fs s)) (data mnt) name" "length_field mnt = of_nat (length name)"
      "0 < length name" "length name < 400" "length name = 1 \<or> last name \<noteq> slash_char"
    and objs: "obj_new ops TableObj (fs_objs (sys_fs s)) = Inr (tbl, o1)" "obj_new ops InodeObj o1 = Inr (root, o2)"
      "obj_new ops MountObj o2 = Inr (q, o3)" "obj_new ops InodeObj o3 = Inr (x, o4)" "x \<noteq> root"
    and link: "if hash 256 (of_nat n) = hash 256 2 then obj_new ops LinkObj o4 = Inr (l, o5) else o5 = o4"
    and fobj: "obj_new ops FileObj o5 = Inr (f, o6)" "obj_del ops FileObj f o6 = Inr o7"
    and counts: "0 < i_rc (inodes (sys_fs s) root)" "i_rc (inodes (sys_fs s) root) < 2 ^ 31 - 1"
      "1 < i_rc (inodes (sys_fs s) x)" "i_rc (inodes (sys_fs s) x) < 2 ^ 31 - 1"
    and arch: "archive_at (fs_mem (sys_fs s)) initrd es" "\<forall>a. in_range (path_buf (sys_fs s)) 400 a \<longrightarrow> a \<notin> archive_bytes initrd es"
    and path: "bytes_at (fs_mem (sys_fs s)) (data path) ps" "length_field path = of_nat (length ps)" "length ps < 2 ^ 31" "0 \<notin> set ps"
      "outside_buffer (sys_fs s) (data path) (length ps)" "covers name ps" "components (drop (length name) ps) = [n1]" "length n1 \<le> 99"
    and entry: "find_entry initrd 3 n1 es = Some (a, n, e)" "of_nat n \<noteq> (2 :: u32)" "length (e_contents e) < 2 ^ 31"
    and dev: "tty_inv (snd (sys_dev s))" "length nbuf = 21"
  shows "\<exists>fs. register_initrd ops initrd v mnt (sys_fs s) = Inr fs \<and>
    (\<forall>sc buf k. may_traverse (fs\<lparr>fs_sched := sc\<rparr>) \<and> free_lock (fs\<lparr>fs_sched := sc\<rparr>) root \<and> kmem_alloc_pages K4 (kst sc) = Inr (buf, k) \<and>
      (\<forall>b. in_range buf 4096 b \<longrightarrow> b \<notin> archive_bytes initrd es) \<longrightarrow>
      (\<exists>s'. show_splash ops nbuf path (s\<lparr>sys_fs := fs\<lparr>fs_sched := sc\<rparr>\<rparr>) = Inr s' \<and>
        colored_term (snd (sys_dev s')) = fold term_event (map Print (take 4096 (e_contents e))) (colored_term (snd (sys_dev s))) \<and>
        serial_sent (snd (sys_dev s')) = serial_sent (snd (sys_dev s)) \<and>
        inodes (sys_fs s') = splash_inodes root x (fresh_node v root (of_nat n) a e n1 (inodes (sys_fs s) x)) (inodes fs) \<and>
        i_rc (inodes fs root) = i_rc (inodes (sys_fs s) root) \<and> fs_objs (sys_fs s') = o7 \<and>
        fs_sched (sys_fs s') = (mutex_new x sc)\<lparr>kst := k\<rparr>))"
proof -
  obtain fs where fs: "register_initrd ops initrd v mnt (sys_fs s) = Inr fs" "first_mount_point fs = Some q" "ring (mount_links fs) q []"
      "mount_named (mounts fs q) name" "m_fs (mounts fs q) = v" "m_archive (vfss fs v) = initrd" "root_inode (vfss fs v) = 2"
      "\<forall>k. ht_lookup 256 k (vfs_table (vfss fs v)) = Inr (if k = 2 then Some root else None)"
      "\<forall>k. ht_obj (vfs_table (vfss fs v)) (ArrLink (hash 256 k)) = (if hash 256 k = hash 256 2 then Some root else None)"
      "inodes fs x = inodes (sys_fs s) x" "i_num (inodes fs root) = 2" "owner_fs (inodes fs root) = v"
      "i_rc (inodes fs root) = i_rc (inodes (sys_fs s) root)"
      "fs_mem fs = fs_mem (sys_fs s)" "fs_objs fs = o3" "path_buf fs = path_buf (sys_fs s)"
    using register_initrd_spec [OF boot objs(1-3), of initrd v] objs(5) by blast
  let ?i = "fresh_node v root (of_nat n) a e n1 (inodes (sys_fs s) x)" and ?cs = "e_contents e"
  have cs: "bytes_at (fs_mem fs) (a + 512) ?cs" "in_range (a + 512) (length ?cs) b \<Longrightarrow> b \<in> archive_bytes initrd es" for b
    using find_entry_contents [OF entry(1) arch(1)] fs(14) by simp_all
  have i: "m_contents ?i = a + 512" "m_contents_length ?i = of_nat (length ?cs)" "i_rc ?i = i_rc (inodes (sys_fs s) x)"
    by (simp_all add: fresh_node_def)
  obtain T where T: "ht_insert 256 (obj_new ops LinkObj) (of_nat n) (Some x) ((vfs_table (vfss fs v))\<lparr>ht_alloc := o4\<rparr>) = Inr T" "ht_alloc T = o5"
    by (rule insert_beside_root [of "(vfs_table (vfss fs v))\<lparr>ht_alloc := o4\<rparr>" "of_nat n" root "obj_new ops LinkObj" l o5 x])
      (use fs(9) link in simp_all)
  have "\<exists>s'. show_splash ops nbuf path (s\<lparr>sys_fs := fs\<lparr>fs_sched := sc\<rparr>\<rparr>) = Inr s' \<and>
      colored_term (snd (sys_dev s')) = fold term_event (map Print (take 4096 ?cs)) (colored_term (snd (sys_dev s))) \<and>
      serial_sent (snd (sys_dev s')) = serial_sent (snd (sys_dev s)) \<and> inodes (sys_fs s') = splash_inodes root x ?i (inodes fs) \<and>
      fs_objs (sys_fs s') = o7 \<and> fs_sched (sys_fs s') = (mutex_new x sc)\<lparr>kst := k\<rparr>"
    if sc: "may_traverse (fs\<lparr>fs_sched := sc\<rparr>)" "free_lock (fs\<lparr>fs_sched := sc\<rparr>) root" and buf: "kmem_alloc_pages K4 (kst sc) = Inr (buf, k)"
      "\<forall>b. in_range buf 4096 b \<longrightarrow> b \<notin> archive_bytes initrd es" for sc buf k
  proof -
    let ?t = "fs\<lparr>fs_sched := sc\<rparr>"
    have mnt: "mounted ?t v es"
      using arch fs by (simp add: mounted_def)
    have "covers name ps" "ps \<noteq> []" "length name \<le> length ps"
      using boot(4) path(6) by (auto simp: covers_def)
    moreover from this(1) obtain len where "best_mount path q ?t = Some (Some q, of_nat len)" "len = length name"
      using best_mount_spec [of ?t q "[]" "\<lambda>q. name" path ps] path(1-3) fs by (auto split: option.splits)
    ultimately have below: "path_below ?t path ps (length name) v"
      using fs path(1-5) by (simp add: path_below_def outside_buffer_def)
    obtain m where m: "traverse ops path ?t = Inr ((E_ok, Some x), (enter_inode v x root ?i T ?t)\<lparr>fs_mem := m\<rparr>)" "same_but_buffer ?t m"
      using traverse_fresh [OF sc(1) mnt below, of root n1 a n e ops x o4 T] fs sc(2) objs(4,5) counts(1,2) path(7,8) entry(1,2) T(1) by auto
    have "m b = fs_mem fs b" if "in_range (a + 512) (length ?cs) b" for b
      using m(2) cs(2) [OF that] arch(2) fs(16) by (auto simp: same_but_buffer_def)
    then have "bytes_at m (a + 512) ?cs"
      using bytes_at_frame [OF cs(1), of m] entry(3) by simp
    then show ?thesis
      using show_splash_fresh [of ops path "s\<lparr>sys_fs := ?t\<rparr>" x m v root ?i T f o6 o7 ?cs buf k nbuf] m(1) sc(1) i counts(3,4) T(2)
        fobj entry(3) buf cs(2) dev by (auto simp: may_traverse_def)
  qed
  with fs(1,13) show ?thesis
    by blast
qed

text \<open>A round of the background task prints its line and leaves the preemption counter as it was.\<close>

lemma second_task_round_prints:
  assumes "tty_inv (snd (sys_dev s))" and "length nbuf = 21" and "preempt_counter (sys_kst s) \<noteq> - 1"
  shows "\<exists>d. second_task_round nbuf s = Inr (s\<lparr>sys_dev := (fst (sys_dev s), d)\<rparr>) \<and> tty_inv d \<and>
    colored_term d = fold term_event (map Print (literal ''hello world!'' @ [10])) (colored_term (snd (sys_dev s)))"
proof -
  let ?items = "text_items (literal ''hello world!'') @ [LChar 10]" and ?s1 = "set_kst (preempt_up (sys_kst s)) s"
  have s1: "tty_inv (snd (sys_dev ?s1))" "sys_dev ?s1 = sys_dev s" "sys_kst ?s1 = preempt_up (sys_kst s)" "LInt 0x80000000 \<notin> set ?items"
    using assms(1) by (simp_all add: set_kst_def set_sched_def sys_kst_def)
  obtain outs where outs: "list_all2 (shows_item (fs_mem (sys_fs ?s1))) ?items outs"
      "tty.shown (log_write tty_driver (fs_mem (sys_fs ?s1)) nbuf ?items (snd (sys_dev ?s1))) (concat outs) (snd (sys_dev ?s1))"
    using tty.write_shown [OF s1(1) assms(2) s1(4)] by blast
  then have "shows_items (fs_mem (sys_fs ?s1)) ?items (concat outs)"
    unfolding shows_items_def by blast
  then have "concat outs = map Print (literal ''hello world!'' @ [10])"
    unfolding shows_items_text by auto
  then obtain d where d: "log_write tty_driver (fs_mem (sys_fs ?s1)) nbuf ?items (snd (sys_dev ?s1)) = Inr d" "tty_inv d"
      "colored_term d = fold term_event (map Print (literal ''hello world!'' @ [10])) (colored_term (snd (sys_dev s)))"
    using outs(2) s1(2) by (auto simp: tty.shown_def console_view_def fold_on_screen on_screen_def)
  have "preempt_down (preempt_up (sys_kst s)) = Inr (sys_kst s)"
    using assms(3) by (rule preempt_up_down_id)
  moreover have "set_kst (sys_kst s) (?s1\<lparr>sys_dev := dd\<rparr>) = s\<lparr>sys_dev := dd\<rparr>" for dd
    by (simp add: set_kst_def set_sched_def sys_kst_def)
  moreover have "sys_kst (?s1\<lparr>sys_dev := dd\<rparr>) = preempt_up (sys_kst s)" for dd
    by (simp add: set_kst_def set_sched_def sys_kst_def)
  ultimately show ?thesis
    using d s1(2) by (intro exI [of _ d]) (simp add: second_task_round_def sys_write_def)
qed

subsection \<open>The example\<close>

text \<open>The system with a file system.\<close>

definition demo_system :: "u32 fs_state \<Rightarrow> u32 system" where
  "demo_system fs = \<lparr>sys_fs = fs, sys_dev = (0, blank_screen),
     sys_intr = \<lparr>idt_arr = [], interrupt_handler_table = [], idtr_size = 0, idtr_address = 0\<rparr>, sys_gdt = ([], 0, 0), sys_ram = 0\<rparr>"

lemma demo_page:
  "\<exists>buf k. kmem_alloc_pages K4 (kst two_tasks) = Inr (buf, k) \<and> 0x2000 \<le> unat buf \<and> unat buf + 4096 \<le> 2 ^ 32"
proof -
  have inv: "kmem_inv 1 (kst two_tasks)" and bl: "buds (kst two_tasks) = buds boot_state"
    using boot_inv by (simp_all add: two_tasks_def kmem_inv_def)
  have "blocks (buds (kst two_tasks) (Bud 0)) K4 \<noteq> {}"
    unfolding bl by (simp add: boot_blocks nblocks_def lessThan_empty_iff)
  then obtain p m j i k where out: "kmem_alloc_pages K4 (kst two_tasks) = Inr (p, k)" "hands_out K4 1 (kst two_tasks) p m j i k"
    using kmem_alloc_pages_spec [OF inv, of K4] by (metis less_numeral_extra(1))
  note h = hands_outD [OF out(2)]
  have m: "m * 2 ^ 19 \<le> 2 ^ 20" "j * 2 ^ 19 + 2 ^ 19 \<le> m * 2 ^ 19"
    using h(2,5) by auto
  have "unat p = unat (buddy_array k) + unat (buddy_array_size k) + block_offset j K4 i"
    using unat_block_addr [OF h(4,2,3)] h(1,11) by simp
  moreover have "unat (buddy_array k) + unat (buddy_array_size k) = 0xC0208000"
    by (simp add: h(7,8)) (simp add: two_tasks_def boot_state_def)
  moreover have "block_offset j K4 i + 4096 \<le> m * 2 ^ 19"
    using block_shift_bound [OF h(3)] m(2) by (simp add: block_offset_def block_shift_def)
  ultimately show ?thesis
    using out(1) m(1) by auto
qed

text \<open>A system with nothing mounted, and with the pattern of new pages where the reference counts will be.\<close>

definition fresh_fs :: "u32 fs_state" where
  "fresh_fs = (demo_fs 0x41414141 None)\<lparr>first_mount_point := None, inodes := \<lambda>q. inodes (demo_fs 0x41414141 None) 0x900\<rparr>"

theorem show_splash_prints_witness:
  "\<exists>fs s'. register_initrd demo_ops 0x1000 5 \<lparr>data = 0x4FFF, length_field = 1\<rparr> fresh_fs = Inr fs \<and>
    show_splash demo_ops (replicate 21 0) \<lparr>data = 0x4FFF, length_field = 2\<rparr> ((demo_system fresh_fs)\<lparr>sys_fs := fs\<lparr>fs_sched := two_tasks\<rparr>\<rparr>) = Inr s' \<and>
    colored_term (snd (sys_dev s')) = fold term_event [Print 104, Print 105] (colored_term blank_screen) \<and>
    i_rc (inodes (sys_fs s') 0x8100) = 0x41414142 \<and> i_rc (inodes (sys_fs s') 0x8300) = 0x41414140"
proof -
  let ?e = "\<lparr>e_name = [97, 47, 98], e_contents = [104, 105]\<rparr>" and ?s = "demo_system fresh_fs"
  let ?run = "\<lambda>fs sc. show_splash demo_ops (replicate 21 0) \<lparr>data = 0x4FFF, length_field = 2\<rparr> (?s\<lparr>sys_fs := fs\<lparr>fs_sched := sc\<rparr>\<rparr>)"
  let ?ready = "\<lambda>fs sc buf k. may_traverse (fs\<lparr>fs_sched := sc\<rparr>) \<and> free_lock (fs\<lparr>fs_sched := sc\<rparr>) 0x8100 \<and>
      kmem_alloc_pages K4 (kst sc) = Inr (buf, k) \<and> (\<forall>b. in_range buf 4096 b \<longrightarrow> b \<notin> archive_bytes 0x1000 demo_files)"
  let ?shown = "\<lambda>fs sc k s'.
      colored_term (snd (sys_dev s')) = fold term_event (map Print (take 4096 (e_contents ?e))) (colored_term (snd (sys_dev ?s))) \<and>
      serial_sent (snd (sys_dev s')) = serial_sent (snd (sys_dev ?s)) \<and>
      inodes (sys_fs s') = splash_inodes 0x8100 0x8300 (fresh_node 5 0x8100 (of_nat 3) 0x1000 ?e [97] (inodes (sys_fs ?s) 0x8300)) (inodes fs) \<and>
      i_rc (inodes fs 0x8100) = i_rc (inodes (sys_fs ?s) 0x8100) \<and> fs_objs (sys_fs s') = 0x8500 \<and>
      fs_sched (sys_fs s') = (mutex_new 0x8300 sc)\<lparr>kst := k\<rparr>"
  obtain buf k where buf: "kmem_alloc_pages K4 (kst two_tasks) = Inr (buf, k)" "0x2000 \<le> unat buf" "unat buf + 4096 \<le> 2 ^ 32"
    using demo_page by blast
  have fs: "first_mount_point fresh_fs = None" "fs_mem fresh_fs = demo" "fs_objs fresh_fs = 0x8000" "i_rc (inodes fresh_fs y) = 0x41414141"
      "path_buf fresh_fs = 0x7000" "sys_fs (demo_system fresh_fs) = fresh_fs" "snd (sys_dev (demo_system fresh_fs)) = blank_screen" for y
    by (simp_all add: fresh_fs_def demo_fs_def demo_system_def)
  have mem: "bytes_at demo 0x4FFF [47]" "bytes_at demo 0x4FFF [47, 97]"
    by (simp_all add: demo_mem_def)
  have apart: "\<forall>a. in_range 0x7000 400 a \<longrightarrow> a \<notin> archive_bytes 0x1000 demo_files" "outside_buffer fresh_fs 0x4FFF (length [47, 97 :: u8])"
    using demo_mounted [of "0x41414141" None] demo_outside [of "0x4FFF" "Suc (Suc 0)" "0x41414141" None]
    by (simp_all add: mounted_def demo_vfss outside_buffer_def fresh_fs_def) (simp add: demo_fs_def)
  have page: "\<forall>b. in_range buf 4096 b \<longrightarrow> b \<notin> archive_bytes 0x1000 demo_files"
    using ranges_apart [of "0x1000" 1024 _ buf 4096] ranges_apart [of "0x1400" 512 _ buf 4096] buf(2,3) by (auto simp: entry_size_def)
  have sc: "may_traverse (fs\<lparr>fs_sched := two_tasks\<rparr>)" "free_lock (fs\<lparr>fs_sched := two_tasks\<rparr>) q" for fs :: "u32 fs_state" and q
    using demo_may_traverse [of 0 None] demo_fs_quiet(3) [of 0 None q]
    by (simp_all add: may_traverse_def quiet_def free_lock_def) (simp_all add: demo_fs_def)
  have "covers [47] [47, 97]" "hash 256 3 \<noteq> hash 256 2"
    by (simp_all add: covers_def demo_hash)
  moreover have "obj_new demo_ops TableObj 0x8000 = Inr (0x8000, 0x8100)" "obj_new demo_ops InodeObj 0x8100 = Inr (0x8100, 0x8200)"
      "obj_new demo_ops MountObj 0x8200 = Inr (0x8200, 0x8300)" "obj_new demo_ops InodeObj 0x8300 = Inr (0x8300, 0x8400)"
      "obj_new demo_ops FileObj 0x8400 = Inr (0x8400, 0x8500)" "obj_del demo_ops FileObj 0x8400 0x8500 = Inr 0x8500"
    by (simp_all add: demo_ops_def)
  ultimately have "\<exists>fs. register_initrd demo_ops 0x1000 5 \<lparr>data = 0x4FFF, length_field = 1\<rparr> (sys_fs (demo_system fresh_fs)) = Inr fs \<and>
      (\<forall>sc buf k. ?ready fs sc buf k \<longrightarrow> (\<exists>s'. ?run fs sc = Inr s' \<and> ?shown fs sc k s'))"
    using fs mem apart demo_archive demo_find(2) demo_components blank_screen_inv
    by (intro show_splash_prints [where name = "[47]" and ps = "[47, 97]" and tbl = "0x8000" and ?o1.0 = "0x8100" and ?o2.0 = "0x8200" and q = "0x8200"
        and ?o3.0 = "0x8300" and ?o4.0 = "0x8400" and ?o5.0 = "0x8400" and f = "0x8400" and ?o6.0 = "0x8500" and l = 0])
      simp_all
  then obtain fs where r: "register_initrd demo_ops 0x1000 5 \<lparr>data = 0x4FFF, length_field = 1\<rparr> (sys_fs ?s) = Inr fs"
      and runs: "\<forall>sc buf k. ?ready fs sc buf k \<longrightarrow> (\<exists>s'. ?run fs sc = Inr s' \<and> ?shown fs sc k s')"
    by (elim exE conjE) (rule that)
  have "?ready fs two_tasks buf k"
    using sc buf(1) page by (intro conjI)
  with runs obtain s' where s': "?run fs two_tasks = Inr s'" "?shown fs two_tasks k s'"
    by meson
  have "colored_term (snd (sys_dev s')) = fold term_event [Print 104, Print 105] (colored_term blank_screen)"
    using s'(2) fs(7) by simp
  moreover have "i_rc (inodes (sys_fs s') 0x8100) = 0x41414142" "i_rc (inodes (sys_fs s') 0x8300) = 0x41414140"
    using s'(2) fs(4,6) by (simp_all add: splash_inodes_def fresh_node_def)
  ultimately show ?thesis
    using r s'(1) fs(6) by (intro exI [of _ fs] exI [of _ s'] conjI) simp_all
qed

end
