(* ===== verification/Rng.thy ===== *)
theory Rng
  imports Kernel_Prelude "HOL-Library.Signed_Division"
begin

section \<open>Random numbers\<close>

text \<open>
  \<^verbatim>\<open>kernel/util/rng.hpp\<close>: the linear congruential generator over \<^verbatim>\<open>unsigned long\<close>, which has 32 bits here, and the seed
  that the compiler computes from the text of the time of the build. The characters of the text are signed.
\<close>

definition lcg :: "u32 \<Rightarrow> u32" where
  "lcg state = state * 1103515245 + 12345"

text \<open>The result and the new state.\<close>

definition rand :: "u32 \<Rightarrow> u32 \<times> u32" where
  "rand state = (let state' = lcg state in ((state' div 65536) mod 32768, state'))"

definition seed_tmstmp :: "u8 list \<Rightarrow> u32" where
  "seed_tmstmp s =
    (let n = length s;
         c = (\<lambda>i. sint (s ! i));
         res1 = fold (\<lambda>i res. res + of_int (c i)) [0..<n] 1337;
         res2 = fold (\<lambda>i res. res - of_int (c i * c (n - i - 1))) [0..<n] res1;
         res3 = fold (\<lambda>i res. if c (i + 1) \<noteq> 0 then res + of_int (c i sdiv c (i + 1)) else res) [0..<n - 1] res2
     in lcg res3)"

text \<open>\<open>time\<close> is the literal \<^verbatim>\<open>__TIME__\<close> with its final zero.\<close>

definition compile_time_seed :: "u8 list \<Rightarrow> u32" where
  "compile_time_seed time = seed_tmstmp time"

text \<open>The states and the numbers of \<open>n\<close> calls.\<close>

fun rand_calls :: "nat \<Rightarrow> u32 \<Rightarrow> u32 list \<times> u32" where
  "rand_calls 0 state = ([], state)"
| "rand_calls (Suc n) state =
    (let (r, state1) = rand state; (rs, state2) = rand_calls n state1 in (r # rs, state2))"

subsection \<open>The period\<close>

definition geo :: "nat \<Rightarrow> nat \<Rightarrow> nat" where
  "geo a n = (\<Sum>i < n. a ^ i)"

lemma geo_Suc: "geo a (Suc n) = geo a n + a ^ n"
  by (simp add: geo_def)

lemma geo_double: "geo a (2 * m) = geo a m * (1 + a ^ m)"
proof -
  have "geo a (m + k) = geo a m + a ^ m * geo a k" for k
    by (induction k) (simp_all add: geo_def power_add algebra_simps)
  from this [of m] show ?thesis
    unfolding mult_2 by (simp only: distrib_left mult.commute mult_1_right)
qed

lemma geo_odd: "odd a \<Longrightarrow> odd (geo a n) \<longleftrightarrow> odd n"
  by (induction n) (simp_all add: geo_Suc, simp add: geo_def)

lemma power_mod_4: "a mod 4 = 1 \<Longrightarrow> a ^ m mod 4 = (1 :: nat)"
  by (induction m) (simp_all add: mod_mult_eq [symmetric])

lemma mod_4_odd: "x mod 4 = (2 :: nat) \<Longrightarrow> \<exists>h. x = h * 2 \<and> odd h"
  by (intro exI [of _ "x div 2"]) presburger

lemma even_of_nat_word: "even (unat w) \<longleftrightarrow> even w" for w :: u32
proof -
  have "odd (uint w) \<longleftrightarrow> odd w"
    unfolding bit_0 [symmetric] bit_uint_iff by simp
  then show ?thesis
    unfolding unat_eq_nat_uint by (simp only: even_nat_iff uint_nonnegative simp_thms)
qed

text \<open>A sum of powers of a number of the form \<open>4 q + 1\<close> has exactly the factors 2 that its length has.\<close>

lemma geo_dvd:
  assumes "a mod 4 = 1"
  shows "2 ^ k dvd geo a n \<longleftrightarrow> 2 ^ k dvd n"
proof (induction k arbitrary: n)
  case (Suc k)
  have a: "odd a"
    using assms by presburger
  show ?case
  proof (cases "even n")
    case True
    then obtain m where m: "n = 2 * m"
      by blast
    have "(1 + a ^ m) mod 4 = 2"
      using power_mod_4 [OF assms, of m] by presburger
    then obtain h where h: "1 + a ^ m = h * 2" "odd h"
      using mod_4_odd by blast
    have "geo a n = (geo a m * h) * 2"
      unfolding m geo_double h(1) by (simp only: ac_simps)
    then have "2 ^ Suc k dvd geo a n \<longleftrightarrow> 2 ^ k * 2 dvd (geo a m * h) * 2"
      by (simp only: power_Suc2)
    also have "\<dots> \<longleftrightarrow> 2 ^ k dvd geo a m * h"
      by (rule dvd_times_right_cancel_iff) simp
    also have "\<dots> \<longleftrightarrow> 2 ^ k dvd geo a m"
      using h(2) by (intro coprime_dvd_mult_left_iff) simp
    finally show ?thesis
      using Suc.IH m by simp
  next
    case False
    then have "odd (geo a n)"
      using geo_odd [OF a] by simp
    moreover have "2 ^ Suc k dvd x \<Longrightarrow> even x" for x :: nat
      unfolding power_Suc by (rule dvd_mult_left)
    ultimately show ?thesis
      using False by blast
  qed
qed simp

lemma lcg_iter: "(lcg ^^ n) x = x + of_nat (geo 1103515245 n) * (1103515244 * x + 12345)"
proof (induction n)
  case 0
  then show ?case
    by (simp add: geo_def)
next
  case (Suc n)
  have g: "geo 1103515245 (Suc n) = 1 + 1103515245 * geo 1103515245 n"
    unfolding geo_def by (subst sum.lessThan_Suc_shift) (simp add: sum_distrib_left)
  have "(lcg ^^ Suc n) x = (x + of_nat (geo 1103515245 n) * (1103515244 * x + 12345)) * 1103515245 + 12345"
    unfolding funpow.simps o_apply Suc.IH lcg_def [of "x + _"] ..
  also have "\<dots> = x + (1 + 1103515245 * of_nat (geo 1103515245 n)) * (1103515244 * x + 12345)"
    by (simp add: algebra_simps)
  also have "1 + 1103515245 * of_nat (geo 1103515245 n) = (of_nat (geo 1103515245 (Suc n)) :: u32)"
    by (simp add: g)
  finally show ?case .
qed

lemma word_plus_same: "x + y = x \<longleftrightarrow> y = 0" for x y :: u32
  by simp

lemma lcg_cycle: "(lcg ^^ n) x = x \<longleftrightarrow> 2 ^ 32 dvd n"
proof -
  let ?w = "1103515244 * x + 12345"
  have "even (1103515244 * x)"
    by simp
  then have "odd ?w"
    by simp
  then have odd: "odd (unat ?w)"
    by (metis even_of_nat_word)
  have "(lcg ^^ n) x = x \<longleftrightarrow> of_nat (geo 1103515245 n) * ?w = 0"
    unfolding lcg_iter by (rule word_plus_same)
  also have "\<dots> \<longleftrightarrow> (of_nat (geo 1103515245 n * unat ?w) :: u32) = 0"
    by simp
  also have "\<dots> \<longleftrightarrow> 2 ^ 32 dvd geo 1103515245 n * unat ?w"
    by (simp only: word_of_nat_eq_0_iff) simp
  also have "\<dots> \<longleftrightarrow> 2 ^ 32 dvd geo 1103515245 n"
    by (rule coprime_dvd_mult_left_iff) (simp only: coprime_power_left_iff coprime_left_2_iff_odd odd simp_thms)
  also have "\<dots> \<longleftrightarrow> 2 ^ 32 dvd n"
    by (rule geo_dvd) simp
  finally show ?thesis .
qed


lemma lcg_inj: "inj_on (\<lambda>n. (lcg ^^ n) x) {..<2 ^ 32}"
proof (rule linorder_inj_onI')
  fix i j :: nat
  assume "i \<in> {..<2 ^ 32}" "j \<in> {..<2 ^ 32}" "i < j"
  then have "\<not> 2 ^ 32 dvd j - i"
    by (intro nat_dvd_not_less) auto
  then have "(lcg ^^ (j - i)) ((lcg ^^ i) x) \<noteq> (lcg ^^ i) x"
    unfolding lcg_cycle .
  then show "(lcg ^^ i) x \<noteq> (lcg ^^ j) x"
    using \<open>i < j\<close> funpow_add [of "j - i" i lcg] by simp
qed

lemma lcg_bij: "bij_betw (\<lambda>n. (lcg ^^ n) x) {..<2 ^ 32} UNIV"
proof -
  have "card ((\<lambda>n. (lcg ^^ n) x) ` {..<2 ^ 32}) = CARD(u32)"
    using lcg_inj [of x] by (simp only: card_image card_lessThan card_word) simp
  then have "(\<lambda>n. (lcg ^^ n) x) ` {..<2 ^ 32} = UNIV"
    by (intro card_subset_eq finite_class.finite_UNIV subset_UNIV)
  with lcg_inj show ?thesis
    unfolding bij_betw_def by blast
qed

subsection \<open>The numbers\<close>

lemma rand_calls_eq:
  "rand_calls n x = (map (\<lambda>i. ((lcg ^^ Suc i) x div 65536) mod 32768) [0..<n], (lcg ^^ n) x)"
proof (induction n arbitrary: x)
  case (Suc n)
  have "map f [0..<Suc n] = f 0 # map (\<lambda>i. f (Suc i)) [0..<n]" for f :: "nat \<Rightarrow> u32"
    by (simp add: upt_conv_Cons map_Suc_upt [symmetric] del: upt_Suc)
  then show ?case
    by (simp add: Suc.IH rand_def Let_def funpow_swap1 del: upt_Suc)
qed simp

lemma card_numbers:
  assumes "v < 32768"
  shows "card {y :: u32. (y div 65536) mod 32768 = v} = 2 ^ 17"
proof -
  let ?f = "\<lambda>(h, l). of_nat (h * 2 ^ 31 + unat v * 2 ^ 16 + l) :: u32"
  let ?D = "{..<2} \<times> {..<2 ^ 16 :: nat}"
  have v: "unat v < 32768"
    using assms by (simp add: word_less_nat_alt)
  have un: "unat (?f (h, l)) = h * 2 ^ 31 + unat v * 2 ^ 16 + l" if "h < 2" "l < 2 ^ 16" for h l
  proof -
    have "h * 2 ^ 31 + unat v * 2 ^ 16 + l < 2 ^ 32"
      using v that by simp
    then show ?thesis
      unfolding prod.case by (intro unat_of_nat_32) simp
  qed
  have eq: "(y div 65536) mod 32768 = v \<longleftrightarrow> unat y div 65536 mod 32768 = unat v" for y :: u32
    by (simp add: word_unat_eq_iff unat_div unat_mod)
  have "inj_on ?f ?D"
  proof (rule inj_onI)
    fix z z' :: "nat \<times> nat"
    assume *: "z \<in> ?D" "z' \<in> ?D" "?f z = ?f z'"
    obtain h l h' l' where z: "z = (h, l)" "z' = (h', l')"
      by (cases z, cases z')
    have d: "h < 2" "l < 2 ^ 16" "h' < 2" "l' < 2 ^ 16"
      using *(1,2) z by simp_all
    have "h * 2 ^ 31 + unat v * 2 ^ 16 + l = h' * 2 ^ 31 + unat v * 2 ^ 16 + l'"
      using *(3) un [OF d(1,2)] un [OF d(3,4)] unfolding z by (simp only:)
    then have "h * 2147483648 + l = h' * 2147483648 + l'" "l < 65536" "l' < 65536"
      using d by simp_all
    then show "z = z'"
      unfolding z by (cases h h' rule: linorder_cases) simp_all
  qed
  moreover have "{y :: u32. (y div 65536) mod 32768 = v} = ?f ` ?D"
  proof (intro equalityI subsetI)
    fix y :: u32
    assume "y \<in> {y. (y div 65536) mod 32768 = v}"
    then have y: "unat y div 65536 mod 32768 = unat v"
      by (simp only: mem_Collect_eq eq)
    have "unat y < 4294967296"
      using unat_less_32 [of y] by simp
    then have h: "unat y div 2147483648 < 2"
      by (simp add: div_less_iff_less_mult)
    have "unat y div 65536 = unat y div 2147483648 * 32768 + unat v"
      using div_mult_mod_eq [of "unat y div 65536" 32768] y div_mult2_eq [of "unat y" 65536 32768] by simp
    then have "unat y = unat y div 2147483648 * 2147483648 + unat v * 65536 + unat y mod 65536"
      using div_mult_mod_eq [of "unat y" 65536] by simp
    then have "?f (unat y div 2147483648, unat y mod 65536) = of_nat (unat y)"
      unfolding prod.case by (intro arg_cong [where f = of_nat]) simp
    then have "y = ?f (unat y div 2147483648, unat y mod 65536)"
      by (simp only: of_nat_unat ucast_id)
    with h show "y \<in> ?f ` ?D"
      by (intro image_eqI [of _ _ "(unat y div 2147483648, unat y mod 65536)"]) simp_all
  next
    fix y
    assume "y \<in> ?f ` ?D"
    then obtain h l where *: "h < 2" "l < 2 ^ 16" "y = ?f (h, l)"
      by auto
    then have "unat y = h * 2147483648 + unat v * 65536 + l"
      using un [of h l] by simp
    then have "unat y = l + (h * 32768 + unat v) * 65536" "l < 65536"
      using *(2) by simp_all
    then have "unat y div 65536 = h * 32768 + unat v"
      by simp
    then have "unat y div 65536 mod 32768 = unat v"
      using v by simp
    then show "y \<in> {y. (y div 65536) mod 32768 = v}"
      by (simp only: mem_Collect_eq eq)
  qed
  ultimately show ?thesis
    by (simp add: card_image)
qed

lemma funpow_shift: "(f ^^ Suc n) x = (f ^^ n) (f x)"
  by (simp only: funpow_Suc_right o_apply)

lemma count_map_upt: "count_list (map f [0..<n]) v = card {i \<in> {..<n}. f i = v}"
proof -
  have "{i. i < n \<and> v = f i} = {i \<in> {..<n}. f i = v}"
    by auto
  then show ?thesis
    by (simp add: count_list_eq_length_filter length_filter_conv_card cong: conj_cong)
qed

lemma card_bij:
  assumes "bij_betw f A UNIV"
  shows "card {n \<in> A. P (f n)} = card {y. P y}"
proof -
  have "f ` {n \<in> A. P (f n)} = {y. P y}"
    using bij_betw_imp_surj_on [OF assms] by (auto simp: set_eq_iff image_iff) metis
  moreover have "inj_on f {n \<in> A. P (f n)}"
    using bij_betw_imp_inj_on [OF assms] by (rule inj_on_subset) blast
  ultimately show ?thesis
    using card_image by fastforce
qed

text \<open>C40: The generator has the full period: after \<open>n\<close> calls the state is the one at the start exactly when \<open>n\<close> is a
  multiple of \<open>2 ^ 32\<close>, whatever the seed. All numbers are less than 32768, and in a period each of them comes up
  equally often, \<open>2 ^ 17\<close> times.\<close>

theorem rand_full_period:
  "(snd (rand_calls n state) = state \<longleftrightarrow> 2 ^ 32 dvd n) \<and>
    count_list (fst (rand_calls (2 ^ 32) state)) v = (if v < 32768 then 2 ^ 17 else 0)"
proof (rule conjI)
  show "snd (rand_calls n state) = state \<longleftrightarrow> 2 ^ 32 dvd n"
    unfolding rand_calls_eq snd_conv by (rule lcg_cycle)
  let ?out = "\<lambda>y :: u32. (y div 65536) mod 32768"
  have "count_list (fst (rand_calls (2 ^ 32) state)) v = card {n \<in> {..<2 ^ 32}. ?out ((lcg ^^ n) (lcg state)) = v}"
    unfolding rand_calls_eq fst_conv funpow_shift by (rule count_map_upt)
  also have "\<dots> = card {y. ?out y = v}"
    by (rule card_bij [OF lcg_bij])
  also have "\<dots> = (if v < 32768 then 2 ^ 17 else 0)"
  proof (cases "v < 32768")
    case True
    then show ?thesis
      by (simp only: card_numbers if_True)
  next
    case False
    have "?out y \<noteq> v" for y
      using False word_mod_less_divisor [of 32768 "y div 65536"] by auto
    with False show ?thesis
      by simp
  qed
  finally show "count_list (fst (rand_calls (2 ^ 32) state)) v = (if v < 32768 then 2 ^ 17 else 0)" .
qed

end
