(* ===== verification/Self_Tests.thy ===== *)
theory Self_Tests
  imports Panic Rbtree_Props Hashtable Refcount Rng
begin

section \<open>The self tests of the kernel\<close>

text \<open>
  \<^verbatim>\<open>kernel/tests/test_data_structures.cpp\<close>: a test build of the kernel runs each data structure through operations and
  asserts what they return. Here the tests are programs over the models of the data structures, so that they ask whether
  these models behave as the authors of the code expect, and they pass: the last one, which works on random numbers, for
  every seed. What the code writes in memory of its own (the nodes, the sorted array) are lists and functions.
\<close>

subsection \<open>Bit sets, rings and reference counts\<close>

text \<open>\<^verbatim>\<open>TINY_INFO\<close> in a test.\<close>

definition test_info :: "(nat \<Rightarrow> u8) \<Rightarrow> u8 list \<Rightarrow> u8 list \<Rightarrow> log_item list \<Rightarrow> u32 \<Rightarrow> char list \<Rightarrow> console \<Rightarrow> console res" where
  "test_info status buf file_name items line func =
    tiny_log status buf (literal ''[INFO] '') items file_name line (literal func)"

definition bitset_round_set :: "nat \<Rightarrow> bitset \<Rightarrow> bitset res" where
  "bitset_round_set i b =
    kbind (bitset_has_bit (of_nat i) b) (\<lambda>has.
    kbind (kassert (has = False)) (\<lambda>_. if i mod 3 = 0 then bitset_set_bit (of_nat i) b else Inr b))"

definition bitset_round_clear :: "nat \<Rightarrow> bitset \<Rightarrow> bitset res" where
  "bitset_round_clear i b =
    kbind (bitset_has_bit (of_nat i) b) (\<lambda>has. kbind (kassert (has = True)) (\<lambda>_. bitset_clear_bit (of_nat i) b))"

definition test_bitset :: "(nat \<Rightarrow> u8) \<Rightarrow> u8 list \<Rightarrow> u8 list \<Rightarrow> console \<Rightarrow> console res" where
  "test_bitset status buf file_name c =
    kbind (kfold bitset_round_set [0..<70] (bitset_new 70)) (\<lambda>bits.
    kbind (kfold bitset_round_clear (map (\<lambda>k. 3 * k) [0..<24]) bits) (\<lambda>bits.
    kbind (bitset_set_bit 50 (bitset_new 70)) (\<lambda>bits2.
    let bits3 = bits2
    in kbind (bitset_has_bit 50 bits2) (\<lambda>has. kbind (kassert has) (\<lambda>_.
       kbind (bitset_has_bit 50 bits3) (\<lambda>has. kbind (kassert has) (\<lambda>_.
       let bits2 = bits
       in kbind (bitset_has_bit 50 bits2) (\<lambda>has. kbind (kassert (\<not> has)) (\<lambda>_.
          kbind (bitset_has_bit 50 bits3) (\<lambda>has. kbind (kassert has) (\<lambda>_.
          test_info status buf file_name (text_items (literal ''Pass test_bitset'')) 42 ''void test_bitset()'' c)))))))))))"

datatype ring_node = NodeA | NodeB | NodeC | NodeD | NodeE

fun m_x :: "ring_node \<Rightarrow> int" where
  "m_x NodeA = 7"
| "m_x NodeB = 4"
| "m_x NodeC = 2"
| "m_x NodeD = 3"
| "m_x NodeE = 1"

text \<open>A range-based loop whose body can fail.\<close>

definition ring_each :: "'p node_links \<Rightarrow> ('p \<Rightarrow> 'b \<Rightarrow> 'b res) \<Rightarrow> 'p \<Rightarrow> 'b \<Rightarrow> 'b res" where
  "ring_each L body this b =
    (case ring_fold L (\<lambda>p r. kbind r (body p)) this (Inr b) of None \<Rightarrow> Inl OutOfFuel | Some r \<Rightarrow> r)"

definition test_ring :: "ring_node node_links \<Rightarrow> ring_node node_links" where
  "test_ring L =
    (let L = fold node_new [NodeA, NodeB, NodeC, NodeD, NodeE] L;
         L = add_after_self NodeA NodeB L;
         L = add_after_self NodeA NodeC L;
         L = add_after_self NodeC NodeD L;
         L = add_after_self NodeB NodeE L
     in unlink NodeA L)"

definition test_linked_list :: "ring_node node_links \<Rightarrow> (nat \<Rightarrow> u8) \<Rightarrow> u8 list \<Rightarrow> u8 list \<Rightarrow> console \<Rightarrow> console res" where
  "test_linked_list L0 status buf file_name c =
    (let L = test_ring L0
     in kbind (ring_each L (\<lambda>p i. kbind (kassert (m_x p = i)) (\<lambda>_. Inr (i + 1))) NodeE 1) (\<lambda>i.
        kbind (kassert (i = 5)) (\<lambda>_.
        kbind (ring_each L (\<lambda>p i. kbind (kassert (m_x p = 7)) (\<lambda>_. Inr 1)) NodeA i) (\<lambda>i.
        kbind (kassert (i = (1 :: int))) (\<lambda>_.
        test_info status buf file_name (text_items (literal ''Pass test_linked_list'')) 73 ''void test_linked_list()'' c)))))"

definition release_expect :: "bool \<Rightarrow> int \<Rightarrow> int res" where
  "release_expect last_ref rc = kbind (release_ref rc) (\<lambda>(r, rc'). kbind (kassert (r = last_ref)) (\<lambda>_. Inr rc'))"

definition test_refcount :: "(nat \<Rightarrow> u8) \<Rightarrow> u8 list \<Rightarrow> u8 list \<Rightarrow> console \<Rightarrow> console res" where
  "test_refcount status buf file_name c =
    kbind (take_ref refcount_new) (\<lambda>a.
    kbind (take_ref a) (\<lambda>a.
    kbind (release_expect False a) (\<lambda>a.
    kbind (take_ref a) (\<lambda>a.
    kbind (release_expect False a) (\<lambda>a.
    kbind (release_expect False a) (\<lambda>a.
    kbind (release_expect True a) (\<lambda>_.
    test_info status buf file_name (text_items (literal ''Pass test_refcount'')) 102 ''void test_refcount()'' c)))))))"

subsection \<open>Hash tables\<close>

text \<open>
  \<open>links\<close> is the slab allocator of links of all hash tables, whose pages are those of the kernel; \<open>ht\<close> is the table on
  the stack, before its constructor.
\<close>

definition test_hash_table :: "kstate slab_allocator hashtable \<Rightarrow> (nat \<Rightarrow> u8) \<Rightarrow> u8 list \<Rightarrow> u8 list \<Rightarrow>
    kstate slab_allocator \<times> console \<Rightarrow> (kstate slab_allocator \<times> console) res" where
  "test_hash_table ht status buf file_name s =
    (case s of (lnks, c) \<Rightarrow>
      let t0 = hashtable_new 2 (ht\<lparr>ht_alloc := lnks\<lparr>page_state := con_kst c\<rparr>\<rparr>)
      in kbind (ht_lookup 2 1337 t0) (\<lambda>r. kbind (kassert (r = None)) (\<lambda>_.
         kbind (ht_insert 2 link_alloc 123 (Some 456) t0) (\<lambda>t1.
         kbind (ht_insert 2 link_alloc 22 (Some 22) t1) (\<lambda>t2.
         kbind (ht_insert 2 link_alloc 13 (Some 37) t2) (\<lambda>t3.
         kbind (ht_lookup 2 13 t3) (\<lambda>r. kbind (kassert (r = Some 37)) (\<lambda>_.
         kbind (ht_remove 2 (slab_free 16) 22 t3) (\<lambda>(_, t4).
         kbind (ht_lookup 2 22 t4) (\<lambda>r. kbind (kassert (r = None)) (\<lambda>_.
         kbind (ht_lookup 2 123 t4) (\<lambda>r. kbind (kassert (r = Some 456)) (\<lambda>_.
         kbind (test_info status buf file_name (text_items (literal ''Pass test_hash_table'')) 88 ''void test_hash_table()''
             (c\<lparr>con_kst := page_state (ht_alloc t4)\<rparr>)) (\<lambda>c1. Inr (ht_alloc t4, c1)))))))))))))))"

subsection \<open>The search tree\<close>

text \<open>The nodes are the elements of an array and named by their indices; \<open>x\<close> is the field of \<open>my_node\<close>.\<close>

definition left_node_for_tests :: "'p rbtree \<Rightarrow> 'p \<Rightarrow> 'p option" where
  "left_node_for_tests H p = m_children H p LEFT"

definition right_node_for_tests :: "'p rbtree \<Rightarrow> 'p \<Rightarrow> 'p option" where
  "right_node_for_tests H p = m_children H p RIGHT"

definition parent_node_for_tests :: "'p rbtree \<Rightarrow> 'p \<Rightarrow> 'p option" where
  "parent_node_for_tests H p = m_parent H p"

definition get_root_for_tests :: "'p rbtree \<Rightarrow> 'p option" where
  "get_root_for_tests H = m_root H"

text \<open>Checking one subtree after the recursive call for it.\<close>

definition child_sane :: "'p rbtree \<Rightarrow> 'p \<Rightarrow> 'p \<Rightarrow> unit res \<Rightarrow> unit res" where
  "child_sane H this child r = kbind r (\<lambda>_. kassert (parent_node_for_tests H child = Some this))"

partial_function (option) treesanity :: "('p \<Rightarrow> int) \<Rightarrow> 'p rbtree \<Rightarrow> 'p \<Rightarrow> int \<Rightarrow> int \<Rightarrow> unit res option" where
  "treesanity x H this lo hi =
    Option.bind (case left_node_for_tests H this of
        None \<Rightarrow> Some (Inr ())
      | Some l \<Rightarrow> Option.bind (treesanity x H l lo (x this - 1)) (\<lambda>r. Some (child_sane H this l r))) (\<lambda>r.
    case r of
      Inl e \<Rightarrow> Some (Inl e)
    | Inr _ \<Rightarrow>
        Option.bind (case right_node_for_tests H this of
            None \<Rightarrow> Some (Inr ())
          | Some q \<Rightarrow> Option.bind (treesanity x H q (x this + 1) hi) (\<lambda>r. Some (child_sane H this q r))) (\<lambda>r.
        Some (kbind r (\<lambda>_. kassert (lo \<le> x this \<and> x this \<le> hi)))))"

text \<open>The state of the test: the tree, the sorted array with the number of its elements in use, the seed, and the console.\<close>

record tree_test =
  tt_tree :: "nat rbtree"
  sorted_arr :: "int list"
  set_size :: nat
  tt_seed :: u32
  tt_con :: console

definition set_max_size :: nat where
  "set_max_size = 4096 div 4"

definition next_rand :: "nat \<Rightarrow> tree_test \<Rightarrow> nat \<times> tree_test" where
  "next_rand m s = (let (r, seed) = rand (tt_seed s) in (unat r mod m, s\<lparr>tt_seed := seed\<rparr>))"

text \<open>The values in order, and a value that is not among them.\<close>

definition check_order :: "tree_test \<Rightarrow> unit res" where
  "check_order s =
    kbind (rb_first (tt_tree s)) (\<lambda>n.
    kbind (kfold (\<lambda>j n. case n of
        None \<Rightarrow> Inl NullDeref
      | Some p \<Rightarrow> kbind (array_read (sorted_arr s) j) (\<lambda>v. kbind (kassert (int p = v)) (\<lambda>_. next_node p (tt_tree s))))
      [0..<set_size s] n) (\<lambda>_. Inr ()))"

definition check_absent :: "int \<Rightarrow> tree_test \<Rightarrow> unit res" where
  "check_absent v s = kfold (\<lambda>j _. kbind (array_read (sorted_arr s) j) (\<lambda>w. kassert (w \<noteq> v))) [0..<set_size s] ()"

fun find_sorted :: "(int \<Rightarrow> bool) \<Rightarrow> int list \<Rightarrow> nat list \<Rightarrow> nat option res" where
  "find_sorted P arr [] = Inr None"
| "find_sorted P arr (j # js) = kbind (array_read arr j) (\<lambda>v. if P v then Inr (Some j) else find_sorted P arr js)"

definition search_round :: "tree_test \<Rightarrow> tree_test res" where
  "search_round s =
    (let (value, s1) = next_rand set_max_size s
     in kbind (rb_find (my_node_compare int) (int value) (tt_tree s1)) (\<lambda>n.
        case n of
          None \<Rightarrow> kbind (check_absent (int value) s1) (\<lambda>_. Inr s1)
        | Some p \<Rightarrow>
            kbind (kassert (p = value)) (\<lambda>_.
            kbind (find_sorted (\<lambda>v. v = int value) (sorted_arr s1) [0..<set_size s1]) (\<lambda>found.
            kbind (kassert (found \<noteq> None)) (\<lambda>_. Inr s1)))))"

definition remove_round :: "(log_item list \<Rightarrow> u32 \<Rightarrow> console \<Rightarrow> console res) \<Rightarrow> tree_test \<Rightarrow> tree_test res" where
  "remove_round info s =
    (let (index, s1) = next_rand (set_size s) s
     in kbind (array_read (sorted_arr s1) index) (\<lambda>value.
        kbind (info (text_items (literal ''remove random value '') @ [LInt (of_int value)]) 192 (tt_con s1)) (\<lambda>c.
        kbind (rb_find (my_node_compare int) value (tt_tree s1)) (\<lambda>n.
        kbind (kassert (map_option int n = Some value)) (\<lambda>_.
        kbind (case n of None \<Rightarrow> Inl NullDeref | Some p \<Rightarrow> rb_remove p (tt_tree s1)) (\<lambda>H.
        let size = set_size s1 - 1
        in kbind (kfold (\<lambda>j arr. kbind (array_read arr (j + 1)) (\<lambda>v. array_write arr j v)) [index..<size] (sorted_arr s1)) (\<lambda>arr.
           Inr (s1\<lparr>tt_tree := H, sorted_arr := arr, set_size := size, tt_con := c\<rparr>))))))))"

definition insert_round :: "(log_item list \<Rightarrow> u32 \<Rightarrow> console \<Rightarrow> console res) \<Rightarrow> tree_test \<Rightarrow> tree_test res" where
  "insert_round info s =
    (let (value, s1) = next_rand set_max_size s; n = set_size s1
     in kbind (rb_insert (my_node_compare int) (int value) value (tt_tree s1)) (\<lambda>(inserted, H).
        kbind (info (text_items (literal ''insert '') @ [LInt (of_nat value)]) 207 (tt_con s1)) (\<lambda>c.
        kbind (find_sorted (\<lambda>v. int value \<le> v) (sorted_arr s1) [0..<n]) (\<lambda>found.
        let j = (case found of None \<Rightarrow> n | Some j \<Rightarrow> j); s2 = s1\<lparr>tt_tree := H, tt_con := c\<rparr>
        in kbind (if j = n then Inr True else kbind (array_read (sorted_arr s1) j) (\<lambda>v. Inr (v \<noteq> int value))) (\<lambda>absent.
           if absent then
             kbind (kassert inserted) (\<lambda>_.
             kbind (kfold (\<lambda>k arr. kbind (array_read arr (k - 1)) (\<lambda>v. array_write arr k v)) (rev [Suc j..<Suc n]) (sorted_arr s1)) (\<lambda>arr.
             kbind (array_write arr j (int value)) (\<lambda>arr.
             Inr (s2\<lparr>sorted_arr := arr, set_size := n + 1\<rparr>))))
           else kbind (kassert (\<not> inserted)) (\<lambda>_. Inr s2))))))"

definition tree_round :: "(log_item list \<Rightarrow> u32 \<Rightarrow> console \<Rightarrow> console res) \<Rightarrow> tree_test \<Rightarrow> tree_test res" where
  "tree_round info s0 =
    (let (choice, s) = next_rand 100 s0
     in kbind (case get_root_for_tests (tt_tree s) of
          None \<Rightarrow> kassert (set_size s = 0)
        | Some p \<Rightarrow>
            kbind (loop (treesanity int (tt_tree s) p (- 2147483648) 2147483647)) (\<lambda>r.
            kbind r (\<lambda>_. check_order s))) (\<lambda>_.
        if choice < 60 then search_round s
        else if choice < 75 \<and> set_size s \<noteq> 0 then remove_round info s
        else if choice < 100 \<and> set_size s \<noteq> set_max_size then insert_round info s
        else Inr s))"

text \<open>
  \<open>arr\<close> are the contents of the page of the sorted array, and the nodes are in the block of 32 KiB; the pages are not freed.
\<close>

definition test_rbtree :: "nat rbtree \<Rightarrow> int list \<Rightarrow> (nat \<Rightarrow> u8) \<Rightarrow> u8 list \<Rightarrow> u8 list \<Rightarrow> u32 \<times> console \<Rightarrow> (u32 \<times> console) res" where
  "test_rbtree H0 arr status buf file_name s =
    (case s of (seed, c) \<Rightarrow>
      kbind (kmem_alloc_pages K4 (con_kst c)) (\<lambda>(_, k1).
      kbind (kmem_alloc_pages K32 k1) (\<lambda>(_, k2).
      let info = (\<lambda>items line. test_info status buf file_name items line ''void test_rbtree()'');
          s0 = \<lparr>tt_tree = rbtree_new H0, sorted_arr = arr, set_size = 0, tt_seed = seed, tt_con = c\<lparr>con_kst := k2\<rparr>\<rparr>
      in kbind (kfold (\<lambda>_ s. kfold (\<lambda>_. tree_round info) [0..<200] (s\<lparr>tt_tree := rb_reset (tt_tree s), set_size := 0\<rparr>)) [0..<10] s0) (\<lambda>s.
         Inr (tt_seed s, tt_con s)))))"

subsection \<open>All tests\<close>

text \<open>\<open>time\<close> is the time of the build; the tests run after the boot of the kernel, with memory that other code has used.\<close>

definition test_data_structures :: "u8 list \<Rightarrow> ring_node node_links \<Rightarrow> kstate slab_allocator hashtable \<Rightarrow> nat rbtree \<Rightarrow> int list \<Rightarrow>
    (nat \<Rightarrow> u8) \<Rightarrow> u8 list \<Rightarrow> u8 list \<Rightarrow> kstate slab_allocator \<Rightarrow> console \<Rightarrow> console res" where
  "test_data_structures time L ht H0 arr status buf file_name lnks c =
    (let seed = compile_time_seed time
     in kbind (test_bitset status buf file_name c) (\<lambda>c.
        kbind (test_linked_list L status buf file_name c) (\<lambda>c.
        kbind (test_hash_table ht status buf file_name (lnks, c)) (\<lambda>(lnks, c).
        kbind (test_refcount status buf file_name c) (\<lambda>c.
        kbind (test_rbtree H0 arr status buf file_name (seed, c)) (\<lambda>(seed, c).
        serial_write status buf (text_items (literal ''TEST_SUCCESS'')) (cli c)))))))"

end
