(* ===== verification/Self_Tests_Pass.thy ===== *)
theory Self_Tests_Pass
  imports Self_Tests
begin

section \<open>The self tests pass\<close>

text \<open>
  The small tests of \<open>Self_Tests\<close> run to their end by the lemmas on the bit set, the rings and the counter; the test of the
  hash table by those on the table and its slab allocator; the test of the search tree keeps an invariant: the tree and the
  sorted array hold the same numbers (\<open>mirrors\<close>).
\<close>

subsection \<open>The log of the tests\<close>

text \<open>What logging changes: the devices, of which the screen stays as it is.\<close>

definition logged :: "console \<Rightarrow> console \<Rightarrow> bool" where
  "logged c c' \<longleftrightarrow> con_kst c' = con_kst c \<and> tty_inv (snd (con_dev c')) \<and>
    colored_term (snd (con_dev c')) = colored_term (snd (con_dev c)) \<and>
    (\<exists>out. serial_sent (snd (con_dev c')) = serial_sent (snd (con_dev c)) @ out)"

lemma logged_refl: "tty_inv (snd (con_dev c)) \<Longrightarrow> logged c c"
  by (simp add: logged_def)

lemma logged_tty: "logged c c' \<Longrightarrow> tty_inv (snd (con_dev c'))"
  by (simp add: logged_def)

lemma logged_trans: "logged a b \<Longrightarrow> logged b c \<Longrightarrow> logged a c"
  by (auto simp: logged_def)

lemma test_info_logged:
  assumes "line_ready status" and "length buf = 21" and "tty_inv (snd (con_dev c))"
    and "LInt 0x80000000 \<notin> set items" and "line \<noteq> 0x80000000"
  shows "\<exists>c'. test_info status buf file_name items line func c = Inr c' \<and> logged c c'"
  using tiny_log_sends [OF assms(1,3,2,4,5), of "literal ''[INFO] ''" file_name "literal func"]
  by (fastforce simp: test_info_def logged_def)

subsection \<open>The small tests pass\<close>

lemma upt_prefix:
  assumes "us @ x # vs = [m..<n]"
  shows "us = [m..<x]" and "x < n"
proof -
  have l: "length us < n - m"
    using arg_cong [OF assms, of length] by simp
  have "us = take (length us) [m..<n]"
    using assms [symmetric] by simp
  moreover have "x = [m..<n] ! length us"
    using assms [symmetric] by simp
  ultimately show "us = [m..<x]" "x < n"
    using l by (simp_all add: take_upt)
qed

lemma bitset_rounds_set:
  "\<exists>b. kfold bitset_round_set [0..<70] (bitset_new 70) = Inr b \<and> bitset_cap b = 96 \<and> bitset_elems b = {i. i < 70 \<and> i mod 3 = 0}"
proof -
  let ?I = "\<lambda>us b. bitset_cap b = 96 \<and> bitset_elems b = {i \<in> set us. i mod 3 = 0}"
  have "\<exists>b. kfold bitset_round_set [0..<70] (bitset_new 70) = Inr b \<and> ?I [0..<70] b"
  proof (rule kfold_invariant)
    show "?I [] (bitset_new 70)"
      by (simp add: bitset_elems_new) (simp add: bitset_cap_def bitset_new_def int_count_def)
    fix us i b
    assume I: "?I us b" and "\<exists>vs. us @ i # vs = [0..<70]"
    then have i: "us = [0..<i]" "i < 70"
      using upt_prefix [of us i _ 0 70] by auto
    then have u: "unat (of_nat i :: u32) = i" "unat (of_nat i :: u32) < bitset_cap b"
      using I by (simp_all add: unat_of_nat_32)
    have "{k. k < Suc i \<and> k mod 3 = 0} = {k. k < i \<and> k mod 3 = 0} \<union> (if i mod 3 = 0 then {i} else {})"
      by (auto simp: less_Suc_eq)
    then show "\<exists>s'. bitset_round_set i b = Inr s' \<and> ?I (us @ [i]) s'"
      using bitset_set_bit_spec [OF u(2)] bitset_has_bit_spec [OF u(2)] I u(1) i
      by (auto simp: bitset_round_set_def less_Suc_eq)
  qed
  then show ?thesis
    by auto
qed

lemma bitset_rounds_clear:
  assumes "distinct ks" and "set ks \<subseteq> bitset_elems b" and "bitset_cap b < 2 ^ 32"
  shows "\<exists>b'. kfold bitset_round_clear ks b = Inr b' \<and> bitset_cap b' = bitset_cap b \<and> bitset_elems b' = bitset_elems b - set ks"
  using assms
proof (induction ks arbitrary: b)
  case (Cons i ks)
  have "i < bitset_cap b"
    using Cons.prems(2) bitset_elems_cap [of b] by auto
  then have u: "unat (of_nat i :: u32) = i" "unat (of_nat i :: u32) < bitset_cap b"
    using Cons.prems(3) by (simp_all add: unat_of_nat_32)
  obtain b1 where b1: "bitset_clear_bit (of_nat i) b = Inr b1" "bitset_elems b1 = bitset_elems b - {i}" "bitset_cap b1 = bitset_cap b"
    using bitset_clear_bit_spec [OF u(2)] u(1) by auto
  have "bitset_round_clear i b = Inr b1"
    using bitset_has_bit_spec [OF u(2)] Cons.prems(2) u(1) b1(1) by (simp add: bitset_round_clear_def)
  moreover have "set ks \<subseteq> bitset_elems b1"
    using Cons.prems b1(2) by auto
  moreover have "bitset_elems b - {i} - set ks = bitset_elems b - set (i # ks)"
    by auto
  ultimately show ?case
    using Cons.IH [of b1] Cons.prems b1(2,3) by simp
qed simp

lemma third_indices: "distinct (map (\<lambda>k. 3 * k) [0..<24] :: nat list)" "set (map (\<lambda>k. 3 * k) [0..<24]) = {i :: nat. i < 70 \<and> i mod 3 = 0}"
proof -
  show "distinct (map (\<lambda>k. 3 * k) [0..<24] :: nat list)"
    by (simp only: distinct_map distinct_upt inj_on_def) simp
  have "i \<in> (\<lambda>k. 3 * k) ` {0..<24}" if "i < 70" "i mod 3 = 0" for i :: nat
    using that by (intro image_eqI [of _ _ "i div 3"]) (simp_all, presburger+)
  moreover have "3 * k < 70 \<and> 3 * k mod 3 = 0" if "k < 24" for k :: nat
    using that by presburger
  ultimately show "set (map (\<lambda>k. 3 * k) [0..<24]) = {i :: nat. i < 70 \<and> i mod 3 = 0}"
    unfolding set_map set_upt by auto
qed

lemma test_bitset_passes: "test_bitset status buf file_name c = test_info status buf file_name (text_items (literal ''Pass test_bitset'')) 42 ''void test_bitset()'' c"
proof -
  obtain b where b: "kfold bitset_round_set [0..<70] (bitset_new 70) = Inr b" "bitset_cap b = 96" "bitset_elems b = {i. i < 70 \<and> i mod 3 = 0}"
    using bitset_rounds_set by blast
  obtain b1 where b1: "kfold bitset_round_clear (map (\<lambda>k. 3 * k) [0..<24]) b = Inr b1" "bitset_cap b1 = 96" "bitset_elems b1 = {}"
    using bitset_rounds_clear [OF third_indices(1), of b] unfolding third_indices(2) b(2,3) by auto
  have "unat (50 :: u32) < bitset_cap (bitset_new 70)"
    by (simp add: bitset_cap_def bitset_new_def int_count_def)
  then obtain b2 where b2: "bitset_set_bit 50 (bitset_new 70) = Inr b2" "bitset_elems b2 = {50}" "bitset_cap b2 = bitset_cap (bitset_new 70)"
    using bitset_set_bit_spec [of 50 "bitset_new 70"] by (auto simp: bitset_elems_new)
  have "bitset_has_bit 50 b1 = Inr False" "bitset_has_bit 50 b2 = Inr True"
    using bitset_has_bit_spec [of 50 b1] bitset_has_bit_spec [of 50 b2] b1(2,3) b2(2,3)
    by (simp_all add: bitset_cap_def bitset_new_def int_count_def)
  then show ?thesis
    unfolding test_bitset_def b(1) b1(1) b2(1) kbind_Inr Let_def by simp
qed

lemma ring_each_eq:
  assumes "ring L this ps"
  shows "ring_each L body this b = kfold body (this # ps) b"
proof -
  have "fold (\<lambda>p r. kbind r (body p)) qs r = kbind r (kfold body qs)" for qs r
  proof (induction qs arbitrary: r)
    case Nil
    then show ?case by (cases r) simp_all
  next
    case (Cons q qs)
    then show ?case by (cases r) simp_all
  qed
  then show ?thesis
    using ring_fold_eq [OF assms, of "\<lambda>p r. kbind r (body p)" "Inr b"] by (simp add: ring_each_def)
qed

lemma test_ring_rings: "ring (test_ring L) NodeE [NodeC, NodeD, NodeB]" "ring (test_ring L) NodeA []"
  by (simp_all add: test_ring_def Let_def node_new_def add_after_self_def unlink_def ring_def)

lemma test_linked_list_passes: "test_linked_list L status buf file_name c =
    test_info status buf file_name (text_items (literal ''Pass test_linked_list'')) 73 ''void test_linked_list()'' c"
  by (simp add: test_linked_list_def Let_def ring_each_eq [OF test_ring_rings(1)] ring_each_eq [OF test_ring_rings(2)])

lemma test_refcount_passes: "test_refcount status buf file_name c =
    test_info status buf file_name (text_items (literal ''Pass test_refcount'')) 102 ''void test_refcount()'' c"
  by (simp add: test_refcount_def refcount_new_def take_ref_def release_expect_def release_ref_def)

subsection \<open>Room in the page allocator\<close>

text \<open>The free blocks of 32 KiB. An allocation of any size uses up at most one of them, and is ready while there is one.\<close>

definition big_blocks :: "kstate \<Rightarrow> (nat \<times> nat) set" where
  "big_blocks st = {(j, i). j < unat (buddy_array_pos st) \<and> i < 16 \<and>
    {j} \<times> pages_of K32 i \<subseteq> free_pages (unat (buddy_array_pos st)) (buds st)}"

lemma finite_big_blocks: "finite (big_blocks st)"
proof (rule finite_subset)
  show "big_blocks st \<subseteq> {..<unat (buddy_array_pos st)} \<times> {..<16}"
    by (auto simp: big_blocks_def)
qed simp

lemma pages_in_big: "i < nblocks l \<Longrightarrow> \<exists>b < 16. pages_of l i \<subseteq> pages_of K32 b \<and> (\<forall>c. c \<noteq> b \<longrightarrow> pages_of l i \<inter> pages_of K32 c = {})"
proof -
  assume i: "i < nblocks l"
  let ?b = "i * block_pages l div 8"
  have div: "p div 8 = ?b" if "p \<in> pages_of l i" for p
    using that by (cases l) (auto simp: pages_of_def block_pages_def)
  have K32: "p \<in> pages_of K32 c \<longleftrightarrow> p div 8 = c" for p c
    by (auto simp: pages_of_def block_pages_def)
  have "?b < 16"
    using i by (cases l) (auto simp: nblocks_def block_pages_def)
  with div K32 show ?thesis
    by (intro exI [of _ ?b]) auto
qed

lemma big_block_ready:
  assumes "kmem_valid st" and "b \<in> big_blocks st"
  shows "kmem_ready l st"
proof -
  let ?n = "unat (buddy_array_pos st)"
  obtain j i where b: "j < ?n" "i < 16" "{j} \<times> pages_of K32 i \<subseteq> free_pages ?n (buds st)"
    using assms(2) by (auto simp: big_blocks_def)
  let ?B = "blocks (buds st (Bud j))" and ?i = "i * (8 div block_pages l)"
  have "hier ?B"
    using assms(1) b(1) by (simp add: kmem_valid_def kmem_inv_def buddies_ok_def)
  moreover have "pages_of l ?i \<subseteq> pages_of K32 i"
    by (cases l) (auto simp: pages_of_def block_pages_def)
  moreover have "pages_of K32 i \<subseteq> ?B K4"
    using b(1,3) by (auto simp: free_pages_def)
  ultimately have "?i \<in> ?B l"
    using hier_pages by blast
  then show ?thesis
    using b(1) unfolding kmem_ready_def by blast
qed

lemma big_alloc:
  assumes "kmem_valid st" and "b \<in> big_blocks st"
  shows "\<exists>p st' c. kmem_alloc_pages l st = Inr (p, st') \<and> kmem_valid st' \<and> big_blocks st - {c} \<subseteq> big_blocks st'"
proof -
  let ?n = "unat (buddy_array_pos st)"
  have "free_pages ?n (buds st) \<noteq> {}"
    using assms(2) pages_of_nonempty [of K32] by (force simp: big_blocks_def)
  moreover obtain p m j i st' where r: "kmem_alloc_pages l st = Inr (p, st')" "hands_out l ?n st p m j i st'"
    using kmem_alloc_pages_spec [OF assms(1) [unfolded kmem_valid_def] big_block_ready [OF assms, of l, unfolded kmem_ready_def]] .
  moreover from r(2) calculation(1) have m: "m = ?n"
    by (auto simp: hands_out_def)
  ultimately have o: "kmem_inv ?n st'" "i < nblocks l" "free_pages ?n (buds st') = free_pages ?n (buds st) - {j} \<times> pages_of l i"
    using hands_outD(3,4,6) [OF r(2)] by simp_all
  have n: "unat (buddy_array_pos st') = ?n"
    using o(1) by (simp add: kmem_inv_def)
  obtain c where c: "\<forall>d. d \<noteq> c \<longrightarrow> pages_of l i \<inter> pages_of K32 d = {}"
    using pages_in_big [OF o(2)] by blast
  have "big_blocks st - {(j, c)} \<subseteq> big_blocks st'"
    using c unfolding big_blocks_def n o(3) by fast
  with r(1) o(1) n show ?thesis
    by (auto simp: kmem_valid_def)
qed

lemma card_big:
  assumes "big_blocks st - {c} \<subseteq> big_blocks st'" and "Suc n \<le> card (big_blocks st)"
  shows "n \<le> card (big_blocks st')"
proof -
  have "card (big_blocks st) - 1 \<le> card (big_blocks st - {c})"
    by (cases "c \<in> big_blocks st") (simp_all add: finite_big_blocks)
  also have "\<dots> \<le> card (big_blocks st')"
    by (rule card_mono [OF finite_big_blocks assms(1)])
  finally show ?thesis
    using assms(2) by simp
qed

lemma alloc_room:
  assumes "kmem_valid st" and "Suc n \<le> card (big_blocks st)"
  obtains p st' where "kmem_alloc_pages l st = Inr (p, st')" and "kmem_valid st'" and "n \<le> card (big_blocks st')"
proof -
  have "big_blocks st \<noteq> {}"
    using assms(2) by auto
  then obtain b where "b \<in> big_blocks st"
    by blast
  from big_alloc [OF assms(1) this, of l] card_big [OF _ assms(2)] that show thesis
    by blast
qed

subsection \<open>The test of the hash table passes\<close>

text \<open>The pages that the operations on a table take.\<close>

lemma slab_allocate_pages:
  assumes "slab_allocate N pages a = Inr (p, a')"
  shows "page_state a' = page_state a \<or> (\<exists>q. pages (page_state a) = Inr (q, page_state a'))"
  using assms by (auto simp: slab_allocate_def new_slab_def kbind_eq_Inr Let_def split: if_splits option.splits)

lemma slab_free_pages: "slab_free N p a = Inr a' \<Longrightarrow> page_state a' = page_state a"
  by (auto simp: slab_free_def kbind_eq_Inr Let_def split: if_splits)

lemma ht_insert_pages:
  assumes "ht_insert N link_alloc k v t = Inr t'"
  shows "page_state (ht_alloc t') = page_state (ht_alloc t) \<or>
    (\<exists>q. kmem_alloc_pages (slab_level 16) (page_state (ht_alloc t)) = Inr (q, page_state (ht_alloc t')))"
  using assms by (auto simp: ht_insert_def ht_link_new_def kbind_eq_Inr Let_def dest: slab_allocate_pages split: if_splits)

lemma free_link_pages: "free_link (slab_free 16) p t = Inr t' \<Longrightarrow> page_state (ht_alloc t') = page_state (ht_alloc t)"
  by (cases p) (auto simp: free_link_def kbind_eq_Inr dest!: slab_free_pages)

lemma ht_remove_pages:
  assumes "ht_remove N (slab_free 16) k t = Inr (b, t')"
  shows "page_state (ht_alloc t') = page_state (ht_alloc t)"
proof -
  obtain r where r: "lookup_internal k (hash N k) t = Inr r"
    using assms by (cases "lookup_internal k (hash N k) t") (simp_all add: ht_remove_def Let_def)
  show ?thesis
    using assms r by (cases r) (auto simp: ht_remove_def Let_def kbind_eq_Inr dest!: free_link_pages split: if_splits)
qed

lemma bucket_unused:
  assumes "ht_inv N L Q t" and "h < N" and "\<And>k. hash N k = h \<Longrightarrow> table N Q t k = None"
  shows "ht_obj t (ArrLink h) = None"
proof (rule ccontr)
  assume "ht_obj t (ArrLink h) \<noteq> None"
  then obtain es v where e: "entries t h (Q h) = (ht_key t (ArrLink h), v) # es"
    by (auto simp: entries_def)
  then have "hash N (ht_key t (ArrLink h)) = h"
    using assms(1,2) by (fastforce simp: ht_inv_def)
  with assms(3) [OF this] e show False
    by (simp add: table_def)
qed

lemma test_hashes: "hash 2 1337 = 1" "hash 2 123 = 1" "hash 2 22 = 0" "hash 2 13 = 1" "hash 2 k < 2"
  using hash_less [of 2 1 k] by (simp_all add: hash_def)

lemma table_three_keys:
  assumes "ht_inv 2 L Q t" and "link_owns (ht_alloc t) L" and "link_ready (ht_alloc t)" and "\<And>k. table 2 Q t k = None"
  shows "\<exists>t1 t2 t3 L' Q'. ht_insert 2 link_alloc 123 (Some 456) t = Inr t1 \<and> ht_insert 2 link_alloc 22 (Some 22) t1 = Inr t2 \<and>
    ht_insert 2 link_alloc 13 (Some 37) t2 = Inr t3 \<and> ht_inv 2 L' Q' t3 \<and> link_owns (ht_alloc t3) L' \<and>
    table 2 Q' t3 = [123 \<mapsto> 456, 22 \<mapsto> 22, 13 \<mapsto> 37] \<and> ht_alloc t2 = ht_alloc t"
proof -
  note h = test_hashes
  have "ht_obj t (ArrLink 1) = None"
    using bucket_unused [OF assms(1), of 1] assms(4) by simp
  then obtain t1 where t1: "ht_insert 2 link_alloc 123 (Some 456) t = Inr t1" "ht_inv 2 L Q t1" "ht_alloc t1 = ht_alloc t"
      "\<And>k. table 2 Q t1 k = (if k = 123 then Some 456 else None)"
    using links.insert_head [OF assms(1) h(5), of 123 456] h(2,5) assms(4) by auto
  have "ht_obj t1 (ArrLink 0) = None"
  proof (rule bucket_unused [OF t1(2)])
    show "table 2 Q t1 k = None" if "hash 2 k = 0" for k
      using that h(2) t1(4) by (cases "k = 123") simp_all
  qed simp
  then obtain t2 where t2: "ht_insert 2 link_alloc 22 (Some 22) t1 = Inr t2" "ht_inv 2 L Q t2" "ht_alloc t2 = ht_alloc t1"
      "\<And>k. table 2 Q t2 k = (if k = 22 then Some 22 else table 2 Q t1 k)"
    using links.insert_head [OF t1(2) h(5), of 22 22] h(3,5) by auto
  have "table 2 Q t2 13 = None"
    using t2(4) t1(4) by simp
  from links.insert_map [OF t2(2) h(5) this, of 37] assms(2,3) t1(3) t2(3) obtain L' Q' t3
    where t3: "ht_insert 2 link_alloc 13 (Some 37) t2 = Inr t3" "ht_inv 2 L' Q' t3" "link_owns (ht_alloc t3) L'"
      "table 2 Q' t3 = (table 2 Q t2)(13 \<mapsto> 37)"
    by auto
  have "table 2 Q t2 = [123 \<mapsto> 456, 22 \<mapsto> 22]"
    using t2(4) t1(4) by (intro ext) simp
  with t1 t2 t3 show ?thesis
    by auto
qed

lemma test_hash_table_passes:
  assumes "link_owns (lnks\<lparr>page_state := con_kst c\<rparr>) L" and "kmem_valid (con_kst c)" and "Suc n \<le> card (big_blocks (con_kst c))"
    and "line_ready status" and "length buf = 21" and "tty_inv (snd (con_dev c))"
  shows "\<exists>lnks' c' k. test_hash_table ht status buf file_name (lnks, c) = Inr (lnks', c') \<and> logged (c\<lparr>con_kst := k\<rparr>) c' \<and>
    kmem_valid k \<and> n \<le> card (big_blocks k)"
proof -
  let ?t = "hashtable_new 2 (ht\<lparr>ht_alloc := lnks\<lparr>page_state := con_kst c\<rparr>\<rparr>)" and ?Q = "\<lambda>h. [] :: u32 list"
  have alloc: "ht_alloc ?t = lnks\<lparr>page_state := con_kst c\<rparr>"
    by (simp add: hashtable_new_alloc)
  have "big_blocks (con_kst c) \<noteq> {}"
    using assms(3) by auto
  then have ready: "link_ready (ht_alloc ?t)"
    unfolding alloc using big_block_ready [OF assms(2)] by (auto simp: link_ready_def)
  have inv: "ht_inv 2 L ?Q ?t"
    by (rule hashtable_new_inv)
  have empty: "table 2 ?Q ?t k = None" for k
    using hashtable_new_links [OF test_hashes(5) [of k], of "ht\<lparr>ht_alloc := lnks\<lparr>page_state := con_kst c\<rparr>\<rparr>"] by (simp add: table_def entries_def)
  obtain t1 t2 t3 L' Q' where t: "ht_insert 2 link_alloc 123 (Some 456) ?t = Inr t1" "ht_insert 2 link_alloc 22 (Some 22) t1 = Inr t2"
      "ht_insert 2 link_alloc 13 (Some 37) t2 = Inr t3" "ht_inv 2 L' Q' t3" "link_owns (ht_alloc t3) L'"
      "table 2 Q' t3 = [123 \<mapsto> 456, 22 \<mapsto> 22, 13 \<mapsto> 37]" "ht_alloc t2 = ht_alloc ?t"
    using table_three_keys [OF inv _ ready empty] assms(1) alloc by auto
  obtain L'' Q'' t4 where t4: "ht_remove 2 (slab_free 16) 22 t3 = Inr (True, t4)" "ht_inv 2 L'' Q'' t4" "link_owns (ht_alloc t4) L''"
      "table 2 Q'' t4 = (table 2 Q' t3)(22 := None)"
    using links.remove_map [OF t(4) test_hashes(5) _ t(5), of 22 22] t(6) by auto
  have look: "ht_lookup 2 1337 ?t = Inr None" "ht_lookup 2 13 t3 = Inr (Some 37)" "ht_lookup 2 22 t4 = Inr None" "ht_lookup 2 123 t4 = Inr (Some 456)"
    using ht_lookup_spec [OF inv test_hashes(5)] ht_lookup_spec [OF t(4) test_hashes(5)] ht_lookup_spec [OF t4(2) test_hashes(5)] empty t(6) t4(4)
    by simp_all
  let ?k = "page_state (ht_alloc t4)"
  have k: "?k = con_kst c \<or> (\<exists>q. kmem_alloc_pages (slab_level 16) (con_kst c) = Inr (q, ?k))"
    using ht_insert_pages [OF t(3)] ht_remove_pages [OF t4(1)] t(7) alloc by simp
  have "kmem_valid ?k \<and> n \<le> card (big_blocks ?k)"
    using k alloc_room [OF assms(2,3), of "slab_level 16"] assms(2,3) by fastforce
  moreover obtain c' where "test_info status buf file_name (text_items (literal ''Pass test_hash_table'')) 88 ''void test_hash_table()'' (c\<lparr>con_kst := ?k\<rparr>) = Inr c'"
      "logged (c\<lparr>con_kst := ?k\<rparr>) c'"
    using test_info_logged [OF assms(4,5), where c = "c\<lparr>con_kst := ?k\<rparr>" and items = "text_items (literal ''Pass test_hash_table'')"
        and line = 88 and file_name = file_name and func = "''void test_hash_table()''"] assms(6) by auto
  ultimately show ?thesis
    using t(1-3) t4(1) look by (auto simp: test_hash_table_def)
qed

subsection \<open>The test of the search tree passes\<close>

lemma treesanity_tree:
  assumes "tree_at H q T" and "root_of T = Some p" and "ordered x T" and "\<forall>v \<in> set_tree T. lo \<le> x v \<and> x v \<le> hi"
  shows "treesanity x H p lo hi = Some (Inr ())"
  using assms
proof (induction T arbitrary: q p lo hi)
  case (Node l u r)
  have p: "u = p" and o: "ordered x l" "ordered x r" "\<forall>v \<in> set_tree l. x v \<le> x p - 1" "\<forall>v \<in> set_tree r. x p + 1 \<le> x v"
    using Node.prems(2,3) by (auto simp: ordered_Node)
  have H: "m_children H p LEFT = root_of l" "m_children H p RIGHT = root_of r" "tree_at H (Some p) l" "tree_at H (Some p) r"
    using Node.prems(1) p by simp_all
  have par: "m_parent H c = Some p" if "root_of t = Some c" "tree_at H (Some p) t" for t c
    using that by (cases t) auto
  have "lo \<le> x p" "x p \<le> hi"
    using Node.prems(4) p by auto
  moreover have "treesanity x H c lo (x p - 1) = Some (Inr ())" if "root_of l = Some c" for c
    using Node.IH(1) [OF H(3) that o(1)] Node.prems(4) o(3) by auto
  moreover have "treesanity x H c (x p + 1) hi = Some (Inr ())" if "root_of r = Some c" for c
    using Node.IH(2) [OF H(4) that o(2)] Node.prems(4) o(4) by auto
  ultimately show ?case
    using H par [of l] par [of r]
    by (subst treesanity.simps) (auto simp: left_node_for_tests_def right_node_for_tests_def parent_node_for_tests_def child_sane_def split: option.splits)
qed simp

text \<open>The numbers that the tree and the array hold.\<close>

definition mirrors :: "tree_test \<Rightarrow> nat list \<Rightarrow> bool" where
  "mirrors s vs \<longleftrightarrow> (\<exists>T. is_rbtree (tt_tree s) T \<and> inorder T = vs) \<and> sorted_wrt (<) vs \<and> (\<forall>v \<in> set vs. v < 1024) \<and>
    length (sorted_arr s) = 1024 \<and> set_size s = length vs \<and> (\<forall>j < length vs. sorted_arr s ! j = int (vs ! j))"

lemma mirrors_size: "mirrors s vs \<Longrightarrow> length vs \<le> 1024 \<and> distinct vs"
proof -
  assume m: "mirrors s vs"
  then have d: "distinct vs" and sub: "set vs \<subseteq> {..<1024}"
    using strict_sorted_iff [of vs] by (auto simp: mirrors_def)
  have "card (set vs) \<le> card {..<1024 :: nat}"
    by (rule card_mono [OF _ sub]) simp
  with d show ?thesis
    by (simp add: distinct_card)
qed

lemma mirrors_ordered: "sorted_wrt (<) (inorder T) \<longleftrightarrow> ordered int T"
  by (simp add: ordered_def sorted_wrt_map)

lemma mirrors_frame: "mirrors (s\<lparr>tt_seed := x, tt_con := c\<rparr>) vs = mirrors s vs" "mirrors (s\<lparr>tt_seed := x\<rparr>) vs = mirrors s vs"
  by (simp_all add: mirrors_def)

lemma kfold_unit: "(\<And>x. x \<in> set xs \<Longrightarrow> f x () = Inr ()) \<Longrightarrow> kfold f xs () = Inr ()"
  by (induction xs) simp_all

lemma find_sorted_eq: "(\<And>j. j \<in> set js \<Longrightarrow> j < length arr) \<Longrightarrow> find_sorted P arr js = Inr (find (\<lambda>j. P (arr ! j)) js)"
  by (induction js) simp_all

lemma next_in_nth:
  assumes "distinct xs" and "j < length xs"
  shows "next_in (xs ! j) xs = (if Suc j < length xs then Some (xs ! Suc j) else None)"
proof -
  have split: "xs = take j xs @ xs ! j # drop (Suc j) xs"
    using assms(2) by (rule id_take_nth_drop)
  show ?thesis
  proof (cases "Suc j < length xs")
    case True
    then have "xs = take j xs @ xs ! j # xs ! Suc j # drop (Suc (Suc j)) xs"
      using split Cons_nth_drop_Suc [of "Suc j" xs] by simp
    moreover have "xs ! j \<notin> set (take j xs)"
      using assms by (metis split distinct_append disjoint_iff list.set_intros(1))
    ultimately have "next_in (xs ! j) xs = Some (xs ! Suc j)"
      using next_in_mid by metis
    with True show ?thesis by simp
  next
    case False
    then have "xs ! j = last xs"
      using assms(2) by (metis Suc_lessI last_conv_nth length_greater_0_conv diff_Suc_1 order.strict_trans1 zero_le)
    with False next_in_last [OF assms(1)] assms(2) show ?thesis
      by (cases xs) simp_all
  qed
qed

lemma check_order_passes:
  assumes "mirrors s vs"
  shows "check_order s = Inr ()"
proof -
  obtain T where T: "is_rbtree (tt_tree s) T" "inorder T = vs"
    using assms by (auto simp: mirrors_def)
  have m: "length (sorted_arr s) = 1024" "set_size s = length vs" "\<forall>j < length vs. sorted_arr s ! j = int (vs ! j)"
    using assms by (simp_all add: mirrors_def)
  note size = mirrors_size [OF assms]
  let ?at = "\<lambda>j. if j < length vs then Some (vs ! j) else None"
  let ?body = "\<lambda>j n. case n of None \<Rightarrow> Inl NullDeref
      | Some p \<Rightarrow> kbind (array_read (sorted_arr s) j) (\<lambda>v. kbind (kassert (int p = v)) (\<lambda>_. next_node p (tt_tree s)))"
  have "\<exists>n. kfold ?body [0..<length vs] (?at 0) = Inr n \<and> n = ?at (length [0..<length vs])"
  proof (rule kfold_invariant)
    fix us x n
    assume n: "n = ?at (length us)" and "\<exists>ws. us @ x # ws = [0..<length vs]"
    then have x: "us = [0..<x]" "x < length vs"
      using upt_prefix [of us x _ 0 "length vs"] by auto
    have "vs ! x \<in> set_tree T"
      using x(2) T(2) nth_mem [of x vs] by (simp flip: set_inorder)
    then have "next_node (vs ! x) (tt_tree s) = Inr (?at (Suc x))"
      using prev_or_next_spec [OF T(1), of "vs ! x" RIGHT] next_in_nth [of vs x] size x(2)
      by (simp add: next_node_def neighbour_def T(2))
    then show "\<exists>s'. ?body x n = Inr s' \<and> s' = ?at (length (us @ [x]))"
      using n x m size by simp
  qed simp
  then obtain n where n: "kfold ?body [0..<length vs] (?at 0) = Inr n"
    by blast
  have "rb_first (tt_tree s) = Inr (?at 0)"
    using rb_ends(1) [OF T(1)] unfolding inorder_Nil [symmetric] T(2) by (cases vs) simp_all
  then show ?thesis
    by (simp only: check_order_def m(2) kbind_Inr n)
qed

lemma next_rand_cases:
  assumes "0 < m"
  obtains v x where "next_rand m s = (v, s\<lparr>tt_seed := x\<rparr>)" and "v < m"
proof (rule that)
  show "next_rand m s = (unat (fst (rand (tt_seed s))) mod m, s\<lparr>tt_seed := snd (rand (tt_seed s))\<rparr>)"
    by (simp add: next_rand_def case_prod_unfold Let_def)
qed (use assms in simp)

lemma mirrors_seed: "mirrors (s\<lparr>tt_seed := x\<rparr>) vs = mirrors s vs"
  by (simp add: mirrors_def)

lemma find_value:
  assumes "mirrors s vs"
  shows "rb_find (my_node_compare int) (int v) (tt_tree s) = Inr (if v \<in> set vs then Some v else None)"
proof -
  obtain T where T: "is_rbtree (tt_tree s) T" "inorder T = vs" "ordered int T"
    using assms mirrors_ordered by (auto simp: mirrors_def)
  have "find (\<lambda>p. int p = int v) vs = (if v \<in> set vs then Some v else None)"
    by (induction vs) auto
  with rb_find_correct [OF my_items.tree_items_axioms T(1,3), of "int v"] T(2) show ?thesis
    by simp
qed

lemma find_in_array:
  assumes "mirrors s vs"
  shows "find_sorted P (sorted_arr s) [0..<set_size s] = Inr (find (\<lambda>j. P (int (vs ! j))) [0..<length vs])"
proof -
  have m: "length (sorted_arr s) = 1024" "set_size s = length vs" "\<forall>j < length vs. sorted_arr s ! j = int (vs ! j)"
    using assms by (simp_all add: mirrors_def)
  have "find (\<lambda>j. P (sorted_arr s ! j)) [0..<length vs] = find (\<lambda>j. P (int (vs ! j))) [0..<length vs]"
    using m(3) by (intro find_cong) simp_all
  with m mirrors_size [OF assms] show ?thesis
    by (subst find_sorted_eq) auto
qed

lemma search_round_passes:
  assumes "mirrors s vs"
  shows "\<exists>x. search_round s = Inr (s\<lparr>tt_seed := x\<rparr>)"
proof -
  obtain v x where r: "next_rand set_max_size s = (v, s\<lparr>tt_seed := x\<rparr>)"
    by (rule next_rand_cases [of set_max_size s]) (simp_all add: set_max_size_def)
  let ?s = "s\<lparr>tt_seed := x\<rparr>"
  have m: "mirrors ?s vs"
    using assms by (simp add: mirrors_seed)
  show ?thesis
  proof (cases "v \<in> set vs")
    case True
    then obtain j where "j < length vs" "vs ! j = v"
      by (auto simp: in_set_conv_nth)
    then have "find (\<lambda>j. int (vs ! j) = int v) [0..<length vs] \<noteq> None"
      unfolding find_None_iff by auto
    then show ?thesis
      using find_value [OF m, of v] find_in_array [OF m, of "\<lambda>w. w = int v"] True r by (auto simp: search_round_def)
  next
    case False
    then have "vs ! j \<noteq> v" if "j < length vs" for j
      using that by (metis nth_mem)
    then have "check_absent (int v) ?s = Inr ()"
      using m mirrors_size [OF m] unfolding check_absent_def by (intro kfold_unit) (auto simp: mirrors_def)
    then show ?thesis
      using find_value [OF m, of v] False r by (intro exI [of _ x]) (simp add: search_round_def)
  qed
qed

text \<open>Moving a part of an array by one place.\<close>

lemma shift_down:
  assumes "i \<le> m" and "m < length arr"
  shows "\<exists>a. kfold (\<lambda>j a. kbind (array_read a (j + 1)) (\<lambda>v. array_write a j v)) [i..<m] arr = Inr a \<and> length a = length arr \<and>
    (\<forall>j < length arr. a ! j = (if i \<le> j \<and> j < m then arr ! (j + 1) else arr ! j))"
proof -
  let ?I = "\<lambda>us a. length a = length arr \<and> (\<forall>j < length arr. a ! j = (if j \<in> set us then arr ! (j + 1) else arr ! j))"
  have "\<exists>a. kfold (\<lambda>j a. kbind (array_read a (j + 1)) (\<lambda>v. array_write a j v)) [i..<m] arr = Inr a \<and> ?I [i..<m] a"
  proof (rule kfold_invariant)
    fix us j a
    assume I: "?I us a" and "\<exists>ws. us @ j # ws = [i..<m]"
    then have "us = [i..<j]" "j < m"
      using upt_prefix [of us j _ i m] by auto
    then show "\<exists>s'. kbind (array_read a (j + 1)) (\<lambda>v. array_write a j v) = Inr s' \<and> ?I (us @ [j]) s'"
      using I assms by (auto simp: nth_list_update)
  qed simp
  then show ?thesis by auto
qed

lemma shift_up:
  assumes "n < length arr"
  shows "\<exists>a. kfold (\<lambda>k a. kbind (array_read a (k - 1)) (\<lambda>v. array_write a k v)) (rev [Suc j..<Suc n]) arr = Inr a \<and> length a = length arr \<and>
    (\<forall>k < length arr. a ! k = (if j < k \<and> k \<le> n then arr ! (k - 1) else arr ! k))"
proof -
  let ?ks = "rev [Suc j..<Suc n]"
  let ?I = "\<lambda>us a. length a = length arr \<and> (\<forall>k < length arr. a ! k = (if k \<in> set us then arr ! (k - 1) else arr ! k))"
  have "\<exists>a. kfold (\<lambda>k a. kbind (array_read a (k - 1)) (\<lambda>v. array_write a k v)) ?ks arr = Inr a \<and> ?I ?ks a"
  proof (rule kfold_invariant)
    fix us k a
    assume I: "?I us a" and "\<exists>ws. us @ k # ws = ?ks"
    then obtain ws where ws: "us @ k # ws = ?ks"
      by blast
    have "sorted_wrt (>) ?ks"
      unfolding sorted_wrt_rev by (simp only: sorted_wrt_upt)
    then have above: "\<forall>u \<in> set us. k < u"
      unfolding ws [symmetric] by (simp add: sorted_wrt_append)
    have "k \<in> set ?ks"
      unfolding ws [symmetric] by simp
    then have "0 < k" "k < length arr"
      using assms by auto
    then show "\<exists>s'. kbind (array_read a (k - 1)) (\<lambda>v. array_write a k v) = Inr s' \<and> ?I (us @ [k]) s'"
      using I above by (auto simp: nth_list_update)
  qed simp
  then show ?thesis by auto
qed

definition quiet_info :: "(log_item list \<Rightarrow> u32 \<Rightarrow> console \<Rightarrow> console res) \<Rightarrow> bool" where
  "quiet_info info \<longleftrightarrow> (\<forall>items line c. tty_inv (snd (con_dev c)) \<longrightarrow> LInt 0x80000000 \<notin> set items \<longrightarrow> line \<noteq> 0x80000000 \<longrightarrow>
    (\<exists>c'. info items line c = Inr c' \<and> logged c c'))"

lemma small_int: "v < 1024 \<Longrightarrow> (of_nat v :: u32) \<noteq> 0x80000000"
  by (auto simp: word_unat_eq_iff unat_of_nat_32)

lemma quiet_value:
  assumes "quiet_info info" and "tty_inv (snd (con_dev c))" and "v < 1024" and "line \<noteq> 0x80000000"
  shows "\<exists>c'. info (text_items cs @ [LInt (of_nat v)]) line c = Inr c' \<and> logged c c'"
  using assms small_int [OF assms(3)] unfolding quiet_info_def by auto

lemma filter_nth:
  assumes "distinct xs" and "i < length xs"
  shows "filter (\<lambda>y. y \<noteq> xs ! i) xs = take i xs @ drop (Suc i) xs"
proof -
  have split: "xs = take i xs @ xs ! i # drop (Suc i) xs"
    using assms(2) by (rule id_take_nth_drop)
  then have "distinct (take i xs @ xs ! i # drop (Suc i) xs)"
    using assms(1) by simp
  then have "filter (\<lambda>y. y \<noteq> xs ! i) (take i xs) = take i xs" "filter (\<lambda>y. y \<noteq> xs ! i) (drop (Suc i) xs) = drop (Suc i) xs"
    by (auto simp: filter_id_conv)
  then show ?thesis
    by (subst (2) split) simp
qed

lemma remove_round_passes:
  assumes m: "mirrors s vs" and "vs \<noteq> []" and q: "quiet_info info" "tty_inv (snd (con_dev (tt_con s)))"
  shows "\<exists>s' vs'. remove_round info s = Inr s' \<and> mirrors s' vs' \<and> logged (tt_con s) (tt_con s')"
proof -
  note d = mirrors_size [OF m]
  have a: "length (sorted_arr s) = 1024" "set_size s = length vs" "\<forall>j < length vs. sorted_arr s ! j = int (vs ! j)" "\<forall>v \<in> set vs. v < 1024"
      "sorted_wrt (<) vs"
    using m by (simp_all add: mirrors_def)
  obtain i x where r: "next_rand (set_size s) s = (i, s\<lparr>tt_seed := x\<rparr>)" and i: "i < length vs"
    using next_rand_cases [of "set_size s" s] assms(2) a(2) by auto
  let ?s = "s\<lparr>tt_seed := x\<rparr>" and ?v = "vs ! i" and ?vs = "take i vs @ drop (Suc i) vs" and ?size = "length vs - 1"
  have m': "mirrors ?s vs"
    using m by (simp add: mirrors_seed)
  have v: "?v \<in> set vs" "?v < 1024"
    using i a(4) by simp_all
  obtain c where c: "info (text_items (literal ''remove random value '') @ [LInt (of_nat ?v)]) 192 (tt_con s) = Inr c" "logged (tt_con s) c"
    using quiet_value [OF q v(2), of 192] by auto
  obtain T where T: "is_rbtree (tt_tree s) T" "inorder T = vs"
    using m by (auto simp: mirrors_def)
  have "?v \<in> set_tree T"
    using v(1) T(2) by (simp flip: set_inorder)
  from remove_me_spec [OF T(1) this] obtain H T' where H: "rb_remove ?v (tt_tree s) = Inr H" "is_rbtree H T'" "inorder T' = ?vs"
    using filter_nth [of vs i] d i T(2) by (auto simp: rb_remove_def)
  have "i \<le> ?size" "?size < length (sorted_arr s)"
    using i conjunct1 [OF d] unfolding a(1) by linarith+
  from shift_down [OF this] obtain arr where arr: "kfold (\<lambda>j a. kbind (array_read a (j + 1)) (\<lambda>v. array_write a j v)) [i..<?size] (sorted_arr s) = Inr arr"
      "length arr = 1024" "\<forall>j < 1024. arr ! j = (if i \<le> j \<and> j < ?size then sorted_arr s ! (j + 1) else sorted_arr s ! j)"
    using a(1) by auto
  have val: "array_read (sorted_arr s) i = Inr (int ?v)"
    using a(1,3) i conjunct1 [OF d] by simp
  have "remove_round info s = Inr (?s\<lparr>tt_tree := H, sorted_arr := arr, set_size := ?size, tt_con := c\<rparr>)"
    using r c(1) find_value [OF m', of ?v] v(1) H(1) arr(1) val by (simp add: remove_round_def Let_def a(2))
  moreover have "mirrors (?s\<lparr>tt_tree := H, sorted_arr := arr, set_size := ?size, tt_con := c\<rparr>) ?vs"
  proof -
    have "sorted_wrt (<) ?vs"
      using sorted_wrt_filter [OF a(5)] filter_nth [OF conjunct2 [OF d] i] by metis
    moreover have "length ?vs = ?size"
      using i by simp
    moreover have "\<forall>v \<in> set ?vs. v < 1024"
      using a(4) by (auto dest: in_set_takeD in_set_dropD)
    moreover have "arr ! j = int (?vs ! j)" if "j < ?size" for j
      using that arr(3) a(3) d i by (auto simp: nth_append)
    ultimately show ?thesis
      using H(2,3) arr(2) unfolding mirrors_def by auto
  qed
  ultimately show ?thesis
    using c(2) by auto
qed

lemma find_first_above:
  fixes us ws :: "nat list"
  assumes "\<forall>u \<in> set us. u < v" and "\<forall>w \<in> set ws. v \<le> w"
  shows "find (\<lambda>j. int v \<le> int ((us @ ws) ! j)) [0..<length (us @ ws)] = (if ws = [] then None else Some (length us))"
proof -
  have none: "find (\<lambda>j. int v \<le> int ((us @ ws) ! j)) [0..<length us] = None"
    using assms(1) by (auto simp: find_None_iff nth_append) (meson nth_mem not_le)
  have "[0..<length (us @ ws)] = [0..<length us] @ [length us..<length us + length ws]"
    using upt_add_eq_append [of 0 "length us" "length ws"] by simp
  moreover have "find P (xs @ ys) = (case find P xs of None \<Rightarrow> find P ys | Some y \<Rightarrow> Some y)" for P :: "nat \<Rightarrow> bool" and xs ys
    by (induction xs) auto
  ultimately have "find (\<lambda>j. int v \<le> int ((us @ ws) ! j)) [0..<length (us @ ws)] =
      find (\<lambda>j. int v \<le> int ((us @ ws) ! j)) [length us..<length us + length ws]"
    using none by simp
  also have "[length us..<length us + length ws] = (if ws = [] then [] else length us # [Suc (length us)..<length us + length ws])"
    by (simp add: upt_rec)
  also have "find (\<lambda>j. int v \<le> int ((us @ ws) ! j)) \<dots> = (if ws = [] then None else Some (length us))"
    using assms(2) by (cases ws) (simp_all del: upt_Suc)
  finally show ?thesis .
qed

lemma split_at_value:
  assumes "sorted_wrt (<) (vs :: nat list)"
  obtains us ws where "vs = us @ ws" and "\<forall>u \<in> set us. u < v" and "\<forall>w \<in> set ws. v \<le> w" and "v \<in> set vs \<longleftrightarrow> ws \<noteq> [] \<and> hd ws = v"
proof -
  let ?us = "takeWhile (\<lambda>u. u < v) vs" and ?ws = "dropWhile (\<lambda>u. u < v) vs"
  have us: "\<forall>u \<in> set ?us. u < v"
    by (auto dest: set_takeWhileD)
  have sorted: "sorted_wrt (<) ?ws"
    by (metis assms takeWhile_dropWhile_id sorted_wrt_append)
  have hd: "?ws \<noteq> [] \<Longrightarrow> v \<le> hd ?ws"
    using hd_dropWhile [of "\<lambda>u. u < v" vs] by (simp add: not_less)
  have above: "\<forall>w \<in> set zs. v \<le> w" "v \<in> set zs \<longleftrightarrow> zs \<noteq> [] \<and> hd zs = v" if "sorted_wrt (<) zs" "zs \<noteq> [] \<Longrightarrow> v \<le> hd zs" for zs
    using that by (cases zs; force)+
  note ws = above [OF sorted hd]
  have "v \<in> set vs \<longleftrightarrow> v \<in> set ?ws"
    using us by (metis Un_iff less_irrefl set_append takeWhile_dropWhile_id)
  also note ws(2)
  finally show thesis
    using us ws(1) by (intro that [of ?us ?ws]) simp_all
qed

text \<open>The tree and the array after an insertion of a new value.\<close>

lemma insert_array:
  assumes m: "mirrors s vs" and vs: "vs = us @ ws" and below: "\<forall>u \<in> set us. u < v" and above: "\<forall>w \<in> set ws. v < w"
    and v: "v < 1024" and n: "length vs \<noteq> 1024" and T: "is_rbtree H T" "inorder T = us @ v # ws"
  shows "\<exists>arr. kfold (\<lambda>k a. kbind (array_read a (k - 1)) (\<lambda>v. array_write a k v)) (rev [Suc (length us)..<Suc (length vs)]) (sorted_arr s) = Inr arr \<and>
    length us < length arr \<and>
    mirrors (s\<lparr>tt_tree := H, tt_con := c, sorted_arr := arr[length us := int v], set_size := length vs + 1\<rparr>) (us @ v # ws)"
proof -
  have a: "length (sorted_arr s) = 1024" "\<forall>j < length vs. sorted_arr s ! j = int (vs ! j)" "\<forall>v \<in> set vs. v < 1024" "sorted_wrt (<) vs"
    using m by (simp_all add: mirrors_def)
  have len: "length vs < 1024" "length us \<le> length vs"
    using mirrors_size [OF m] n vs by simp_all
  then have "length vs < length (sorted_arr s)"
    using a(1) by simp
  from shift_up [OF this, of "length us"] obtain arr where
    arr: "kfold (\<lambda>k a. kbind (array_read a (k - 1)) (\<lambda>v. array_write a k v)) (rev [Suc (length us)..<Suc (length vs)]) (sorted_arr s) = Inr arr"
      "length arr = 1024" "\<forall>k < 1024. arr ! k = (if length us < k \<and> k \<le> length vs then sorted_arr s ! (k - 1) else sorted_arr s ! k)"
    using a(1) by auto
  have "arr[length us := int v] ! j = int ((us @ v # ws) ! j)" if "j < Suc (length vs)" for j
  proof -
    consider "j < length us" | "j = length us" | k where "j = Suc k" "length us \<le> k" "k < length vs"
      using \<open>j < Suc (length vs)\<close> by (cases j) force+
    then show ?thesis
    proof cases
      case 1
      then show ?thesis
        using arr(3) a(2) len vs by (simp add: nth_append)
    next
      case 2
      then show ?thesis
        using arr(2) len by simp
    next
      case 3
      then show ?thesis
        using arr(3) a(2) len vs by (simp add: nth_append Suc_diff_le)
    qed
  qed
  moreover have "sorted_wrt (<) (us @ v # ws)"
    using a(4) below above vs by (auto simp: sorted_wrt_append)
  moreover have "\<forall>v \<in> set (us @ v # ws). v < 1024"
    using a(3) v vs by auto
  ultimately show ?thesis
    using arr(1,2) len T vs by (intro exI [of _ arr]) (auto simp: mirrors_def)
qed

lemma insert_round_passes:
  assumes m: "mirrors s vs" and n: "length vs \<noteq> 1024" and q: "quiet_info info" "tty_inv (snd (con_dev (tt_con s)))"
  shows "\<exists>s' vs'. insert_round info s = Inr s' \<and> mirrors s' vs' \<and> logged (tt_con s) (tt_con s')"
proof -
  note d = mirrors_size [OF m]
  have a: "length (sorted_arr s) = 1024" "set_size s = length vs" "\<forall>j < length vs. sorted_arr s ! j = int (vs ! j)" "sorted_wrt (<) vs"
    using m by (simp_all add: mirrors_def)
  obtain v x where r: "next_rand set_max_size s = (v, s\<lparr>tt_seed := x\<rparr>)" and v: "v < 1024"
    by (rule next_rand_cases [of set_max_size s]) (simp_all add: set_max_size_def)
  let ?s = "s\<lparr>tt_seed := x\<rparr>"
  have m': "mirrors ?s vs"
    using m by (simp add: mirrors_seed)
  obtain c where c: "info (text_items (literal ''insert '') @ [LInt (of_nat v)]) 207 (tt_con s) = Inr c" "logged (tt_con s) c"
    using quiet_value [OF q v, of 207] by auto
  obtain T where T: "is_rbtree (tt_tree s) T" "inorder T = vs" "ordered int T"
    using m mirrors_ordered by (auto simp: mirrors_def)
  obtain us ws where vs: "vs = us @ ws" and below: "\<forall>u \<in> set us. u < v" and above: "\<forall>w \<in> set ws. v \<le> w"
      and mem: "v \<in> set vs \<longleftrightarrow> ws \<noteq> [] \<and> hd ws = v"
    using split_at_value [OF a(4), of v] .
  have found: "find_sorted (\<lambda>w. int v \<le> w) (sorted_arr s) [0..<length vs] = Inr (if ws = [] then None else Some (length us))"
    using find_in_array [OF m, of "\<lambda>w. int v \<le> w"] find_first_above [OF below above] vs a(2) by simp
  have at: "array_read (sorted_arr s) (length us) = Inr (int (hd ws))" if "ws \<noteq> []"
  proof -
    have "length us < length vs" "vs ! length us = hd ws"
      using that vs by (simp_all add: nth_append hd_conv_nth)
    with a(1,3) d show ?thesis by simp
  qed
  have len: "length us = length vs \<longleftrightarrow> ws = []"
    using vs by simp
  show ?thesis
  proof (cases "v \<in> set vs")
    case True
    then have ws: "ws \<noteq> []" "hd ws = v"
      using mem by simp_all
    have "\<exists>p \<in> set_tree T. int p = int v"
      using True T(2) by (auto simp flip: set_inorder)
    from rb_insert_exists [OF my_items.tree_items_axioms T(1,3) this]
    have ins: "rb_insert (my_node_compare int) (int v) v (tt_tree s) = Inr (False, tt_tree s)" .
    have "insert_round info s = Inr (?s\<lparr>tt_tree := tt_tree s, tt_con := c\<rparr>)"
      using r ins c(1) found at [OF ws(1)] ws len by (simp add: insert_round_def Let_def a(2))
    moreover have "mirrors (?s\<lparr>tt_tree := tt_tree s, tt_con := c\<rparr>) vs"
      using m by (simp add: mirrors_def)
    ultimately show ?thesis
      using c(2) by auto
  next
    case False
    then have new: "v \<notin> set_tree T" "\<forall>p \<in> set_tree T. int p \<noteq> int v" and above': "\<forall>w \<in> set ws. v < w"
      using T(2) above vs by (auto simp: order.order_iff_strict simp flip: set_inorder)
    obtain H T' us' ws' where H: "rb_insert (my_node_compare int) (int v) v (tt_tree s) = Inr (True, H)" "is_rbtree H T'" "ordered int T'"
        "vs = us' @ ws'" "inorder T' = us' @ v # ws'"
      using rb_insert_new [OF my_items.tree_items_axioms T(1,3) new(1)] new(2) T(2) by blast
    have "sorted_wrt (<) (us' @ v # ws')" "sorted_wrt (<) (us @ v # ws)"
      using H(3,5) a(4) below above' vs mirrors_ordered [of T'] by (auto simp: sorted_wrt_append)
    moreover have "set (us' @ v # ws') = set (us @ v # ws)"
      using arg_cong [OF H(4), of set] vs by auto
    ultimately have T': "inorder T' = us @ v # ws"
      unfolding H(5) by (metis strict_sorted_equal)
    obtain arr where arr: "kfold (\<lambda>k a. kbind (array_read a (k - 1)) (\<lambda>v. array_write a k v)) (rev [Suc (length us)..<Suc (length vs)]) (sorted_arr s) = Inr arr"
        "length us < length arr"
        "mirrors (?s\<lparr>tt_tree := H, tt_con := c, sorted_arr := arr[length us := int v], set_size := length vs + 1\<rparr>) (us @ v # ws)"
      using insert_array [OF m' vs below above' v n H(2) T', of c] by auto
    have "insert_round info s = Inr (?s\<lparr>tt_tree := H, tt_con := c, sorted_arr := arr[length us := int v], set_size := length vs + 1\<rparr>)"
    proof (cases "ws = []")
      case True
      then have "length us = length vs"
        using vs by simp
      with True show ?thesis
        using r H(1) c(1) found arr(1,2) by (simp add: insert_round_def Let_def a(2) del: upt_Suc)
    next
      case nonempty: False
      then have "hd ws \<noteq> v"
        using False mem by blast
      with nonempty show ?thesis
        using r H(1) c(1) found arr(1,2) at len by (simp add: insert_round_def Let_def a(2) del: upt_Suc)
    qed
    with arr(3) c(2) show ?thesis
      by auto
  qed
qed

lemma tree_round_passes:
  assumes m: "mirrors s vs" and q: "quiet_info info" "tty_inv (snd (con_dev (tt_con s)))"
  shows "\<exists>s' vs'. tree_round info s = Inr s' \<and> mirrors s' vs' \<and> logged (tt_con s) (tt_con s')"
proof -
  obtain choice x where r: "next_rand 100 s = (choice, s\<lparr>tt_seed := x\<rparr>)"
    by (rule next_rand_cases [of 100 s]) simp_all
  let ?s = "s\<lparr>tt_seed := x\<rparr>"
  have m': "mirrors ?s vs" "tty_inv (snd (con_dev (tt_con ?s)))" "set_size ?s = length vs"
    using m q(2) by (simp_all add: mirrors_def)
  obtain T where T: "is_rbtree (tt_tree s) T" "inorder T = vs" "ordered int T"
    using m mirrors_ordered by (auto simp: mirrors_def)
  have small: "\<forall>v \<in> set_tree T. - 2147483648 \<le> int v \<and> int v \<le> 2147483647"
    using m T(2) by (auto simp: mirrors_def simp flip: set_inorder)
  have root: "get_root_for_tests (tt_tree s) = root_of T" "tree_at (tt_tree s) None T"
    using T(1) by (simp_all add: get_root_for_tests_def is_rbtree_def)
  have checks: "(case get_root_for_tests (tt_tree ?s) of None \<Rightarrow> kassert (set_size ?s = 0)
      | Some p \<Rightarrow> kbind (loop (treesanity int (tt_tree ?s) p (- 2147483648) 2147483647)) (\<lambda>r. kbind r (\<lambda>_. check_order ?s))) = Inr ()"
  proof (cases "root_of T")
    case None
    then have "vs = []"
      using T(2) by simp
    with None root m'(3) show ?thesis
      by simp
  next
    case (Some p)
    then show ?thesis
      using treesanity_tree [OF root(2) Some T(3) small] check_order_passes [OF m'(1)] root(1) by (simp add: loop_def)
  qed
  let ?ok = "\<lambda>r. \<exists>s' vs'. r = Inr s' \<and> mirrors s' vs' \<and> logged (tt_con s) (tt_con s')"
  have search: "?ok (search_round ?s)"
    using search_round_passes [OF m'(1)] m logged_refl [OF q(2)] by (force simp: mirrors_seed)
  have remove: "set_size ?s \<noteq> 0 \<Longrightarrow> ?ok (remove_round info ?s)"
    using remove_round_passes [OF m'(1) _ q(1) m'(2)] m'(3) by auto
  have insert: "set_size ?s \<noteq> set_max_size \<Longrightarrow> ?ok (insert_round info ?s)"
    using insert_round_passes [OF m'(1) _ q(1) m'(2)] m'(3) by (auto simp: set_max_size_def)
  have stay: "?ok (Inr ?s)"
    using m'(1) logged_refl [OF q(2)] by auto
  have "?ok (if choice < 60 then search_round ?s else if choice < 75 \<and> set_size ?s \<noteq> 0 then remove_round info ?s
      else if choice < 100 \<and> set_size ?s \<noteq> set_max_size then insert_round info ?s else Inr ?s)"
    by (cases "choice < 60"; cases "choice < 75 \<and> set_size ?s \<noteq> 0"; cases "choice < 100 \<and> set_size ?s \<noteq> set_max_size")
      (simp_all only: if_True if_False simp_thms search remove insert stay)
  then show ?thesis
    by (simp only: tree_round_def r Let_def prod.case checks kbind_Inr)
qed

lemma test_rbtree_passes:
  assumes "line_ready status" and "length buf = 21" and "tty_inv (snd (con_dev c))" and "kmem_valid (con_kst c)"
    and "2 \<le> card (big_blocks (con_kst c))" and "length arr = 1024"
  shows "\<exists>seed' c' k. test_rbtree H0 arr status buf file_name (seed, c) = Inr (seed', c') \<and> logged (c\<lparr>con_kst := k\<rparr>) c'"
proof -
  obtain p1 k1 where k1: "kmem_alloc_pages K4 (con_kst c) = Inr (p1, k1)" "kmem_valid k1" "1 \<le> card (big_blocks k1)"
    using alloc_room [OF assms(4), of 1 K4] assms(5) by auto
  obtain p2 k2 where k2: "kmem_alloc_pages K32 k1 = Inr (p2, k2)"
    using alloc_room [OF k1(2), of 0 K32] k1(3) by (metis One_nat_def)
  let ?info = "\<lambda>items line. test_info status buf file_name items line ''void test_rbtree()''"
  let ?c = "c\<lparr>con_kst := k2\<rparr>"
  let ?s0 = "\<lparr>tt_tree = rbtree_new H0, sorted_arr = arr, set_size = 0, tt_seed = seed, tt_con = ?c\<rparr>"
  let ?I = "\<lambda>us s. length (sorted_arr s) = 1024 \<and> logged ?c (tt_con s)"
  let ?run = "\<lambda>_ s. kfold (\<lambda>_. tree_round ?info) [0..<200] (s\<lparr>tt_tree := rb_reset (tt_tree s), set_size := 0\<rparr>)"
  have q: "quiet_info ?info"
    unfolding quiet_info_def using test_info_logged [OF assms(1,2)] by blast
  have "\<exists>s. kfold ?run [0..<10] ?s0 = Inr s \<and> ?I [0..<10] s"
  proof (rule kfold_invariant)
    show "?I [] ?s0"
      using assms(3,6) by (simp add: logged_def)
    fix us x and s :: tree_test
    assume I: "?I us s"
    let ?s = "s\<lparr>tt_tree := rb_reset (tt_tree s), set_size := 0\<rparr>"
    let ?J = "\<lambda>us s'. (\<exists>vs. mirrors s' vs) \<and> logged ?c (tt_con s')"
    have "\<exists>s'. kfold (\<lambda>_. tree_round ?info) [0..<200] ?s = Inr s' \<and> ?J [0..<200] s'"
    proof (rule kfold_invariant)
      have "is_rbtree (rb_reset H) Leaf" for H :: "nat rbtree"
        by (simp add: is_rbtree_def rb_reset_def)
      then have "mirrors ?s []"
        using I by (auto simp: mirrors_def intro!: exI [of _ Leaf])
      then show "?J [] ?s"
        using I by auto
      fix us' x' s'
      assume "?J us' s'"
      moreover from this have "tty_inv (snd (con_dev (tt_con s')))"
        by (simp add: logged_def)
      ultimately show "\<exists>s''. tree_round ?info s' = Inr s'' \<and> ?J (us' @ [x']) s''"
        using tree_round_passes [OF _ q] logged_trans by blast
    qed
    then show "\<exists>s'. ?run x s = Inr s' \<and> ?I (us @ [x]) s'"
      by (auto simp: mirrors_def)
  qed
  then show ?thesis
    using k1(1) k2 by (auto simp: test_rbtree_def Let_def)
qed

subsection \<open>All tests pass\<close>

text \<open>C36: The tests of the data structures pass: when the page allocator has three free blocks of 32 KiB and the serial line gets
  ready again and again, no assertion of the tests fails, whatever the memory held before and whenever the kernel was built, which
  is the seed of the 2000 random operations that compare the search tree with a sorted array. The tests end with \<open>TEST_SUCCESS\<close> on
  the serial line, with interrupts disabled, and leave the screen as it was.\<close>

theorem test_data_structures_pass:
  assumes "line_ready status" and "length buf = 21" and "tty_inv (snd (con_dev c))" and "length arr = 1024"
    and "kmem_valid (con_kst c)" and "3 \<le> card (big_blocks (con_kst c))" and "link_owns (lnks\<lparr>page_state := con_kst c\<rparr>) live"
  shows "\<exists>c' out. test_data_structures time L ht H0 arr status buf file_name lnks c = Inr c' \<and>
    serial_sent (snd (con_dev c')) = serial_sent (snd (con_dev c)) @ out @ literal ''TEST_SUCCESS'' \<and>
    colored_term (snd (con_dev c')) = colored_term (snd (con_dev c)) \<and> \<not> if_flag (con_kst c')"
proof -
  note info = test_info_logged [OF assms(1,2)]
  obtain c1 where c1: "test_bitset status buf file_name c = Inr c1" "logged c c1"
    unfolding test_bitset_passes using info [OF assms(3), of "text_items (literal ''Pass test_bitset'')" 42] by auto
  obtain c2 where c2: "test_linked_list L status buf file_name c1 = Inr c2" "logged c1 c2"
    unfolding test_linked_list_passes using info [OF logged_tty [OF c1(2)], of "text_items (literal ''Pass test_linked_list'')" 73] by auto
  have kst: "con_kst c2 = con_kst c" "tty_inv (snd (con_dev c2))"
    using c1(2) c2(2) by (simp_all add: logged_def)
  obtain lnks' c3 k3 where c3: "test_hash_table ht status buf file_name (lnks, c2) = Inr (lnks', c3)" "logged (c2\<lparr>con_kst := k3\<rparr>) c3"
      "kmem_valid k3" "2 \<le> card (big_blocks k3)"
    using test_hash_table_passes [where lnks = lnks and c = c2 and L = live and n = 2 and ht = ht and file_name = file_name, OF _ _ _ assms(1,2)] assms kst by auto
  obtain c4 where c4: "test_refcount status buf file_name c3 = Inr c4" "logged c3 c4"
    unfolding test_refcount_passes using info [OF logged_tty [OF c3(2)], of "text_items (literal ''Pass test_refcount'')" 102] by auto
  have "con_kst c4 = k3" "tty_inv (snd (con_dev c4))"
    using c3(2) c4(2) by (simp_all add: logged_def)
  then obtain seed' c5 k5 where c5: "test_rbtree H0 arr status buf file_name (compile_time_seed time, c4) = Inr (seed', c5)" "logged (c4\<lparr>con_kst := k5\<rparr>) c5"
    using test_rbtree_passes [OF assms(1,2), of c4 arr H0 file_name "compile_time_seed time"] c3(3,4) assms(4) by auto
  have "tty_inv (snd (con_dev (cli c5)))" "LInt 0x80000000 \<notin> set (text_items (literal ''TEST_SUCCESS''))"
    using c5(2) by (simp_all add: logged_def cli_def)
  from serial_write_sends [OF assms(1) this(1) assms(2) this(2)] obtain d
    where d: "serial_write status buf (text_items (literal ''TEST_SUCCESS'')) (cli c5) = Inr ((cli c5)\<lparr>con_dev := d\<rparr>)"
      "colored_term (snd d) = colored_term (snd (con_dev c5))" "serial_sent (snd d) = serial_sent (snd (con_dev c5)) @ literal ''TEST_SUCCESS''"
    by (auto simp: fold_send_event cli_def)
  have "test_data_structures time L ht H0 arr status buf file_name lnks c = Inr ((cli c5)\<lparr>con_dev := d\<rparr>)"
    using c1(1) c2(1) c3(1) c4(1) c5(1) d(1) by (simp add: test_data_structures_def)
  moreover have "\<exists>out. serial_sent (snd d) = serial_sent (snd (con_dev c)) @ out @ literal ''TEST_SUCCESS''"
    using c1(2) c2(2) c3(2) c4(2) c5(2) d(3) unfolding logged_def by auto
  moreover have "colored_term (snd d) = colored_term (snd (con_dev c))"
    using c1(2) c2(2) c3(2) c4(2) c5(2) d(2) unfolding logged_def by simp
  ultimately show ?thesis
    by (auto simp: cli_def)
qed

lemma boot_big_blocks: "big_blocks boot_state = {0} \<times> {..<16}"
proof -
  have n: "unat (buddy_array_pos boot_state) = 1"
    by (simp add: boot_state_def)
  have "i < 16 \<Longrightarrow> pages_of K32 i \<subseteq> {..<128}" for i
    by (rule pages_of_less) (simp add: nblocks_def)
  then show ?thesis
    unfolding big_blocks_def n boot_buddies(2) by auto
qed

theorem test_data_structures_pass_witness:
  "\<exists>c' out. test_data_structures (literal ''12:34:56'' @ [0]) \<lparr>l_prev = id, l_next = id\<rparr> boot_table
      \<lparr>m_root = None, m_parent = (\<lambda>p. None), m_children = (\<lambda>p d. None)\<rparr> (replicate 1024 0) (\<lambda>n. 0x20) (replicate 21 0)
      (literal ''test_data_structures.cpp'') empty_allocator \<lparr>con_kst = boot_state, con_dev = (0, blank_screen)\<rparr> = Inr c' \<and>
    serial_sent (snd (con_dev c')) = serial_sent blank_screen @ out @ literal ''TEST_SUCCESS''"
proof -
  let ?c = "\<lparr>con_kst = boot_state, con_dev = (0, blank_screen)\<rparr> :: console"
  have "line_ready (\<lambda>n. 0x20)"
    by (auto simp: line_ready_def)
  moreover have "length (replicate 21 0 :: u8 list) = 21" "length (replicate 1024 0 :: int list) = 1024" "tty_inv (snd (con_dev ?c))"
      "kmem_valid (con_kst ?c)" "3 \<le> card (big_blocks (con_kst ?c))"
    using blank_screen_inv boot_valid(1) by (simp_all add: boot_big_blocks)
  moreover have "empty_allocator\<lparr>page_state := con_kst ?c\<rparr> = empty_allocator"
    by (simp add: empty_allocator_def)
  then have "link_owns (empty_allocator\<lparr>page_state := con_kst ?c\<rparr>) {}"
    using empty_allocator_inv by (simp add: link_owns_def)
  ultimately show ?thesis
    using test_data_structures_pass [of "\<lambda>n. 0x20" "replicate 21 0" ?c "replicate 1024 0" empty_allocator "{}"] by fastforce
qed

end
