(* ===== verification/Spec2Isabelle.thy ===== *)
theory Spec2Isabelle
  imports Kmem_Init Hashtable Sched_Frames Rbtree_Props Kmain Self_Tests_Pass
begin

text \<open>
  Verification of tinylittleos, a small kernel for 32-bit x86 in C++ (all files below are under \<^verbatim>\<open>src/kernel\<close>).

  The program and its theories, from the bottom up:

  \<^item> \<open>Kernel_Prelude\<close>: the result type (\<open>Inl\<close> of a \<open>kfault\<close>: a failed \<^verbatim>\<open>kassert\<close>, a \<^verbatim>\<open>kpanic\<close>, a null pointer, an index outside an
    array, undefined behaviour, a loop without end, a task that has to wait), its sequencing \<open>kbind\<close>, arrays and machine words.
  \<^item> \<open>Bitset\<close>, \<open>Cstr\<close>, \<open>Str_Util\<close>, \<open>Linked_List\<close>, \<open>Refcount\<close>: \<^verbatim>\<open>util/ds/bitset.hpp\<close>, \<^verbatim>\<open>util/cstr.cpp\<close> and \<^verbatim>\<open>string.hpp\<close> over a
    memory of bytes, \<^verbatim>\<open>util/str_util.cpp\<close>, \<^verbatim>\<open>util/ds/list.hpp\<close>, \<^verbatim>\<open>util/ds/refcount.*\<close>.
  \<^item> \<open>Buddy\<close>, \<open>Machine\<close>, \<open>Kmem\<close>: \<^verbatim>\<open>memory/page_allocator.*\<close>: one buddy of 128 pages with its maps and list links; the globals of
    the memory manager (\<open>kstate\<close>) and the scoped locks of \<^verbatim>\<open>util/lock.hpp\<close>; the allocation of 4 to 32 KiB with growth by new
    buddies, page tables, pages in high memory and their temporary mapping, the initialisation.
    \<open>Buddy_Lists\<close>, \<open>Buddy_Spec\<close>, \<open>Buddy_Alloc\<close>, \<open>Kmem_Correct\<close>, \<open>Kmem_Props\<close>, \<open>Kmem_Safe\<close>, \<open>Hmem_Props\<close>, \<open>Kmem_Init\<close> hold
    the invariants and proofs.
  \<^item> \<open>Slab\<close> and \<open>Slab_Correct\<close>: \<^verbatim>\<open>memory/slab.hpp\<close> over the page allocator; \<open>Hashtable\<close>: \<^verbatim>\<open>util/ds/hashtable.hpp\<close> over the slab
    allocator; \<open>Rbtree\<close>, \<open>Rbtree_Correct\<close>, \<open>Rbtree_Props\<close>: \<^verbatim>\<open>util/ds/rbtree.hpp\<close>.
  \<^item> \<open>Scheduler\<close>, \<open>Mutex_Correct\<close>, \<open>Sched_Props\<close>, \<open>Sched_Frames\<close>: \<^verbatim>\<open>scheduler/init.*\<close>, \<^verbatim>\<open>task.hpp\<close>, \<^verbatim>\<open>task_blocking.hpp\<close> and
    \<^verbatim>\<open>mutex.*\<close>: tasks, the ring of tasks, switching, mutexes with their queues, the stacks of tasks.
  \<^item> \<open>Devices\<close>, \<open>Devices_Props\<close>, \<open>Logging\<close>, \<open>Interrupts\<close>, \<open>Gdt\<close>, \<open>Boot\<close>: \<^verbatim>\<open>tty.cpp\<close>, \<^verbatim>\<open>devices/keyboard.cpp\<close>, \<^verbatim>\<open>serial.cpp\<close>; the log
    driver of \<^verbatim>\<open>formatting.hpp\<close>; \<^verbatim>\<open>interrupts/init.cpp\<close> and \<^verbatim>\<open>pic.cpp\<close>; \<^verbatim>\<open>memory/gdt.cpp\<close>; \<^verbatim>\<open>memory/multiboot.cpp\<close>.
  \<^item> \<open>Tar\<close>, \<open>Tar_Correct\<close>, \<open>Tar_Props\<close>: \<^verbatim>\<open>fs/tar.cpp\<close>: searches in the archive of the initial ramdisk, its inodes, reading.
    \<open>Vfs\<close>, \<open>Vfs_Props\<close>, \<open>Vfs_Walk\<close>: \<^verbatim>\<open>fs/vfs.*\<close>: mount points, inodes with references in the hash table of their file system,
    \<^verbatim>\<open>traverse\<close>, open files. \<open>Elf\<close>, \<open>Elf_Props\<close>: \<^verbatim>\<open>scheduler/elf.cpp\<close>, the loader of programs.
  \<^item> \<open>Panic\<close>: \<^verbatim>\<open>util/kassert.cpp\<close> and the macros of \<^verbatim>\<open>util.hpp\<close> and \<^verbatim>\<open>logging.hpp\<close>: the reports of failed assertions and of panics
    with the stack trace. \<open>Rng\<close>: \<^verbatim>\<open>util/rng.hpp\<close>. \<open>Kmain\<close>: \<^verbatim>\<open>kmain.cpp\<close>, the boot, the tasks and the splash screen, over all others.
  \<^item> \<open>Self_Tests\<close>, \<open>Self_Tests_Pass\<close>: \<^verbatim>\<open>tests/test_data_structures.cpp\<close>, the kernel's own tests of its data structures as programs over the model.

  How they interact: a state is a record of the globals of a part, and the operations of a part take and return it. The
  page allocator works on \<open>kstate\<close>; a slab allocator holds a page allocator's state (\<open>page_state\<close>), a hash table that of its
  slab allocator (\<open>ht_alloc\<close>), the scheduler's record \<open>sched\<close> contains \<open>kstate\<close>, and the record \<open>fs_state\<close> of the file systems contains
  \<open>sched\<close> (for the locks of inodes), the memory that the CPU addresses and the objects by their addresses. The loader
  uses the file systems to read and the page allocators to map. The record \<open>system\<close> of \<open>Kmain\<close> puts the file systems, the
  devices and the tables of the CPU together; a page that the kernel allocates as a buffer comes with the contents that the page
  allocator left in it (\<open>alloc_buffer\<close>), because \<open>fs_mem\<close> and the memory \<open>kmem\<close> of the page tables are two views of memory.

  What the lemmas show:

  \<^item> Memory: an invariant of the buddies and their lists (\<open>kmem_inv\<close>) that every allocation and release keeps, except that an
    allocation which grows while smaller blocks are free breaks the lists (the new buddy can drop out of them). \<open>Kmem_Safe\<close> has a
    weaker invariant that survives this too (\<open>kmem_safe\<close>: the maps are consistent and each pointer of a list leads to a buddy): blocks
    held at the same time are disjoint in every history of calls, growth included, and so are the objects of a slab. The set of
    free pages is exact, a mapped page translates to its physical page, and the bugs of the lists of buddies and of free high pages
    have lemmas of their own; allocation leaves the flags and registers of the CPU as they were. The initialisation establishes
    the invariant and what \<open>Kmem_Safe\<close> assumes of the layout, the identity mapping of the used memory and the page tables that growing
    needs, for RAM up to 3840 MiB (with the cap of the kernel region at 896 MiB, and a second buddy when the page tables need more
    than 128 pages) and a kernel image in the first 64 MiB.
  \<^item> Data structures: refinement of finite maps by the hash table and of an ordered sequence by the search tree; rings of
    list nodes; the bit set as a set.
  \<^item> Tasks: an invariant of tasks and mutexes over all histories of lock, unlock, yield and timer interrupts, mutexes as
    queues, and the fairness of the choice of the next task.
  \<^item> Devices: the screen refines an abstract terminal, and formatted output prints on it texts that read back as the numbers; the
    serial line sends when the line is ready; the report of a failed assertion is complete and ends for every stack; keys,
    interrupts, descriptors, and the memory map of the boot loader.
  \<^item> Files: the search by name in an archive, its agreement with the search by number, the bounds of reading, the lookup of a
    name in an inode, the longest mount point of a path, and the resolution of a path whose inodes are in memory with an exact
    account of the references, and that of a path to a file whose inode has to be made; opening, reading and releasing a file; the
    reference of the root that a caller of \<^verbatim>\<open>traverse\<close> loses in each round; the contents of memory
    after a segment of a program has been loaded, and the programs that are refused.
  \<^item> The whole: after the archive has been mounted, the splash screen makes the inode of its file, prints the start of the file and
    gives back the references that it took, across path resolution, the table of inodes, open files, pages and the screen. The
    constructors never set the reference count of an inode, so it starts at what the memory held (\<open>0x41414141\<close> in a page that the
    page allocator has filled) and the theorem states the counts relative to that. The period of the random numbers.
    The tests that the authors wrote for the data structures pass on the model, for every seed of the random ones.

  Interfaces: \<open>page_source\<close>, \<open>object_source\<close>, \<open>page_mapper\<close>, \<open>slot_pool\<close>, \<open>tree_items\<close> and \<open>log_printer\<close> are locales that state what
  a client needs of a provider (pages for slabs, objects for the links of a hash table, new pages for the loader, free slots for
  the slabs, a comparison for the tree, a device for the log) and are interpreted on the model's own operations; \<open>log_printer\<close>
  twice, on the screen and on the serial line.

  Bounds and loops: a loop that the program bounds is structural recursion or has a termination proof. Fuel is used for
  the nesting of page allocation (\<open>kmem_depth = 2\<close>: growing maps at most the pages of one new buddy, whose page
  tables need one more allocation, which the new buddy serves), for the loop that maps the 128 pages of a buddy, for the loops of the
  initialisation (\<open>2 ^ 20\<close> pages, 1024 tables: the size of the address space) and for searches in rings and trees, whose
  lemmas show that it suffices. The stack trace ends because its frames go up in memory. Loops that can run for ever (waiting for the serial line, the searches in an archive, the chain
  of parents of an inode, the pages of a segment, the entries of the memory map) are partial functions; \<open>None\<close> is no end.

  Assumptions of the model: memory is flat and has the bytes the kernel wrote; the allocators of the objects of the file system are
  arguments of its operations; a task that has to wait for the lock of an inode ends the run of the model (\<open>Blocked\<close>); the
  bytes of a user page are kept as the CPU addresses them; the depth of interrupts is an integer, and the end of the
  high memory of the running task a field of \<open>kstate\<close>. The status of the serial line is a function of the number of reads so far, and
  what is proved of logging on it needs a line that is ready again and again (\<open>line_ready\<close>). Texts that the compiler makes (literals,
  names of files) are lists of characters; where the code passes them as a \<^verbatim>\<open>string_buf\<close>, they lie in memory.

  Not modelled: the files in assembly, apart from the effects that the callers rely on; what follows the jump to user mode; the
  endless halt after a report and the pause between the rounds of the second task; outside of \<open>Panic\<close> and \<open>Kmain\<close> the text of log
  messages and the report of a failure, which is a value; the operations of the file systems that only panic (\<open>create\<close>, \<open>unlink\<close>,
  writing and deleting inodes); the data of \<^verbatim>\<open>memory/virtual_memory.hpp\<close>, which nothing uses; the unused \<^verbatim>\<open>generic_mandatory_lock\<close> of
  \<^verbatim>\<open>util/lock.hpp\<close>; the tests of the page allocator and of the file system, the user programs, and the vendored \<^verbatim>\<open>util/multiboot.h\<close> apart from the fields that are read.
\<close>

end
